(* ===== verification/Prelude.thy ===== *)
theory Prelude
  imports Main "HOL-Library.Word"
begin

text \<open>
  Shared vocabulary of the development: machine integers and byte strings, the
  \<^theory_text>\<open>named_theorems\<close> collections the component theories add to, and the generic
  facts about lists and words that several components use.

  A C \<open>uint8_t\<close> is an \<open>8 word\<close> and so on; \<open>size_t\<close> is \<open>nat\<close> wherever the code keeps it below
  \<open>2 ^ 63\<close>, and \<open>64 word\<close> where the wrap-around is the point. A C or C++ string is its byte list.
\<close>

unbundle bit_operations_syntax

type_synonym u8 = "8 word"
type_synonym u16 = "16 word"
type_synonym u32 = "32 word"
type_synonym u64 = "64 word"
type_synonym bytes = "u8 list"

text \<open>\<open>alloc\<close> answers whether the C allocator grants a block of the given size.\<close>

type_synonym alloc = "nat \<Rightarrow> bool"

abbreviation (input) no_oom :: "alloc \<Rightarrow> bool" where
  "no_oom al \<equiv> (\<forall>n. al n)"

named_theorems buf_simps \<open>what the buffer operations do to the bytes of a buffer\<close>
named_theorems reader_simps \<open>what the reader operations return\<close>
named_theorems len_simps \<open>lengths of produced byte strings\<close>

text \<open>A string literal as bytes, and a byte string as the C code sees it (up to the first NUL).\<close>

definition bytes_of :: "string \<Rightarrow> bytes" where
  "bytes_of s = map of_char s"

definition c_str :: "bytes \<Rightarrow> bytes" where
  "c_str s = takeWhile (\<lambda>b. b \<noteq> 0) s"

lemma length_bytes_of [simp, len_simps]: "length (bytes_of s) = length s"
  by (simp add: bytes_of_def)

lemma length_c_str_le: "length (c_str s) \<le> length s"
  by (simp add: c_str_def length_takeWhile_le)

lemma c_str_no_nul: "0 \<notin> set (c_str s)"
  by (auto simp: c_str_def dest: set_takeWhileD)

lemma c_str_id: "0 \<notin> set s \<Longrightarrow> c_str s = s"
  by (auto simp: c_str_def takeWhile_eq_all_conv)

lemma c_str_append_nul: "0 \<notin> set s \<Longrightarrow> c_str (s @ 0 # t) = s"
  by (induction s) (auto simp: c_str_def)

subsection \<open>Lists\<close>

lemma take_drop_split: "n \<le> length xs \<Longrightarrow> xs = take n xs @ drop n xs"
  by simp

lemma length_1_conv: "length xs = Suc 0 \<longleftrightarrow> (\<exists>a. xs = [a])"
  by (auto simp: length_Suc_conv)

lemma length_2_conv: "length xs = 2 \<longleftrightarrow> (\<exists>a b. xs = [a, b])"
  by (auto simp: numeral_2_eq_2 length_Suc_conv)

lemma length_4_conv: "length xs = 4 \<longleftrightarrow> (\<exists>a b c d. xs = [a, b, c, d])"
  by (auto simp: eval_nat_numeral length_Suc_conv)

subsection \<open>Words\<close>

lemma unat_u8_less [simp]: "unat (b :: u8) < 256"
  by (rule order_less_le_trans [OF unsigned_less]) simp

lemma unat_u16_less [simp]: "unat (b :: u16) < 65536"
  by (rule order_less_le_trans [OF unsigned_less]) simp

lemma unat_u32_less [simp]: "unat (b :: u32) < 4294967296"
  by (rule order_less_le_trans [OF unsigned_less]) simp

lemma unat_u64_less [simp]: "unat (b :: u64) < 18446744073709551616"
  by (rule order_less_le_trans [OF unsigned_less]) simp

lemma xor_xor_cancel [simp]: "(a XOR k) XOR k = (a :: 'a::len word)"
  by (simp add: bit_eq_iff bit_simps) blast

lemma unat_of_nat_small [simp]:
  "n < 256 \<Longrightarrow> unat (of_nat n :: u8) = n"
  "n < 65536 \<Longrightarrow> unat (of_nat n :: u16) = n"
  "n < 4294967296 \<Longrightarrow> unat (of_nat n :: u32) = n"
  "n < 18446744073709551616 \<Longrightarrow> unat (of_nat n :: u64) = n"
  by (simp_all add: unsigned_of_nat take_bit_nat_eq_self_iff)

end
