(* ===== verification/Rd_Bytes.thy ===== *)
theory Rd_Bytes
  imports Prelude
begin

text \<open>
  \<open>common/rd_bytes.h\<close> and \<open>common/rd_bytes.c\<close>: growable byte buffers and bounds-checked
  little-endian readers.

  A buffer is its live bytes \<open>data[0 .. len)\<close> and its capacity; every operation that may grow it
  takes the allocator. Where the C returns a pointer to fresh room that the caller fills, the
  model takes the filling. A reader is its input, its position and its sticky error flag.
\<close>

section \<open>Little-endian words in memory\<close>

definition rd_wr16 :: "u16 \<Rightarrow> bytes" where
  "rd_wr16 v = [ucast v, ucast (drop_bit 8 v)]"

definition rd_wr32 :: "u32 \<Rightarrow> bytes" where
  "rd_wr32 v = [ucast v, ucast (drop_bit 8 v), ucast (drop_bit 16 v), ucast (drop_bit 24 v)]"

definition rd_rd16 :: "bytes \<Rightarrow> u16" where
  "rd_rd16 p = ucast (p ! 0) OR push_bit 8 (ucast (p ! 1))"

definition rd_rd32 :: "bytes \<Rightarrow> u32" where
  "rd_rd32 p = ucast (p ! 0) OR push_bit 8 (ucast (p ! 1)) OR push_bit 16 (ucast (p ! 2))
     OR push_bit 24 (ucast (p ! 3))"

lemma length_rd_wr [simp, len_simps]:
  "length (rd_wr16 v) = 2" "length (rd_wr32 w) = 4"
  by (simp_all add: rd_wr16_def rd_wr32_def)

lemma rd_rd16_wr16 [reader_simps]: "rd_rd16 (rd_wr16 v) = v"
  by (rule bit_word_eqI) (auto simp: rd_wr16_def rd_rd16_def bit_simps)

lemma rd_rd32_wr32 [reader_simps]: "rd_rd32 (rd_wr32 v) = v"
proof (rule bit_word_eqI)
  fix n assume "n < LENGTH(32)"
  then show "bit (rd_rd32 (rd_wr32 v)) n = bit v n"
    by (cases "n < 8"; cases "n < 16"; cases "n < 24")
       (simp_all add: rd_wr32_def rd_rd32_def bit_simps not_less less_diff_conv2)
qed

section \<open>Growable buffers\<close>

record rd_buf =
  rb_data :: bytes
  rb_cap :: nat

abbreviation rb_len :: "rd_buf \<Rightarrow> nat" where
  "rb_len b \<equiv> length (rb_data b)"

definition rd_buf_init :: rd_buf where
  "rd_buf_init = \<lparr>rb_data = [], rb_cap = 0\<rparr>"

definition rd_buf_free :: "rd_buf \<Rightarrow> rd_buf" where
  "rd_buf_free b = rd_buf_init"

definition rd_buf_clear :: "rd_buf \<Rightarrow> rd_buf" where
  "rd_buf_clear b = b\<lparr>rb_data := []\<rparr>"

text \<open>The doubling loop \<open>while (ncap < need) ncap *= 2\<close>, for a start that is not 0.\<close>

function grow_cap :: "nat \<Rightarrow> nat \<Rightarrow> nat" where
  "grow_cap ncap need =
     (if 0 < ncap \<and> ncap < need then grow_cap (ncap * 2) need else ncap)"
  by pat_completeness auto
termination
  by (relation "measure (\<lambda>(ncap, need). need - ncap)") auto

declare grow_cap.simps [simp del]

text \<open>\<open>None\<close> is the return value -1 (the allocator refused); the buffer is then untouched.\<close>

definition rd_buf_reserve :: "alloc \<Rightarrow> rd_buf \<Rightarrow> nat \<Rightarrow> rd_buf option" where
  "rd_buf_reserve al b extra =
     (let need = rb_len b + extra in
      if need \<le> rb_cap b then Some b
      else let ncap = grow_cap (if rb_cap b \<noteq> 0 then rb_cap b else 256) need in
           if al ncap then Some (b\<lparr>rb_cap := ncap\<rparr>) else None)"

text \<open>\<open>d\<close> is what the caller stores in the room it gets; \<open>None\<close> is the NULL return.\<close>

definition rd_buf_grow :: "alloc \<Rightarrow> rd_buf \<Rightarrow> bytes \<Rightarrow> rd_buf option" where
  "rd_buf_grow al b d =
     (case rd_buf_reserve al b (length d) of
        None \<Rightarrow> None
      | Some b' \<Rightarrow> Some (b'\<lparr>rb_data := rb_data b' @ d\<rparr>))"

definition rd_buf_put :: "alloc \<Rightarrow> rd_buf \<Rightarrow> bytes \<Rightarrow> rd_buf" where
  "rd_buf_put al b p =
     (if p = [] then b
      else case rd_buf_grow al b p of None \<Rightarrow> b | Some b' \<Rightarrow> b')"

definition rd_buf_put_u8 :: "alloc \<Rightarrow> rd_buf \<Rightarrow> u8 \<Rightarrow> rd_buf" where
  "rd_buf_put_u8 al b v = rd_buf_put al b [v]"

definition rd_buf_put_u16 :: "alloc \<Rightarrow> rd_buf \<Rightarrow> u16 \<Rightarrow> rd_buf" where
  "rd_buf_put_u16 al b v = rd_buf_put al b (rd_wr16 v)"

definition rd_buf_put_u32 :: "alloc \<Rightarrow> rd_buf \<Rightarrow> u32 \<Rightarrow> rd_buf" where
  "rd_buf_put_u32 al b v = rd_buf_put al b (rd_wr32 v)"

definition rd_buf_put_u64 :: "alloc \<Rightarrow> rd_buf \<Rightarrow> u64 \<Rightarrow> rd_buf" where
  "rd_buf_put_u64 al b v =
     rd_buf_put_u32 al (rd_buf_put_u32 al b (ucast v)) (ucast (drop_bit 32 v))"

text \<open>The argument is the \<open>char *\<close>: \<open>None\<close> is NULL, \<open>Some s\<close> a string read up to its NUL.\<close>

definition rd_buf_put_str :: "alloc \<Rightarrow> rd_buf \<Rightarrow> bytes option \<Rightarrow> rd_buf" where
  "rd_buf_put_str al b s =
     (let t = (case s of None \<Rightarrow> [] | Some t \<Rightarrow> c_str t);
          n = (if length t > 0xFFFF then 0xFFFF else length t)
      in rd_buf_put al (rd_buf_put_u16 al b (of_nat n)) (take n t))"

definition rd_buf_put_blob :: "alloc \<Rightarrow> rd_buf \<Rightarrow> bytes \<Rightarrow> rd_buf" where
  "rd_buf_put_blob al b p = rd_buf_put al (rd_buf_put_u32 al b (of_nat (length p))) p"

definition rd_buf_consume :: "rd_buf \<Rightarrow> nat \<Rightarrow> rd_buf" where
  "rd_buf_consume b n =
     (if n \<ge> rb_len b then b\<lparr>rb_data := []\<rparr> else b\<lparr>rb_data := drop n (rb_data b)\<rparr>)"

text \<open>Overwriting bytes in place, for the two back-patching operations.\<close>

definition splice :: "bytes \<Rightarrow> nat \<Rightarrow> bytes \<Rightarrow> bytes" where
  "splice d off p = take off d @ p @ drop (off + length p) d"

definition rd_buf_patch_u32 :: "rd_buf \<Rightarrow> nat \<Rightarrow> u32 \<Rightarrow> rd_buf" where
  "rd_buf_patch_u32 b off v =
     (if off + 4 \<le> rb_len b then b\<lparr>rb_data := splice (rb_data b) off (rd_wr32 v)\<rparr> else b)"

definition rd_buf_patch_u16 :: "rd_buf \<Rightarrow> nat \<Rightarrow> u16 \<Rightarrow> rd_buf" where
  "rd_buf_patch_u16 b off v =
     (if off + 2 \<le> rb_len b then b\<lparr>rb_data := splice (rb_data b) off (rd_wr16 v)\<rparr> else b)"

section \<open>Readers\<close>

record rd_reader =
  rr_p :: bytes
  rr_pos :: nat
  rr_err :: bool

definition rd_reader_init :: "bytes \<Rightarrow> rd_reader" where
  "rd_reader_init p = \<lparr>rr_p = p, rr_pos = 0, rr_err = False\<rparr>"

definition rd_remaining :: "rd_reader \<Rightarrow> nat" where
  "rd_remaining r = (if rr_err r then 0 else length (rr_p r) - rr_pos r)"

definition rd_get_bytes :: "rd_reader \<Rightarrow> nat \<Rightarrow> bytes option \<times> rd_reader" where
  "rd_get_bytes r n =
     (if rr_err r \<or> length (rr_p r) - rr_pos r < n
      then (None, r\<lparr>rr_err := True\<rparr>)
      else (Some (take n (drop (rr_pos r) (rr_p r))), r\<lparr>rr_pos := rr_pos r + n\<rparr>))"

definition rd_get_u8 :: "rd_reader \<Rightarrow> u8 \<times> rd_reader" where
  "rd_get_u8 r = (case rd_get_bytes r 1 of
     (None, r') \<Rightarrow> (0, r') | (Some p, r') \<Rightarrow> (p ! 0, r'))"

definition rd_get_u16 :: "rd_reader \<Rightarrow> u16 \<times> rd_reader" where
  "rd_get_u16 r = (case rd_get_bytes r 2 of
     (None, r') \<Rightarrow> (0, r') | (Some p, r') \<Rightarrow> (rd_rd16 p, r'))"

definition rd_get_i16 :: "rd_reader \<Rightarrow> int \<times> rd_reader" where
  "rd_get_i16 r = (case rd_get_u16 r of (v, r') \<Rightarrow> (sint v, r'))"

definition rd_get_u32 :: "rd_reader \<Rightarrow> u32 \<times> rd_reader" where
  "rd_get_u32 r = (case rd_get_bytes r 4 of
     (None, r') \<Rightarrow> (0, r') | (Some p, r') \<Rightarrow> (rd_rd32 p, r'))"

definition rd_get_u64 :: "rd_reader \<Rightarrow> u64 \<times> rd_reader" where
  "rd_get_u64 r = (case rd_get_u32 r of (lo, r1) \<Rightarrow>
     (case rd_get_u32 r1 of (hi, r2) \<Rightarrow> (ucast lo OR push_bit 32 (ucast hi), r2)))"

text \<open>
  The first component is what is stored at \<open>out\<close>, terminating NUL included (nothing when
  \<open>cap = 0\<close>); the second is the returned wire length.
\<close>

definition rd_get_str :: "rd_reader \<Rightarrow> nat \<Rightarrow> bytes \<times> nat \<times> rd_reader" where
  "rd_get_str r cap = (case rd_get_u16 r of (n, r1) \<Rightarrow>
     (case rd_get_bytes r1 (unat n) of (p, r2) \<Rightarrow>
        (if cap = 0 then []
         else (case p of None \<Rightarrow> [0]
               | Some q \<Rightarrow> take (if unat n < cap - 1 then unat n else cap - 1) q @ [0]),
         (case p of None \<Rightarrow> 0 | Some q \<Rightarrow> unat n),
         r2)))"

definition rd_get_blob :: "rd_reader \<Rightarrow> bytes option \<times> u32 \<times> rd_reader" where
  "rd_get_blob r = (case rd_get_u32 r of (n, r1) \<Rightarrow>
     (case rd_get_bytes r1 (unat n) of
        (None, r2) \<Rightarrow> (None, 0, r2)
      | (Some p, r2) \<Rightarrow> (Some p, n, r2)))"

section \<open>What the buffer operations do\<close>

lemma grow_cap_ge: "0 < ncap \<Longrightarrow> need \<le> grow_cap ncap need"
  by (induction ncap need rule: grow_cap.induct) (subst grow_cap.simps, auto)

lemma grow_cap_less: "0 < ncap \<Longrightarrow> ncap < need \<Longrightarrow> grow_cap ncap need < 2 * need"
proof (induction ncap need rule: grow_cap.induct)
  case (1 ncap need)
  show ?case
  proof (cases "ncap * 2 < need")
    case True
    with 1 show ?thesis by (subst grow_cap.simps) auto
  next
    case False
    with 1 show ?thesis by (subst grow_cap.simps, subst grow_cap.simps) auto
  qed
qed

lemma grow_cap_doubles: "\<exists>j. grow_cap ncap need = ncap * 2 ^ j"
proof (induction ncap need rule: grow_cap.induct)
  case (1 ncap need)
  show ?case
  proof (cases "0 < ncap \<and> ncap < need")
    case True
    with 1 obtain j where "grow_cap (ncap * 2) need = (ncap * 2) * 2 ^ j" by blast
    then have "grow_cap (ncap * 2) need = ncap * 2 ^ Suc j" by simp
    moreover have "grow_cap ncap need = grow_cap (ncap * 2) need"
      using True by (subst grow_cap.simps) simp
    ultimately show ?thesis by metis
  next
    case False
    then have "grow_cap ncap need = ncap * 2 ^ 0" by (subst grow_cap.simps) auto
    then show ?thesis by blast
  qed
qed

text \<open>The representation invariant: the live bytes fit, and the capacity is 256 doubled.\<close>

definition rd_buf_ok :: "rd_buf \<Rightarrow> bool" where
  "rd_buf_ok b \<longleftrightarrow> rb_len b \<le> rb_cap b \<and> (rb_cap b = 0 \<or> (\<exists>k. rb_cap b = 256 * 2 ^ k))"

lemma rd_buf_ok_cap: "rd_buf_ok b \<Longrightarrow> rb_len b \<le> rb_cap b"
  by (simp add: rd_buf_ok_def)

lemma rd_buf_ok_shrink:
  "rd_buf_ok b \<Longrightarrow> length d \<le> rb_len b \<Longrightarrow> rd_buf_ok (b\<lparr>rb_data := d\<rparr>)"
  by (auto simp: rd_buf_ok_def)

lemma rd_buf_reserve_Some:
  assumes ok: "rd_buf_ok b" and r: "rd_buf_reserve al b n = Some b'"
  shows "rb_data b' = rb_data b \<and> rd_buf_ok b' \<and> rb_len b + n \<le> rb_cap b'"
proof (cases "rb_len b + n \<le> rb_cap b")
  case True
  with assms show ?thesis by (auto simp: rd_buf_reserve_def Let_def)
next
  case False
  let ?start = "if rb_cap b \<noteq> 0 then rb_cap b else 256"
  let ?c = "grow_cap ?start (rb_len b + n)"
  from False r have b': "b' = b\<lparr>rb_cap := ?c\<rparr>"
    by (auto simp: rd_buf_reserve_def Let_def split: if_splits)
  have ge: "rb_len b + n \<le> ?c" by (rule grow_cap_ge) simp
  obtain j where j: "?c = ?start * 2 ^ j" using grow_cap_doubles by blast
  have "\<exists>k. ?c = 256 * 2 ^ k"
  proof (cases "rb_cap b = 0")
    case True
    with j show ?thesis by auto
  next
    case nz: False
    with ok obtain k where "rb_cap b = 256 * 2 ^ k" by (auto simp: rd_buf_ok_def)
    with j nz have "?c = 256 * 2 ^ (k + j)" by (simp add: power_add)
    then show ?thesis by blast
  qed
  with b' ge show ?thesis by (simp add: rd_buf_ok_def)
qed

lemma rd_buf_reserve_no_oom: "no_oom al \<Longrightarrow> \<exists>b'. rd_buf_reserve al b n = Some b'"
  by (simp add: rd_buf_reserve_def Let_def)

lemma rd_buf_reserve_data: "rd_buf_reserve al b n = Some b' \<Longrightarrow> rb_data b' = rb_data b"
  by (auto simp: rd_buf_reserve_def Let_def split: if_splits)

lemma rd_buf_grow_Some:
  "rd_buf_ok b \<Longrightarrow> rd_buf_grow al b d = Some b' \<Longrightarrow> rb_data b' = rb_data b @ d \<and> rd_buf_ok b'"
  by (auto simp: rd_buf_grow_def rd_buf_ok_def split: option.splits
      dest!: rd_buf_reserve_Some [rotated])

lemma rd_buf_grow_no_oom:
  "no_oom al \<Longrightarrow> \<exists>b'. rd_buf_grow al b d = Some b' \<and> rb_data b' = rb_data b @ d"
  using rd_buf_reserve_no_oom [of al b "length d"]
  by (auto simp: rd_buf_grow_def dest: rd_buf_reserve_data)

text \<open>With any allocator, an append is all or nothing and keeps the invariant.\<close>

lemma rd_buf_put_cases: "rb_data (rd_buf_put al b p) \<in> {rb_data b, rb_data b @ p}"
  by (auto simp: rd_buf_put_def rd_buf_grow_def split: option.splits dest: rd_buf_reserve_data)

lemma rd_buf_put_ok [intro]: "rd_buf_ok b \<Longrightarrow> rd_buf_ok (rd_buf_put al b p)"
  by (auto simp: rd_buf_put_def split: option.splits dest: rd_buf_grow_Some)

lemma rd_buf_puts_ok [intro]:
  assumes "rd_buf_ok b"
  shows "rd_buf_ok (rd_buf_put_u8 al b v1)" "rd_buf_ok (rd_buf_put_u16 al b v2)"
    "rd_buf_ok (rd_buf_put_u32 al b v4)" "rd_buf_ok (rd_buf_put_u64 al b v8)"
    "rd_buf_ok (rd_buf_put_str al b s)" "rd_buf_ok (rd_buf_put_blob al b p)"
  using assms
  by (auto simp: rd_buf_put_u8_def rd_buf_put_u16_def rd_buf_put_u32_def rd_buf_put_u64_def
      rd_buf_put_str_def rd_buf_put_blob_def Let_def)

lemma rd_buf_init_ok [intro]: "rd_buf_ok rd_buf_init" "rd_buf_ok (rd_buf_free b)"
  by (simp_all add: rd_buf_ok_def rd_buf_init_def rd_buf_free_def)

lemma length_splice: "off + length p \<le> length d \<Longrightarrow> length (splice d off p) = length d"
  by (simp add: splice_def)

lemma rd_buf_edit_ok [intro]:
  assumes "rd_buf_ok b"
  shows "rd_buf_ok (rd_buf_clear b)" "rd_buf_ok (rd_buf_consume b n)"
    "rd_buf_ok (rd_buf_patch_u16 b off v)" "rd_buf_ok (rd_buf_patch_u32 b off w)"
  using assms
  by (auto simp: rd_buf_clear_def rd_buf_consume_def rd_buf_patch_u16_def rd_buf_patch_u32_def
      length_splice intro!: rd_buf_ok_shrink)

text \<open>The bytes of a buffer after each operation, when the allocator grants the room.\<close>

lemma rd_buf_put_data [buf_simps]: "no_oom al \<Longrightarrow> rb_data (rd_buf_put al b p) = rb_data b @ p"
  using rd_buf_grow_no_oom [of al b p] by (auto simp: rd_buf_put_def)

lemma rd_buf_init_data [buf_simps]:
  "rb_data rd_buf_init = []" "rb_data (rd_buf_free b) = []" "rb_data (rd_buf_clear b) = []"
  by (simp_all add: rd_buf_init_def rd_buf_free_def rd_buf_clear_def)

lemma rd_buf_consume_data [buf_simps]: "rb_data (rd_buf_consume b n) = drop n (rb_data b)"
  by (simp add: rd_buf_consume_def)

lemma rd_buf_puts_data [buf_simps]:
  assumes "no_oom al"
  shows "rb_data (rd_buf_put_u8 al b v1) = rb_data b @ [v1]"
    "rb_data (rd_buf_put_u16 al b v2) = rb_data b @ rd_wr16 v2"
    "rb_data (rd_buf_put_u32 al b v4) = rb_data b @ rd_wr32 v4"
    "rb_data (rd_buf_put_u64 al b v8) =
       rb_data b @ rd_wr32 (ucast v8) @ rd_wr32 (ucast (drop_bit 32 v8))"
    "rb_data (rd_buf_put_blob al b p) = rb_data b @ rd_wr32 (of_nat (length p)) @ p"
  using assms
  by (simp_all add: rd_buf_put_u8_def rd_buf_put_u16_def rd_buf_put_u32_def rd_buf_put_u64_def
      rd_buf_put_blob_def rd_buf_put_data)

lemma rd_buf_put_str_data [buf_simps]:
  assumes "no_oom al" and "0 \<notin> set s" and "length s \<le> 65535"
  shows "rb_data (rd_buf_put_str al b (Some s)) = rb_data b @ rd_wr16 (of_nat (length s)) @ s"
  using assms by (simp add: rd_buf_put_str_def c_str_id rd_buf_puts_data rd_buf_put_data)

section \<open>What the readers return\<close>

definition reader_ok :: "rd_reader \<Rightarrow> bool" where
  "reader_ok r \<longleftrightarrow> rr_pos r \<le> length (rr_p r)"

text \<open>
  What every reader operation does to the reader: the input stays, the position only moves
  forward and stays inside, and an error, once set, freezes the reader.
\<close>

definition reader_step :: "rd_reader \<Rightarrow> rd_reader \<Rightarrow> bool" where
  "reader_step r r' \<longleftrightarrow>
     rr_p r' = rr_p r \<and> rr_pos r \<le> rr_pos r' \<and> (reader_ok r \<longrightarrow> reader_ok r') \<and>
     (rr_err r \<longrightarrow> rr_err r' \<and> rr_pos r' = rr_pos r)"

lemma reader_step_refl [intro]: "reader_step r r"
  by (simp add: reader_step_def)

lemma reader_step_trans: "reader_step r s \<Longrightarrow> reader_step s t \<Longrightarrow> reader_step r t"
  by (auto simp: reader_step_def)

lemma rd_get_bytes_step: "reader_step r (snd (rd_get_bytes r n))"
  by (auto simp: reader_step_def rd_get_bytes_def reader_ok_def)

lemma rd_get_bytes_Some:
  "rd_get_bytes r n = (Some p, r') \<Longrightarrow> length p = n \<and> \<not> rr_err r \<and> \<not> rr_err r' \<and>
     rr_pos r' = rr_pos r + n \<and> rr_p r' = rr_p r \<and> p = take n (drop (rr_pos r) (rr_p r))"
  by (auto simp: rd_get_bytes_def split: if_splits)

lemma rd_get_bytes_None: "rd_get_bytes r n = (None, r') \<Longrightarrow> rr_err r' \<and> rr_pos r' = rr_pos r"
  by (auto simp: rd_get_bytes_def split: if_splits)

lemma rd_get_bytes_stepI: "rd_get_bytes r n = (p, r') \<Longrightarrow> reader_step r r'"
  using rd_get_bytes_step [of r n] by simp

lemma rd_get_step:
  "reader_step r (snd (rd_get_u8 r))" "reader_step r (snd (rd_get_u16 r))"
  "reader_step r (snd (rd_get_u32 r))" "reader_step r (snd (rd_get_i16 r))"
  by (auto simp: rd_get_u8_def rd_get_u16_def rd_get_u32_def rd_get_i16_def
      split: prod.splits option.splits dest: rd_get_bytes_stepI)

lemma rd_get_stepI:
  "rd_get_u16 r = (v, r') \<Longrightarrow> reader_step r r'"
  "rd_get_u32 r = (w, r') \<Longrightarrow> reader_step r r'"
  using rd_get_step [of r] by simp_all

lemma rd_get_u64_step: "reader_step r (snd (rd_get_u64 r))"
  by (auto simp: rd_get_u64_def split: prod.splits dest!: rd_get_stepI intro: reader_step_trans)

lemma rd_get_str_step: "rd_get_str r cap = (out, n, r') \<Longrightarrow> reader_step r r'"
  by (auto simp: rd_get_str_def split: prod.splits
      dest!: rd_get_stepI rd_get_bytes_stepI intro: reader_step_trans)

lemma rd_get_blob_step: "rd_get_blob r = (p, n, r') \<Longrightarrow> reader_step r r'"
  by (auto simp: rd_get_blob_def split: prod.splits option.splits
      dest!: rd_get_stepI rd_get_bytes_stepI intro: reader_step_trans)

text \<open>On a reader in error every getter returns zeros.\<close>

lemma rd_get_err:
  assumes "rr_err r"
  shows "rd_get_bytes r n = (None, r)" "rd_get_u8 r = (0, r)" "rd_get_u16 r = (0, r)"
    "rd_get_u32 r = (0, r)" "rd_get_u64 r = (0, r)" "rd_get_blob r = (None, 0, r)"
    "rd_remaining r = 0"
  using assms
  by (simp_all add: rd_get_bytes_def rd_get_u8_def rd_get_u16_def rd_get_u32_def rd_get_u64_def
      rd_get_blob_def rd_remaining_def)

lemma rd_get_err_after: "rr_err (snd (rd_get_bytes r n)) \<longleftrightarrow> fst (rd_get_bytes r n) = None"
  by (simp add: rd_get_bytes_def)

lemma rd_get_str_bound:
  assumes "rd_get_str r cap = (out, n, r')"
  shows "length out \<le> cap \<and> (0 < cap \<longrightarrow> out \<noteq> [] \<and> last out = 0) \<and> n \<le> 65535"
proof -
  have "unat (v :: u16) \<le> 65535" for v
    using unat_u16_less [of v] by linarith
  then show ?thesis
    using assms by (auto simp: rd_get_str_def min_def split: prod.splits option.splits if_splits)
qed

text \<open>A reader that has read \<open>pre\<close> and has \<open>rest\<close> left.\<close>

definition rdr :: "bytes \<Rightarrow> bytes \<Rightarrow> rd_reader" where
  "rdr pre rest = \<lparr>rr_p = pre @ rest, rr_pos = length pre, rr_err = False\<rparr>"

lemma rdr_init [reader_simps]: "rd_reader_init p = rdr [] p"
  by (simp add: rd_reader_init_def rdr_def)

lemma rdr_remaining [reader_simps]: "rd_remaining (rdr pre rest) = length rest"
  by (simp add: rd_remaining_def rdr_def)

lemma rdr_ok [simp]: "reader_ok (rdr pre rest)" "\<not> rr_err (rdr pre rest)"
  by (simp_all add: reader_ok_def rdr_def)

lemma rdr_get_bytes:
  "length d = n \<Longrightarrow> rd_get_bytes (rdr pre (d @ rest)) n = (Some d, rdr (pre @ d) rest)"
  by (auto simp: rd_get_bytes_def rdr_def)

lemma rdr_get_bytes_short:
  "length rest < n \<Longrightarrow> rd_get_bytes (rdr pre rest) n = (None, (rdr pre rest)\<lparr>rr_err := True\<rparr>)"
  by (simp add: rd_get_bytes_def rdr_def)

lemma rdr_get [reader_simps]:
  "rd_get_u8 (rdr pre (v1 # rest)) = (v1, rdr (pre @ [v1]) rest)"
  "rd_get_u16 (rdr pre (rd_wr16 v2 @ rest)) = (v2, rdr (pre @ rd_wr16 v2) rest)"
  "rd_get_u32 (rdr pre (rd_wr32 v4 @ rest)) = (v4, rdr (pre @ rd_wr32 v4) rest)"
  using rdr_get_bytes [of "[v1]" 1 pre rest]
  by (simp_all add: rd_get_u8_def rd_get_u16_def rd_get_u32_def rdr_get_bytes reader_simps)

lemma rdr_get_i16 [reader_simps]:
  "rd_get_i16 (rdr pre (rd_wr16 v @ rest)) = (sint v, rdr (pre @ rd_wr16 v) rest)"
  by (simp add: rd_get_i16_def reader_simps)

lemma u64_halves: "ucast (ucast v :: u32) OR push_bit 32 (ucast (ucast (drop_bit 32 v) :: u32)) = (v :: u64)"
proof (rule bit_word_eqI)
  fix n assume "n < LENGTH(64)"
  then show "bit (ucast (ucast v :: u32) OR push_bit 32 (ucast (ucast (drop_bit 32 v) :: u32)) :: u64) n
      = bit v n"
    by (cases "n < 32") (simp_all add: bit_simps not_less less_diff_conv2)
qed

definition enc_u64 :: "u64 \<Rightarrow> bytes" where
  "enc_u64 v = rd_wr32 (ucast v) @ rd_wr32 (ucast (drop_bit 32 v))"

definition enc_str :: "bytes \<Rightarrow> bytes" where
  "enc_str s = rd_wr16 (of_nat (length s)) @ s"

definition enc_blob :: "bytes \<Rightarrow> bytes" where
  "enc_blob p = rd_wr32 (of_nat (length p)) @ p"

lemma rdr_get_u64 [reader_simps]:
  "rd_get_u64 (rdr pre (enc_u64 v @ rest)) = (v, rdr (pre @ enc_u64 v) rest)"
  using u64_halves [of v] by (simp add: rd_get_u64_def enc_u64_def reader_simps)

lemma rdr_get_str [reader_simps]:
  assumes "length s \<le> 65535"
  shows "rd_get_str (rdr pre (enc_str s @ rest)) cap =
    (if cap = 0 then [] else take (cap - 1) s @ [0], length s, rdr (pre @ enc_str s) rest)"
  using assms rdr_get_bytes [of s "length s" "pre @ rd_wr16 (of_nat (length s))" rest]
  by (simp add: rd_get_str_def enc_str_def reader_simps min_def)

lemma rdr_get_blob [reader_simps]:
  assumes "length p < 2 ^ 32"
  shows "rd_get_blob (rdr pre (enc_blob p @ rest)) =
    (Some p, of_nat (length p), rdr (pre @ enc_blob p) rest)"
  using assms rdr_get_bytes [of p "length p" "pre @ rd_wr32 (of_nat (length p))" rest]
  by (simp add: rd_get_blob_def enc_blob_def reader_simps)

section \<open>The wire-field interface\<close>

text \<open>
  A wire field is a writer into buffers and a reader that agree on an encoding: what the message
  writers and the message parsers of the other components rely on. \<open>val\<close> is what the reader
  returns for a written value (a string comes back as what is stored at \<open>out\<close>).
\<close>

locale wire_field =
  fixes put :: "alloc \<Rightarrow> rd_buf \<Rightarrow> 'a \<Rightarrow> rd_buf"
    and get :: "rd_reader \<Rightarrow> 'b \<times> rd_reader"
    and enc :: "'a \<Rightarrow> bytes"
    and val :: "'a \<Rightarrow> 'b"
    and wf :: "'a \<Rightarrow> bool"
  assumes put_enc: "no_oom al \<Longrightarrow> wf v \<Longrightarrow> rb_data (put al b v) = rb_data b @ enc v"
    and put_ok: "rd_buf_ok b \<Longrightarrow> rd_buf_ok (put al b v)"
    and get_enc: "wf v \<Longrightarrow> get (rdr pre (enc v @ rest)) = (val v, rdr (pre @ enc v) rest)"
    and get_step: "reader_step r (snd (get r))"
begin

lemma get_put:
  assumes "no_oom al" and "wf v"
  shows "get (rd_reader_init (rb_data (put al rd_buf_init v))) = (val v, rdr (enc v) [])"
  using assms get_enc [of v "[]" "[]"] by (simp add: put_enc buf_simps reader_simps)

lemma get_keeps_ok: "reader_ok r \<Longrightarrow> reader_ok (snd (get r))"
  using get_step [of r] by (simp add: reader_step_def)

lemma get_keeps_err: "rr_err r \<Longrightarrow> rr_err (snd (get r))"
  using get_step [of r] by (simp add: reader_step_def)

end

text \<open>Two fields written one after the other are a field.\<close>

definition put2 ::
  "(alloc \<Rightarrow> rd_buf \<Rightarrow> 'a \<Rightarrow> rd_buf) \<Rightarrow> (alloc \<Rightarrow> rd_buf \<Rightarrow> 'c \<Rightarrow> rd_buf) \<Rightarrow>
   alloc \<Rightarrow> rd_buf \<Rightarrow> 'a \<times> 'c \<Rightarrow> rd_buf" where
  "put2 p q al b v = q al (p al b (fst v)) (snd v)"

definition get2 ::
  "(rd_reader \<Rightarrow> 'b \<times> rd_reader) \<Rightarrow> (rd_reader \<Rightarrow> 'd \<times> rd_reader) \<Rightarrow>
   rd_reader \<Rightarrow> ('b \<times> 'd) \<times> rd_reader" where
  "get2 g h r = (case g r of (x, r1) \<Rightarrow> (case h r1 of (y, r2) \<Rightarrow> ((x, y), r2)))"

locale wire_pair =
  fst_field: wire_field put get enc val wf + snd_field: wire_field put' get' enc' val' wf'
  for put :: "alloc \<Rightarrow> rd_buf \<Rightarrow> 'a \<Rightarrow> rd_buf"
    and get :: "rd_reader \<Rightarrow> 'b \<times> rd_reader" and enc val wf
    and put' :: "alloc \<Rightarrow> rd_buf \<Rightarrow> 'c \<Rightarrow> rd_buf"
    and get' :: "rd_reader \<Rightarrow> 'd \<times> rd_reader" and enc' val' wf'

sublocale wire_pair \<subseteq> pair: wire_field
  "put2 put put'" "get2 get get'" "\<lambda>v. enc (fst v) @ enc' (snd v)"
  "\<lambda>v. (val (fst v), val' (snd v))" "\<lambda>v. wf (fst v) \<and> wf' (snd v)"
proof (unfold_locales, goal_cases)
  case (1 al v b)
  then show ?case by (simp add: put2_def fst_field.put_enc snd_field.put_enc)
next
  case (2 b al v)
  then show ?case by (simp add: put2_def fst_field.put_ok snd_field.put_ok)
next
  case (3 v pre rest)
  then show ?case
    by (simp add: get2_def fst_field.get_enc snd_field.get_enc)
next
  case (4 r)
  show ?case
    using fst_field.get_step [of r] snd_field.get_step [of "snd (get r)"]
    by (auto simp: get2_def split: prod.splits intro: reader_step_trans)
qed

definition get_blob' :: "rd_reader \<Rightarrow> (bytes option \<times> u32) \<times> rd_reader" where
  "get_blob' r = (case rd_get_blob r of (p, n, r') \<Rightarrow> ((p, n), r'))"

definition get_str' :: "nat \<Rightarrow> rd_reader \<Rightarrow> (bytes \<times> nat) \<times> rd_reader" where
  "get_str' cap r = (case rd_get_str r cap of (s, n, r') \<Rightarrow> ((s, n), r'))"

definition wf_str :: "bytes \<Rightarrow> bool" where
  "wf_str s \<longleftrightarrow> 0 \<notin> set s \<and> length s \<le> 65535"

interpretation f_u8: wire_field rd_buf_put_u8 rd_get_u8 "\<lambda>v. [v]" "\<lambda>v. v" "\<lambda>_. True"
  by unfold_locales (auto simp: buf_simps reader_simps rd_get_step)

interpretation f_u16: wire_field rd_buf_put_u16 rd_get_u16 rd_wr16 "\<lambda>v. v" "\<lambda>_. True"
  by unfold_locales (auto simp: buf_simps reader_simps rd_get_step)

interpretation f_i16: wire_field rd_buf_put_u16 rd_get_i16 rd_wr16 sint "\<lambda>_. True"
  by unfold_locales (auto simp: buf_simps reader_simps rd_get_step)

interpretation f_u32: wire_field rd_buf_put_u32 rd_get_u32 rd_wr32 "\<lambda>v. v" "\<lambda>_. True"
  by unfold_locales (auto simp: buf_simps reader_simps rd_get_step)

interpretation f_u64: wire_field rd_buf_put_u64 rd_get_u64 enc_u64 "\<lambda>v. v" "\<lambda>_. True"
  by unfold_locales (auto simp: buf_simps reader_simps rd_get_u64_step enc_u64_def [symmetric])

interpretation f_blob: wire_field rd_buf_put_blob get_blob' enc_blob
  "\<lambda>p. (Some p, of_nat (length p))" "\<lambda>p. length p < 2 ^ 32"
  by unfold_locales
     (auto simp: buf_simps reader_simps get_blob'_def enc_blob_def [symmetric]
       split: prod.splits dest: rd_get_blob_step)

interpretation f_str: wire_field "\<lambda>al b s. rd_buf_put_str al b (Some s)" "get_str' cap" enc_str
  "\<lambda>s. (if cap = 0 then [] else take (cap - 1) s @ [0], length s)" wf_str for cap
  by unfold_locales
     (auto simp: buf_simps reader_simps get_str'_def enc_str_def [symmetric] wf_str_def
       split: prod.splits dest: rd_get_str_step)

interpretation f_pointer_xy: wire_pair
  rd_buf_put_u16 rd_get_u16 rd_wr16 "\<lambda>v. v" "\<lambda>_. True"
  rd_buf_put_u16 rd_get_u16 rd_wr16 "\<lambda>v. v" "\<lambda>_. True"
  by unfold_locales

section \<open>The capacity loop at machine width\<close>

text \<open>
  The same computation on 64-bit \<open>size_t\<close>, where \<open>b->len + extra\<close> and \<open>ncap *= 2\<close> wrap around.
  The loop may run for ever, so it is a partial function: \<open>None\<close> is "does not return".
\<close>

partial_function (option) grow_cap_w :: "u64 \<Rightarrow> u64 \<Rightarrow> u64 option" where
  "grow_cap_w ncap need = (if ncap < need then grow_cap_w (ncap * 2) need else Some ncap)"

definition rd_buf_reserve_w :: "u64 \<Rightarrow> u64 \<Rightarrow> u64 \<Rightarrow> u64 option" where
  "rd_buf_reserve_w len cap extra =
     (let need = len + extra in
      if need \<le> cap then Some cap else grow_cap_w (if cap \<noteq> 0 then cap else 256) need)"

lemma unat_double:
  assumes "unat (w :: u64) < n" and "n \<le> 2 ^ 63"
  shows "unat (w * 2) = unat w * 2"
  using assms by (simp add: unat_word_ariths)

lemma grow_cap_w_refines:
  assumes "0 < unat ncap" and "unat need \<le> 2 ^ 63"
  shows "\<exists>c. grow_cap_w ncap need = Some c \<and> unat c = grow_cap (unat ncap) (unat need)"
  using assms(1)
proof (induction "unat need - unat ncap" arbitrary: ncap rule: less_induct)
  case less
  show ?case
  proof (cases "ncap < need")
    case True
    then have lt: "unat ncap < unat need" by (simp add: word_less_nat_alt)
    have dbl: "unat (ncap * 2) = unat ncap * 2"
      using unat_double [OF lt] assms(2) by simp
    with lt less.prems have "\<exists>c. grow_cap_w (ncap * 2) need = Some c \<and>
        unat c = grow_cap (unat (ncap * 2)) (unat need)"
      by (intro less.hyps) auto
    then show ?thesis
      using True lt less.prems dbl
      by (subst grow_cap_w.simps, subst grow_cap.simps) simp
  next
    case False
    then have "\<not> unat ncap < unat need" by (simp add: word_less_nat_alt)
    with False show ?thesis
      by (subst grow_cap_w.simps, subst grow_cap.simps) simp
  qed
qed

text \<open>256 doubled: the values the loop variable takes from the start value, with the wrap to 0.\<close>

definition pow2_or_zero :: "u64 \<Rightarrow> bool" where
  "pow2_or_zero c \<longleftrightarrow> c = 0 \<or> (\<exists>j \<le> 63. c = 2 ^ j)"

lemma pow2_or_zero_double: "pow2_or_zero c \<Longrightarrow> pow2_or_zero (c * 2)"
proof -
  assume "pow2_or_zero c"
  then consider "c = 0" | j where "j < 63" "c = 2 ^ j" | "c = 2 ^ 63"
    by (auto simp: pow2_or_zero_def le_less)
  then show ?thesis
  proof cases
    case 1 then show ?thesis by (simp add: pow2_or_zero_def)
  next
    case 2
    then show ?thesis by (auto simp: pow2_or_zero_def intro!: exI [of _ "Suc j"])
  next
    case 3 then show ?thesis by (simp add: pow2_or_zero_def)
  qed
qed

lemma pow2_or_zero_le: "pow2_or_zero c \<Longrightarrow> unat c \<le> 2 ^ 63"
proof -
  assume "pow2_or_zero c"
  then consider "c = 0" | j where "j \<le> 63" "c = 2 ^ j" by (auto simp: pow2_or_zero_def)
  then show ?thesis
  proof cases
    case 2
    then have "c = of_nat (2 ^ j)" by simp
    then have "unat c \<le> 2 ^ j" by (metis unat_of_nat mod_less_eq_dividend)
    also have "(2 :: nat) ^ j \<le> 2 ^ 63" using 2 by (intro power_increasing) auto
    finally show ?thesis .
  qed simp
qed

lemma grow_cap_w_diverges:
  assumes big: "2 ^ 63 < unat need" and start: "pow2_or_zero ncap"
  shows "grow_cap_w ncap need = None"
proof (rule ccontr)
  assume "grow_cap_w ncap need \<noteq> None"
  then obtain r where ret: "grow_cap_w ncap need = Some r" by blast
  have "\<not> (2 ^ 63 < unat need \<and> pow2_or_zero ncap)"
  proof (rule grow_cap_w.raw_induct
      [where P = "\<lambda>ncap need r. \<not> (2 ^ 63 < unat need \<and> pow2_or_zero ncap)", OF _ ret])
    fix f ncap need r
    assume IH: "\<And>ncap need r. f ncap need = Some r \<Longrightarrow> \<not> (2 ^ 63 < unat need \<and> pow2_or_zero ncap)"
      and eq: "(if ncap < need then f (ncap * 2) need else Some ncap) = Some r"
    show "\<not> (2 ^ 63 < unat need \<and> pow2_or_zero ncap)"
    proof
      assume a: "2 ^ 63 < unat need \<and> pow2_or_zero ncap"
      then have "ncap < need" using pow2_or_zero_le [of ncap] by (simp add: word_less_nat_alt)
      with eq have "f (ncap * 2) need = Some r" by simp
      from IH [OF this] a show False by (simp add: pow2_or_zero_double)
    qed
  qed
  with big start show False by blast
qed

section \<open>Whole messages\<close>

text \<open>
  A message body is a sequence of fields; this is the format language of the comment in
  \<open>rd_proto.h\<close>. \<open>put_value\<close> calls the writer of a field, \<open>get_like\<close> the reader for a field of the
  same kind (strings into an output array of 65536 bytes, the largest string and its NUL).
\<close>

datatype wire_value = WU8 u8 | WU16 u16 | WU32 u32 | WU64 u64 | WStr bytes | WBlob bytes

fun wf_value :: "wire_value \<Rightarrow> bool" where
  "wf_value (WStr s) = wf_str s"
| "wf_value (WBlob p) = (length p < 2 ^ 32)"
| "wf_value _ = True"

fun put_value :: "alloc \<Rightarrow> rd_buf \<Rightarrow> wire_value \<Rightarrow> rd_buf" where
  "put_value al b (WU8 v) = rd_buf_put_u8 al b v"
| "put_value al b (WU16 v) = rd_buf_put_u16 al b v"
| "put_value al b (WU32 v) = rd_buf_put_u32 al b v"
| "put_value al b (WU64 v) = rd_buf_put_u64 al b v"
| "put_value al b (WStr s) = rd_buf_put_str al b (Some s)"
| "put_value al b (WBlob p) = rd_buf_put_blob al b p"

fun get_like :: "wire_value \<Rightarrow> rd_reader \<Rightarrow> wire_value \<times> rd_reader" where
  "get_like (WU8 _) r = (case rd_get_u8 r of (v, r') \<Rightarrow> (WU8 v, r'))"
| "get_like (WU16 _) r = (case rd_get_u16 r of (v, r') \<Rightarrow> (WU16 v, r'))"
| "get_like (WU32 _) r = (case rd_get_u32 r of (v, r') \<Rightarrow> (WU32 v, r'))"
| "get_like (WU64 _) r = (case rd_get_u64 r of (v, r') \<Rightarrow> (WU64 v, r'))"
| "get_like (WStr _) r = (case rd_get_str r 65536 of (out, n, r') \<Rightarrow> (WStr (c_str out), r'))"
| "get_like (WBlob _) r = (case rd_get_blob r of
     (None, n, r') \<Rightarrow> (WBlob [], r') | (Some p, n, r') \<Rightarrow> (WBlob p, r'))"

fun put_values :: "alloc \<Rightarrow> rd_buf \<Rightarrow> wire_value list \<Rightarrow> rd_buf" where
  "put_values al b [] = b"
| "put_values al b (v # vs) = put_values al (put_value al b v) vs"

fun get_likes :: "wire_value list \<Rightarrow> rd_reader \<Rightarrow> wire_value list \<times> rd_reader" where
  "get_likes [] r = ([], r)"
| "get_likes (v # vs) r =
     (case get_like v r of (x, r1) \<Rightarrow> (case get_likes vs r1 of (xs, r2) \<Rightarrow> (x # xs, r2)))"

fun enc_value :: "wire_value \<Rightarrow> bytes" where
  "enc_value (WU8 v) = [v]"
| "enc_value (WU16 v) = rd_wr16 v"
| "enc_value (WU32 v) = rd_wr32 v"
| "enc_value (WU64 v) = enc_u64 v"
| "enc_value (WStr s) = enc_str s"
| "enc_value (WBlob p) = enc_blob p"

lemma get_like_step: "reader_step r (snd (get_like v r))"
proof (cases v)
  case (WStr s)
  then show ?thesis
    using f_str.get_step [where r = r and cap = 65536] by (auto simp: get_str'_def split: prod.splits)
next
  case (WBlob p)
  then show ?thesis
    using f_blob.get_step [of r] by (auto simp: get_blob'_def split: prod.splits option.splits)
qed (use rd_get_step [of r] rd_get_u64_step [of r] in \<open>auto split: prod.splits\<close>)

interpretation f_value: wire_field put_value "\<lambda>r. get_like v r" enc_value "\<lambda>v. v"
  "\<lambda>w. wf_value w \<and> get_like w = get_like v" for v
proof (unfold_locales, goal_cases)
  case (1 al w b)
  then show ?case
    by (cases w) (auto simp: f_u8.put_enc f_u16.put_enc f_u32.put_enc f_u64.put_enc f_str.put_enc
        f_blob.put_enc)
next
  case (2 b al w)
  then show ?case
    by (cases w) (auto simp: rd_buf_puts_ok)
next
  case (3 w pre rest)
  then have w: "wf_value w" and gl: "get_like v = get_like w" by simp_all
  from w show ?case
    unfolding gl
  proof (cases w)
    case (WStr s)
    with w show "get_like w (rdr pre (enc_value w @ rest)) = (w, rdr (pre @ enc_value w) rest)"
      by (simp add: wf_str_def rdr_get_str c_str_append_nul)
  next
    case (WBlob p)
    with w show "get_like w (rdr pre (enc_value w @ rest)) = (w, rdr (pre @ enc_value w) rest)"
      by (simp add: rdr_get_blob)
  qed (simp_all add: reader_simps)
next
  case (4 r)
  show ?case by (rule get_like_step)
qed

lemma put_values_data:
  "no_oom al \<Longrightarrow> list_all wf_value vs \<Longrightarrow>
   rb_data (put_values al b vs) = rb_data b @ concat (map enc_value vs)"
  by (induction vs arbitrary: b) (auto simp: f_value.put_enc)

lemma get_likes_enc:
  "list_all wf_value vs \<Longrightarrow>
   get_likes vs (rdr pre (concat (map enc_value vs) @ rest)) =
     (vs, rdr (pre @ concat (map enc_value vs)) rest)"
  by (induction vs arbitrary: pre) (auto simp: f_value.get_enc)

lemma get_likes_step: "reader_step r (snd (get_likes vs r))"
proof (induction vs arbitrary: r)
  case (Cons v vs)
  from reader_step_trans [OF get_like_step Cons.IH [of "snd (get_like v r)"]]
  show ?case by (auto split: prod.splits)
qed auto

section \<open>Properties\<close>

text \<open>Whatever the allocator answers, every buffer operation keeps the representation
  invariant: the live bytes fit the capacity, and the capacity is 0 or 256 doubled some number of
  times; an append either stores all its bytes at the end or leaves the bytes as they were.\<close>

theorem rd_buf_operations_keep_invariant:
  assumes "rd_buf_ok b"
  shows "rd_buf_ok (rd_buf_put al b p) \<and>
    rb_data (rd_buf_put al b p) \<in> {rb_data b, rb_data b @ p} \<and>
    rd_buf_ok (put_value al b v) \<and>
    rd_buf_ok (rd_buf_clear b) \<and> rd_buf_ok (rd_buf_consume b n) \<and>
    rd_buf_ok (rd_buf_patch_u16 b off x) \<and> rd_buf_ok (rd_buf_patch_u32 b off y) \<and>
    (case rd_buf_grow al b d of None \<Rightarrow> True
     | Some b' \<Rightarrow> rd_buf_ok b' \<and> rb_data b' = rb_data b @ d) \<and>
    (case rd_buf_reserve al b n of None \<Rightarrow> True
     | Some b' \<Rightarrow> rd_buf_ok b' \<and> rb_data b' = rb_data b \<and> rb_len b + n \<le> rb_cap b')"
  using assms f_value.put_ok rd_buf_put_cases [of al b p]
  by (auto split: option.splits dest: rd_buf_grow_Some rd_buf_reserve_Some)

theorem rd_buf_operations_keep_invariant_witness:
  "rd_buf_ok (rd_buf_put (\<lambda>n. n < 1000) rd_buf_init [1, 2, 3])"
  using rd_buf_operations_keep_invariant [OF rd_buf_init_ok(1)] by blast



text \<open>C37: Reading back what the writers wrote: any sequence of u8, u16, u32, u64, string and blob
  fields, appended to an empty buffer and parsed by the readers for the same kinds, comes back
  unchanged, with nothing left over and no error.\<close>

theorem wire_message_roundtrip:
  assumes "no_oom al" and "list_all wf_value vs"
  shows "\<exists>r. get_likes vs (rd_reader_init (rb_data (put_values al rd_buf_init vs))) = (vs, r) \<and>
    \<not> rr_err r \<and> rd_remaining r = 0"
  using assms get_likes_enc [of vs "[]" "[]"]
  by (simp add: put_values_data buf_simps reader_simps)

theorem wire_message_roundtrip_witness:
  "\<exists>r. get_likes [WU8 9, WStr [104, 105], WBlob [0, 1]]
      (rd_reader_init (rb_data (put_values (\<lambda>_. True) rd_buf_init [WU8 9, WStr [104, 105], WBlob [0, 1]])))
      = ([WU8 9, WStr [104, 105], WBlob [0, 1]], r) \<and> \<not> rr_err r \<and> rd_remaining r = 0"
  by (rule wire_message_roundtrip) (simp_all add: wf_str_def)

text \<open>The 64-bit capacity computation of \<open>rd_buf_reserve\<close>. When \<open>len + extra\<close> is at most
  2 ^ 63 the doubling loop returns, for every current capacity, and it returns exactly the capacity
  that the model over unbounded integers (the one the other components are built on) uses.\<close>

theorem rd_buf_reserve_returns:
  assumes "unat len + unat extra \<le> 2 ^ 63" and "rb_len b = unat len" and "rb_cap b = unat cap"
  shows "\<exists>c. rd_buf_reserve_w len cap extra = Some c \<and>
    rd_buf_reserve (\<lambda>_. True) b (unat extra) = Some (b\<lparr>rb_cap := unat c\<rparr>)"
proof -
  have sum: "unat (len + extra) = unat len + unat extra"
    using assms(1) by (simp add: unat_word_ariths)
  have start: "unat (if cap \<noteq> 0 then cap else 256) = (if rb_cap b \<noteq> 0 then rb_cap b else 256)"
    using assms(3) by (simp add: unat_eq_0)
  show ?thesis
  proof (cases "len + extra \<le> cap")
    case True
    then have "b\<lparr>rb_cap := unat cap\<rparr> = b" "unat len + unat extra \<le> unat cap"
      using assms(3) sum by (simp_all add: word_le_nat_alt)
    with True assms(2,3) show ?thesis
      by (simp add: rd_buf_reserve_w_def rd_buf_reserve_def Let_def)
  next
    case False
    then have lt: "\<not> unat len + unat extra \<le> unat cap"
      using sum by (simp add: word_le_nat_alt)
    have pos: "0 < unat (if cap \<noteq> 0 then cap else 256)"
      by (simp add: unat_gt_0)
    obtain c where c: "grow_cap_w (if cap \<noteq> 0 then cap else 256) (len + extra) = Some c"
      "unat c = grow_cap (unat (if cap \<noteq> 0 then cap else 256)) (unat (len + extra))"
      using grow_cap_w_refines [OF pos, of "len + extra"] assms(1) sum by auto
    have "rd_buf_reserve_w len cap extra = Some c"
      using False c(1) by (simp add: rd_buf_reserve_w_def)
    moreover have "rd_buf_reserve (\<lambda>_. True) b (unat extra) = Some (b\<lparr>rb_cap := unat c\<rparr>)"
      unfolding rd_buf_reserve_def Let_def c(2) start sum assms(2)
      using lt assms(3) by simp
    ultimately show ?thesis by blast
  qed
qed

theorem rd_buf_reserve_returns_witness:
  "\<exists>c. rd_buf_reserve_w 3 0 1000 = Some c \<and>
    rd_buf_reserve (\<lambda>_. True) \<lparr>rb_data = [1, 2, 3], rb_cap = 0\<rparr> 1000 =
      Some \<lparr>rb_data = [1, 2, 3], rb_cap = unat c\<rparr>"
  using rd_buf_reserve_returns
    [of 3 1000 "\<lparr>rb_data = [1, 2, 3], rb_cap = 0\<rparr>" 0]
  by simp

text \<open>The other side: a buffer whose capacity is 0 or a power of two (which the buffer invariant
  gives for every capacity below 2 ^ 64) that is asked for more than 2 ^ 63 bytes in all doubles
  \<open>ncap\<close> to 0 and then for ever: the call never returns.\<close>

theorem rd_buf_reserve_diverges:
  assumes "2 ^ 63 < unat (len + extra)" and "pow2_or_zero cap" and "cap < len + extra"
  shows "rd_buf_reserve_w len cap extra = None"
proof -
  have "pow2_or_zero 256" by (auto simp: pow2_or_zero_def intro!: exI [of _ 8])
  then have "pow2_or_zero (if cap \<noteq> 0 then cap else 256)"
    using assms(2) by simp
  with assms show ?thesis
    by (simp add: rd_buf_reserve_w_def Let_def not_le grow_cap_w_diverges)
qed

theorem rd_buf_reserve_diverges_witness: "rd_buf_reserve_w 1 256 0x8000000000000000 = None"
  by (rule rd_buf_reserve_diverges) (auto simp: pow2_or_zero_def intro!: exI [of _ 8])

end
