(* ===== verification/Rd_Lz.thy ===== *)
theory Rd_Lz
  imports Rd_Bytes
begin

text \<open>
  The LZ77 byte compressor of \<open>common/rd_codec.c\<close> (LZ4 block layout). The source buffer is a byte
  list, the destination the bytes written so far; the hash table is a function from slot to the
  stored 32-bit position plus one. The proofs are about two loops: the compressor's, with its
  invariant "what is written so far decodes to the source up to \<open>anchor\<close>", and the decoder's.
\<close>

section \<open>Compressor\<close>

definition read32 :: "bytes \<Rightarrow> nat \<Rightarrow> u32" where
  "read32 src i = rd_rd32 (drop i src)"

definition rd_lz_bound :: "nat \<Rightarrow> nat" where
  "rd_lz_bound n = n + n div 255 + 16"

fun put_len :: "nat \<Rightarrow> bytes" where
  "put_len len = (if len \<ge> 255 then 255 # put_len (len - 255) else [of_nat len])"

declare put_len.simps [simp del]

text \<open>\<open>tok\<close> is the index of the token byte, already reserved in \<open>op\<close>.\<close>

definition emit_literals :: "bytes \<Rightarrow> nat \<Rightarrow> bytes \<Rightarrow> bytes" where
  "emit_literals op tok lit =
     (let n = length lit;
          op1 = op[tok := push_bit 4 (of_nat (if n \<ge> 15 then 15 else n))];
          op2 = (if n \<ge> 15 then op1 @ put_len (n - 15) else op1)
      in op2 @ lit)"

definition lz_hash :: "u32 \<Rightarrow> nat" where
  "lz_hash seq = unat (drop_bit 19 (seq * 2654435761))"

text \<open>\<open>while (m < maxm && src[ref + m] == src[ip + m]) m++\<close>\<close>

function lz_forward :: "bytes \<Rightarrow> nat \<Rightarrow> nat \<Rightarrow> nat \<Rightarrow> nat \<Rightarrow> nat" where
  "lz_forward src ref ip maxm m =
     (if m < maxm \<and> src ! (ref + m) = src ! (ip + m)
      then lz_forward src ref ip maxm (m + 1) else m)"
  by pat_completeness auto
termination
  by (relation "measure (\<lambda>(src, ref, ip, maxm, m). maxm - m)") auto

declare lz_forward.simps [simp del]

text \<open>\<open>while (ip > anchor && ref > 0 && src[ip - 1] == src[ref - 1]) { ip--; ref--; m++; }\<close>\<close>

function lz_backward :: "bytes \<Rightarrow> nat \<Rightarrow> nat \<Rightarrow> nat \<Rightarrow> nat \<Rightarrow> nat \<times> nat \<times> nat" where
  "lz_backward src anchor ip ref m =
     (if ip > anchor \<and> ref > 0 \<and> src ! (ip - 1) = src ! (ref - 1)
      then lz_backward src anchor (ip - 1) (ref - 1) (m + 1) else (ip, ref, m))"
  by pat_completeness auto
termination
  by (relation "measure (\<lambda>(src, anchor, ip, ref, m). ip)") auto

declare lz_backward.simps [simp del]

lemma lz_forward_ge: "m \<le> lz_forward src ref ip maxm m"
  by (induction src ref ip maxm m rule: lz_forward.induct) (subst lz_forward.simps, auto)

lemma lz_backward_sum:
  "lz_backward src anchor ip ref m = (ip', ref', m') \<Longrightarrow> ip' + m' = ip + m \<and> m \<le> m'"
proof (induction src anchor ip ref m rule: lz_backward.induct)
  case (1 src anchor ip ref m)
  show ?case
  proof (cases "ip > anchor \<and> ref > 0 \<and> src ! (ip - 1) = src ! (ref - 1)")
    case True
    with 1 show ?thesis by (subst (asm) lz_backward.simps) fastforce
  next
    case False
    with "1.prems" show ?thesis by (subst (asm) lz_backward.simps) auto
  qed
qed

text \<open>The state of the compressor's main loop.\<close>

record lz_state =
  lz_table :: "nat \<Rightarrow> u32"
  lz_op :: bytes
  lz_ip :: nat
  lz_anchor :: nat

text \<open>The table entry for position \<open>i\<close>.\<close>

definition lz_remember :: "bytes \<Rightarrow> nat \<Rightarrow> (nat \<Rightarrow> u32) \<Rightarrow> nat \<Rightarrow> u32" where
  "lz_remember src i t = t(lz_hash (read32 src i) := of_nat i + 1)"

text \<open>One sequence: token, literals from \<open>anchor\<close> to \<open>ip\<close>, offset, match length.\<close>

definition lz_emit_match :: "bytes \<Rightarrow> bytes \<Rightarrow> nat \<Rightarrow> nat \<Rightarrow> nat \<Rightarrow> nat \<Rightarrow> bytes" where
  "lz_emit_match src op anchor ip ref m =
     (let tok = length op;
          op1 = emit_literals (op @ [0]) tok (take (ip - anchor) (drop anchor src));
          off = ip - ref;
          op2 = op1 @ [of_nat off, of_nat (off div 256)];
          ml = m - 4;
          op3 = op2[tok := op2 ! tok OR of_nat (if ml \<ge> 15 then 15 else ml)]
      in if ml \<ge> 15 then op3 @ put_len (ml - 15) else op3)"

text \<open>One iteration of the main loop (\<open>ip \<le> limit\<close> holds).\<close>

definition lz_step :: "bytes \<Rightarrow> lz_state \<Rightarrow> lz_state" where
  "lz_step src s =
     (let n = length src; limit = n - 12; ip = lz_ip s; anchor = lz_anchor s;
          seq = read32 src ip; h = lz_hash seq;
          cand = unat (lz_table s h);
          table = lz_remember src ip (lz_table s)
      in if cand = 0 \<or> ip - (cand - 1) > 65535 \<or> read32 src (cand - 1) \<noteq> seq
         then s\<lparr>lz_table := table, lz_ip := ip + (1 + (ip - anchor) div 64)\<rparr>
         else
           let m0 = lz_forward src (cand - 1) ip (n - 5 - ip) 4 in
           case lz_backward src anchor ip (cand - 1) m0 of (ip1, ref, m) \<Rightarrow>
             let op = lz_emit_match src (lz_op s) anchor ip1 ref m; ip2 = ip1 + m in
             \<lparr>lz_table = (if ip2 - 2 \<le> limit then lz_remember src (ip2 - 2) table else table),
              lz_op = op, lz_ip = ip2, lz_anchor = ip2\<rparr>)"

lemma lz_step_advances: "lz_ip s < lz_ip (lz_step src s)"
proof -
  have "ip + 4 \<le> ip1 + m"
    if "lz_backward src anchor ip ref (lz_forward src ref ip maxm 4) = (ip1, ref1, m)"
    for anchor ip ref maxm ip1 ref1 m
    using lz_backward_sum [OF that] lz_forward_ge [of 4 src ref ip maxm] by linarith
  then show ?thesis
    by (fastforce simp: lz_step_def Let_def split: prod.splits)
qed

function lz_loop :: "bytes \<Rightarrow> lz_state \<Rightarrow> lz_state" where
  "lz_loop src s =
     (if 12 \<le> length src \<and> lz_ip s \<le> length src - 12 then lz_loop src (lz_step src s) else s)"
  by pat_completeness auto
termination
proof (relation "measure (\<lambda>(src, s). length src - lz_ip s)", goal_cases)
  case (2 src s)
  then show ?case using lz_step_advances [of s src] by auto
qed simp

declare lz_loop.simps [simp del]

text \<open>The result is the bytes written at \<open>dst\<close>; the code returns their number.\<close>

definition rd_lz_compress :: "bytes \<Rightarrow> nat \<Rightarrow> bytes" where
  "rd_lz_compress src cap =
     (if cap < rd_lz_bound (length src) then []
      else let s = lz_loop src \<lparr>lz_table = (\<lambda>_. 0), lz_op = [], lz_ip = 0, lz_anchor = 0\<rparr>;
               op = lz_op s
           in emit_literals (op @ [0]) (length op) (drop (lz_anchor s) src))"

section \<open>Decompressor\<close>

text \<open>\<open>None\<close> is the return value -1, otherwise the new position and length.\<close>

function read_len :: "bytes \<Rightarrow> nat \<Rightarrow> nat \<Rightarrow> (nat \<times> nat) option" where
  "read_len src ip len =
     (if ip \<ge> length src then None
      else if src ! ip = 255 then read_len src (ip + 1) (len + 255)
      else Some (ip + 1, len + unat (src ! ip)))"
  by pat_completeness auto
termination
  by (relation "measure (\<lambda>(src, ip, len). length src - ip)") auto

declare read_len.simps [simp del]

lemma read_len_advances: "read_len src ip len = Some (ip', len') \<Longrightarrow> ip < ip' \<and> ip' \<le> length src"
proof (induction src ip len rule: read_len.induct)
  case (1 src ip len)
  then show ?case
    by (simp add: read_len.simps [of src ip len] split: if_splits)
qed

definition read_len15 :: "bytes \<Rightarrow> nat \<Rightarrow> nat \<Rightarrow> (nat \<times> nat) option" where
  "read_len15 src ip len = (if len = 15 then read_len src ip len else Some (ip, len))"

lemma read_len15_advances: "read_len15 src ip len = Some (ip', len') \<Longrightarrow> ip \<le> ip'"
  by (auto simp: read_len15_def split: if_splits dest: read_len_advances)

text \<open>\<open>for (i = 0; i < ml; i++) d[i] = s[i]\<close> with \<open>s = d - off\<close>, one byte at a time.\<close>

fun copy_run :: "bytes \<Rightarrow> nat \<Rightarrow> nat \<Rightarrow> bytes" where
  "copy_run out off 0 = out"
| "copy_run out off (Suc k) = copy_run (out @ [out ! (length out - off)]) off k"

definition copy_match :: "bytes \<Rightarrow> nat \<Rightarrow> nat \<Rightarrow> bytes" where
  "copy_match out off ml =
     (if off \<ge> ml then out @ take ml (drop (length out - off) out) else copy_run out off ml)"

text \<open>\<open>out\<close> is what is in \<open>dst\<close> so far, so \<open>op\<close> is its length. \<open>None\<close> is the return value -1.\<close>

function lz_dec :: "bytes \<Rightarrow> nat \<Rightarrow> nat \<Rightarrow> bytes \<Rightarrow> bytes option" where
  "lz_dec src cap ip out =
     (let n = length src in
      if ip \<ge> n then Some out
      else
        let t = src ! ip; op = length out in
        case read_len15 src (ip + 1) (unat (drop_bit 4 t)) of
          None \<Rightarrow> None
        | Some (ip1, lit) \<Rightarrow>
            if lit > n - ip1 \<or> lit > cap - op then None
            else
              let out1 = out @ take lit (drop ip1 src); ip2 = ip1 + lit; op1 = op + lit in
              if ip2 = n then Some out1
              else if n - ip2 < 2 then None
              else
                let off = unat (src ! ip2) + 256 * unat (src ! (ip2 + 1)); ip3 = ip2 + 2 in
                if off = 0 \<or> off > op1 then None
                else case read_len15 src ip3 (unat (t AND 15)) of
                    None \<Rightarrow> None
                  | Some (ip4, ml0) \<Rightarrow>
                      let ml = ml0 + 4 in
                      if ml > cap - op1 then None
                      else lz_dec src cap ip4 (copy_match out1 off ml))"
  by pat_completeness auto
termination
  by (relation "measure (\<lambda>(src, cap, ip, out). length src - ip)")
     (auto dest!: read_len15_advances)

declare lz_dec.simps [simp del]

definition rd_lz_decompress :: "bytes \<Rightarrow> nat \<Rightarrow> bytes option" where
  "rd_lz_decompress src cap = lz_dec src cap 0 []"

section \<open>Encoding of one sequence\<close>

definition len_bytes :: "nat \<Rightarrow> bytes" where
  "len_bytes k = (if k \<ge> 15 then put_len (k - 15) else [])"

definition enc_seq :: "bytes \<Rightarrow> nat \<Rightarrow> nat \<Rightarrow> bytes" where
  "enc_seq lit off m =
     (push_bit 4 (of_nat (min 15 (length lit))) OR of_nat (min 15 (m - 4))) #
     len_bytes (length lit) @ lit @ [of_nat off, of_nat (off div 256)] @ len_bytes (m - 4)"

definition enc_last :: "bytes \<Rightarrow> bytes" where
  "enc_last lit = push_bit 4 (of_nat (min 15 (length lit))) # len_bytes (length lit) @ lit"

lemma emit_literals_eq:
  "emit_literals (op @ [0]) (length op) lit =
     op @ push_bit 4 (of_nat (min 15 (length lit))) # len_bytes (length lit) @ lit"
  by (auto simp: emit_literals_def Let_def len_bytes_def min_def)

lemma lz_emit_match_eq:
  assumes "anchor \<le> ip" "ip \<le> length src"
  shows "lz_emit_match src op anchor ip ref m =
    op @ enc_seq (take (ip - anchor) (drop anchor src)) (ip - ref) m"
  using assms
  by (auto simp: lz_emit_match_def Let_def emit_literals_eq enc_seq_def len_bytes_def min_def
      nth_append list_update_append)

lemma token_hi: 
  assumes "a < 16" "b < 16"
  shows "unat (drop_bit 4 (push_bit 4 (of_nat a) OR of_nat b :: u8)) = a"
proof -
  have "\<forall>a\<in>{..<16}. \<forall>b\<in>{..<16}. unat (drop_bit 4 (push_bit 4 (of_nat a) OR of_nat b :: u8)) = a"
    by (simp add: lessThan_nat_numeral)
  with assms show ?thesis by simp
qed

lemma token_lo: 
  assumes "a < 16" "b < 16"
  shows "unat ((push_bit 4 (of_nat a) OR of_nat b :: u8) AND 15) = b"
proof -
  have "\<forall>a\<in>{..<16}. \<forall>b\<in>{..<16}. unat ((push_bit 4 (of_nat a) OR of_nat b :: u8) AND 15) = b"
    by (simp add: lessThan_nat_numeral)
  with assms show ?thesis by simp
qed

lemma read_len_put_len:
  "read_len (pre @ put_len k @ rest) (length pre) len = Some (length pre + length (put_len k), len + k)"
proof (induction k arbitrary: pre len rule: put_len.induct)
  case (1 k)
  show ?case
  proof (cases "255 \<le> k")
    case True
    have "read_len ((pre @ [255]) @ put_len (k - 255) @ rest) (length (pre @ [255])) (len + 255) =
        Some (length (pre @ [255]) + length (put_len (k - 255)), len + 255 + (k - 255))"
      using True by (rule 1)
    with True show ?thesis
      by (simp add: put_len.simps [of k] read_len.simps [of _ "length pre" len])
  next
    case False
    then have u: "unat (of_nat k :: u8) = k" by simp
    moreover have "(of_nat k :: u8) \<noteq> 255"
    proof
      assume "(of_nat k :: u8) = 255"
      with u have "k = 255" by simp
      with False show False by simp
    qed
    ultimately show ?thesis using False
      by (simp add: put_len.simps [of k] read_len.simps [of _ "length pre" len])
  qed
qed


lemma read_len15_len_bytes:
  assumes "a = unat (of_nat (min 15 k) :: u8)"
  shows "read_len15 (pre @ len_bytes k @ rest) (length pre) (min 15 k) =
    Some (length pre + length (len_bytes k), k)"
  using read_len_put_len [of pre "k - 15" rest 15]
  by (auto simp: read_len15_def len_bytes_def min_def)

lemma length_copy_run:
  "length (copy_run out off k) = length out + k"
  by (induction out off k rule: copy_run.induct) auto

lemma copy_match_length: "0 < off \<Longrightarrow> off \<le> length out \<Longrightarrow> length (copy_match out off ml) = length out + ml"
  by (auto simp: copy_match_def length_copy_run)

lemma copy_run_source:
  assumes "0 < off" "off \<le> i" "i + k \<le> length src"
    "\<And>j. j < k \<Longrightarrow> src ! (i - off + j) = src ! (i + j)"
  shows "copy_run (take i src) off k = take (i + k) src"
  using assms
proof (induction k arbitrary: i)
  case (Suc k)
  have "take i src ! (length (take i src) - off) = src ! i"
    using Suc.prems(1-3) Suc.prems(4) [of 0] by simp
  then have "take i src @ [take i src ! (length (take i src) - off)] = take (i + 1) src"
    using Suc.prems(3) by (simp add: take_Suc_conv_app_nth)
  moreover have "copy_run (take (i + 1) src) off k = take (i + 1 + k) src"
  proof (rule Suc.IH)
    fix j assume "j < k"
    then show "src ! (i + 1 - off + j) = src ! (i + 1 + j)"
      using Suc.prems(4) [of "Suc j"] Suc.prems(2) by (simp add: Suc_diff_le)
  qed (use Suc.prems in auto)
  ultimately show ?case by simp
qed simp

lemma copy_match_source:
  assumes "0 < off" "off \<le> i" "i + m \<le> length src"
    "\<And>j. j < m \<Longrightarrow> src ! (i - off + j) = src ! (i + j)"
  shows "copy_match (take i src) off m = take (i + m) src"
proof (cases "off \<ge> m")
  case True
  have "take m (drop (i - off) (take i src)) = take m (drop i src)"
  proof (rule nth_equalityI)
    show "length (take m (drop (i - off) (take i src))) = length (take m (drop i src))"
      using True assms by auto
  next
    fix j assume "j < length (take m (drop (i - off) (take i src)))"
    then show "take m (drop (i - off) (take i src)) ! j = take m (drop i src) ! j"
      using True assms by auto
  qed
  with True assms show ?thesis by (simp add: copy_match_def take_add)
next
  case False
  with copy_run_source [OF assms] show ?thesis by (simp add: copy_match_def)
qed

section \<open>The decoder on encoded sequences\<close>

text \<open>One unfolding of the decoder, with the intermediate values named.\<close>

lemma lz_dec_unfold_match:
  assumes "ip < length z" "t = z ! ip"
    and "read_len15 z (ip + 1) (unat (drop_bit 4 t)) = Some (ip1, lit)"
    and "ip1 + lit + 2 \<le> length z" "length out + lit \<le> cap"
    and "ip2 = ip1 + lit" "off = unat (z ! ip2) + 256 * unat (z ! (ip2 + 1))"
    and "0 < off" "off \<le> length out + lit"
    and "read_len15 z (ip2 + 2) (unat (t AND 15)) = Some (ip4, ml)"
    and "length out + lit + (ml + 4) \<le> cap"
  shows "lz_dec z cap ip out = lz_dec z cap ip4 (copy_match (out @ take lit (drop ip1 z)) off (ml + 4))"
proof -
  have "\<not> (lit > length z - ip1 \<or> lit > cap - length out)" "ip1 + lit \<noteq> length z"
    "\<not> length z - (ip1 + lit) < 2" "\<not> ml + 4 > cap - (length out + lit)"
    using assms by linarith+
  with assms show ?thesis by (subst lz_dec.simps) (auto simp: Let_def)
qed

lemma lz_dec_unfold_last:
  assumes "ip < length z" "t = z ! ip"
    and "read_len15 z (ip + 1) (unat (drop_bit 4 t)) = Some (ip1, lit)"
    and "ip1 + lit = length z" "length out + lit \<le> cap"
  shows "lz_dec z cap ip out = Some (out @ drop ip1 z)"
  using assms by (subst lz_dec.simps) (auto simp: Let_def)

lemma lz_dec_seq:
  fixes pre lit rest :: bytes and off m :: nat
  defines "z \<equiv> pre @ enc_seq lit off m @ rest"
  assumes off: "0 < off" "off \<le> length out + length lit" "off < 65536"
    and m: "4 \<le> m" and cap: "length out + length lit + m \<le> cap"
  shows "lz_dec z cap (length pre) out =
    lz_dec z cap (length pre + length (enc_seq lit off m)) (copy_match (out @ lit) off m)"
proof -
  define t :: u8 where "t = push_bit 4 (of_nat (min 15 (length lit))) OR of_nat (min 15 (m - 4))"
  define L where "L = len_bytes (length lit)"
  define M where "M = len_bytes (m - 4)"
  define os :: bytes where "os = [of_nat off, of_nat (off div 256)]"
  define ip1 where "ip1 = length (pre @ [t] @ L)"
  define ip2 where "ip2 = ip1 + length lit"
  have z: "z = pre @ t # L @ lit @ os @ M @ rest"
    by (simp add: z_def enc_seq_def t_def L_def M_def os_def)
  have enc: "length pre + length (enc_seq lit off m) = ip2 + 2 + length M"
    by (simp add: enc_seq_def ip2_def ip1_def L_def M_def)
  have hi: "unat (drop_bit 4 t) = min 15 (length lit)" and lo: "unat (t AND 15) = min 15 (m - 4)"
    unfolding t_def by (rule token_hi token_lo; simp)+
  have rl1: "read_len15 z (length pre + 1) (unat (drop_bit 4 t)) = Some (ip1, length lit)"
    using read_len15_len_bytes [of _ "length lit" "pre @ [t]" "lit @ os @ M @ rest"]
    by (simp add: z hi ip1_def L_def)
  have rl2: "read_len15 z (ip2 + 2) (unat (t AND 15)) = Some (ip2 + 2 + length M, m - 4)"
    using read_len15_len_bytes [of _ "m - 4" "pre @ t # L @ lit @ os" rest]
    by (simp add: z lo M_def os_def ip2_def ip1_def add.assoc)
  have lits: "take (length lit) (drop ip1 z) = lit" by (simp add: z ip1_def)
  have tl: "drop ip2 z = os @ M @ rest" by (simp add: z ip1_def ip2_def)
  have "ip2 \<le> length z" by (simp add: z ip1_def ip2_def)
  then have "z ! ip2 = drop ip2 z ! 0" "z ! (ip2 + 1) = drop ip2 z ! 1"
    by simp_all
  then have offv: "off = unat (z ! ip2) + 256 * unat (z ! (ip2 + 1))"
    using off(3) unfolding tl os_def by (simp add: unsigned_of_nat take_bit_eq_mod)
  have "lz_dec z cap (length pre) out = lz_dec z cap (ip2 + 2 + length M)
      (copy_match (out @ take (length lit) (drop ip1 z)) off (m - 4 + 4))"
    by (rule lz_dec_unfold_match [OF _ _ rl1 _ _ ip2_def offv _ _ rl2])
       (use off m cap in \<open>simp_all add: z ip1_def os_def\<close>)
  then show ?thesis using m by (simp add: enc lits)
qed

lemma lz_dec_last:
  fixes pre lit out :: bytes
  defines "z \<equiv> pre @ enc_last lit"
  assumes "length out + length lit \<le> cap"
  shows "lz_dec z cap (length pre) out = Some (out @ lit)"
proof -
  define t :: u8 where "t = push_bit 4 (of_nat (min 15 (length lit)))"
  define L where "L = len_bytes (length lit)"
  define ip1 where "ip1 = length (pre @ [t] @ L)"
  have z: "z = pre @ t # L @ lit" by (simp add: z_def enc_last_def t_def L_def)
  have hi: "unat (drop_bit 4 t) = min 15 (length lit)"
    using token_hi [of "min 15 (length lit)" 0] by (simp add: t_def)
  have rl1: "read_len15 z (length pre + 1) (unat (drop_bit 4 t)) = Some (ip1, length lit)"
    using read_len15_len_bytes [of _ "length lit" "pre @ [t]" "lit"]
    by (simp add: z hi ip1_def L_def)
  have "lz_dec z cap (length pre) out = Some (out @ drop ip1 z)"
    by (rule lz_dec_unfold_last [OF _ _ rl1]) (use assms(2) in \<open>simp_all add: z ip1_def\<close>)
  then show ?thesis by (simp add: z ip1_def)
qed

section \<open>The compressor's matches are matches\<close>

lemma rd_wr32_rd32: "rd_wr32 (rd_rd32 (a # b # c # d # r)) = [a, b, c, d]"
proof -
  have "ucast (drop_bit s (rd_rd32 (a # b # c # d # r))) = [a, b, c, d] ! (s div 8)"
    if "s \<in> {0, 8, 16, 24}" for s
    using that by (intro bit_word_eqI) (auto simp: rd_rd32_def bit_simps dest: bit_imp_le_length)
  from this [of 0] this [of 8] this [of 16] this [of 24] show ?thesis
    by (simp add: rd_wr32_def)
qed

lemma read32_eq:
  assumes "i + 4 \<le> length src" "j + 4 \<le> length src" "read32 src i = read32 src j" "k < 4"
  shows "src ! (i + k) = src ! (j + k)"
proof -
  have four: "\<exists>a b c d r. drop i src = a # b # c # d # r" if "i + 4 \<le> length src" for i
  proof -
    have "length (take 4 (drop i src)) = 4" using that by simp
    then obtain a b c d where "take 4 (drop i src) = [a, b, c, d]"
      unfolding length_4_conv by blast
    then have "drop i src = [a, b, c, d] @ drop 4 (drop i src)" by (metis append_take_drop_id)
    then show ?thesis by (metis append_Cons append_Nil)
  qed
  from four [OF assms(1)] four [OF assms(2)] obtain a b c d r a' b' c' d' r'
    where i: "drop i src = a # b # c # d # r" and j: "drop j src = a' # b' # c' # d' # r'" by blast
  from assms(3) have "rd_wr32 (read32 src i) = rd_wr32 (read32 src j)" by simp
  then have "[a, b, c, d] = [a', b', c', d']" by (simp add: read32_def i j rd_wr32_rd32)
  moreover have "src ! (i + k) = drop i src ! k" "src ! (j + k) = drop j src ! k"
    using assms(1,2) by simp_all
  ultimately show ?thesis
    using assms(4) by (auto simp: i j nth_Cons' )
qed

lemma lz_forward_matches:
  assumes "\<And>k. k < m \<Longrightarrow> src ! (ref + k) = src ! (ip + k)" and "k < lz_forward src ref ip maxm m"
  shows "src ! (ref + k) = src ! (ip + k)"
  using assms
proof (induction src ref ip maxm m rule: lz_forward.induct)
  case (1 src ref ip maxm m)
  show ?case
  proof (cases "m < maxm \<and> src ! (ref + m) = src ! (ip + m)")
    case True
    have "src ! (ref + j) = src ! (ip + j)" if "j < m + 1" for j
      using that True "1.prems"(1) by (cases "j = m") auto
    from "1.IH" [OF True this] "1.prems"(2) True show ?thesis
      by (simp add: lz_forward.simps [of src ref ip maxm m])
  next
    case False
    with "1.prems" show ?thesis by (simp add: lz_forward.simps [of src ref ip maxm m])
  qed
qed

lemma lz_forward_le: "m \<le> maxm \<Longrightarrow> lz_forward src ref ip maxm m \<le> maxm"
  by (induction src ref ip maxm m rule: lz_forward.induct) (subst lz_forward.simps, auto)

lemma lz_backward_matches:
  assumes "lz_backward src anchor ip ref m = (ip', ref', m')"
    and "ref < ip" "anchor \<le> ip" "\<And>k. k < m \<Longrightarrow> src ! (ref + k) = src ! (ip + k)"
  shows "anchor \<le> ip' \<and> ip' \<le> ip \<and> ref' < ip' \<and> ip' - ref' = ip - ref \<and>
    (\<forall>k < m'. src ! (ref' + k) = src ! (ip' + k))"
  using assms
proof (induction src anchor ip ref m rule: lz_backward.induct)
  case (1 src anchor ip ref m)
  show ?case
  proof (cases "ip > anchor \<and> ref > 0 \<and> src ! (ip - 1) = src ! (ref - 1)")
    case True
    have "src ! (ref - 1 + j) = src ! (ip - 1 + j)" if "j < m + 1" for j
    proof (cases j)
      case 0
      with True show ?thesis by simp
    next
      case (Suc i)
      with that True "1.prems"(4) [of i] show ?thesis by (simp add: Suc_diff_le)
    qed
    moreover have "lz_backward src anchor (ip - 1) (ref - 1) (m + 1) = (ip', ref', m')"
      using "1.prems"(1) True by (simp add: lz_backward.simps [of src anchor ip ref m])
    moreover have "ref - 1 < ip - 1" "anchor \<le> ip - 1" using True "1.prems"(2) by auto
    ultimately show ?thesis using "1.IH" [OF True] "1.prems"(2) True by auto
  next
    case False
    then have "lz_backward src anchor ip ref m = (ip, ref, m)"
      by (subst lz_backward.simps) auto
    with "1.prems" show ?thesis by auto
  qed
qed


section \<open>The main loop\<close>

text \<open>
  What is written so far decodes to \<open>p\<close>, whatever is appended (a token at least), in a
  destination large enough for \<open>p\<close>.
\<close>

definition decodes_to :: "bytes \<Rightarrow> bytes \<Rightarrow> bool" where
  "decodes_to op p \<longleftrightarrow> (\<forall>rest cap. length p \<le> cap \<longrightarrow>
     lz_dec (op @ rest) cap 0 [] = lz_dec (op @ rest) cap (length op) p)"

lemma decodes_to_Nil: "decodes_to [] []"
  by (simp add: decodes_to_def)

lemma decodes_to_seq:
  assumes d: "decodes_to op p" and off: "0 < off" "off \<le> length p + length lit" "off < 65536"
    and m: "4 \<le> m"
  shows "decodes_to (op @ enc_seq lit off m) (copy_match (p @ lit) off m)"
  unfolding decodes_to_def
proof (intro allI impI)
  fix rest cap
  assume "length (copy_match (p @ lit) off m) \<le> cap"
  then have cap: "length p + length lit + m \<le> cap"
    using off by (simp add: copy_match_length)
  with d have "lz_dec (op @ (enc_seq lit off m @ rest)) cap 0 [] =
      lz_dec (op @ (enc_seq lit off m @ rest)) cap (length op) p"
    unfolding decodes_to_def by (metis add_leE)
  with lz_dec_seq [OF off m cap, of op rest]
  show "lz_dec ((op @ enc_seq lit off m) @ rest) cap 0 [] =
      lz_dec ((op @ enc_seq lit off m) @ rest) cap (length (op @ enc_seq lit off m))
        (copy_match (p @ lit) off m)"
    by simp
qed

definition lz_inv :: "bytes \<Rightarrow> lz_state \<Rightarrow> bool" where
  "lz_inv src s \<longleftrightarrow>
     lz_anchor s \<le> lz_ip s \<and> lz_anchor s \<le> length src \<and>
     (\<forall>h. unat (lz_table s h) \<le> lz_ip s) \<and>
     decodes_to (lz_op s) (take (lz_anchor s) src) \<and>
     255 * length (lz_op s) \<le> 256 * lz_anchor s"

lemma length_put_len: "length (put_len k) = k div 255 + 1"
proof (induction k rule: put_len.induct)
  case (1 k)
  show ?case
  proof (cases "255 \<le> k")
    case True
    with 1 show ?thesis by (subst put_len.simps) (simp add: le_div_geq)
  next
    case False
    then show ?thesis by (subst put_len.simps) simp
  qed
qed

lemma length_len_bytes: "255 * length (len_bytes k) \<le> (if k \<ge> 15 then k + 240 else 0)"
proof (cases "15 \<le> k")
  case True
  have "255 * ((k - 15) div 255) \<le> k - 15" by (metis div_times_less_eq_dividend mult.commute)
  with True show ?thesis by (simp add: len_bytes_def length_put_len)
qed (simp add: len_bytes_def)

lemma length_enc_seq:
  assumes "4 \<le> m"
  shows "255 * length (enc_seq lit off m) \<le> 256 * (length lit + m)"
  using assms length_len_bytes [of "length lit"] length_len_bytes [of "m - 4"]
  by (simp add: enc_seq_def split: if_splits)

lemma lz_remember_le:
  assumes "\<forall>h. unat (t h) \<le> k" "i < k"
  shows "unat (lz_remember src i t h) \<le> k"
proof -
  have "unat (of_nat i + 1 :: u32) \<le> i + 1"
    by (metis Suc_eq_plus1 mod_less_eq_dividend of_nat_Suc add.commute unat_of_nat)
  with assms show ?thesis by (auto simp: lz_remember_def)
qed

lemma lz_step_match:
  assumes cand: "cand = unat (lz_table s (lz_hash (read32 src (lz_ip s))))"
    and c: "\<not> (cand = 0 \<or> lz_ip s - (cand - 1) > 65535 \<or>
      read32 src (cand - 1) \<noteq> read32 src (lz_ip s))"
    and b: "lz_backward src (lz_anchor s) (lz_ip s) (cand - 1)
      (lz_forward src (cand - 1) (lz_ip s) (length src - 5 - lz_ip s) 4) = (ip1, ref, m)"
  shows "lz_step src s =
    \<lparr>lz_table = (if ip1 + m - 2 \<le> length src - 12
       then lz_remember src (ip1 + m - 2) (lz_remember src (lz_ip s) (lz_table s))
       else lz_remember src (lz_ip s) (lz_table s)),
     lz_op = lz_emit_match src (lz_op s) (lz_anchor s) ip1 ref m,
     lz_ip = ip1 + m, lz_anchor = ip1 + m\<rparr>"
  unfolding lz_step_def Let_def cand [symmetric] if_not_P [OF c] b prod.case by (rule refl)

lemma lz_inv_step:
  assumes inv: "lz_inv src s" and lim: "12 \<le> length src" "lz_ip s \<le> length src - 12"
  shows "lz_inv src (lz_step src s)"
proof -
  define ip where "ip = lz_ip s"
  define anchor where "anchor = lz_anchor s"
  define cand where "cand = unat (lz_table s (lz_hash (read32 src ip)))"
  define table where "table = lz_remember src ip (lz_table s)"
  have ai: "anchor \<le> ip" "anchor \<le> length src" and tab: "\<forall>h. unat (lz_table s h) \<le> ip"
    and dec: "decodes_to (lz_op s) (take anchor src)" and sz: "255 * length (lz_op s) \<le> 256 * anchor"
    using inv by (simp_all add: lz_inv_def ip_def anchor_def)
  have ipn: "ip + 12 \<le> length src" using lim by (simp add: ip_def)
  have table: "unat (table h) \<le> k" if "ip < k" for h k
    unfolding table_def by (rule lz_remember_le) (use tab that in \<open>auto intro: order_trans [OF _ less_imp_le]\<close>)
  show ?thesis
  proof (cases "cand = 0 \<or> ip - (cand - 1) > 65535 \<or> read32 src (cand - 1) \<noteq> read32 src ip")
    case True
    then have "lz_step src s = s\<lparr>lz_table := table, lz_ip := ip + (1 + (ip - anchor) div 64)\<rparr>"
      by (auto simp: lz_step_def Let_def ip_def anchor_def cand_def table_def)
    with ai dec sz table show ?thesis by (simp add: lz_inv_def anchor_def [symmetric])
  next
    case False
    define ref where "ref = cand - 1"
    have ref: "ref < ip" "ip - ref \<le> 65535" "read32 src ref = read32 src ip"
      using False tab by (auto simp: ref_def cand_def) (metis less_eq_Suc_le Suc_pred not_gr0)
    define m0 where "m0 = lz_forward src ref ip (length src - 5 - ip) 4"
    obtain ip1 ref1 m where b: "lz_backward src anchor ip ref m0 = (ip1, ref1, m)"
      by (metis prod_cases3)
    have four: "src ! (ref + k) = src ! (ip + k)" if "k < 4" for k
      using read32_eq [of ref src ip k] ref ipn that by simp
    have match0: "\<And>k. k < m0 \<Longrightarrow> src ! (ref + k) = src ! (ip + k)"
      unfolding m0_def by (rule lz_forward_matches [OF four])
    have m0: "4 \<le> m0" "ip + m0 \<le> length src - 5"
      using lz_forward_ge [of 4 src ref ip "length src - 5 - ip"]
        lz_forward_le [of 4 "length src - 5 - ip" src ref ip] ipn unfolding m0_def by linarith+
    from lz_backward_matches [OF b ref(1) ai(1) match0]
    have ip1: "anchor \<le> ip1" "ip1 \<le> ip" "ref1 < ip1" "ip1 - ref1 = ip - ref"
      and match: "\<And>k. k < m \<Longrightarrow> src ! (ref1 + k) = src ! (ip1 + k)" by auto
    have sum: "ip1 + m = ip + m0" "m0 \<le> m" using lz_backward_sum [OF b] by auto
    define lit where "lit = take (ip1 - anchor) (drop anchor src)"
    define op where "op = lz_op s @ enc_seq lit (ip1 - ref1) m"
    have step: "lz_step src s =
        \<lparr>lz_table = (if ip1 + m - 2 \<le> length src - 12 then lz_remember src (ip1 + m - 2) table else table),
         lz_op = op, lz_ip = ip1 + m, lz_anchor = ip1 + m\<rparr>"
      using lz_step_match [OF cand_def [unfolded ip_def] False [unfolded ip_def]
          b [unfolded m0_def ref_def ip_def anchor_def]] ip1 ipn
      by (simp add: lz_emit_match_eq op_def lit_def ip_def anchor_def table_def)
    have ll: "take anchor src @ lit = take ip1 src" and lenlit: "length lit = ip1 - anchor"
      using ip1 ipn by (simp_all add: lit_def take_add [symmetric])
    have "copy_match (take ip1 src) (ip1 - ref1) m = take (ip1 + m) src"
    proof (rule copy_match_source)
      show "src ! (ip1 - (ip1 - ref1) + j) = src ! (ip1 + j)" if "j < m" for j
        using match [OF that] ip1(3) by simp
    qed (use ip1(3) sum m0 in auto)
    moreover have "decodes_to op (copy_match (take anchor src @ lit) (ip1 - ref1) m)"
      unfolding op_def
      by (rule decodes_to_seq [OF dec]) (use ip1 ref sum m0 ai lenlit in auto)
    ultimately have "decodes_to op (take (ip1 + m) src)" by (simp add: ll)
    moreover have "255 * length op \<le> 256 * (ip1 + m)"
      using sz length_enc_seq [of m lit "ip1 - ref1"] m0 sum lenlit ip1 by (simp add: op_def)
    moreover have "unat ((if ip1 + m - 2 \<le> length src - 12
        then lz_remember src (ip1 + m - 2) table else table) h) \<le> ip1 + m" for h
      using table sum m0 by (auto intro!: lz_remember_le)
    ultimately show ?thesis using sum m0 by (simp add: step lz_inv_def)
  qed
qed


lemma lz_inv_loop: "lz_inv src s \<Longrightarrow> lz_inv src (lz_loop src s)"
proof (induction src s rule: lz_loop.induct)
  case (1 src s)
  show ?case
  proof (cases "12 \<le> length src \<and> lz_ip s \<le> length src - 12")
    case True
    with 1 show ?thesis by (subst lz_loop.simps) (simp add: lz_inv_step)
  next
    case False
    with "1.prems" show ?thesis by (subst lz_loop.simps) auto
  qed
qed

lemma rd_lz_compress_eq:
  assumes "rd_lz_bound (length src) \<le> cap"
  shows "\<exists>op anchor. rd_lz_compress src cap = op @ enc_last (drop anchor src) \<and>
    anchor \<le> length src \<and> decodes_to op (take anchor src) \<and> 255 * length op \<le> 256 * anchor"
proof -
  let ?s = "lz_loop src \<lparr>lz_table = (\<lambda>_. 0), lz_op = [], lz_ip = 0, lz_anchor = 0\<rparr>"
  have "lz_inv src \<lparr>lz_table = (\<lambda>_. 0), lz_op = [], lz_ip = 0, lz_anchor = 0\<rparr>"
    by (simp add: lz_inv_def decodes_to_Nil)
  then have "lz_inv src ?s" by (rule lz_inv_loop)
  with assms show ?thesis
    by (auto simp: rd_lz_compress_def Let_def lz_inv_def emit_literals_eq enc_last_def not_less)
qed

lemma length_enc_last: "255 * length (enc_last lit) \<le> 256 * length lit + 495"
  using length_len_bytes [of "length lit"] by (simp add: enc_last_def split: if_splits)

lemma rd_lz_compress_length: "length (rd_lz_compress src cap) \<le> length src + length src div 255 + 2"
proof (cases "rd_lz_bound (length src) \<le> cap")
  case True
  from rd_lz_compress_eq [OF this] obtain op anchor
    where c: "rd_lz_compress src cap = op @ enc_last (drop anchor src)" "anchor \<le> length src"
      "255 * length op \<le> 256 * anchor" by blast
  have "255 * length (rd_lz_compress src cap) \<le> 256 * length src + 495"
    using c length_enc_last [of "drop anchor src"] by simp
  then show ?thesis by linarith
next
  case False
  then show ?thesis by (simp add: rd_lz_compress_def)
qed

lemma rd_lz_roundtrip:
  assumes "rd_lz_bound (length src) \<le> cap" and "length src \<le> dcap"
  shows "rd_lz_decompress (rd_lz_compress src cap) dcap = Some src"
proof -
  from rd_lz_compress_eq [OF assms(1)] obtain op anchor
    where c: "rd_lz_compress src cap = op @ enc_last (drop anchor src)" "anchor \<le> length src"
      and d: "decodes_to op (take anchor src)" by blast
  have "rd_lz_decompress (rd_lz_compress src cap) dcap =
      lz_dec (op @ enc_last (drop anchor src)) dcap (length op) (take anchor src)"
    using d c assms(2) by (simp add: rd_lz_decompress_def decodes_to_def)
  also have "\<dots> = Some (take anchor src @ drop anchor src)"
    by (rule lz_dec_last) (use assms(2) c(2) in simp)
  finally show ?thesis by simp
qed

section \<open>The decoder on arbitrary input\<close>

text \<open>The ways in which one iteration can end without an error.\<close>

lemma lz_dec_Some_cases:
  assumes "lz_dec src cap ip out = Some res"
  obtains (finished) "length src \<le> ip" "res = out"
  | (literals) ip1 lit where "lit \<le> cap - length out" "lit \<le> length src - ip1"
      "res = out @ take lit (drop ip1 src)"
  | (match) ip1 lit ip4 ml off where "ip < length src" "ip < ip4" "lit \<le> length src - ip1"
      "lit \<le> cap - length out" "0 < off" "off \<le> length out + lit"
      "ml \<le> cap - (length out + lit)"
      "lz_dec src cap ip4 (copy_match (out @ take lit (drop ip1 src)) off ml) = Some res"
proof (cases "length src \<le> ip")
  case True
  with assms show ?thesis by (intro finished) (simp_all add: lz_dec.simps [of src cap ip])
next
  case False
  define t where "t = src ! ip"
  from False assms obtain ip1 lit
    where r1: "read_len15 src (ip + 1) (unat (drop_bit 4 t)) = Some (ip1, lit)"
      and lit: "lit \<le> length src - ip1" "lit \<le> cap - length out"
    by (auto simp: lz_dec.simps [of src cap ip] Let_def t_def split: option.splits if_splits)
  show ?thesis
  proof (cases "ip1 + lit = length src")
    case True
    with False assms r1 lit show ?thesis
      by (intro literals [OF lit(2,1)])
         (simp add: lz_dec.simps [of src cap ip] Let_def t_def [symmetric])
  next
    case more: False
    define off where "off = unat (src ! (ip1 + lit)) + 256 * unat (src ! (ip1 + lit + 1))"
    from False more assms r1 lit obtain ip4 ml
      where r2: "read_len15 src (ip1 + lit + 2) (unat (t AND 15)) = Some (ip4, ml)"
        and ml: "ml + 4 \<le> cap - (length out + lit)" and off: "0 < off" "off \<le> length out + lit"
        and rest: "lz_dec src cap ip4 (copy_match (out @ take lit (drop ip1 src)) off (ml + 4)) = Some res"
      by (auto simp: lz_dec.simps [of src cap ip] Let_def t_def [symmetric] off_def
          split: option.splits if_splits)
    have "ip < ip4" using read_len15_advances [OF r1] read_len15_advances [OF r2] by simp
    with False show ?thesis using lit off ml rest by (intro match) auto
  qed
qed

lemma lz_dec_bound: "lz_dec src cap ip out = Some res \<Longrightarrow> length out \<le> cap \<Longrightarrow> length res \<le> cap"
proof (induction "length src - ip" arbitrary: ip out rule: less_induct)
  case less
  from less.prems(1) show ?case
  proof (cases rule: lz_dec_Some_cases)
    case (match ip1 lit ip4 ml off)
    have "length (copy_match (out @ take lit (drop ip1 src)) off ml) \<le> cap"
      using match less.prems(2) by (simp add: copy_match_length)
    moreover have "length src - ip4 < length src - ip" using match by simp
    ultimately show ?thesis using less.hyps match(8) by blast
  qed (use less.prems(2) in auto)
qed

section \<open>Properties\<close>

text \<open>C24: Decompressing what the compressor wrote gives back the source, for every source
  and for every destination the source fits into.\<close>

theorem rd_lz_decompress_compress:
  assumes "rd_lz_bound (length src) \<le> cap" and "length src \<le> dcap"
  shows "rd_lz_decompress (rd_lz_compress src cap) dcap = Some src"
  using assms by (rule rd_lz_roundtrip)

theorem rd_lz_decompress_compress_witness:
  "rd_lz_decompress (rd_lz_compress (replicate 100 7) 200) 100 = Some (replicate 100 7)"
  by (rule rd_lz_decompress_compress) (simp_all add: rd_lz_bound_def)

text \<open>The compressor never writes more than \<open>rd_lz_bound\<close> bytes, and refuses (size 0) exactly
  when the destination is smaller than that bound.\<close>

theorem rd_lz_compress_within_bound:
  "length (rd_lz_compress src cap) \<le> rd_lz_bound (length src) \<and>
   (rd_lz_compress src cap = [] \<longleftrightarrow> cap < rd_lz_bound (length src))"
proof -
  have "rd_lz_compress src cap \<noteq> []" if "rd_lz_bound (length src) \<le> cap"
    using rd_lz_compress_eq [OF that] by (auto simp: enc_last_def)
  then show ?thesis
    using rd_lz_compress_length [of src cap]
    by (auto simp: rd_lz_bound_def rd_lz_compress_def not_less)
qed

text \<open>On any input, well formed or not, the decompressor stops, and what it has written when it
  reports success is at most the capacity of the destination.\<close>

theorem rd_lz_decompress_within_cap:
  "case rd_lz_decompress src cap of None \<Rightarrow> True | Some out \<Rightarrow> length out \<le> cap"
  using lz_dec_bound [of src cap 0 "[]"] by (auto simp: rd_lz_decompress_def split: option.splits)

end
