(* ===== verification/Rd_Codec.thy ===== *)
theory Rd_Codec
  imports Rd_Lz
begin

text \<open>
  The tile codec of \<open>common/rd_codec.c\<close>: quantisation, the palette with its open-addressed hash
  table, bit packing, the median predictor, the choice of encoding and the decoder. A tile is at
  most 64 x 64 pixels; the source is BGRA bytes with a stride, the decoder's destination a list of
  32-bit pixels with a stride that is updated in place.
\<close>

section \<open>Encodings\<close>

abbreviation RD_TILE :: nat where "RD_TILE \<equiv> 64"

datatype rd_enc = RD_ENC_SOLID | RD_ENC_PALETTE | RD_ENC_ZRGB | RD_ENC_RAW

fun enc_id :: "rd_enc \<Rightarrow> nat" where
  "enc_id RD_ENC_SOLID = 0"
| "enc_id RD_ENC_PALETTE = 1"
| "enc_id RD_ENC_ZRGB = 2"
| "enc_id RD_ENC_RAW = 3"

section \<open>Quantisation\<close>

definition k_quality_mask :: "u8 list" where
  "k_quality_mask = [0xFF, 0xFC, 0xF8, 0xF0]"

definition quality_mask :: "int \<Rightarrow> u8" where
  "quality_mask quality = k_quality_mask ! nat (if quality < 0 then 0 else if quality > 3 then 3 else quality)"

text \<open>The table \<open>q[256]\<close>, as the function it tabulates.\<close>

definition quant :: "u8 \<Rightarrow> u8 \<Rightarrow> u8" where
  "quant qm v =
     (let half = unat (drop_bit 1 (NOT qm)) in
      of_nat (if unat v + half > 255 then 255 else unat v + half) AND qm)"

definition quant_pixel :: "bytes \<Rightarrow> u8 \<Rightarrow> nat \<Rightarrow> u32" where
  "quant_pixel bgra qm at =
     push_bit 16 (ucast (quant qm (bgra ! (at + 2)))) OR
     push_bit 8 (ucast (quant qm (bgra ! (at + 1)))) OR
     ucast (quant qm (bgra ! at))"

definition tile_pixels :: "bytes \<Rightarrow> nat \<Rightarrow> nat \<Rightarrow> nat \<Rightarrow> u8 \<Rightarrow> u32 list" where
  "tile_pixels bgra stride w h qm =
     concat (map (\<lambda>y. map (\<lambda>x. quant_pixel bgra qm (y * stride + x * 4)) [0..<w]) [0..<h])"

section \<open>Palette\<close>

definition pal_hash :: "u32 \<Rightarrow> nat" where
  "pal_hash c = unat (drop_bit 22 (c * 2654435761) AND 1023)"

text \<open>\<open>slot_idx\<close> and \<open>slot_col\<close> together: a slot is free (index -1) or holds an index and a colour.\<close>

type_synonym slots = "nat \<Rightarrow> (nat \<times> u32) option"

record pal_state =
  ps_slots :: slots
  ps_pal :: "u32 list"
  ps_idx :: "u8 list"
  ps_last :: u32
  ps_last_i :: u8

text \<open>
  The probing loop, with as many steps as there are slots as its fuel; \<open>None\<close> would be a probe that
  never ends.
\<close>

fun pal_probe :: "nat \<Rightarrow> slots \<Rightarrow> u32 \<Rightarrow> nat \<Rightarrow> nat option" where
  "pal_probe 0 slots c s = None"
| "pal_probe (Suc fuel) slots c s =
     (case slots s of
        None \<Rightarrow> Some s
      | Some (j, col) \<Rightarrow> if col \<noteq> c then pal_probe fuel slots c ((s + 1) mod 1024) else Some s)"

text \<open>The loop over the pixels; the flag is \<open>is_pal\<close>.\<close>

fun pal_loop :: "u32 list \<Rightarrow> pal_state \<Rightarrow> (bool \<times> pal_state) option" where
  "pal_loop [] st = Some (True, st)"
| "pal_loop (c # cs) st =
     (if c = ps_last st
      then pal_loop cs (st\<lparr>ps_idx := ps_idx st @ [ps_last_i st]\<rparr>)
      else
        case pal_probe 1024 (ps_slots st) c (pal_hash c) of
          None \<Rightarrow> None
        | Some s \<Rightarrow>
            (case ps_slots st s of
               None \<Rightarrow>
                 (let np = length (ps_pal st) in
                  if np = 256 then Some (False, st)
                  else pal_loop cs
                    \<lparr>ps_slots = (ps_slots st)(s := Some (np, c)), ps_pal = ps_pal st @ [c],
                     ps_idx = ps_idx st @ [of_nat np], ps_last = c, ps_last_i = of_nat np\<rparr>)
             | Some (j, col) \<Rightarrow>
                 pal_loop cs (st\<lparr>ps_idx := ps_idx st @ [of_nat j], ps_last := c, ps_last_i := of_nat j\<rparr>)))"

definition pal_build :: "u32 list \<Rightarrow> (bool \<times> pal_state) option" where
  "pal_build px = pal_loop px
     \<lparr>ps_slots = (\<lambda>_. None), ps_pal = [], ps_idx = [], ps_last = NOT (px ! 0), ps_last_i = 0\<rparr>"

definition put_rgb :: "alloc \<Rightarrow> rd_buf \<Rightarrow> u32 \<Rightarrow> rd_buf" where
  "put_rgb al out c = rd_buf_put al out [ucast (drop_bit 16 c), ucast (drop_bit 8 c), ucast c]"

definition bits_per_index :: "nat \<Rightarrow> nat" where
  "bits_per_index np = (if np \<le> 2 then 1 else if np \<le> 4 then 2 else if np \<le> 16 then 4 else 8)"

definition index_shift :: "nat \<Rightarrow> nat \<Rightarrow> nat" where
  "index_shift bpp x = 8 - bpp * (x mod (8 div bpp) + 1)"

definition row_bytes :: "nat \<Rightarrow> nat \<Rightarrow> nat" where
  "row_bytes w bpp = (w * bpp + 7) div 8"

text \<open>One packed row: \<open>dr[x / per_byte] |= sr[x] << shift\<close> for every \<open>x\<close>.\<close>

definition pack_row :: "nat \<Rightarrow> nat \<Rightarrow> (nat \<Rightarrow> u8) \<Rightarrow> bytes" where
  "pack_row bpp w sr =
     fold (\<lambda>x dr. dr[x div (8 div bpp) :=
         dr ! (x div (8 div bpp)) OR push_bit (index_shift bpp x) (sr x)])
       [0..<w] (replicate (row_bytes w bpp) 0)"

definition pack_tile :: "nat \<Rightarrow> nat \<Rightarrow> nat \<Rightarrow> u8 list \<Rightarrow> bytes" where
  "pack_tile bpp w h idx =
     concat (map (\<lambda>y. pack_row bpp w (\<lambda>x. idx ! (y * w + x))) [0..<h])"

section \<open>Prediction\<close>

definition med :: "int \<Rightarrow> int \<Rightarrow> int \<Rightarrow> int" where
  "med a b c =
     (let mx = (if a > b then a else b); mn = (if a < b then a else b) in
      if c \<ge> mx then mn else if c \<le> mn then mx else a + b - c)"

definition decorrelate :: "u32 \<Rightarrow> bytes" where
  "decorrelate c =
     (let r = ucast (drop_bit 16 c); g = ucast (drop_bit 8 c); b = ucast c in [g, r - g, b - g])"

text \<open>The samples in the order of the three nested loops, and the index of each.\<close>

definition tile_samples :: "nat \<Rightarrow> nat \<Rightarrow> (nat \<times> nat \<times> nat) list" where
  "tile_samples w h =
     concat (map (\<lambda>y. concat (map (\<lambda>x. map (\<lambda>ch. (y, x, ch)) [0..<3]) [0..<w])) [0..<h])"

definition sample_index :: "nat \<Rightarrow> nat \<times> nat \<times> nat \<Rightarrow> nat" where
  "sample_index w s = (case s of (y, x, ch) \<Rightarrow> (y * w + x) * 3 + ch)"

definition predict :: "bytes \<Rightarrow> nat \<Rightarrow> nat \<times> nat \<times> nat \<Rightarrow> int" where
  "predict t w s = (case s of (y, x, ch) \<Rightarrow>
     let i = sample_index w s;
         a = (if x \<noteq> 0 then uint (t ! (i - 3)) else if y \<noteq> 0 then uint (t ! (i - w * 3)) else 0);
         b = (if y \<noteq> 0 then uint (t ! (i - w * 3)) else a);
         c = (if x \<noteq> 0 \<and> y \<noteq> 0 then uint (t ! (i - w * 3 - 3)) else b)
     in med a b c)"

definition residuals :: "bytes \<Rightarrow> nat \<Rightarrow> nat \<Rightarrow> bytes" where
  "residuals t w h =
     map (\<lambda>s. of_int (uint (t ! sample_index w s) - predict t w s)) (tile_samples w h)"

definition undo_residuals :: "bytes \<Rightarrow> nat \<Rightarrow> nat \<Rightarrow> bytes" where
  "undo_residuals t0 w h =
     fold (\<lambda>s t. t[sample_index w s := of_int (uint (t ! sample_index w s) + predict t w s)])
       (tile_samples w h) t0"

section \<open>Encoder\<close>

definition raw_bytes :: "u32 list \<Rightarrow> bytes" where
  "raw_bytes px = concat (map (\<lambda>c. [ucast (drop_bit 16 c), ucast (drop_bit 8 c), ucast c]) px)"

text \<open>\<open>sizeof lz\<close> in the code, the capacity both calls of the compressor get.\<close>

definition lz_sizeof :: nat where
  "lz_sizeof = 64 * 64 * 3 + 64 * 64 * 3 div 255 + 16"

definition encode_raw :: "alloc \<Rightarrow> u32 list \<Rightarrow> rd_buf \<Rightarrow> rd_enc \<times> rd_buf" where
  "encode_raw al px out =
     (RD_ENC_RAW, case rd_buf_grow al out (raw_bytes px) of None \<Rightarrow> out | Some out' \<Rightarrow> out')"

definition encode_palette :: "alloc \<Rightarrow> u32 list \<Rightarrow> pal_state \<Rightarrow> nat \<Rightarrow> nat \<Rightarrow> rd_buf \<Rightarrow> rd_enc \<times> rd_buf" where
  "encode_palette al px st w h out =
     (let np = length (ps_pal st);
          zl = rd_lz_compress (pack_tile (bits_per_index np) w h (ps_idx st)) lz_sizeof
      in if 1 + np * 3 + length zl < w * h * 3
         then (RD_ENC_PALETTE,
           rd_buf_put al (fold (\<lambda>c b. put_rgb al b c) (ps_pal st)
             (rd_buf_put_u8 al out (of_nat (np - 1)))) zl)
         else encode_raw al px out)"

definition encode_zrgb :: "alloc \<Rightarrow> u32 list \<Rightarrow> nat \<Rightarrow> nat \<Rightarrow> rd_buf \<Rightarrow> rd_enc \<times> rd_buf" where
  "encode_zrgb al px w h out =
     (let zl = rd_lz_compress (residuals (concat (map decorrelate px)) w h) lz_sizeof
      in if length zl < w * h * 3 then (RD_ENC_ZRGB, rd_buf_put al out zl)
         else encode_raw al px out)"

text \<open>\<open>None\<close> would be a palette probe that never ends.\<close>

definition rd_encode_tile ::
  "alloc \<Rightarrow> bytes \<Rightarrow> nat \<Rightarrow> nat \<Rightarrow> nat \<Rightarrow> int \<Rightarrow> rd_buf \<Rightarrow> (rd_enc \<times> rd_buf) option" where
  "rd_encode_tile al bgra stride w h quality out =
     (let px = tile_pixels bgra stride w h (quality_mask quality) in
      case pal_build px of
        None \<Rightarrow> None
      | Some (is_pal, st) \<Rightarrow> Some (
          if is_pal \<and> length (ps_pal st) = 1
          then (RD_ENC_SOLID, put_rgb al out (ps_pal st ! 0))
          else if is_pal then encode_palette al px st w h out
          else encode_zrgb al px w h out))"

section \<open>Decoder\<close>

definition argb :: "u8 \<Rightarrow> u8 \<Rightarrow> u8 \<Rightarrow> u32" where
  "argb r g b = 0xFF000000 OR push_bit 16 (ucast r) OR push_bit 8 (ucast g) OR ucast b"

definition argb_at :: "bytes \<Rightarrow> nat \<Rightarrow> u32" where
  "argb_at p i = argb (p ! i) (p ! (i + 1)) (p ! (i + 2))"

text \<open>\<open>dst[y * ds + x] = f y x\<close> for every pixel, rows first.\<close>

definition blit :: "u32 list \<Rightarrow> nat \<Rightarrow> nat \<Rightarrow> nat \<Rightarrow> (nat \<Rightarrow> nat \<Rightarrow> u32) \<Rightarrow> u32 list" where
  "blit dst ds w h f =
     fold (\<lambda>(y, x) d. d[y * ds + x := f y x]) (List.product [0..<h] [0..<w]) dst"

text \<open>The same with an index that may be out of the palette, which ends the loop with -1.\<close>

fun blit_indexed :: "(nat \<times> nat) list \<Rightarrow> u32 list \<Rightarrow> nat \<Rightarrow> (nat \<Rightarrow> nat \<Rightarrow> nat) \<Rightarrow> u32 list \<Rightarrow> int \<times> u32 list"
where
  "blit_indexed [] pal ds ix dst = (0, dst)"
| "blit_indexed ((y, x) # rest) pal ds ix dst =
     (if ix y x \<ge> length pal then (-1, dst)
      else blit_indexed rest pal ds ix (dst[y * ds + x := pal ! ix y x]))"

text \<open>\<open>(sr[x / per_byte] >> shift) & bmask\<close>\<close>

definition unpack_index :: "nat \<Rightarrow> bytes \<Rightarrow> nat \<Rightarrow> nat" where
  "unpack_index bpp sr x =
     unat (drop_bit (index_shift bpp x) (sr ! (x div (8 div bpp))) AND (push_bit bpp 1 - 1))"

definition decode_palette :: "bytes \<Rightarrow> nat \<Rightarrow> nat \<Rightarrow> u32 list \<Rightarrow> nat \<Rightarrow> int \<times> u32 list" where
  "decode_palette p w h dst ds =
     (if length p < 1 then (-1, dst)
      else let np = unat (p ! 0) + 1 in
        if length p < 1 + np * 3 then (-1, dst)
        else let pal = map (\<lambda>i. argb_at p (1 + i * 3)) [0..<np];
                 bpp = bits_per_index np; rb = row_bytes w bpp; want = rb * h; hdr = 1 + np * 3 in
          case rd_lz_decompress (drop hdr p) want of
            None \<Rightarrow> (-1, dst)
          | Some packed \<Rightarrow>
              if length packed \<noteq> want then (-1, dst)
              else blit_indexed (List.product [0..<h] [0..<w]) pal ds
                (\<lambda>y x. unpack_index bpp (drop (y * rb) packed) x) dst)"

definition decode_zrgb :: "bytes \<Rightarrow> nat \<Rightarrow> nat \<Rightarrow> u32 list \<Rightarrow> nat \<Rightarrow> int \<times> u32 list" where
  "decode_zrgb p w h dst ds =
     (case rd_lz_decompress p (w * h * 3) of
        None \<Rightarrow> (-1, dst)
      | Some t0 \<Rightarrow>
          if length t0 \<noteq> w * h * 3 then (-1, dst)
          else let t = undo_residuals t0 w h in
            (0, blit dst ds w h (\<lambda>y x.
               let s = (y * w + x) * 3; g = t ! s in argb (t ! (s + 1) + g) g (t ! (s + 2) + g))))"

text \<open>\<open>enc\<close> is the id byte of the wire; the first component is the return value.\<close>

definition rd_decode_tile :: "nat \<Rightarrow> bytes \<Rightarrow> int \<Rightarrow> int \<Rightarrow> u32 list \<Rightarrow> nat \<Rightarrow> int \<times> u32 list" where
  "rd_decode_tile enc p wi hi dst ds =
     (if wi \<le> 0 \<or> hi \<le> 0 \<or> wi > 64 \<or> hi > 64 then (-1, dst)
      else let w = nat wi; h = nat hi; n = w * h in
        if enc = enc_id RD_ENC_SOLID then
          (if length p \<noteq> 3 then (-1, dst) else (0, blit dst ds w h (\<lambda>y x. argb_at p 0)))
        else if enc = enc_id RD_ENC_RAW then
          (if length p \<noteq> n * 3 then (-1, dst)
           else (0, blit dst ds w h (\<lambda>y x. argb_at p ((y * w + x) * 3))))
        else if enc = enc_id RD_ENC_PALETTE then decode_palette p w h dst ds
        else if enc = enc_id RD_ENC_ZRGB then decode_zrgb p w h dst ds
        else (-1, dst))"

section \<open>The palette\<close>

lemma pal_hash_less: "pal_hash c < 1024"
proof -
  have "unat (w AND 1023) \<le> unat (1023 :: u32)" for w :: u32
    by (rule word_and_le1 [THEN word_le_nat_alt [THEN iffD1]])
  from this [of "drop_bit 22 (c * 2654435761)"]
  have "unat (drop_bit 22 (c * 2654435761) AND 1023) \<le> 1023" by simp
  then show ?thesis unfolding pal_hash_def by linarith
qed

lemma pal_probe_None:
  "pal_probe fuel slots c s = None \<Longrightarrow> s < 1024 \<Longrightarrow> \<forall>i < fuel. slots ((s + i) mod 1024) \<noteq> None"
proof (induction fuel slots c s rule: pal_probe.induct)
  case (2 fuel slots c s)
  then obtain j col where s: "slots s = Some (j, col)" "col \<noteq> c"
    and "pal_probe fuel slots c ((s + 1) mod 1024) = None"
    by (auto split: option.splits if_splits)
  with "2.IH" [of "(j, col)" j col]
  have "\<forall>i < fuel. slots (((s + 1) mod 1024 + i) mod 1024) \<noteq> None" by simp
  then have ih: "\<forall>i < fuel. slots ((s + 1 + i) mod 1024) \<noteq> None" by (simp add: mod_simps)
  show ?case
  proof (intro allI impI)
    fix i assume "i < Suc fuel"
    with s ih 2(3) show "slots ((s + i) mod 1024) \<noteq> None"
      by (cases i) (auto simp: mod_simps)
  qed
qed simp

lemma pal_probe_less:
  "pal_probe fuel slots c s = Some s' \<Longrightarrow> s < 1024 \<Longrightarrow> s' < 1024"
  by (induction fuel slots c s rule: pal_probe.induct) (auto split: option.splits if_splits)

lemma pal_probe_found:
  "pal_probe fuel slots c s = Some s' \<Longrightarrow> slots s' = Some (j, col) \<Longrightarrow> col = c"
  by (induction fuel slots c s rule: pal_probe.induct) (auto split: option.splits if_splits)

lemma pal_probe_insert_other:
  "pal_probe fuel slots c s = Some s1 \<Longrightarrow> slots s1 \<noteq> None \<Longrightarrow> slots s' = None \<Longrightarrow>
   pal_probe fuel (slots(s' := Some v)) c s = Some s1"
  by (induction fuel slots c s rule: pal_probe.induct) (auto split: option.splits if_splits)

lemma pal_probe_insert_here:
  "pal_probe fuel slots c s = Some s' \<Longrightarrow> slots s' = None \<Longrightarrow>
   pal_probe fuel (slots(s' := Some (j, c))) c s = Some s'"
  by (induction fuel slots c s rule: pal_probe.induct) (auto split: option.splits if_splits)

text \<open>
  The invariant after the pixels \<open>pre\<close>: the indices name their colours, the palette holds exactly
  the colours seen, and every colour is found by probing from its hash.
\<close>

definition pal_inv :: "u32 list \<Rightarrow> pal_state \<Rightarrow> bool" where
  "pal_inv pre st \<longleftrightarrow>
     length (ps_idx st) = length pre \<and> length (ps_pal st) \<le> 256 \<and>
     distinct (ps_pal st) \<and> set (ps_pal st) = set pre \<and>
     (\<forall>i < length pre. unat (ps_idx st ! i) < length (ps_pal st) \<and>
        ps_pal st ! unat (ps_idx st ! i) = pre ! i) \<and>
     (\<forall>s j c. ps_slots st s = Some (j, c) \<longrightarrow>
        s < 1024 \<and> j < length (ps_pal st) \<and> ps_pal st ! j = c \<and>
        pal_probe 1024 (ps_slots st) c (pal_hash c) = Some s) \<and>
     (\<forall>j < length (ps_pal st). \<exists>s. ps_slots st s = Some (j, ps_pal st ! j)) \<and>
     card (dom (ps_slots st)) = length (ps_pal st) \<and> finite (dom (ps_slots st))"

definition pal_last_ok :: "u32 list \<Rightarrow> pal_state \<Rightarrow> bool" where
  "pal_last_ok px st \<longleftrightarrow>
     (px = [] \<or> ps_last st \<noteq> px ! 0) \<and> ps_idx st = [] \<or>
     unat (ps_last_i st) < length (ps_pal st) \<and> ps_pal st ! unat (ps_last_i st) = ps_last st"

lemma pal_probe_total:
  assumes "pal_inv pre st"
  obtains s where "pal_probe 1024 (ps_slots st) c (pal_hash c) = Some s" "s < 1024"
proof -
  have "pal_probe 1024 (ps_slots st) c (pal_hash c) \<noteq> None"
  proof
    assume "pal_probe 1024 (ps_slots st) c (pal_hash c) = None"
    then have occ: "\<forall>i < 1024. ps_slots st ((pal_hash c + i) mod 1024) \<noteq> None"
      by (rule pal_probe_None) (rule pal_hash_less)
    have "s \<in> dom (ps_slots st)" if "s < 1024" for s
    proof -
      let ?i = "(s + 1024 - pal_hash c) mod 1024"
      have "(pal_hash c + ?i) mod 1024 = (pal_hash c + (s + 1024 - pal_hash c)) mod 1024"
        by (simp add: mod_simps)
      also have "\<dots> = s" using that pal_hash_less [of c] by simp
      finally show ?thesis using occ by (metis domIff mod_less_divisor zero_less_numeral)
    qed
    then have "{..<1024} \<subseteq> dom (ps_slots st)" by auto
    with assms have "1024 \<le> card (dom (ps_slots st))"
      unfolding pal_inv_def by (metis card_lessThan card_mono)
    with assms show False by (simp add: pal_inv_def)
  qed
  then show thesis using that pal_probe_less [OF _ pal_hash_less] by blast
qed

lemma pal_inv_hit:
  assumes inv: "pal_inv pre st" and j: "j < length (ps_pal st)" "ps_pal st ! j = c"
  shows "pal_inv (pre @ [c]) (st\<lparr>ps_idx := ps_idx st @ [of_nat j], ps_last := x, ps_last_i := y\<rparr>)"
proof -
  have "j < 256" using inv j by (simp add: pal_inv_def)
  then have "unat (of_nat j :: u8) = j" by simp
  moreover have "c \<in> set pre" using inv j unfolding pal_inv_def by (metis nth_mem)
  ultimately show ?thesis
    using inv j by (auto simp: pal_inv_def nth_append less_Suc_eq insert_absorb)
qed

lemma pal_inv_miss:
  assumes inv: "pal_inv pre st" and p: "pal_probe 1024 (ps_slots st) c (pal_hash c) = Some s"
    and none: "ps_slots st s = None" and np: "length (ps_pal st) \<noteq> 256"
  shows "pal_inv (pre @ [c])
     \<lparr>ps_slots = (ps_slots st)(s := Some (length (ps_pal st), c)), ps_pal = ps_pal st @ [c],
      ps_idx = ps_idx st @ [of_nat (length (ps_pal st))], ps_last = x, ps_last_i = y\<rparr>"
    and "c \<notin> set pre"
proof -
  have lt: "length (ps_pal st) < 256" using inv np by (simp add: pal_inv_def)
  have s: "s < 1024" using pal_probe_less [OF p pal_hash_less] .
  show new: "c \<notin> set pre"
  proof
    assume "c \<in> set pre"
    then obtain j where "j < length (ps_pal st)" "ps_pal st ! j = c"
      using inv by (auto simp: pal_inv_def in_set_conv_nth)
    with inv obtain s1 where "ps_slots st s1 = Some (j, c)" unfolding pal_inv_def by blast
    with inv p none show False unfolding pal_inv_def by fastforce
  qed
  let ?sl = "(ps_slots st)(s := Some (length (ps_pal st), c))"
  have chain: "pal_probe 1024 ?sl col (pal_hash col) = Some s1"
    if "?sl s1 = Some (j, col)" for s1 j col
  proof (cases "s1 = s")
    case True
    with that have "col = c" by simp
    with True pal_probe_insert_here [OF p none] show ?thesis by simp
  next
    case False
    with that inv have "pal_probe 1024 (ps_slots st) col (pal_hash col) = Some s1"
      "ps_slots st s1 \<noteq> None" by (auto simp: pal_inv_def)
    then show ?thesis using none by (rule pal_probe_insert_other)
  qed
  have slots: "s1 < 1024 \<and> j < Suc (length (ps_pal st)) \<and> (ps_pal st @ [c]) ! j = col"
    if "?sl s1 = Some (j, col)" for s1 j col
    using that inv s by (cases "s1 = s") (fastforce simp: pal_inv_def nth_append)+
  have complete: "\<exists>s1. ?sl s1 = Some (j, (ps_pal st @ [c]) ! j)" if "j < Suc (length (ps_pal st))" for j
  proof (cases "j = length (ps_pal st)")
    case True
    then show ?thesis by (intro exI [of _ s]) simp
  next
    case False
    with that have "j < length (ps_pal st)" by simp
    with inv obtain s1 where "ps_slots st s1 = Some (j, ps_pal st ! j)" unfolding pal_inv_def by blast
    with none \<open>j < length (ps_pal st)\<close> show ?thesis
      by (intro exI [of _ s1]) (auto simp: nth_append)
  qed
  have card: "card (dom ?sl) = Suc (length (ps_pal st))" "finite (dom ?sl)"
    using inv none by (auto simp: pal_inv_def domIff)
  show "pal_inv (pre @ [c])
     \<lparr>ps_slots = ?sl, ps_pal = ps_pal st @ [c],
      ps_idx = ps_idx st @ [of_nat (length (ps_pal st))], ps_last = x, ps_last_i = y\<rparr>"
    using inv lt new chain slots complete card
    unfolding pal_inv_def by (simp add: nth_append less_Suc_eq)
qed


lemma pal_loop_correct:
  assumes "pal_inv pre st" and "pal_last_ok (pre @ cs) st" and "pre = [] \<longrightarrow> ps_idx st = []"
  shows "\<exists>is_pal st'. pal_loop cs st = Some (is_pal, st') \<and>
    (is_pal \<longrightarrow> pal_inv (pre @ cs) st') \<and> (\<not> is_pal \<longrightarrow> 256 < card (set (pre @ cs)))"
  using assms
proof (induction cs arbitrary: pre st)
  case Nil
  then show ?case by (intro exI [of _ True] exI [of _ st]) simp
next
  case (Cons c cs)
  show ?case
  proof (cases "c = ps_last st")
    case True
    have "pre \<noteq> []" using Cons.prems True by (auto simp: pal_last_ok_def pal_inv_def)
    then have last: "unat (ps_last_i st) < length (ps_pal st)"
      "ps_pal st ! unat (ps_last_i st) = c"
      using Cons.prems(1,2) True by (auto simp: pal_last_ok_def pal_inv_def)
    let ?st = "st\<lparr>ps_idx := ps_idx st @ [ps_last_i st]\<rparr>"
    have "pal_inv (pre @ [c]) (st\<lparr>ps_idx := ps_idx st @ [of_nat (unat (ps_last_i st))],
        ps_last := ps_last st, ps_last_i := ps_last_i st\<rparr>)"
      by (rule pal_inv_hit [OF Cons.prems(1) last])
    then have "pal_inv (pre @ [c]) ?st" by simp
    moreover have "pal_last_ok ((pre @ [c]) @ cs) ?st"
      using last True by (simp add: pal_last_ok_def)
    ultimately show ?thesis using Cons.IH [of "pre @ [c]" ?st] True by simp
  next
    case neq: False
    obtain s where p: "pal_probe 1024 (ps_slots st) c (pal_hash c) = Some s" "s < 1024"
      using pal_probe_total [OF Cons.prems(1)] .
    show ?thesis
    proof (cases "ps_slots st s")
      case (Some v)
      obtain j col where v: "v = (j, col)" by (cases v)
      with Some p have "col = c" using pal_probe_found by blast
      with Some v Cons.prems(1) have j: "j < length (ps_pal st)" "ps_pal st ! j = c" "j < 256"
        unfolding pal_inv_def by (fastforce)+
      let ?st = "st\<lparr>ps_idx := ps_idx st @ [of_nat j], ps_last := c, ps_last_i := of_nat j\<rparr>"
      have "pal_inv (pre @ [c]) ?st" by (rule pal_inv_hit [OF Cons.prems(1) j(1,2)])
      moreover have "pal_last_ok ((pre @ [c]) @ cs) ?st" using j by (simp add: pal_last_ok_def)
      ultimately show ?thesis
        using Cons.IH [of "pre @ [c]" ?st] neq p Some v by simp
    next
      case None
      show ?thesis
      proof (cases "length (ps_pal st) = 256")
        case True
        have inv: "distinct (ps_pal st)" "set (ps_pal st) = set pre"
          using Cons.prems(1) by (simp_all add: pal_inv_def)
        have "c \<notin> set pre"
        proof
          assume "c \<in> set pre"
          then have "c \<in> set (ps_pal st)" using inv by simp
          then obtain j where "j < length (ps_pal st)" "ps_pal st ! j = c"
            by (auto simp: in_set_conv_nth)
          with Cons.prems(1) obtain s1 where "ps_slots st s1 = Some (j, c)"
            unfolding pal_inv_def by blast
          with Cons.prems(1) p None show False unfolding pal_inv_def by fastforce
        qed
        then have "card (insert c (set pre)) = 257"
          using inv True by (metis List.finite_set card_insert_disjoint distinct_card
              eval_nat_numeral(3) numeral_eq_Suc pred_numeral_simps(3) semiring_norm(28))
        moreover have "card (insert c (set pre)) \<le> card (set (pre @ c # cs))"
          by (rule card_mono) auto
        ultimately show ?thesis
          using neq p None True by (intro exI [of _ False] exI [of _ st]) simp
      next
        case False
        have lt: "length (ps_pal st) < 256" using Cons.prems(1) False by (simp add: pal_inv_def)
        let ?st = "\<lparr>ps_slots = (ps_slots st)(s := Some (length (ps_pal st), c)), ps_pal = ps_pal st @ [c],
          ps_idx = ps_idx st @ [of_nat (length (ps_pal st))], ps_last = c,
          ps_last_i = of_nat (length (ps_pal st))\<rparr>"
        have "pal_inv (pre @ [c]) ?st"
          by (rule pal_inv_miss(1) [OF Cons.prems(1) p(1) None False])
        moreover have "pal_last_ok ((pre @ [c]) @ cs) ?st"
          using lt by (simp add: pal_last_ok_def)
        ultimately show ?thesis
          using Cons.IH [of "pre @ [c]" ?st] neq p None False by (simp add: Let_def)
      qed
    qed
  qed
qed

lemma pal_build_correct:
  "\<exists>is_pal st. pal_build px = Some (is_pal, st) \<and>
    (is_pal \<longrightarrow> pal_inv px st) \<and> (\<not> is_pal \<longrightarrow> 256 < card (set px))"
proof -
  let ?st = "\<lparr>ps_slots = (\<lambda>_. None), ps_pal = [], ps_idx = [], ps_last = NOT (px ! 0), ps_last_i = 0\<rparr>"
  have "NOT w \<noteq> w" for w :: u32
  proof
    assume "NOT w = w"
    then have "bit (NOT w) 0 = bit w 0" by (rule arg_cong)
    then show False by (simp add: bit_simps)
  qed
  then have "pal_last_ok ([] @ px) ?st" by (simp add: pal_last_ok_def)
  moreover have "pal_inv [] ?st" by (simp add: pal_inv_def)
  ultimately show ?thesis
    using pal_loop_correct [of "[]" ?st px] by (simp add: pal_build_def)
qed


section \<open>Bit packing\<close>

lemma bits_per_index_cases: "bits_per_index np \<in> {1, 2, 4, 8}"
  by (simp add: bits_per_index_def)

lemma bits_per_index_enough: "np \<le> 256 \<Longrightarrow> np \<le> 2 ^ bits_per_index np"
  by (simp add: bits_per_index_def)

lemma row_bytes_covers: "bpp \<in> {1, 2, 4, 8} \<Longrightarrow> x < w \<Longrightarrow> x div (8 div bpp) < row_bytes w bpp"
  by (auto simp: row_bytes_def)

definition pack_row_upto :: "nat \<Rightarrow> nat \<Rightarrow> (nat \<Rightarrow> u8) \<Rightarrow> nat \<Rightarrow> bytes" where
  "pack_row_upto bpp rb sr k =
     fold (\<lambda>x dr. dr[x div (8 div bpp) :=
         dr ! (x div (8 div bpp)) OR push_bit (index_shift bpp x) (sr x)])
       [0..<k] (replicate rb 0)"

lemma length_pack_row_upto: "length (pack_row_upto bpp rb sr k) = rb"
  by (induction k) (simp_all add: pack_row_upto_def)

lemma pack_row_upto_bit:
  assumes "\<And>x. x < k \<Longrightarrow> x div (8 div bpp) < rb" and "b < rb"
  shows "bit (pack_row_upto bpp rb sr k ! b) j \<longleftrightarrow>
    (\<exists>x < k. x div (8 div bpp) = b \<and> bit (push_bit (index_shift bpp x) (sr x)) j)"
  using assms(1)
proof (induction k)
  case 0
  then show ?case using assms(2) by (simp add: pack_row_upto_def)
next
  case (Suc k)
  have "pack_row_upto bpp rb sr (Suc k) =
      (pack_row_upto bpp rb sr k)[k div (8 div bpp) :=
        pack_row_upto bpp rb sr k ! (k div (8 div bpp)) OR push_bit (index_shift bpp k) (sr k)]"
    by (simp add: pack_row_upto_def)
  with Suc assms(2) length_pack_row_upto [of bpp rb sr k] show ?case
    by (cases "k div (8 div bpp) = b") (auto simp: bit_or_iff less_Suc_eq)
qed

lemma index_shift_same_slot:
  assumes "bpp \<in> {1, 2, 4, 8}" "x div (8 div bpp) = x' div (8 div bpp)"
    and "index_shift bpp x' \<le> j + index_shift bpp x" "j < bpp"
    and "j + index_shift bpp x - index_shift bpp x' < bpp"
  shows "x = x'"
proof -
  define q where "q = x div (8 div bpp)"
  have x: "x = q * (8 div bpp) + x mod (8 div bpp)" and x': "x' = q * (8 div bpp) + x' mod (8 div bpp)"
    using assms(2) by (simp_all add: q_def) (metis div_mult_mod_eq)+
  define u u' where "u = x mod (8 div bpp)" and "u' = x' mod (8 div bpp)"
  have "u < 8 div bpp" "u' < 8 div bpp" using assms(1) by (auto simp: u_def u'_def)
  moreover have "index_shift bpp x = 8 - bpp * (u + 1)" "index_shift bpp x' = 8 - bpp * (u' + 1)"
    by (simp_all add: index_shift_def u_def u'_def)
  ultimately have "u = u'" using assms(1,3-5) by (elim insertE emptyE) simp_all
  with x x' show ?thesis by (simp add: u_def u'_def)
qed

lemma index_shift_less: "bpp \<in> {1, 2, 4, 8} \<Longrightarrow> index_shift bpp x + bpp \<le> 8"
proof -
  assume b: "bpp \<in> {1, 2, 4, 8}"
  then have "x mod (8 div bpp) < 8 div bpp" by auto
  with b show ?thesis by (auto simp: index_shift_def)
qed

lemma bit_less_power:
  assumes "unat (v :: u8) < 2 ^ k" "bit v i"
  shows "i < k"
proof (rule ccontr)
  assume "\<not> i < k"
  then have "2 ^ k \<le> (2 :: nat) ^ i" by simp
  also have "2 ^ i \<le> unat v"
  proof -
    have "bit (unat v) i" using assms(2) by (simp add: bit_unsigned_iff)
    then show ?thesis by (metis bit_nat_def div_less even_zero not_less)
  qed
  finally show False using assms(1) by simp
qed

lemma unpack_pack_row:
  assumes bpp: "bpp \<in> {1, 2, 4, 8}" and x: "x < w" and sr: "\<And>x. x < w \<Longrightarrow> unat (sr x) < 2 ^ bpp"
  shows "unpack_index bpp (pack_row bpp w sr @ rest) x = unat (sr x)"
proof -
  let ?rb = "row_bytes w bpp"
  have p: "pack_row bpp w sr = pack_row_upto bpp ?rb sr w"
    by (simp add: pack_row_def pack_row_upto_def)
  have cov: "\<And>x. x < w \<Longrightarrow> x div (8 div bpp) < ?rb" by (rule row_bytes_covers [OF bpp])
  let ?v = "pack_row bpp w sr ! (x div (8 div bpp))"
  have at: "(pack_row bpp w sr @ rest) ! (x div (8 div bpp)) = ?v"
    using cov [OF x] by (simp add: nth_append p length_pack_row_upto)
  have m: "bit (push_bit bpp 1 - 1 :: u8) j \<longleftrightarrow> j < bpp \<and> j < 8" for j
    by (auto simp: push_bit_eq_mult mask_eq_exp_minus_1 [symmetric] bit_mask_iff)
  have "drop_bit (index_shift bpp x) ?v AND (push_bit bpp 1 - 1) = sr x"
  proof (rule bit_word_eqI)
    fix j assume j: "j < LENGTH(8)"
    have b: "bit ?v i \<longleftrightarrow> (\<exists>x' < w. x' div (8 div bpp) = x div (8 div bpp) \<and>
        bit (push_bit (index_shift bpp x') (sr x')) i)" for i
      unfolding p by (rule pack_row_upto_bit [OF cov cov [OF x]])
    show "bit (drop_bit (index_shift bpp x) ?v AND (push_bit bpp 1 - 1)) j = bit (sr x) j"
    proof (cases "j < bpp")
      case True
      have "bit ?v (index_shift bpp x + j) = bit (sr x) j"
        unfolding b
      proof
        assume "bit (sr x) j"
        then show "\<exists>x' < w. x' div (8 div bpp) = x div (8 div bpp) \<and>
            bit (push_bit (index_shift bpp x') (sr x')) (index_shift bpp x + j)"
          using x True index_shift_less [OF bpp, of x] by (intro exI [of _ x]) (simp add: bit_simps)
      next
        assume "\<exists>x' < w. x' div (8 div bpp) = x div (8 div bpp) \<and>
            bit (push_bit (index_shift bpp x') (sr x')) (index_shift bpp x + j)"
        then obtain x' where x': "x' < w" "x' div (8 div bpp) = x div (8 div bpp)"
          and "index_shift bpp x' \<le> index_shift bpp x + j"
          and bt: "bit (sr x') (index_shift bpp x + j - index_shift bpp x')"
          by (auto simp: bit_simps)
        moreover have "index_shift bpp x + j - index_shift bpp x' < bpp"
          using bit_less_power [OF sr [OF x'(1)] bt] .
        ultimately have "x = x'"
          using index_shift_same_slot [OF bpp, of x x' j] True by (simp add: add.commute)
        with bt show "bit (sr x) j" by simp
      qed
      with True j m show ?thesis by (simp add: bit_and_iff bit_drop_bit_eq)
    next
      case False
      with m bit_less_power [OF sr [OF x]] show ?thesis by (auto simp: bit_and_iff)
    qed
  qed
  then show ?thesis unfolding unpack_index_def at by (rule arg_cong)
qed

section \<open>Prediction\<close>

lemma map_shift_upt: "map (\<lambda>i. m + i) [0..<k] = [m..<m + k]"
  by (induction k) simp_all

lemma concat_map_upt:
  "concat (map (\<lambda>y. map (\<lambda>x. y * w + x) [0..<w]) [0..<h]) = [0..<h * w]"
proof (induction h)
  case (Suc h)
  then show ?case
    using upt_add_eq_append [of 0 "h * w" w] map_shift_upt [of "h * w" w] by (simp add: add.commute)
qed simp

lemma concat_map_concat:
  "concat (map f (concat xss)) = concat (map (\<lambda>xs. concat (map f xs)) xss)"
  by (induction xss) simp_all

lemma sample_index_tile_samples: "map (sample_index w) (tile_samples w h) = [0..<h * w * 3]"
proof -
  have "map (sample_index w) (tile_samples w h) =
      concat (map (\<lambda>p. map (\<lambda>ch. p * 3 + ch) [0..<3])
        (concat (map (\<lambda>y. map (\<lambda>x. y * w + x) [0..<w]) [0..<h])))"
    by (simp only: tile_samples_def concat_map_concat map_map)
      (simp add: map_concat sample_index_def comp_def)
  also have "\<dots> = concat (map (\<lambda>p. map (\<lambda>ch. p * 3 + ch) [0..<3]) [0..<h * w])"
    by (simp only: concat_map_upt)
  also have "\<dots> = [0..<h * w * 3]" by (rule concat_map_upt)
  finally show ?thesis .
qed

lemma length_tile_samples: "length (tile_samples w h) = h * w * 3"
  using arg_cong [OF sample_index_tile_samples, of length w h] by simp

lemma sample_index_nth:
  assumes "k < h * w * 3" shows "sample_index w (tile_samples w h ! k) = k"
proof -
  have "map (sample_index w) (tile_samples w h) ! k = k"
    unfolding sample_index_tile_samples using assms by simp
  then show ?thesis using assms by (simp add: length_tile_samples)
qed

lemma tile_samples_in:
  "(y, x, ch) \<in> set (tile_samples w h) \<longleftrightarrow> y < h \<and> x < w \<and> ch < 3"
  by (force simp: tile_samples_def)

text \<open>A prediction reads samples before its own only.\<close>

lemma predict_cong:
  assumes "s \<in> set (tile_samples w h)" "\<And>i. i < sample_index w s \<Longrightarrow> t ! i = t' ! i"
  shows "predict t w s = predict t' w s"
proof -
  obtain y x ch where s: "s = (y, x, ch)" by (cases s)
  with assms(1) have b: "x < w" "ch < 3" by (simp_all add: tile_samples_in)
  define i where "i = sample_index w s"
  have i: "i = (y * w + x) * 3 + ch" by (simp add: i_def s sample_index_def)
  have "x \<noteq> 0 \<Longrightarrow> t ! (i - 3) = t' ! (i - 3)"
    by (rule assms(2)) (use i in \<open>simp add: i_def [symmetric]\<close>)
  moreover have "y \<noteq> 0 \<Longrightarrow> t ! (i - w * 3) = t' ! (i - w * 3)"
    by (rule assms(2)) (use i b in \<open>simp add: i_def [symmetric]\<close>)
  moreover have "y \<noteq> 0 \<Longrightarrow> t ! (i - w * 3 - 3) = t' ! (i - w * 3 - 3)"
    by (rule assms(2)) (use i b in \<open>simp add: i_def [symmetric]\<close>)
  ultimately show ?thesis
    unfolding predict_def s using i_def [unfolded s, symmetric] by (simp add: Let_def)
qed

lemma update_take_drop:
  assumes "k < length t" "k < length r"
  shows "(take k t @ drop k r)[k := t ! k] = take (Suc k) t @ drop (Suc k) r"
proof -
  have "drop k r = r ! k # drop (Suc k) r" using assms by (simp add: Cons_nth_drop_Suc)
  then show ?thesis using assms by (simp add: list_update_append take_Suc_conv_app_nth)
qed

lemma undo_residuals_prefix:
  assumes "length t = n" "n = h * w * 3" "k \<le> n"
  shows "fold (\<lambda>s t. t[sample_index w s := of_int (uint (t ! sample_index w s) + predict t w s)])
       (take k (tile_samples w h)) (residuals t w h) = take k t @ drop k (residuals t w h)"
  using assms(3)
proof (induction k)
  case 0
  then show ?case by simp
next
  case (Suc k)
  let ?ss = "tile_samples w h"
  let ?r = "residuals t w h"
  have k: "k < length ?ss" "k < n" "k < length ?r" "k < length t"
    using Suc.prems assms by (simp_all add: length_tile_samples residuals_def)
  have idx: "sample_index w (?ss ! k) = k" using k assms by (simp add: sample_index_nth)
  have rk: "?r ! k = of_int (uint (t ! k) - predict t w (?ss ! k))"
    using k idx by (simp add: residuals_def)
  let ?t = "take k t @ drop k ?r"
  have tk: "?t ! k = ?r ! k" using k by (simp add: nth_append)
  have "predict ?t w (?ss ! k) = predict t w (?ss ! k)"
  proof (rule predict_cong)
    show "?ss ! k \<in> set ?ss" using k by simp
    show "?t ! i = t ! i" if "i < sample_index w (?ss ! k)" for i
      using that k unfolding idx by (simp add: nth_append)
  qed
  then have v: "of_int (uint (?t ! k) + predict ?t w (?ss ! k)) = t ! k"
    unfolding tk rk by simp
  have "take (Suc k) ?ss = take k ?ss @ [?ss ! k]" using k by (simp add: take_Suc_conv_app_nth)
  then have "fold (\<lambda>s t. t[sample_index w s := of_int (uint (t ! sample_index w s) + predict t w s)])
       (take (Suc k) ?ss) ?r = ?t[k := t ! k]"
    using Suc.IH k v idx by simp
  also have "\<dots> = take (Suc k) t @ drop (Suc k) ?r"
    by (rule update_take_drop) (use k in simp_all)
  finally show ?case .
qed

lemma undo_residuals_residuals:
  "length t = h * w * 3 \<Longrightarrow> undo_residuals (residuals t w h) w h = t"
  using undo_residuals_prefix [of t "h * w * 3" h w "h * w * 3"]
  by (simp add: undo_residuals_def length_tile_samples residuals_def)

section \<open>Pixels\<close>

text \<open>\<open>quant_pixel\<close> only sets the low 24 bits.\<close>

definition rgb24 :: "u32 \<Rightarrow> bool" where
  "rgb24 c \<longleftrightarrow> (\<forall>i. bit c i \<longrightarrow> i < 24)"

lemma rgb24_quant_pixel: "rgb24 (quant_pixel bgra qm at)"
  by (auto simp: rgb24_def quant_pixel_def bit_simps dest: bit_imp_le_length)

lemma argb_of_rgb24:
  assumes "rgb24 c"
  shows "argb (ucast (drop_bit 16 c)) (ucast (drop_bit 8 c)) (ucast c) = 0xFF000000 OR c"
proof (rule bit_word_eqI)
  fix n assume n: "n < LENGTH(32)"
  have "n < 8 \<or> n \<ge> 8 \<and> n < 16 \<or> n \<ge> 16 \<and> n < 24 \<or> n \<ge> 24" by arith
  then show "bit (argb (ucast (drop_bit 16 c)) (ucast (drop_bit 8 c)) (ucast c)) n =
      bit (0xFF000000 OR c) n"
    using n assms by (auto simp: argb_def bit_simps rgb24_def)
qed

lemma argb_decorrelate:
  "decorrelate c = [g, r, b] \<Longrightarrow>
   argb (r + g) g (b + g) = argb (ucast (drop_bit 16 c)) (ucast (drop_bit 8 c)) (ucast c)"
  by (auto simp: decorrelate_def Let_def)

lemma concat_map_nth3:
  assumes "\<And>c. length (f c) = 3" "i < length px" "k < 3"
  shows "concat (map f px) ! (i * 3 + k) = f (px ! i) ! k"
  using assms(2)
proof (induction px arbitrary: i)
  case (Cons c px)
  show ?case
  proof (cases i)
    case 0
    then show ?thesis using assms(1,3) by (simp add: nth_append)
  next
    case (Suc j)
    then have "concat (map f (c # px)) ! (i * 3 + k) = concat (map f px) ! (j * 3 + k)"
      using assms(1,3) by (simp add: nth_append)
    also have "\<dots> = f (px ! j) ! k" using Cons Suc by simp
    finally show ?thesis using Suc by simp
  qed
qed simp

lemma length_concat_map3: "(\<And>c. length (f c) = 3) \<Longrightarrow> length (concat (map f px)) = length px * 3"
  by (induction px) simp_all

lemma length_tile_pixels: "length (tile_pixels bgra stride w h qm) = h * w"
  by (simp add: tile_pixels_def length_concat comp_def sum_list_triv)

lemma concat_grid_nth:
  "x < w \<Longrightarrow> y < h \<Longrightarrow> concat (map (\<lambda>y. map (f y) [0..<w]) [0..<h]) ! (y * w + x) = f y x"
proof (induction h)
  case (Suc h)
  have l: "length (concat (map (\<lambda>y. map (f y) [0..<w]) [0..<h])) = h * w"
    by (simp add: length_concat comp_def sum_list_triv)
  show ?case
  proof (cases "y = h")
    case True
    with Suc.prems l show ?thesis by (simp add: nth_append)
  next
    case False
    with Suc.prems have "y < h" by simp
    then have "(y + 1) * w \<le> h * w" by (intro mult_right_mono) simp_all
    with Suc.prems have "y * w + x < h * w" by simp
    with Suc l \<open>y < h\<close> show ?thesis by (simp add: nth_append)
  qed
qed simp

lemma tile_pixels_nth:
  "x < w \<Longrightarrow> y < h \<Longrightarrow>
   tile_pixels bgra stride w h qm ! (y * w + x) = quant_pixel bgra qm (y * stride + x * 4)"
  unfolding tile_pixels_def by (rule concat_grid_nth)

section \<open>Writing the destination\<close>

lemma length_blit: "length (blit dst ds w h f) = length dst"
proof -
  have "length (fold (\<lambda>(y, x) d. d[y * ds + x := f y x]) ps dst) = length dst" for ps
    by (induction ps arbitrary: dst) auto
  then show ?thesis by (simp add: blit_def)
qed

lemma fold_update_other:
  "(\<And>p. p \<in> set ps \<Longrightarrow> g p \<noteq> i) \<Longrightarrow> fold (\<lambda>p d. d[g p := f p]) ps dst ! i = dst ! i"
  by (induction ps arbitrary: dst) auto

lemma fold_update_hit:
  assumes "p \<in> set ps" "inj_on g (set ps)" "\<And>p. p \<in> set ps \<Longrightarrow> g p < length dst"
  shows "fold (\<lambda>p d. d[g p := f p]) ps dst ! g p = f p"
  using assms
proof (induction ps arbitrary: dst)
  case (Cons q ps)
  show ?case
  proof (cases "p \<in> set ps")
    case True
    with Cons show ?thesis by simp
  next
    case False
    with Cons.prems have "p = q" "\<And>r. r \<in> set ps \<Longrightarrow> g r \<noteq> g p" by (auto simp: inj_on_def)
    then show ?thesis using Cons.prems by (simp add: fold_update_other)
  qed
qed simp

lemma blit_as_fold:
  "blit dst ds w h f = fold (\<lambda>p d. d[fst p * ds + snd p := f (fst p) (snd p)])
     (List.product [0..<h] [0..<w]) dst"
  by (simp add: blit_def case_prod_beta')

lemma pixel_index_inj:
  assumes "(x :: nat) < w" "x' < w" "w \<le> ds" "y * ds + x = y' * ds + x'"
  shows "y = y' \<and> x = x'"
proof -
  have "(y * ds + x) div ds = y" "(y' * ds + x') div ds = y'" using assms(1-3) by simp_all
  with assms(4) have "y = y'" by simp
  with assms(4) show ?thesis by simp
qed

lemma pixel_index_less:
  assumes "(x :: nat) < w" "y < h" "(h - 1) * ds + w \<le> n"
  shows "y * ds + x < n"
proof -
  have "y * ds \<le> (h - 1) * ds" using assms(2) by (intro mult_right_mono) simp_all
  with assms show ?thesis by linarith
qed

lemma blit_nth:
  assumes "x < w" "y < h" "w \<le> ds" "(h - 1) * ds + w \<le> length dst"
  shows "blit dst ds w h f ! (y * ds + x) = f y x"
proof -
  let ?ps = "List.product [0..<h] [0..<w]"
  have "inj_on (\<lambda>p. fst p * ds + snd p) (set ?ps)"
  proof (rule inj_onI)
    fix p q
    assume "p \<in> set ?ps" "q \<in> set ?ps" "fst p * ds + snd p = fst q * ds + snd q"
    then have "fst p = fst q \<and> snd p = snd q"
      by (intro pixel_index_inj [OF _ _ assms(3)]) auto
    then show "p = q" by (simp add: prod_eq_iff)
  qed
  moreover have "fst p * ds + snd p < length dst" if "p \<in> set ?ps" for p
    using that assms(4) by (auto intro: pixel_index_less)
  moreover have "(y, x) \<in> set ?ps" using assms by simp
  ultimately have "fold (\<lambda>p d. d[fst p * ds + snd p := f (fst p) (snd p)]) ?ps dst !
      (fst (y, x) * ds + snd (y, x)) = f (fst (y, x)) (snd (y, x))"
    by (intro fold_update_hit) blast+
  then show ?thesis by (simp only: blit_as_fold fst_conv snd_conv)
qed

lemma blit_other:
  assumes "\<And>y x. y < h \<Longrightarrow> x < w \<Longrightarrow> i \<noteq> y * ds + x"
  shows "blit dst ds w h f ! i = dst ! i"
  unfolding blit_as_fold by (rule fold_update_other) (use assms in force)

lemma blit_cong:
  assumes "\<And>y x. y < h \<Longrightarrow> x < w \<Longrightarrow> f y x = g y x"
  shows "blit dst ds w h f = blit dst ds w h g"
  unfolding blit_as_fold by (rule fold_cong) (use assms in auto)

lemma blit_indexed_all:
  assumes "\<And>y x. (y, x) \<in> set ps \<Longrightarrow> ix y x < length pal"
  shows "blit_indexed ps pal ds ix dst =
    (0, fold (\<lambda>(y, x) d. d[y * ds + x := pal ! ix y x]) ps dst)"
  using assms by (induction ps arbitrary: dst) (auto simp: not_le)

lemma blit_indexed_length: "length (snd (blit_indexed ps pal ds ix dst)) = length dst"
  by (induction ps arbitrary: dst) auto

lemma blit_indexed_other:
  "(\<And>y x. (y, x) \<in> set ps \<Longrightarrow> i \<noteq> y * ds + x) \<Longrightarrow>
   snd (blit_indexed ps pal ds ix dst) ! i = dst ! i"
  by (induction ps pal ds ix dst rule: blit_indexed.induct) (simp_all, metis nth_list_update_neq)

section \<open>The tile round trip\<close>

text \<open>What the decoder writes for a 24-bit colour.\<close>

definition opaque :: "u32 \<Rightarrow> u32" where
  "opaque c = 0xFF000000 OR c"

lemma length_raw_bytes [len_simps]: "length (raw_bytes px) = length px * 3"
  unfolding raw_bytes_def by (rule length_concat_map3) simp

lemma argb_at_raw_bytes:
  assumes "i < length px" "rgb24 (px ! i)"
  shows "argb_at (raw_bytes px) (i * 3) = opaque (px ! i)"
proof -
  let ?f = "\<lambda>c :: u32. [ucast (drop_bit 16 c), ucast (drop_bit 8 c), ucast c] :: bytes"
  have n: "raw_bytes px ! (i * 3 + k) = ?f (px ! i) ! k" if "k < 3" for k
    unfolding raw_bytes_def by (rule concat_map_nth3) (use assms that in simp_all)
  show ?thesis
    using n [of 0] n [of 1] n [of 2] argb_of_rgb24 [OF assms(2)]
    by (simp add: argb_at_def opaque_def)
qed

lemma argb_at_shift: "i = length a + j \<Longrightarrow> j + 2 < length b \<Longrightarrow>
    argb_at (a @ b @ c) i = argb_at b j"
  by (simp add: argb_at_def nth_append)

lemma put_rgb_data: "no_oom al \<Longrightarrow> rb_data (put_rgb al b c) = rb_data b @ raw_bytes [c]"
  by (simp add: put_rgb_def buf_simps raw_bytes_def)

lemma put_rgbs_data:
  "no_oom al \<Longrightarrow> rb_data (fold (\<lambda>c b. put_rgb al b c) cs b) = rb_data b @ raw_bytes cs"
  by (induction cs arbitrary: b) (simp_all add: put_rgb_data raw_bytes_def)

lemma length_pack_row: "length (pack_row bpp w sr) = row_bytes w bpp"
  by (simp add: pack_row_def length_pack_row_upto [unfolded pack_row_upto_def])

lemma pack_tile_Suc:
  "pack_tile bpp w (Suc h) idx = pack_tile bpp w h idx @ pack_row bpp w (\<lambda>x. idx ! (h * w + x))"
  by (simp add: pack_tile_def)

lemma length_pack_tile [len_simps]: "length (pack_tile bpp w h idx) = row_bytes w bpp * h"
  by (induction h) (simp_all add: pack_tile_Suc length_pack_row, simp add: pack_tile_def)

lemma drop_pack_tile:
  "y < h \<Longrightarrow> \<exists>rest. drop (y * row_bytes w bpp) (pack_tile bpp w h idx) =
     pack_row bpp w (\<lambda>x. idx ! (y * w + x)) @ rest"
proof (induction h)
  case (Suc h)
  show ?case
  proof (cases "y = h")
    case True
    then show ?thesis by (simp add: pack_tile_Suc length_pack_tile mult.commute)
  next
    case False
    with Suc.prems have "y < h" by simp
    then have "y * row_bytes w bpp \<le> h * row_bytes w bpp" by (intro mult_right_mono) simp_all
    with Suc.IH [OF \<open>y < h\<close>] show ?thesis
      by (auto simp: pack_tile_Suc length_pack_tile mult.commute)
  qed
qed simp

lemma row_bytes_le: "bpp \<in> {1, 2, 4, 8} \<Longrightarrow> row_bytes w bpp \<le> w"
  by (auto simp: row_bytes_def)

text \<open>The capacity given to the compressor suffices for a tile's worth of bytes.\<close>

lemma lz_sizeof_enough: "n \<le> 64 * 64 * 3 \<Longrightarrow> rd_lz_bound n \<le> lz_sizeof"
  using div_le_mono [of n "64 * 64 * 3" 255] by (simp add: rd_lz_bound_def lz_sizeof_def)

definition tile_dims :: "nat \<Rightarrow> nat \<Rightarrow> bool" where
  "tile_dims w h \<longleftrightarrow> 1 \<le> w \<and> w \<le> 64 \<and> 1 \<le> h \<and> h \<le> 64"

lemma tile_area: "tile_dims w h \<Longrightarrow> h * w \<le> 4096 \<and> 0 < h * w"
  using mult_le_mono [of h 64 w 64] by (simp add: tile_dims_def)

lemma pixel_in_tile:
  assumes "(y :: nat) < h" "x < w" shows "y * w + x < h * w"
proof -
  have "(y + 1) * w \<le> h * w" using assms by (intro mult_right_mono) simp_all
  with assms show ?thesis by simp
qed

lemma decode_raw:
  assumes d: "tile_dims w h" and px: "length px = h * w" "\<And>i. i < h * w \<Longrightarrow> rgb24 (px ! i)"
  shows "rd_decode_tile (enc_id RD_ENC_RAW) (raw_bytes px) (int w) (int h) dst ds =
    (0, blit dst ds w h (\<lambda>y x. opaque (px ! (y * w + x))))"
proof -
  have "blit dst ds w h (\<lambda>y x. argb_at (raw_bytes px) ((y * w + x) * 3)) =
      blit dst ds w h (\<lambda>y x. opaque (px ! (y * w + x)))"
  proof (rule blit_cong)
    fix y x assume "y < h" "x < w"
    then have "y * w + x < h * w" by (rule pixel_in_tile)
    then show "argb_at (raw_bytes px) ((y * w + x) * 3) = opaque (px ! (y * w + x))"
      using px by (intro argb_at_raw_bytes) simp_all
  qed
  with d px show ?thesis
    by (simp add: rd_decode_tile_def tile_dims_def length_raw_bytes Let_def mult.commute)
qed

lemma decode_solid:
  assumes d: "tile_dims w h" and c: "rgb24 c"
  shows "rd_decode_tile (enc_id RD_ENC_SOLID) (raw_bytes [c]) (int w) (int h) dst ds =
    (0, blit dst ds w h (\<lambda>y x. opaque c))"
  using d argb_at_raw_bytes [of 0 "[c]"] c
  by (simp add: rd_decode_tile_def tile_dims_def length_raw_bytes Let_def)

lemma pal_inv_nonempty: "pal_inv px st \<Longrightarrow> px \<noteq> [] \<Longrightarrow> 1 \<le> length (ps_pal st)"
  by (cases "ps_pal st") (auto simp: pal_inv_def)

lemma decode_palette_tile:
  assumes d: "tile_dims w h" and inv: "pal_inv px st"
    and px: "length px = h * w" "\<And>i. i < h * w \<Longrightarrow> rgb24 (px ! i)"
    and zl: "zl = rd_lz_compress (pack_tile (bits_per_index (length (ps_pal st))) w h (ps_idx st)) lz_sizeof"
  shows "rd_decode_tile (enc_id RD_ENC_PALETTE)
      (of_nat (length (ps_pal st) - 1) # raw_bytes (ps_pal st) @ zl) (int w) (int h) dst ds =
    (0, blit dst ds w h (\<lambda>y x. opaque (px ! (y * w + x))))"
proof -
  define pal np bpp rb where "pal = ps_pal st" and "np = length pal" and "bpp = bits_per_index np"
    and "rb = row_bytes w bpp"
  define p where "p = [of_nat (np - 1)] @ raw_bytes pal @ zl"
  have "px \<noteq> []" using px(1) tile_area [OF d] by auto
  then have np: "1 \<le> np" "np \<le> 256"
    using pal_inv_nonempty [OF inv] inv by (simp_all add: np_def pal_def pal_inv_def)
  have bpp: "bpp \<in> {1, 2, 4, 8}" unfolding bpp_def by (rule bits_per_index_cases)
  have "unat (of_nat (np - 1) :: u8) = np - 1" using np by (intro unat_of_nat_small(1)) simp
  moreover have "p ! 0 = of_nat (np - 1)" unfolding p_def by (simp only: append_Cons nth_Cons_0)
  ultimately have p0: "unat (p ! 0) + 1 = np" using np(1) by (simp only: le_add_diff_inverse2)
  have lp: "length p = 1 + np * 3 + length zl" by (simp add: p_def length_raw_bytes np_def)
  have col: "rgb24 c" if "c \<in> set pal" for c
  proof -
    have "c \<in> set px" using that inv by (simp add: pal_inv_def pal_def)
    then obtain i where "i < length px" "px ! i = c" unfolding in_set_conv_nth by blast
    with px show ?thesis by metis
  qed
  have palat: "map (\<lambda>i. argb_at p (1 + i * 3)) [0..<np] = map opaque pal"
  proof (rule nth_equalityI)
    fix i assume "i < length (map (\<lambda>i. argb_at p (1 + i * 3)) [0..<np])"
    then have i: "i < np" by simp
    then have "argb_at p (1 + i * 3) = argb_at (raw_bytes pal) (i * 3)"
      unfolding p_def by (intro argb_at_shift) (simp_all add: length_raw_bytes np_def)
    also have "\<dots> = opaque (pal ! i)"
      using i by (intro argb_at_raw_bytes col) (simp_all add: np_def)
    finally show "map (\<lambda>i. argb_at p (1 + i * 3)) [0..<np] ! i = map opaque pal ! i"
      using i by (simp add: np_def)
  qed (simp add: np_def)
  let ?pk = "pack_tile bpp w h (ps_idx st)"
  have "rb * h \<le> w * h" unfolding rb_def using row_bytes_le [OF bpp] by (rule mult_right_mono) simp
  moreover have "w * h \<le> 4096" using tile_area [OF d] by (simp add: mult.commute)
  ultimately have "rb * h \<le> 4096" by (rule order_trans)
  moreover have "length ?pk = rb * h" by (simp add: length_pack_tile rb_def)
  ultimately have lpk: "length ?pk = rb * h" "rb * h \<le> 4096" by simp_all
  have dec: "rd_lz_decompress (drop (1 + np * 3) p) (rb * h) = Some ?pk"
  proof -
    have "drop (1 + np * 3) p = zl" by (simp add: p_def length_raw_bytes np_def)
    then show ?thesis
      using lpk by (simp add: zl pal_def [symmetric] np_def [symmetric] bpp_def [symmetric]
          rd_lz_roundtrip lz_sizeof_enough)
  qed
  have ix: "unpack_index bpp (drop (y * rb) ?pk) x = unat (ps_idx st ! (y * w + x))"
    "unat (ps_idx st ! (y * w + x)) < np" "pal ! unat (ps_idx st ! (y * w + x)) = px ! (y * w + x)"
    if "y < h" "x < w" for y x
  proof -
    have idx: "unat (ps_idx st ! (y * w + x)) < np \<and>
        pal ! unat (ps_idx st ! (y * w + x)) = px ! (y * w + x)" if "x < w" for x
      using inv px(1) pixel_in_tile [OF \<open>y < h\<close> that] by (simp add: pal_inv_def pal_def np_def)
    then show "unat (ps_idx st ! (y * w + x)) < np" "pal ! unat (ps_idx st ! (y * w + x)) = px ! (y * w + x)"
      using that by simp_all
    obtain rest where "drop (y * rb) ?pk = pack_row bpp w (\<lambda>x. ps_idx st ! (y * w + x)) @ rest"
      using drop_pack_tile [OF \<open>y < h\<close>] unfolding rb_def by blast
    moreover have "unat (ps_idx st ! (y * w + x)) < 2 ^ bpp" if "x < w" for x
      using idx [OF that] bits_per_index_enough [OF np(2)] by (simp add: bpp_def)
    ultimately show "unpack_index bpp (drop (y * rb) ?pk) x = unat (ps_idx st ! (y * w + x))"
      using unpack_pack_row [OF bpp \<open>x < w\<close>] by simp
  qed
  have "blit_indexed (List.product [0..<h] [0..<w]) (map opaque pal) ds
      (\<lambda>y x. unpack_index bpp (drop (y * rb) ?pk) x) dst =
    (0, blit dst ds w h (\<lambda>y x. map opaque pal ! unpack_index bpp (drop (y * rb) ?pk) x))"
    unfolding blit_def by (rule blit_indexed_all) (use ix in \<open>simp add: np_def\<close>)
  also have "blit dst ds w h (\<lambda>y x. map opaque pal ! unpack_index bpp (drop (y * rb) ?pk) x) =
      blit dst ds w h (\<lambda>y x. opaque (px ! (y * w + x)))"
    by (rule blit_cong) (use ix in \<open>simp add: np_def\<close>)
  finally have b: "blit_indexed (List.product [0..<h] [0..<w]) (map opaque pal) ds
      (\<lambda>y x. unpack_index bpp (drop (y * rb) ?pk) x) dst =
    (0, blit dst ds w h (\<lambda>y x. opaque (px ! (y * w + x))))" .
  have "decode_palette p w h dst ds = (0, blit dst ds w h (\<lambda>y x. opaque (px ! (y * w + x))))"
    unfolding decode_palette_def Let_def p0 palat bpp_def [symmetric] rb_def [symmetric] dec
    using lp lpk(1) b by simp
  with d show ?thesis
    by (simp add: rd_decode_tile_def tile_dims_def p_def np_def pal_def)
qed

lemma length_decorrelate: "length (decorrelate c) = 3"
  by (simp add: decorrelate_def Let_def)

lemma decode_zrgb_tile:
  assumes d: "tile_dims w h" and px: "length px = h * w" "\<And>i. i < h * w \<Longrightarrow> rgb24 (px ! i)"
    and zl: "zl = rd_lz_compress (residuals (concat (map decorrelate px)) w h) lz_sizeof"
  shows "rd_decode_tile (enc_id RD_ENC_ZRGB) zl (int w) (int h) dst ds =
    (0, blit dst ds w h (\<lambda>y x. opaque (px ! (y * w + x))))"
proof -
  define t where "t = concat (map decorrelate px)"
  have lt: "length t = h * w * 3" by (simp add: t_def length_concat_map3 length_decorrelate px(1))
  have lr: "length (residuals t w h) = h * w * 3" by (simp add: residuals_def length_tile_samples)
  have dec: "rd_lz_decompress zl (w * h * 3) = Some (residuals t w h)"
    unfolding zl t_def [symmetric] using tile_area [OF d] lr
    by (intro rd_lz_roundtrip lz_sizeof_enough) (simp_all add: mult.commute)
  let ?f = "\<lambda>y x. let s = (y * w + x) * 3; g = t ! s in argb (t ! (s + 1) + g) g (t ! (s + 2) + g)"
  have "blit dst ds w h ?f = blit dst ds w h (\<lambda>y x. opaque (px ! (y * w + x)))"
  proof (rule blit_cong)
    fix y x assume yx: "y < h" "x < w"
    let ?i = "y * w + x"
    have i: "?i < length px" using pixel_in_tile [OF yx] px(1) by simp
    have n: "t ! (?i * 3 + k) = decorrelate (px ! ?i) ! k" if "k < 3" for k
      unfolding t_def by (rule concat_map_nth3) (use i that in \<open>simp_all add: length_decorrelate\<close>)
    have "decorrelate (px ! ?i) = [t ! (?i * 3), t ! (?i * 3 + 1), t ! (?i * 3 + 2)]"
      using n [of 0] n [of 1] n [of 2] by (simp add: decorrelate_def Let_def)
    then have "?f y x = argb (ucast (drop_bit 16 (px ! ?i))) (ucast (drop_bit 8 (px ! ?i))) (ucast (px ! ?i))"
      unfolding Let_def by (rule argb_decorrelate)
    also have "\<dots> = opaque (px ! ?i)"
      using px(2) [OF pixel_in_tile [OF yx]] by (simp add: argb_of_rgb24 opaque_def)
    finally show "?f y x = opaque (px ! ?i)" .
  qed
  with d lr dec show ?thesis
    by (simp add: rd_decode_tile_def tile_dims_def decode_zrgb_def undo_residuals_residuals [OF lt]
        mult.commute)
qed

section \<open>What the encoder produces\<close>

text \<open>The payload, and the encoding it is for, with the colours of the tile.\<close>

definition tile_encoding :: "u32 list \<Rightarrow> pal_state \<Rightarrow> nat \<Rightarrow> nat \<Rightarrow> rd_enc \<Rightarrow> bytes \<Rightarrow> bool" where
  "tile_encoding px st w h enc pay \<longleftrightarrow>
     (enc = RD_ENC_SOLID \<and> pal_inv px st \<and> ps_pal st = [px ! 0] \<and> pay = raw_bytes [px ! 0]) \<or>
     (enc = RD_ENC_PALETTE \<and> pal_inv px st \<and> length (ps_pal st) \<noteq> 1 \<and> length pay < w * h * 3 \<and>
      pay = of_nat (length (ps_pal st) - 1) # raw_bytes (ps_pal st) @
        rd_lz_compress (pack_tile (bits_per_index (length (ps_pal st))) w h (ps_idx st)) lz_sizeof) \<or>
     (enc = RD_ENC_ZRGB \<and> 256 < card (set px) \<and> length pay < w * h * 3 \<and>
      pay = rd_lz_compress (residuals (concat (map decorrelate px)) w h) lz_sizeof) \<or>
     (enc = RD_ENC_RAW \<and> pay = raw_bytes px \<and> 1 < card (set px))"

lemma encode_raw_data:
  "no_oom al \<Longrightarrow> encode_raw al px out = (e, out') \<Longrightarrow>
     e = RD_ENC_RAW \<and> rb_data out' = rb_data out @ raw_bytes px"
  using rd_buf_grow_no_oom [of al out "raw_bytes px"] by (auto simp: encode_raw_def)

lemma rd_encode_tile_cases:
  assumes al: "no_oom al" and px: "px = tile_pixels bgra stride w h (quality_mask q)" "px \<noteq> []"
  shows "\<exists>st enc out' pay. rd_encode_tile al bgra stride w h q out = Some (enc, out') \<and>
    rb_data out' = rb_data out @ pay \<and> tile_encoding px st w h enc pay"
proof -
  obtain is_pal st where b: "pal_build px = Some (is_pal, st)"
    and inv: "is_pal \<Longrightarrow> pal_inv px st" and many: "\<not> is_pal \<Longrightarrow> 256 < card (set px)"
    using pal_build_correct [of px] by blast
  have e: "rd_encode_tile al bgra stride w h q out = Some (
          if is_pal \<and> length (ps_pal st) = 1
          then (RD_ENC_SOLID, put_rgb al out (ps_pal st ! 0))
          else if is_pal then encode_palette al px st w h out
          else encode_zrgb al px w h out)"
    using b by (simp add: rd_encode_tile_def px(1))
  have card: "card (set px) = length (ps_pal st)" if is_pal
    using inv [OF that] by (metis distinct_card pal_inv_def)
  have pos: "1 \<le> length (ps_pal st)" if is_pal using pal_inv_nonempty [OF inv [OF that] px(2)] .
  consider (solid) "is_pal" "length (ps_pal st) = 1" | (pal) "is_pal" "length (ps_pal st) \<noteq> 1"
    | (many) "\<not> is_pal" by blast
  then show ?thesis
  proof cases
    case solid
    then obtain c where c: "ps_pal st = [c]" by (auto simp: length_1_conv)
    then have "set px = {c}" using inv [OF solid(1)] by (auto simp: pal_inv_def)
    with px(2) have "px ! 0 = c" by (metis length_greater_0_conv nth_mem singletonD)
    then show ?thesis
      using e solid c inv al
      by (intro exI [of _ st] exI [of _ RD_ENC_SOLID] exI [of _ "put_rgb al out c"] exI [of _ "raw_bytes [c]"])
        (simp add: put_rgb_data tile_encoding_def)
  next
    case pal
    obtain enc out' where eo: "encode_palette al px st w h out = (enc, out')" by fastforce
    let ?zl = "rd_lz_compress (pack_tile (bits_per_index (length (ps_pal st))) w h (ps_idx st)) lz_sizeof"
    let ?pay = "of_nat (length (ps_pal st) - 1) # raw_bytes (ps_pal st) @ ?zl"
    show ?thesis
    proof (cases "1 + length (ps_pal st) * 3 + length ?zl < w * h * 3")
      case True
      then have "enc = RD_ENC_PALETTE \<and> rb_data out' = rb_data out @ ?pay \<and> length ?pay < w * h * 3"
        using eo al by (auto simp: encode_palette_def Let_def buf_simps put_rgbs_data length_raw_bytes)
      then show ?thesis using e eo pal inv
        by (intro exI [of _ st] exI [of _ enc] exI [of _ out'] exI [of _ ?pay])
          (simp add: tile_encoding_def)
    next
      case False
      then have "enc = RD_ENC_RAW \<and> rb_data out' = rb_data out @ raw_bytes px"
        using eo encode_raw_data [OF al] by (simp add: encode_palette_def Let_def)
      then show ?thesis using e eo pal card pos
        by (intro exI [of _ st] exI [of _ enc] exI [of _ out'] exI [of _ "raw_bytes px"])
          (simp add: tile_encoding_def)
    qed
  next
    case many
    obtain enc out' where eo: "encode_zrgb al px w h out = (enc, out')" by fastforce
    let ?zl = "rd_lz_compress (residuals (concat (map decorrelate px)) w h) lz_sizeof"
    show ?thesis
    proof (cases "length ?zl < w * h * 3")
      case True
      then have "enc = RD_ENC_ZRGB \<and> rb_data out' = rb_data out @ ?zl"
        using eo al by (auto simp: encode_zrgb_def Let_def buf_simps)
      then show ?thesis using e eo many True \<open>\<not> is_pal \<Longrightarrow> 256 < card (set px)\<close>
        by (intro exI [of _ st] exI [of _ enc] exI [of _ out'] exI [of _ ?zl])
          (simp add: tile_encoding_def)
    next
      case False
      then have "enc = RD_ENC_RAW \<and> rb_data out' = rb_data out @ raw_bytes px"
        using eo encode_raw_data [OF al] by (simp add: encode_zrgb_def Let_def)
      then show ?thesis using e eo many \<open>\<not> is_pal \<Longrightarrow> 256 < card (set px)\<close>
        by (intro exI [of _ st] exI [of _ enc] exI [of _ out'] exI [of _ "raw_bytes px"])
          (simp add: tile_encoding_def)
    qed
  qed
qed

lemma tile_encoding_decodes:
  assumes d: "tile_dims w h" and e: "tile_encoding px st w h enc pay"
    and px: "length px = h * w" "\<And>i. i < h * w \<Longrightarrow> rgb24 (px ! i)"
  shows "rd_decode_tile (enc_id enc) pay (int w) (int h) dst ds =
    (0, blit dst ds w h (\<lambda>y x. opaque (px ! (y * w + x))))"
  using e unfolding tile_encoding_def
proof (elim disjE conjE)
  assume s: "enc = RD_ENC_SOLID" "pal_inv px st" "ps_pal st = [px ! 0]" "pay = raw_bytes [px ! 0]"
  then have "set px = {px ! 0}" by (auto simp: pal_inv_def)
  then have "px ! (y * w + x) = px ! 0" if "y < h" "x < w" for y x
    using pixel_in_tile [OF that] px(1) by (metis nth_mem singletonD)
  then have "blit dst ds w h (\<lambda>y x. opaque (px ! 0)) =
      blit dst ds w h (\<lambda>y x. opaque (px ! (y * w + x)))" by (intro blit_cong) simp
  with s d px tile_area [OF d] show ?thesis by (simp add: decode_solid del: enc_id.simps)
next
  assume "enc = RD_ENC_PALETTE" "pal_inv px st" "pay = of_nat (length (ps_pal st) - 1) #
    raw_bytes (ps_pal st) @
    rd_lz_compress (pack_tile (bits_per_index (length (ps_pal st))) w h (ps_idx st)) lz_sizeof"
  then show ?thesis using decode_palette_tile [OF d _ px refl, where st = st] by metis
qed (use d px in \<open>simp_all add: decode_zrgb_tile decode_raw del: enc_id.simps\<close>)

lemma tile_encoding_length:
  assumes "tile_encoding px st w h enc pay" "length px = h * w"
  shows "length pay \<le> (if enc = RD_ENC_SOLID then 3 else w * h * 3)"
  using assms by (auto simp: tile_encoding_def length_raw_bytes mult.commute)

section \<open>Quantisation\<close>

lemma quality_mask_cases: "quality_mask q \<in> {0xFF, 0xFC, 0xF8, 0xF0}"
proof -
  have "nat (if q < 0 then 0 else if q > 3 then 3 else q) \<in> {0, 1, 2, 3}" by auto
  then show ?thesis unfolding quality_mask_def k_quality_mask_def by auto
qed

lemma unat_and_not_mask:
  "unat (x AND NOT (mask k) :: u8) = unat x - unat x mod 2 ^ k"
proof -
  have "x AND NOT (mask k) = x - take_bit k x"
  proof -
    have "(x AND NOT (mask k)) + take_bit k x = (x AND NOT (mask k)) OR take_bit k x"
      by (rule disjunctive_add) (auto simp: bit_simps)
    also have "\<dots> = x" by (rule bit_word_eqI) (auto simp: bit_simps)
    finally show ?thesis by (simp add: eq_diff_eq)
  qed
  moreover have "unat (take_bit k x) = unat x mod 2 ^ k"
    by (simp only: unsigned_take_bit_eq take_bit_eq_mod [of k "unat x"])
  moreover have "take_bit k x \<le> x" by (simp add: word_le_nat_alt calculation(2))
  ultimately show ?thesis by (simp add: unat_sub)
qed

lemma quality_mask_mask:
  obtains k where "quality_mask q = NOT (mask k)" "k \<in> {0, 2, 3, 4}" "q \<le> 0 \<longrightarrow> k = 0"
proof -
  have m: "(0xFF :: u8) = NOT (mask 0)" "(0xFC :: u8) = NOT (mask 2)" "(0xF8 :: u8) = NOT (mask 3)"
    "(0xF0 :: u8) = NOT (mask 4)" by (simp_all add: mask_eq_exp_minus_1)
  have "nat (if q < 0 then 0 else if q > 3 then 3 else q) \<in> {0, 1, 2, 3}" by auto
  then consider "nat (if q < 0 then 0 else if q > 3 then 3 else q) = 0"
    | "q > 0" "quality_mask q = 0xFC" | "q > 0" "quality_mask q = 0xF8" | "q > 0" "quality_mask q = 0xF0"
    unfolding quality_mask_def k_quality_mask_def by (auto split: if_splits)
  then show thesis
  proof cases
    case 1
    then have "quality_mask q = 0xFF" by (simp only: quality_mask_def k_quality_mask_def nth_Cons_0)
    with m show ?thesis by (intro that [of 0]) simp_all
  next
    case 2
    with m show ?thesis by (intro that [of 2]) simp_all
  next
    case 3
    with m show ?thesis by (intro that [of 3]) simp_all
  next
    case 4
    with m show ?thesis by (intro that [of 4]) simp_all
  qed
qed

lemma unat_quant:
  assumes "k \<in> {0, 2, 3, 4}"
  shows "unat (quant (NOT (mask k)) v) =
    (let n = min 255 (unat v + (2 ^ k - 1) div 2) in n - n mod 2 ^ k)"
proof -
  have "unat (drop_bit 1 (mask k) :: u8) = (2 ^ k - 1) div 2"
    using assms by (auto simp: mask_eq_exp_minus_1)
  then show ?thesis by (simp add: quant_def unat_and_not_mask Let_def min_def)
qed

lemma quant_bounds:
  assumes "k \<in> {0, 2, 3, 4}"
  shows "unat (quant (NOT (mask k)) v) \<le> unat v + (2 ^ k - 1) div 2"
    "unat v \<le> unat (quant (NOT (mask k)) v) + (2 ^ k - 1)"
    "unat (quant (NOT (mask k)) v) mod 2 ^ k = 0"
proof -
  define n where "n = min 255 (unat v + (2 ^ k - 1) div 2)"
  have q: "unat (quant (NOT (mask k)) v) = n - n mod 2 ^ k"
    unfolding unat_quant [OF assms] n_def Let_def ..
  have "min 255 (u + hf) \<le> u + hf \<and> u \<le> min 255 (u + hf)" if "u < 256" for u hf :: nat
    using that by simp
  from this [of "unat v" "(2 ^ k - 1) div 2"] have n: "n \<le> unat v + (2 ^ k - 1) div 2" "unat v \<le> n"
    unfolding n_def by simp_all
  show "unat (quant (NOT (mask k)) v) \<le> unat v + (2 ^ k - 1) div 2" using q n by simp
  have "n mod 2 ^ k < 2 ^ k" "n mod 2 ^ k \<le> n" by simp_all
  then show "unat v \<le> unat (quant (NOT (mask k)) v) + (2 ^ k - 1)" using q n by linarith
  show "unat (quant (NOT (mask k)) v) mod 2 ^ k = 0" unfolding q by (simp add: minus_mod_eq_mult_div)
qed

lemma quant_idem:
  assumes "k \<in> {0, 2, 3, 4}"
  shows "quant (NOT (mask k)) (quant (NOT (mask k)) v) = quant (NOT (mask k)) v"
proof (rule word_unat_eq_iff [THEN iffD2])
  define m where "m = unat (quant (NOT (mask k)) v)"
  have m: "m mod 2 ^ k = 0" "m < 256" using quant_bounds(3) [OF assms] by (simp_all add: m_def)
  then have r: "(m + (2 ^ k - 1) div 2) mod 2 ^ k = (2 ^ k - 1) div 2"
    using assms by (subst mod_add_eq [symmetric]) auto
  have "m + (2 ^ k - 1) div 2 \<le> 255" using m assms by auto
  then show "unat (quant (NOT (mask k)) (quant (NOT (mask k)) v)) = unat (quant (NOT (mask k)) v)"
    unfolding unat_quant [OF assms, of "quant (NOT (mask k)) v"] m_def [symmetric] Let_def
    using r by (simp add: min_def)
qed

section \<open>Any payload\<close>

text \<open>
  The decoder on arbitrary input: what it may have changed of the destination, and what success
  means for the pixels.
\<close>

definition tile_frame :: "u32 list \<Rightarrow> nat \<Rightarrow> nat \<Rightarrow> nat \<Rightarrow> u32 list \<Rightarrow> bool" where
  "tile_frame dst ds w h dst' \<longleftrightarrow> length dst' = length dst \<and>
     (\<forall>i. dst' ! i = dst ! i \<or> (\<exists>y < h. \<exists>x < w. i = y * ds + x))"

lemma tile_frame_refl [intro, simp]: "tile_frame dst ds w h dst"
  by (simp add: tile_frame_def)

lemma tile_frame_blit [intro, simp]: "tile_frame dst ds w h (blit dst ds w h f)"
  unfolding tile_frame_def using blit_other [of h w _ ds dst f] length_blit [of dst ds w h f] by blast

lemma tile_frame_blit_indexed:
  "tile_frame dst ds w h (snd (blit_indexed (List.product [0..<h] [0..<w]) pal ds ix dst))"
proof -
  have "snd (blit_indexed (List.product [0..<h] [0..<w]) pal ds ix dst) ! i = dst ! i"
    if "\<not> (\<exists>y < h. \<exists>x < w. i = y * ds + x)" for i
    by (rule blit_indexed_other) (use that in auto)
  then show ?thesis unfolding tile_frame_def using blit_indexed_length by blast
qed

lemma blit_indexed_ok:
  "fst (blit_indexed ps pal ds ix dst) = 0 \<Longrightarrow> (y, x) \<in> set ps \<Longrightarrow> ix y x < length pal"
  by (induction ps pal ds ix dst rule: blit_indexed.induct) (auto split: if_splits)

lemma blit_indexed_ret: "fst (blit_indexed ps pal ds ix dst) \<in> {0, -1}"
  by (induction ps pal ds ix dst rule: blit_indexed.induct) auto

lemma drop_24_argb: "drop_bit 24 (argb r g b) = 0xFF"
proof (rule bit_word_eqI)
  fix n assume "n < LENGTH(32)"
  have "bit (0xFF000000 :: u32) (24 + n) \<longleftrightarrow> bit (0xFF :: u32) n"
    using bit_drop_bit_eq [of 24 "0xFF000000 :: u32"] by (simp add: fun_eq_iff)
  then show "bit (drop_bit 24 (argb r g b)) n = bit (0xFF :: u32) n"
    by (auto simp: argb_def bit_simps dest: bit_imp_le_length)
qed

definition tile_opaque :: "nat \<Rightarrow> nat \<Rightarrow> nat \<Rightarrow> u32 list \<Rightarrow> bool" where
  "tile_opaque ds w h dst \<longleftrightarrow> (\<forall>y < h. \<forall>x < w. drop_bit 24 (dst ! (y * ds + x)) = 0xFF)"

lemma tile_opaque_blit:
  assumes "w \<le> ds" "(h - 1) * ds + w \<le> length dst"
    and "\<And>y x. y < h \<Longrightarrow> x < w \<Longrightarrow> drop_bit 24 (f y x) = 0xFF"
  shows "tile_opaque ds w h (blit dst ds w h f)"
  using assms by (simp add: tile_opaque_def blit_nth)

lemma decode_palette_any:
  assumes "decode_palette p w h dst ds = (ret, dst')"
  shows "ret \<in> {0, -1} \<and> tile_frame dst ds w h dst' \<and>
    (ret = 0 \<longrightarrow> w \<le> ds \<longrightarrow> (h - 1) * ds + w \<le> length dst \<longrightarrow> tile_opaque ds w h dst')"
proof (cases "ret = -1 \<and> dst' = dst")
  case False
  define np where "np = unat (p ! 0) + 1"
  define pal where "pal = map (\<lambda>i. argb_at p (1 + i * 3)) [0..<np]"
  let ?ps = "List.product [0..<h] [0..<w]"
  from False assms have "\<exists>ix. blit_indexed ?ps pal ds ix dst = (ret, dst')"
    by (auto simp: decode_palette_def Let_def pal_def np_def simp del: upt_Suc split: if_splits option.splits)
  then obtain ix where b: "blit_indexed ?ps pal ds ix dst = (ret, dst')" ..
  have op: "drop_bit 24 c = 0xFF" if "c \<in> set pal" for c
    using that by (auto simp: pal_def argb_at_def drop_24_argb)
  have "tile_opaque ds w h dst'" if "ret = 0" "w \<le> ds" "(h - 1) * ds + w \<le> length dst"
  proof -
    have ix: "ix y x < length pal" if "y < h" "x < w" for y x
      using blit_indexed_ok [of ?ps pal ds ix dst y x] b \<open>ret = 0\<close> that by (metis fst_conv
          atLeastLessThan_iff mem_Sigma_iff set_product set_upt zero_le)
    then have "dst' = blit dst ds w h (\<lambda>y x. pal ! ix y x)"
      using blit_indexed_all [of ?ps ix pal ds dst] b by (simp add: blit_def)
    then show ?thesis using that ix op by (simp add: tile_opaque_blit)
  qed
  then show ?thesis
    using b blit_indexed_ret [of ?ps pal ds ix dst] tile_frame_blit_indexed [of dst ds w h pal ix]
    by (metis fst_conv snd_conv)
qed simp

lemma rd_decode_tile_any:
  assumes "rd_decode_tile enc p wi hi dst ds = (ret, dst')"
  shows "ret \<in> {0, -1} \<and> tile_frame dst ds (nat wi) (nat hi) dst' \<and>
    (ret = 0 \<longrightarrow> nat wi \<le> ds \<longrightarrow> (nat hi - 1) * ds + nat wi \<le> length dst \<longrightarrow>
      tile_opaque ds (nat wi) (nat hi) dst')"
proof -
  have "ret \<in> {0, -1} \<and> tile_frame dst ds (nat wi) (nat hi) dst' \<and>
    (ret = 0 \<longrightarrow> nat wi \<le> ds \<longrightarrow> (nat hi - 1) * ds + nat wi \<le> length dst \<longrightarrow>
      tile_opaque ds (nat wi) (nat hi) dst')"
    if "(ret, dst') = (-1, dst) \<or> (\<exists>f. ret = 0 \<and> dst' = blit dst ds (nat wi) (nat hi) f \<and>
        (\<forall>y x. drop_bit 24 (f y x) = 0xFF))"
    using that by (auto intro!: tile_opaque_blit)
  moreover have "(ret, dst') = (-1, dst) \<or> (\<exists>f. ret = 0 \<and> dst' = blit dst ds (nat wi) (nat hi) f \<and>
        (\<forall>y x. drop_bit 24 (f y x) = 0xFF)) \<or>
      decode_palette p (nat wi) (nat hi) dst ds = (ret, dst')"
    using assms unfolding rd_decode_tile_def decode_zrgb_def
    by (auto simp: Let_def argb_at_def drop_24_argb split: if_splits option.splits)
  ultimately show ?thesis using decode_palette_any by blast
qed

lemma tile_pixels_rgb24:
  assumes "i < h * w" shows "rgb24 (tile_pixels bgra stride w h qm ! i)"
proof -
  have "i < length (tile_pixels bgra stride w h qm)" using assms by (simp add: length_tile_pixels)
  then have "tile_pixels bgra stride w h qm ! i \<in> set (tile_pixels bgra stride w h qm)" by simp
  then show ?thesis by (auto simp: tile_pixels_def rgb24_quant_pixel)
qed

lemma quant_lossless: "quant (quality_mask 0) v = v"
proof (rule word_unat_eq_iff [THEN iffD2])
  obtain k where k: "quality_mask 0 = NOT (mask k)" "k \<in> {0, 2, 3, 4}" "(0 :: int) \<le> 0 \<longrightarrow> k = 0"
    by (rule quality_mask_mask)
  then have "k = 0" by simp
  then show "unat (quant (quality_mask 0) v) = unat v"
    using quant_bounds(1,2) [OF k(2), of v] unfolding k(1) by simp
qed

section \<open>Properties\<close>

text \<open>C14: For every tile of at most 64 x 64 pixels, every quality and every destination that has room
  for it, the encoder (allocation granted) returns an encoding and appends a payload, and the decoder
  given exactly that encoding and payload succeeds and writes every pixel of the tile as the source
  pixel with its channels quantised, opaque, wherever the encoder chose SOLID, PALETTE, ZRGB or RAW.\<close>

theorem rd_tile_roundtrip:
  assumes "no_oom al" and "1 \<le> w" "w \<le> 64" and "1 \<le> h" "h \<le> 64"
    and "w \<le> ds" and "(h - 1) * ds + w \<le> length dst"
  shows "\<exists>enc out' pay dst'. rd_encode_tile al bgra stride w h quality out = Some (enc, out') \<and>
    rb_data out' = rb_data out @ pay \<and>
    rd_decode_tile (enc_id enc) pay (int w) (int h) dst ds = (0, dst') \<and> length dst' = length dst \<and>
    (\<forall>y < h. \<forall>x < w. dst' ! (y * ds + x) =
       0xFF000000 OR quant_pixel bgra (quality_mask quality) (y * stride + x * 4))"
proof -
  define px where "px = tile_pixels bgra stride w h (quality_mask quality)"
  have d: "tile_dims w h" using assms by (simp add: tile_dims_def)
  have px: "length px = h * w" by (simp add: px_def length_tile_pixels)
  have rgb: "rgb24 (px ! i)" if "i < h * w" for i
    using that by (simp add: px_def tile_pixels_rgb24)
  have "px \<noteq> []" using px tile_area [OF d] by auto
  then obtain st enc out' pay where e: "rd_encode_tile al bgra stride w h quality out = Some (enc, out')"
    "rb_data out' = rb_data out @ pay" "tile_encoding px st w h enc pay"
    using rd_encode_tile_cases [OF assms(1) px_def] by blast
  let ?dst = "blit dst ds w h (\<lambda>y x. opaque (px ! (y * w + x)))"
  have "rd_decode_tile (enc_id enc) pay (int w) (int h) dst ds = (0, ?dst)"
    using tile_encoding_decodes [OF d e(3) px rgb] .
  moreover have "\<forall>y < h. \<forall>x < w. ?dst ! (y * ds + x) =
       0xFF000000 OR quant_pixel bgra (quality_mask quality) (y * stride + x * 4)"
    using assms(6,7) by (simp add: blit_nth px_def tile_pixels_nth opaque_def)
  ultimately show ?thesis using e(1,2) length_blit by blast
qed

theorem rd_tile_roundtrip_witness:
  "\<exists>enc out' pay dst'. rd_encode_tile (\<lambda>_. True) [1, 2, 3, 0, 4, 5, 6, 0] 8 2 1 2 rd_buf_init = Some (enc, out') \<and>
    rb_data out' = rb_data rd_buf_init @ pay \<and>
    rd_decode_tile (enc_id enc) pay (int 2) (int 1) [0, 0, 0] 3 = (0, dst') \<and> length dst' = length [0, 0, 0 :: u32] \<and>
    (\<forall>y < 1. \<forall>x < 2. dst' ! (y * 3 + x) =
       0xFF000000 OR quant_pixel [1, 2, 3, 0, 4, 5, 6, 0] (quality_mask 2) (y * 8 + x * 4))"
  by (rule rd_tile_roundtrip) simp_all

text \<open>The encoder always returns (its palette probing cannot run forever), picks SOLID exactly for
  one-colour tiles, PALETTE only for 2 to 256 colours and ZRGB only beyond 256, and its payload is 3
  bytes for SOLID, shorter than the raw tile for PALETTE and ZRGB and the raw tile for RAW.\<close>

theorem rd_encode_tile_choice:
  assumes "no_oom al" and "1 \<le> w" and "1 \<le> h"
  shows "\<exists>enc out' pay. rd_encode_tile al bgra stride w h quality out = Some (enc, out') \<and>
    rb_data out' = rb_data out @ pay \<and>
    (let n = card (set (tile_pixels bgra stride w h (quality_mask quality)))
     in case enc of
          RD_ENC_SOLID \<Rightarrow> n = 1 \<and> length pay = 3
        | RD_ENC_PALETTE \<Rightarrow> 1 < n \<and> n \<le> 256 \<and> length pay < w * h * 3
        | RD_ENC_ZRGB \<Rightarrow> 256 < n \<and> length pay < w * h * 3
        | RD_ENC_RAW \<Rightarrow> 1 < n \<and> length pay = w * h * 3)"
proof -
  define px where "px = tile_pixels bgra stride w h (quality_mask quality)"
  have px: "length px = h * w" by (simp add: px_def length_tile_pixels)
  with assms have ne: "px \<noteq> []" by auto
  then obtain st enc out' pay where e: "rd_encode_tile al bgra stride w h quality out = Some (enc, out')"
    "rb_data out' = rb_data out @ pay" "tile_encoding px st w h enc pay"
    using rd_encode_tile_cases [OF assms(1) px_def] by blast
  have c: "card (set px) = length (ps_pal st)" "1 \<le> length (ps_pal st)" "length (ps_pal st) \<le> 256"
    if "pal_inv px st"
    using that pal_inv_nonempty [OF that ne] by (auto simp: pal_inv_def dest: distinct_card)
  from e(3) have "case enc of
          RD_ENC_SOLID \<Rightarrow> card (set px) = 1 \<and> length pay = 3
        | RD_ENC_PALETTE \<Rightarrow> 1 < card (set px) \<and> card (set px) \<le> 256 \<and> length pay < w * h * 3
        | RD_ENC_ZRGB \<Rightarrow> 256 < card (set px) \<and> length pay < w * h * 3
        | RD_ENC_RAW \<Rightarrow> 1 < card (set px) \<and> length pay = w * h * 3"
    unfolding tile_encoding_def
    by (elim disjE conjE) (use c px in \<open>auto simp: length_raw_bytes mult.commute\<close>)
  then show ?thesis using e(1,2) unfolding px_def Let_def by blast
qed

theorem rd_encode_tile_choice_witness:
  "\<exists>enc out' pay. rd_encode_tile (\<lambda>_. True) [1, 2, 3, 0, 4, 5, 6, 0] 8 2 1 0 rd_buf_init = Some (enc, out') \<and>
    rb_data out' = rb_data rd_buf_init @ pay \<and>
    (let n = card (set (tile_pixels [1, 2, 3, 0, 4, 5, 6, 0] 8 2 1 (quality_mask 0)))
     in case enc of
          RD_ENC_SOLID \<Rightarrow> n = 1 \<and> length pay = 3
        | RD_ENC_PALETTE \<Rightarrow> 1 < n \<and> n \<le> 256 \<and> length pay < 2 * 1 * 3
        | RD_ENC_ZRGB \<Rightarrow> 256 < n \<and> length pay < 2 * 1 * 3
        | RD_ENC_RAW \<Rightarrow> 1 < n \<and> length pay = 2 * 1 * 3)"
  by (rule rd_encode_tile_choice) simp_all

text \<open>Quantisation at any quality is idempotent, never moves a channel up by more than half or down
  by more than the whole of the cleared bits (at most 15), and at quality 0 changes nothing.\<close>

theorem quant_error_bounds:
  "quant (quality_mask q) (quant (quality_mask q) v) = quant (quality_mask q) v \<and>
   unat (quant (quality_mask q) v) \<le> unat v + unat (NOT (quality_mask q)) div 2 \<and>
   unat v \<le> unat (quant (quality_mask q) v) + unat (NOT (quality_mask q)) \<and>
   unat (NOT (quality_mask q)) \<le> 15 \<and> quant (quality_mask 0) v = v"
proof -
  obtain k where k: "quality_mask q = NOT (mask k)" "k \<in> {0, 2, 3, 4}" using quality_mask_mask by blast
  have n: "unat (NOT (quality_mask q)) = 2 ^ k - 1"
    using k(2) by (auto simp: k(1) mask_eq_exp_minus_1)
  have "(2 :: nat) ^ k - 1 \<le> 15" using k(2) by auto
  moreover have "quant (quality_mask 0) v = v"
    by (rule quant_lossless)
  ultimately show ?thesis
    using quant_idem [OF k(2), of v] quant_bounds [OF k(2), of v] unfolding n by (simp add: k(1))
qed

text \<open>C31: Whatever encoding id, payload and size arrive from the network, the decoder returns 0 or -1,
  never touches a destination element outside the tile's rows, leaves everything alone when the size
  is out of range, and when it reports success (in a destination with room) every pixel of the tile
  has been written with full opacity.\<close>

theorem rd_decode_tile_safe:
  assumes "rd_decode_tile enc p wi hi dst ds = (ret, dst')"
  shows "ret \<in> {0, -1} \<and> length dst' = length dst \<and>
    (\<forall>i. dst' ! i = dst ! i \<or> (\<exists>y < nat hi. \<exists>x < nat wi. i = y * ds + x)) \<and>
    (wi \<notin> {1..64} \<or> hi \<notin> {1..64} \<longrightarrow> ret = -1 \<and> dst' = dst) \<and>
    (ret = 0 \<longrightarrow> nat wi \<le> ds \<longrightarrow> (nat hi - 1) * ds + nat wi \<le> length dst \<longrightarrow>
      (\<forall>y < nat hi. \<forall>x < nat wi. drop_bit 24 (dst' ! (y * ds + x)) = 0xFF))"
proof -
  have "wi \<notin> {1..64} \<or> hi \<notin> {1..64} \<longrightarrow> ret = -1 \<and> dst' = dst"
    using assms by (auto simp: rd_decode_tile_def)
  then show ?thesis
    using rd_decode_tile_any [OF assms] unfolding tile_frame_def tile_opaque_def by blast
qed

theorem rd_decode_tile_safe_witness:
  "\<exists>dst'. rd_decode_tile 0 [1, 2, 3] 2 1 [7, 7, 7] 3 = (0, dst') \<and> length dst' = 3 \<and> dst' ! 2 = 7 \<and>
    drop_bit 24 (dst' ! 1) = 0xFF"
proof -
  obtain ret dst' where r: "rd_decode_tile 0 [1, 2, 3] 2 1 [7, 7, 7] 3 = (ret, dst')" by fastforce
  have "ret = 0" using r by (simp add: rd_decode_tile_def)
  moreover have "dst' ! 2 = [7, 7, 7] ! 2 \<or> (\<exists>y < nat 1. \<exists>x < nat 2. 2 = y * 3 + x)"
    using rd_decode_tile_safe [OF r] by blast
  ultimately show ?thesis using rd_decode_tile_safe [OF r] r by auto
qed

end
