(* ===== verification/Rd_Crypto.thy ===== *)
theory Rd_Crypto
  imports Rd_Bytes
begin

text \<open>
  \<open>common/rd_crypto.c\<close>: SHA-1, the streaming SHA-256 and HMAC over it, Base64 and the constant-time
  comparison. The hash functions are proved equal to the padded-message specification of FIPS 180-4,
  for every way of cutting the input into updates. \<open>rd_random\<close> wraps the operating system's generator
  and is a parameter of the definitions that draw from it.
\<close>

section \<open>Big-endian words and rotations\<close>

definition rol32 :: "u32 \<Rightarrow> nat \<Rightarrow> u32" where
  "rol32 x n = push_bit n x OR drop_bit (32 - n) x"

definition ror32 :: "u32 \<Rightarrow> nat \<Rightarrow> u32" where
  "ror32 x n = drop_bit n x OR push_bit (32 - n) x"

definition be32 :: "bytes \<Rightarrow> u32" where
  "be32 p = push_bit 24 (ucast (p ! 0)) OR push_bit 16 (ucast (p ! 1)) OR push_bit 8 (ucast (p ! 2))
     OR ucast (p ! 3)"

definition put_be32 :: "u32 \<Rightarrow> bytes" where
  "put_be32 v = [ucast (drop_bit 24 v), ucast (drop_bit 16 v), ucast (drop_bit 8 v), ucast v]"

section \<open>SHA-1\<close>

definition sha1_schedule :: "bytes \<Rightarrow> u32 list" where
  "sha1_schedule p =
     fold (\<lambda>i w. w @ [rol32 (w ! (i - 3) XOR w ! (i - 8) XOR w ! (i - 14) XOR w ! (i - 16)) 1])
       [16..<80] (map (\<lambda>i. be32 (drop (4 * i) p)) [0..<16])"

type_synonym sha1_regs = "u32 \<times> u32 \<times> u32 \<times> u32 \<times> u32"

fun sha1_round :: "u32 list \<Rightarrow> nat \<Rightarrow> sha1_regs \<Rightarrow> sha1_regs" where
  "sha1_round w i (a, b, c, d, e) =
     (let (f, k) =
        (if i < 20 then ((b AND c) OR (NOT b AND d), 0x5A827999)
         else if i < 40 then (b XOR c XOR d, 0x6ED9EBA1)
         else if i < 60 then ((b AND c) OR (b AND d) OR (c AND d), 0x8F1BBCDC)
         else (b XOR c XOR d, 0xCA62C1D6));
        t = rol32 a 5 + f + e + k + w ! i
      in (t, a, rol32 b 30, c, d))"

definition sha1_block :: "u32 list \<Rightarrow> bytes \<Rightarrow> u32 list" where
  "sha1_block h p =
     (case fold (sha1_round (sha1_schedule p)) [0..<80] (h ! 0, h ! 1, h ! 2, h ! 3, h ! 4) of
        (a, b, c, d, e) \<Rightarrow> [h ! 0 + a, h ! 1 + b, h ! 2 + c, h ! 3 + d, h ! 4 + e])"

text \<open>\<open>while (n >= 64) { sha1_block(h, p); p += 64; n -= 64; }\<close>: the state and the rest.\<close>

function sha1_whole_blocks :: "u32 list \<Rightarrow> bytes \<Rightarrow> u32 list \<times> bytes" where
  "sha1_whole_blocks h p =
     (if length p \<ge> 64 then sha1_whole_blocks (sha1_block h (take 64 p)) (drop 64 p) else (h, p))"
  by pat_completeness auto
termination by (relation "measure (\<lambda>(h, p). length p)") auto

declare sha1_whole_blocks.simps [simp del]

text \<open>The tail buffer: \<open>tl\<close> bytes, the rest, 0x80, zeros and the bit count.\<close>

definition sha1_tail :: "bytes \<Rightarrow> nat \<Rightarrow> bytes" where
  "sha1_tail p len =
     (let n = length p;
          tl = (if n + 9 \<le> 64 then 64 else 128);
          bits = (of_nat len * 8 :: u64)
      in fold (\<lambda>i tail. tail[tl - 1 - i := ucast (drop_bit (8 * i) bits)]) [0..<8]
           (take tl (splice (replicate 128 0) 0 (p @ [0x80]))))"

definition rd_sha1 :: "bytes \<Rightarrow> bytes" where
  "rd_sha1 data =
     (case sha1_whole_blocks [0x67452301, 0xEFCDAB89, 0x98BADCFE, 0x10325476, 0xC3D2E1F0] data of
        (h, p) \<Rightarrow>
          let tail = sha1_tail p (length data);
              h1 = sha1_block h (take 64 tail);
              h2 = (if length tail = 128 then sha1_block h1 (drop 64 tail) else h1)
          in concat (map put_be32 h2))"

section \<open>SHA-256\<close>

text \<open>The table of the code, its constants written in decimal.\<close>

definition K256 :: "u32 list" where
  "K256 =
    [1116352408, 1899447441, 3049323471, 3921009573, 961987163, 1508970993, 2453635748, 2870763221,
     3624381080, 310598401, 607225278, 1426881987, 1925078388, 2162078206, 2614888103, 3248222580,
     3835390401, 4022224774, 264347078, 604807628, 770255983, 1249150122, 1555081692, 1996064986,
     2554220882, 2821834349, 2952996808, 3210313671, 3336571891, 3584528711, 113926993, 338241895,
     666307205, 773529912, 1294757372, 1396182291, 1695183700, 1986661051, 2177026350, 2456956037,
     2730485921, 2820302411, 3259730800, 3345764771, 3516065817, 3600352804, 4094571909, 275423344,
     430227734, 506948616, 659060556, 883997877, 958139571, 1322822218, 1537002063, 1747873779,
     1955562222, 2024104815, 2227730452, 2361852424, 2428436474, 2756734187, 3204031479, 3329325298]"

definition sha256_next_w :: "nat \<Rightarrow> u32 list \<Rightarrow> u32 list" where
  "sha256_next_w i w =
     (let s0 = ror32 (w ! (i - 15)) 7 XOR ror32 (w ! (i - 15)) 18 XOR drop_bit 3 (w ! (i - 15));
          s1 = ror32 (w ! (i - 2)) 17 XOR ror32 (w ! (i - 2)) 19 XOR drop_bit 10 (w ! (i - 2))
      in w @ [w ! (i - 16) + s0 + w ! (i - 7) + s1])"

definition sha256_schedule :: "bytes \<Rightarrow> u32 list" where
  "sha256_schedule p = fold sha256_next_w [16..<64] (map (\<lambda>i. be32 (drop (4 * i) p)) [0..<16])"

type_synonym sha256_regs = "u32 \<times> u32 \<times> u32 \<times> u32 \<times> u32 \<times> u32 \<times> u32 \<times> u32"

fun sha256_round :: "u32 list \<Rightarrow> nat \<Rightarrow> sha256_regs \<Rightarrow> sha256_regs" where
  "sha256_round w i (a, b, c, d, e, f, g, hh) =
     (let S1 = ror32 e 6 XOR ror32 e 11 XOR ror32 e 25;
          ch = (e AND f) XOR (NOT e AND g);
          t1 = hh + S1 + ch + K256 ! i + w ! i;
          S0 = ror32 a 2 XOR ror32 a 13 XOR ror32 a 22;
          mj = (a AND b) XOR (a AND c) XOR (b AND c);
          t2 = S0 + mj
      in (t1 + t2, a, b, c, d + t1, e, f, g))"

definition sha256_block :: "u32 list \<Rightarrow> bytes \<Rightarrow> u32 list" where
  "sha256_block h p =
     (case fold (sha256_round (sha256_schedule p)) [0..<64]
         (h ! 0, h ! 1, h ! 2, h ! 3, h ! 4, h ! 5, h ! 6, h ! 7) of
        (a, b, c, d, e, f, g, hh) \<Rightarrow>
          [h ! 0 + a, h ! 1 + b, h ! 2 + c, h ! 3 + d, h ! 4 + e, h ! 5 + f, h ! 6 + g, h ! 7 + hh])"

record rd_sha256_ctx =
  sc_h :: "u32 list"
  sc_total :: u64
  sc_block :: bytes
  sc_fill :: nat

definition sha256_iv :: "u32 list" where
  "sha256_iv = [0x6a09e667, 0xbb67ae85, 0x3c6ef372, 0xa54ff53a,
     0x510e527f, 0x9b05688c, 0x1f83d9ab, 0x5be0cd19]"

text \<open>\<open>rd_sha256_init\<close> leaves \<open>block\<close> as it finds it.\<close>

definition rd_sha256_init :: "rd_sha256_ctx \<Rightarrow> rd_sha256_ctx" where
  "rd_sha256_init c = c\<lparr>sc_h := sha256_iv, sc_total := 0, sc_fill := 0\<rparr>"

definition sha256_take :: "rd_sha256_ctx \<Rightarrow> bytes \<Rightarrow> rd_sha256_ctx" where
  "sha256_take c q =
     (let c1 = c\<lparr>sc_block := splice (sc_block c) (sc_fill c) q, sc_fill := sc_fill c + length q\<rparr>
      in if sc_fill c1 = 64
         then c1\<lparr>sc_h := sha256_block (sc_h c1) (sc_block c1), sc_fill := 0\<rparr> else c1)"

text \<open>
  The loop \<open>while (len)\<close> of \<open>rd_sha256_update\<close>. It keeps \<open>fill\<close> below 64, so a full block never
  enters it (it would not advance); the recursion stops there.
\<close>

function sha256_absorb :: "rd_sha256_ctx \<Rightarrow> bytes \<Rightarrow> rd_sha256_ctx" where
  "sha256_absorb c p =
     (if p = [] \<or> sc_fill c \<ge> 64 then c
      else let tk = (if 64 - sc_fill c > length p then length p else 64 - sc_fill c)
        in sha256_absorb (sha256_take c (take tk p)) (drop tk p))"
  by pat_completeness auto
termination by (relation "measure (\<lambda>(c, p). length p)") (auto simp: not_le)

declare sha256_absorb.simps [simp del]

definition rd_sha256_update :: "rd_sha256_ctx \<Rightarrow> bytes \<Rightarrow> rd_sha256_ctx" where
  "rd_sha256_update c data =
     sha256_absorb (c\<lparr>sc_total := sc_total c + of_nat (length data)\<rparr>) data"

lemma sha256_absorb_Nil: "sha256_absorb c [] = c"
  by (subst sha256_absorb.simps) simp

lemma sha256_update_1_fill:
  assumes "sc_fill c < 64"
  shows "sc_fill (rd_sha256_update c [b]) = (if sc_fill c = 63 then 0 else sc_fill c + 1)"
proof (cases "sc_fill c = 63")
  case True
  then show ?thesis
    unfolding rd_sha256_update_def
    by (subst sha256_absorb.simps) (simp add: sha256_take_def Let_def sha256_absorb_Nil)
next
  case False
  with assms have "1 < 64 - sc_fill c" by simp
  with False show ?thesis
    unfolding rd_sha256_update_def
    by (subst sha256_absorb.simps) (simp add: sha256_take_def Let_def sha256_absorb_Nil)
qed

text \<open>\<open>while (c->fill != 56) rd_sha256_update(c, &zero, 1);\<close>\<close>

function sha256_pad_zeros :: "rd_sha256_ctx \<Rightarrow> rd_sha256_ctx" where
  "sha256_pad_zeros c =
     (if sc_fill c = 56 \<or> sc_fill c \<ge> 64 then c else sha256_pad_zeros (rd_sha256_update c [0]))"
  by pat_completeness auto
termination
  by (relation "measure (\<lambda>c. if sc_fill c \<le> 56 then 56 - sc_fill c else 120 - sc_fill c)")
    (auto simp: sha256_update_1_fill)

declare sha256_pad_zeros.simps [simp del]

definition be64 :: "u64 \<Rightarrow> bytes" where
  "be64 bits = map (\<lambda>i. ucast (drop_bit (56 - 8 * i) bits)) [0..<8]"

definition rd_sha256_final :: "rd_sha256_ctx \<Rightarrow> bytes" where
  "rd_sha256_final c =
     (let bits = sc_total c * 8;
          c1 = rd_sha256_update c [0x80];
          c2 = sha256_pad_zeros c1;
          c3 = rd_sha256_update c2 (be64 bits)
      in concat (map put_be32 (sc_h c3)))"

text \<open>A context on the stack, its \<open>block\<close> not initialised: any 64 bytes.\<close>

definition sha256_ctx0 :: rd_sha256_ctx where
  "sha256_ctx0 = \<lparr>sc_h = [], sc_total = 0, sc_block = replicate 64 0, sc_fill = 0\<rparr>"

definition rd_sha256 :: "bytes \<Rightarrow> bytes" where
  "rd_sha256 data = rd_sha256_final (rd_sha256_update (rd_sha256_init sha256_ctx0) data)"

section \<open>HMAC\<close>

definition hmac_key :: "bytes \<Rightarrow> bytes" where
  "hmac_key key =
     (if length key > 64 then splice (replicate 64 0) 0 (rd_sha256 key)
      else splice (replicate 64 0) 0 key)"

definition rd_hmac_sha256 :: "bytes \<Rightarrow> bytes \<Rightarrow> bytes" where
  "rd_hmac_sha256 key msg =
     (let k = hmac_key key;
          ipad = map (\<lambda>b. b XOR 0x36) k;
          opad = map (\<lambda>b. b XOR 0x5c) k;
          c1 = rd_sha256_update (rd_sha256_update (rd_sha256_init sha256_ctx0) ipad) msg;
          inner = rd_sha256_final c1
      in rd_sha256_final
           (rd_sha256_update (rd_sha256_update (rd_sha256_init c1) opad) inner))"

section \<open>Base64\<close>

definition base64_tbl :: bytes where
  "base64_tbl = bytes_of ''ABCDEFGHIJKLMNOPQRSTUVWXYZabcdefghijklmnopqrstuvwxyz0123456789+/''"

definition base64_digit :: "u32 \<Rightarrow> nat \<Rightarrow> u8" where
  "base64_digit v s = base64_tbl ! unat (drop_bit s v AND 63)"

text \<open>One step of the loop for each three bytes; the string without its NUL.\<close>

fun rd_base64 :: "bytes \<Rightarrow> bytes" where
  "rd_base64 [] = []"
| "rd_base64 [a] =
     (let v = push_bit 16 (ucast a) in [base64_digit v 18, base64_digit v 12, 61, 61])"
| "rd_base64 [a, b] =
     (let v = push_bit 16 (ucast a) OR push_bit 8 (ucast b)
      in [base64_digit v 18, base64_digit v 12, base64_digit v 6, 61])"
| "rd_base64 (a # b # c # rest) =
     (let v = push_bit 16 (ucast a) OR push_bit 8 (ucast b) OR ucast c
      in [base64_digit v 18, base64_digit v 12, base64_digit v 6, base64_digit v 0] @ rd_base64 rest)"

section \<open>Constant-time comparison\<close>

definition rd_ct_equal :: "bytes \<Rightarrow> bytes \<Rightarrow> nat \<Rightarrow> bool" where
  "rd_ct_equal x y len = (fold (\<lambda>i d. d OR (x ! i XOR y ! i)) [0..<len] 0 = (0 :: u8))"

section \<open>The padded-message specification\<close>

text \<open>Folding a block function over the whole 64-byte blocks of a message: the state and the rest.\<close>

function md_fold :: "('h \<Rightarrow> bytes \<Rightarrow> 'h) \<Rightarrow> 'h \<Rightarrow> bytes \<Rightarrow> 'h \<times> bytes" where
  "md_fold f h p = (if length p \<ge> 64 then md_fold f (f h (take 64 p)) (drop 64 p) else (h, p))"
  by pat_completeness auto
termination by (relation "measure (\<lambda>(f, h, p). length p)") auto

declare md_fold.simps [simp del]

lemma md_fold_short: "length p < 64 \<Longrightarrow> md_fold f h p = (h, p)"
  by (subst md_fold.simps) simp

lemma md_fold_one: "length p = 64 \<Longrightarrow> md_fold f h p = (f h p, [])"
  by (subst md_fold.simps) (simp add: md_fold_short)

lemma md_fold_append: "md_fold f h m = (h', r) \<Longrightarrow> md_fold f h (m @ q) = md_fold f h' (r @ q)"
proof (induction f h m rule: md_fold.induct)
  case (1 f h p)
  show ?case
  proof (cases "length p \<ge> 64")
    case True
    then have "md_fold f (f h (take 64 p)) (drop 64 p) = (h', r)"
      using "1.prems" by (subst (asm) md_fold.simps) simp
    with "1.IH" True have "md_fold f (f h (take 64 p)) (drop 64 p @ q) = md_fold f h' (r @ q)" by blast
    with True show ?thesis by (subst md_fold.simps) simp
  next
    case False
    with "1.prems" show ?thesis by (simp add: md_fold_short)
  qed
qed

lemma md_fold_rest: "md_fold f h m = (h', r) \<Longrightarrow> length r = length m mod 64"
proof (induction f h m rule: md_fold.induct)
  case (1 f h p)
  show ?case
  proof (cases "length p \<ge> 64")
    case True
    then have "md_fold f (f h (take 64 p)) (drop 64 p) = (h', r)"
      using "1.prems" by (subst (asm) md_fold.simps) simp
    with "1.IH" True have "length r = length (drop 64 p) mod 64" by blast
    with True show ?thesis by (simp add: le_mod_geq)
  next
    case False
    with "1.prems" show ?thesis by (simp add: md_fold_short)
  qed
qed

definition pad_zero_count :: "nat \<Rightarrow> nat" where
  "pad_zero_count len = (if len mod 64 \<le> 55 then 55 - len mod 64 else 119 - len mod 64)"

definition md_pad :: "bytes \<Rightarrow> bytes" where
  "md_pad m = m @ [0x80] @ replicate (pad_zero_count (length m)) 0 @ be64 (of_nat (length m) * 8)"

definition md_hash :: "(u32 list \<Rightarrow> bytes \<Rightarrow> u32 list) \<Rightarrow> u32 list \<Rightarrow> bytes \<Rightarrow> bytes" where
  "md_hash f iv m = concat (map put_be32 (fst (md_fold f iv (md_pad m))))"

lemma length_be64 [simp, len_simps]: "length (be64 b) = 8"
  by (simp add: be64_def)

section \<open>SHA-256\<close>

text \<open>A context that has absorbed the message \<open>m\<close>.\<close>

definition ctx_absorbed :: "rd_sha256_ctx \<Rightarrow> bytes \<Rightarrow> bool" where
  "ctx_absorbed c m \<longleftrightarrow> sc_fill c < 64 \<and> length (sc_block c) = 64 \<and>
     md_fold sha256_block sha256_iv m = (sc_h c, take (sc_fill c) (sc_block c))"

lemma ctx_absorbed_fill: "ctx_absorbed c m \<Longrightarrow> sc_fill c = length m mod 64"
  using md_fold_rest [of sha256_block sha256_iv m] by (fastforce simp: ctx_absorbed_def)

lemma take_splice: "length d = n \<Longrightarrow> off + length q \<le> n \<Longrightarrow>
    take (off + length q) (splice d off q) = take off d @ q"
  by (simp add: splice_def)

lemma sha256_take_absorbed:
  assumes "ctx_absorbed c m" "length q \<le> 64 - sc_fill c"
  shows "ctx_absorbed (sha256_take c q) (m @ q)"
proof -
  let ?r = "take (sc_fill c) (sc_block c)"
  have c: "sc_fill c < 64" "length (sc_block c) = 64"
    "md_fold sha256_block sha256_iv m = (sc_h c, ?r)" using assms(1) by (simp_all add: ctx_absorbed_def)
  have fit: "sc_fill c + length q \<le> 64" using assms(2) c(1) by simp
  then have t: "take (sc_fill c + length q) (splice (sc_block c) (sc_fill c) q) = ?r @ q"
    and l: "length (splice (sc_block c) (sc_fill c) q) = 64"
    using c by (simp_all add: take_splice length_splice)
  have f: "md_fold sha256_block sha256_iv (m @ q) = md_fold sha256_block (sc_h c) (?r @ q)"
    by (rule md_fold_append [OF c(3)])
  have lr: "length (?r @ q) = sc_fill c + length q" using c by simp
  show ?thesis
  proof (cases "sc_fill c + length q = 64")
    case True
    with t l have "splice (sc_block c) (sc_fill c) q = ?r @ q" by simp
    with True f lr l show ?thesis
      by (simp add: ctx_absorbed_def sha256_take_def Let_def md_fold_one)
  next
    case False
    with fit f lr l t show ?thesis
      by (simp add: ctx_absorbed_def sha256_take_def Let_def md_fold_short)
  qed
qed

lemma sha256_absorb_absorbed:
  "ctx_absorbed c m \<Longrightarrow> ctx_absorbed (sha256_absorb c p) (m @ p) \<and>
     sc_total (sha256_absorb c p) = sc_total c"
proof (induction c p arbitrary: m rule: sha256_absorb.induct)
  case (1 c p)
  show ?case
  proof (cases "p = []")
    case True
    with "1.prems" show ?thesis by (simp add: sha256_absorb_Nil)
  next
    case False
    let ?tk = "if 64 - sc_fill c > length p then length p else 64 - sc_fill c"
    have guard: "\<not> (p = [] \<or> sc_fill c \<ge> 64)" using False "1.prems" by (simp add: ctx_absorbed_def)
    have a: "ctx_absorbed (sha256_take c (take ?tk p)) (m @ take ?tk p)"
      by (rule sha256_take_absorbed [OF "1.prems"]) simp
    have e: "sha256_absorb c p = sha256_absorb (sha256_take c (take ?tk p)) (drop ?tk p)"
      using guard by (subst sha256_absorb.simps) (simp only: Let_def if_False)
    have "sc_total (sha256_take c (take ?tk p)) = sc_total c" by (simp add: sha256_take_def Let_def)
    with "1.IH" [OF guard refl a] show ?thesis unfolding e
      by (simp only: append_assoc append_take_drop_id) 
  qed
qed

lemma sha256_update_absorbed:
  "ctx_absorbed c m \<Longrightarrow> ctx_absorbed (rd_sha256_update c p) (m @ p) \<and>
     sc_total (rd_sha256_update c p) = sc_total c + of_nat (length p)"
  using sha256_absorb_absorbed [of "c\<lparr>sc_total := sc_total c + of_nat (length p)\<rparr>" m p]
  by (simp add: rd_sha256_update_def ctx_absorbed_def)

lemma sha256_pad_zeros_absorbed:
  "ctx_absorbed c m \<Longrightarrow> ctx_absorbed (sha256_pad_zeros c)
     (m @ replicate (if sc_fill c \<le> 56 then 56 - sc_fill c else 120 - sc_fill c) 0)"
proof (induction c arbitrary: m rule: sha256_pad_zeros.induct)
  case (1 c)
  have fill: "sc_fill c < 64" using "1.prems" by (simp add: ctx_absorbed_def)
  show ?case
  proof (cases "sc_fill c = 56")
    case True
    with "1.prems" show ?thesis by (subst sha256_pad_zeros.simps) simp
  next
    case False
    let ?c = "rd_sha256_update c [0]"
    have guard: "\<not> (sc_fill c = 56 \<or> sc_fill c \<ge> 64)" using False fill by simp
    have "ctx_absorbed ?c (m @ [0])" using sha256_update_absorbed [OF "1.prems"] by blast
    from "1.IH" [OF guard this] have ih: "ctx_absorbed (sha256_pad_zeros ?c)
        ((m @ [0]) @ replicate (if sc_fill ?c \<le> 56 then 56 - sc_fill ?c else 120 - sc_fill ?c) 0)" .
    have n: "(if sc_fill c \<le> 56 then 56 - sc_fill c else 120 - sc_fill c) =
        Suc (if sc_fill ?c \<le> 56 then 56 - sc_fill ?c else 120 - sc_fill ?c)"
      using False fill by (simp add: sha256_update_1_fill) arith
    have "sha256_pad_zeros c = sha256_pad_zeros ?c"
      using False fill by (subst sha256_pad_zeros.simps) simp
    then show ?thesis using ih unfolding n by simp
  qed
qed

definition sha256_spec :: "bytes \<Rightarrow> bytes" where
  "sha256_spec m = md_hash sha256_block sha256_iv m"

lemma pad_zero_count_fill:
  "n = (l + 1) mod 64 \<Longrightarrow> (if n \<le> 56 then 56 - n else 120 - n) = pad_zero_count l"
  by (cases "l mod 64 = 63") (simp_all add: pad_zero_count_def mod_Suc)

lemma rd_sha256_final_absorbed:
  assumes "ctx_absorbed c m" "sc_total c = of_nat (length m)"
  shows "rd_sha256_final c = sha256_spec m"
proof -
  define c1 c2 c3 where "c1 = rd_sha256_update c [0x80]" and "c2 = sha256_pad_zeros c1"
    and "c3 = rd_sha256_update c2 (be64 (sc_total c * 8))"
  have 1: "ctx_absorbed c1 (m @ [0x80])" using sha256_update_absorbed [OF assms(1)] by (simp add: c1_def)
  have "sc_fill c1 = (length m + 1) mod 64" using ctx_absorbed_fill [OF 1] by simp
  from sha256_pad_zeros_absorbed [OF 1, unfolded pad_zero_count_fill [OF this]]
  have 2: "ctx_absorbed c2 ((m @ [0x80]) @ replicate (pad_zero_count (length m)) 0)" by (simp add: c2_def)
  have "ctx_absorbed c3 (((m @ [0x80]) @ replicate (pad_zero_count (length m)) 0) @ be64 (sc_total c * 8))"
    using sha256_update_absorbed [OF 2] by (simp add: c3_def)
  then have "ctx_absorbed c3 (md_pad m)" by (simp add: md_pad_def assms(2))
  then have "sc_h c3 = fst (md_fold sha256_block sha256_iv (md_pad m))" by (simp add: ctx_absorbed_def)
  then show ?thesis
    by (simp add: rd_sha256_final_def sha256_spec_def md_hash_def c1_def c2_def c3_def Let_def)
qed

section \<open>Streaming hashes\<close>

text \<open>
  What a client of a hash context relies on. \<open>rep c m\<close>: the context has absorbed \<open>m\<close>; \<open>ok\<close>: the
  context may be initialised.
\<close>

locale streaming_hash =
  fixes init :: "'c \<Rightarrow> 'c"
    and upd :: "'c \<Rightarrow> bytes \<Rightarrow> 'c"
    and fin :: "'c \<Rightarrow> bytes"
    and H :: "bytes \<Rightarrow> bytes"
    and ok :: "'c \<Rightarrow> bool"
    and rep :: "'c \<Rightarrow> bytes \<Rightarrow> bool"
  assumes init_rep: "ok c \<Longrightarrow> rep (init c) []"
    and upd_rep: "rep c m \<Longrightarrow> rep (upd c p) (m @ p)"
    and fin_rep: "rep c m \<Longrightarrow> fin c = H m"
    and rep_ok: "rep c m \<Longrightarrow> ok c"
begin

lemma upds_rep: "rep c m \<Longrightarrow> rep (fold (\<lambda>p c. upd c p) parts c) (m @ concat parts)"
proof (induction parts arbitrary: c m)
  case (Cons p parts)
  then show ?case using Cons.IH [OF upd_rep [OF Cons.prems]] by simp
qed simp

lemma streamed: "ok c \<Longrightarrow> fin (fold (\<lambda>p c. upd c p) parts (init c)) = H (concat parts)"
  using fin_rep [OF upds_rep [OF init_rep]] by simp

lemma two_parts: "ok c \<Longrightarrow> fin (upd (upd (init c) p) q) = H (p @ q)"
  using streamed [of c "[p, q]"] by simp

lemma reusable: "ok c \<Longrightarrow> ok (upd (upd (init c) p) q)"
  by (rule rep_ok [OF upd_rep [OF upd_rep [OF init_rep]]])

end

interpretation sha256: streaming_hash rd_sha256_init rd_sha256_update rd_sha256_final sha256_spec
  "\<lambda>c. length (sc_block c) = 64"
  "\<lambda>c m. ctx_absorbed c m \<and> sc_total c = of_nat (length m)"
proof unfold_locales
  show "ctx_absorbed (rd_sha256_init c) [] \<and> sc_total (rd_sha256_init c) = of_nat (length [])"
    if "length (sc_block c) = 64" for c
    using that by (simp add: ctx_absorbed_def rd_sha256_init_def md_fold_short)
qed (use sha256_update_absorbed rd_sha256_final_absorbed in \<open>auto simp: ctx_absorbed_def\<close>)

lemma rd_sha256_eq_spec: "rd_sha256 m = sha256_spec m"
  using sha256.streamed [of sha256_ctx0 "[m]"] by (simp add: rd_sha256_def sha256_ctx0_def)

lemma length_sha256_block: "length (sha256_block h p) = 8"
  by (simp add: sha256_block_def split: prod.split)

lemma md_fold_length:
  "length h = n \<Longrightarrow> (\<And>h p. length (f h p) = n) \<Longrightarrow> length (fst (md_fold f h p)) = n"
proof (induction f h p rule: md_fold.induct)
  case (1 f h p)
  then show ?case by (cases "length p \<ge> 64") (subst md_fold.simps, simp)+
qed

lemma length_concat_put_be32 [len_simps]: "length (concat (map put_be32 hs)) = 4 * length hs"
  by (induction hs) (simp_all add: put_be32_def)

lemma length_sha256_spec [len_simps]: "length (sha256_spec m) = 32"
  unfolding sha256_spec_def md_hash_def length_concat_put_be32
  by (subst md_fold_length [where n = 8]) (simp_all add: length_sha256_block sha256_iv_def)

lemma length_rd_sha256 [simp, len_simps]: "length (rd_sha256 m) = 32"
  by (simp add: rd_sha256_eq_spec length_sha256_spec)

section \<open>HMAC\<close>

text \<open>RFC 2104 over a hash with 64-byte blocks.\<close>

definition hmac_spec :: "(bytes \<Rightarrow> bytes) \<Rightarrow> bytes \<Rightarrow> bytes \<Rightarrow> bytes" where
  "hmac_spec H key msg =
     (let k0 = (if length key > 64 then H key else key);
          k = k0 @ replicate (64 - length k0) 0
      in H (map (\<lambda>b. b XOR 0x5c) k @ H (map (\<lambda>b. b XOR 0x36) k @ msg)))"

lemma splice_zeros: "length p \<le> n \<Longrightarrow> splice (replicate n 0) 0 p = p @ replicate (n - length p) 0"
  by (simp add: splice_def)

lemma rd_hmac_eq_spec: "rd_hmac_sha256 key msg = hmac_spec rd_sha256 key msg"
proof -
  define k0 where "k0 = (if length key > 64 then rd_sha256 key else key)"
  have k: "hmac_key key = k0 @ replicate (64 - length k0) 0"
    unfolding hmac_key_def k0_def by (auto simp: splice_zeros)
  have ok: "length (sc_block sha256_ctx0) = 64" by (simp add: sha256_ctx0_def)
  show ?thesis
    unfolding rd_hmac_sha256_def hmac_spec_def k0_def [symmetric] Let_def k
      sha256.two_parts [OF ok] sha256.two_parts [OF sha256.reusable [OF ok]]
    by (simp add: rd_sha256_eq_spec)
qed

section \<open>SHA-1\<close>

lemma sha1_whole_blocks_fold: "sha1_whole_blocks h p = md_fold sha1_block h p"
proof (induction h p rule: sha1_whole_blocks.induct)
  case (1 h p)
  then show ?case by (subst sha1_whole_blocks.simps, subst md_fold.simps) simp
qed

lemma write_backwards:
  assumes "length X = n" "k \<le> n"
  shows "fold (\<lambda>i t. t[n - 1 - i := f i]) [0..<k] X = take (n - k) X @ map f (rev [0..<k])"
  using assms(2)
proof (induction k)
  case 0
  then show ?case using assms(1) by simp
next
  case (Suc k)
  have "n - k = Suc (n - Suc k)" "n - Suc k < length X" using Suc.prems assms(1) by simp_all
  then have t: "take (n - k) X = take (n - Suc k) X @ [X ! (n - Suc k)]"
    by (simp add: take_Suc_conv_app_nth)
  have "length (take (n - Suc k) X) = n - Suc k" using Suc.prems assms(1) by simp
  with Suc t show ?case by (simp add: list_update_append)
qed

lemma write_length:
  assumes "length X = n" "8 \<le> n"
  shows "fold (\<lambda>i t. t[n - 1 - i := ucast (drop_bit (8 * i) bits)]) [0..<8] X = take (n - 8) X @ be64 bits"
proof -
  have "map (\<lambda>i. ucast (drop_bit (8 * i) bits)) (rev [0..<8]) = be64 bits"
    by (simp add: be64_def upt_rec)
  then show ?thesis using write_backwards [OF assms] by simp
qed

lemma sha1_tail_eq:
  assumes "length p < 64"
  shows "\<exists>z. sha1_tail p len = p @ [0x80] @ replicate z 0 @ be64 (of_nat len * 8) \<and>
    length (sha1_tail p len) = (if length p + 9 \<le> 64 then 64 else 128)"
proof -
  define tn where "tn = (if length p + 9 \<le> 64 then 64 else 128 :: nat)"
  have tn: "length p + 9 \<le> tn" "8 \<le> tn" "tn \<le> 128" using assms by (auto simp: tn_def)
  have s: "splice (replicate 128 0) 0 (p @ [0x80]) = p @ [0x80] @ replicate (127 - length p) (0 :: u8)"
    using assms by (simp add: splice_zeros)
  obtain k where k: "tn - length p = Suc k" using tn by (cases "tn - length p") auto
  then have "take tn (splice (replicate 128 0) 0 (p @ [0x80])) =
      p @ [0x80] @ replicate (tn - length p - 1) (0 :: u8)"
    unfolding s using tn assms by (simp add: min_def)
  then have "sha1_tail p len =
      take (tn - 8) (p @ [0x80] @ replicate (tn - length p - 1) 0) @ be64 (of_nat len * 8)"
  proof -
    have "length (take tn (splice (replicate 128 0) 0 (p @ [0x80 :: u8]))) = tn"
      using tn assms unfolding s by simp
    from write_length [OF this tn(2)] show ?thesis
      unfolding sha1_tail_def Let_def tn_def [symmetric] \<open>take tn _ = _\<close> by simp
  qed
  also have "take (tn - 8) (p @ [0x80] @ replicate (tn - length p - 1) 0) =
      p @ [0x80] @ replicate (tn - length p - 9) (0 :: u8)"
  proof -
    obtain j where "tn - 8 - length p = Suc j" using tn by (cases "tn - 8 - length p") auto
    moreover from this have "j = tn - (length p + 9)" by arith
    ultimately show ?thesis using tn by (simp add: min_def)
  qed
  finally show ?thesis using tn unfolding tn_def [symmetric] by (intro exI) (auto)
qed

definition sha1_iv :: "u32 list" where
  "sha1_iv = [0x67452301, 0xEFCDAB89, 0x98BADCFE, 0x10325476, 0xC3D2E1F0]"

definition sha1_spec :: "bytes \<Rightarrow> bytes" where
  "sha1_spec m = md_hash sha1_block sha1_iv m"

lemma md_fold_two: "length p = 128 \<Longrightarrow> md_fold f h p = (f (f h (take 64 p)) (drop 64 p), [])"
  by (subst md_fold.simps) (simp add: md_fold_one)

lemma sha1_tail_pad:
  assumes "length r = length m mod 64"
  shows "sha1_tail r (length m) = r @ [0x80] @ replicate (pad_zero_count (length m)) 0 @
      be64 (of_nat (length m) * 8)"
    and "length (sha1_tail r (length m)) = 64 \<or> length (sha1_tail r (length m)) = 128"
proof -
  have r: "length r < 64" using assms by simp
  obtain z where z: "sha1_tail r (length m) = r @ [0x80] @ replicate z 0 @ be64 (of_nat (length m) * 8)"
    and l: "length (sha1_tail r (length m)) = (if length r + 9 \<le> 64 then 64 else 128)"
    using sha1_tail_eq [OF r] by blast
  have "length r + 9 + z = (if length r + 9 \<le> 64 then 64 else 128)"
    using arg_cong [OF z, of length] l by simp
  then have "z = pad_zero_count (length m)"
    using r unfolding pad_zero_count_def assms [symmetric] by (auto split: if_splits)
  with z l show "sha1_tail r (length m) = r @ [0x80] @ replicate (pad_zero_count (length m)) 0 @
      be64 (of_nat (length m) * 8)"
    "length (sha1_tail r (length m)) = 64 \<or> length (sha1_tail r (length m)) = 128" by auto
qed

lemma rd_sha1_eq_spec: "rd_sha1 m = sha1_spec m"
proof -
  obtain h r where f: "md_fold sha1_block sha1_iv m = (h, r)" by fastforce
  note t = sha1_tail_pad [OF md_fold_rest [OF f]]
  have "md_pad m = m @ drop (length r) (sha1_tail r (length m))" by (simp add: md_pad_def t(1))
  then have "md_fold sha1_block sha1_iv (md_pad m) = md_fold sha1_block h (sha1_tail r (length m))"
    using md_fold_append [OF f] t(1) by simp
  then show ?thesis
    using t(2) f unfolding rd_sha1_def sha1_spec_def md_hash_def sha1_whole_blocks_fold
      sha1_iv_def [symmetric]
    by (auto simp: md_fold_one md_fold_two Let_def)
qed

lemma length_sha1_block: "length (sha1_block h p) = 5"
  by (simp add: sha1_block_def split: prod.split)

lemma length_rd_sha1 [simp, len_simps]: "length (rd_sha1 m) = 20"
  unfolding rd_sha1_eq_spec sha1_spec_def md_hash_def length_concat_put_be32
  by (subst md_fold_length [where n = 5]) (simp_all add: length_sha1_block sha1_iv_def)

section \<open>Base64\<close>

text \<open>A decoder for what \<open>rd_base64\<close> produces.\<close>

definition base64_value :: "u8 \<Rightarrow> u32" where
  "base64_value ch = of_nat (length (takeWhile (\<lambda>t. t \<noteq> ch) base64_tbl))"

fun base64_decode :: "bytes \<Rightarrow> bytes" where
  "base64_decode (p # q # r # s # rest) =
     (let v = push_bit 18 (base64_value p) OR push_bit 12 (base64_value q)
            OR (if r = 61 then 0 else push_bit 6 (base64_value r))
            OR (if s = 61 then 0 else base64_value s);
          bs = [ucast (drop_bit 16 v), ucast (drop_bit 8 v), ucast v]
      in (if r = 61 then take 1 bs else if s = 61 then take 2 bs else bs) @ base64_decode rest)"
| "base64_decode _ = []"

lemma base64_tbl_props: "length base64_tbl = 64" "distinct base64_tbl" "61 \<notin> set base64_tbl"
  by (simp_all add: base64_tbl_def bytes_of_def of_char_def)

lemma and_63: "v AND 63 = take_bit 6 (v :: u32)"
  by (simp add: take_bit_eq_mask mask_eq_exp_minus_1)

lemma unat_and_63: "unat (v AND 63 :: u32) < 64"
proof -
  have "v AND 63 = take_bit 6 v" by (rule and_63)
  then show ?thesis using take_bit_nat_less_exp [of 6 "unat v"] by (simp add: unsigned_take_bit_eq)
qed

lemma base64_value_tbl: "i < 64 \<Longrightarrow> base64_value (base64_tbl ! i) = of_nat i"
proof -
  assume i: "i < 64"
  have "takeWhile (\<lambda>t. t \<noteq> base64_tbl ! i) base64_tbl = take i base64_tbl"
    using i base64_tbl_props by (intro takeWhile_eq_take_P_nth) (auto simp: nth_eq_iff_index_eq)
  then show ?thesis using i base64_tbl_props by (simp add: base64_value_def)
qed

lemma base64_digit_value: "base64_value (base64_digit v s) = drop_bit s v AND 63"
  using unat_and_63 by (simp add: base64_digit_def base64_value_tbl)

lemma base64_digit_not_pad: "base64_digit v s \<noteq> 61"
  using nth_mem [of "unat (drop_bit s v AND 63)" base64_tbl] base64_tbl_props unat_and_63 [of "drop_bit s v"]
  unfolding base64_digit_def by metis

text \<open>The four digits of a 24-bit group carry it.\<close>

lemma base64_group:
  assumes "\<And>n. bit v n \<Longrightarrow> n < 24"
  shows "push_bit 18 (drop_bit 18 v AND 63) OR push_bit 12 (drop_bit 12 v AND 63)
     OR push_bit 6 (drop_bit 6 v AND 63) OR (v AND 63) = (v :: u32)"
  unfolding and_63
proof (rule bit_word_eqI)
  fix n assume n: "n < LENGTH(32)"
  have "n < 6 \<or> n \<ge> 6 \<and> n < 12 \<or> n \<ge> 12 \<and> n < 18 \<or> n \<ge> 18" by arith
  then show "bit (push_bit 18 (take_bit 6 (drop_bit 18 v)) OR push_bit 12 (take_bit 6 (drop_bit 12 v))
     OR push_bit 6 (take_bit 6 (drop_bit 6 v)) OR take_bit 6 v) n = bit v n"
    using n assms [of n] by (auto simp: bit_simps)
qed

lemma base64_digits:
  assumes "\<And>n. bit v n \<Longrightarrow> n < 24"
  shows "push_bit 18 (base64_value (base64_digit v 18)) OR push_bit 12 (base64_value (base64_digit v 12))
     OR push_bit 6 (base64_value (base64_digit v 6)) OR base64_value (base64_digit v 0) = v"
  unfolding base64_digit_value using base64_group [of v, OF assms] by (simp only: drop_bit_0 id_apply)

lemma base64_low_bits:
  assumes "\<And>n. n < k + 6 \<Longrightarrow> \<not> bit v n" shows "base64_value (base64_digit v k) = 0"
  unfolding base64_digit_value and_63 by (rule bit_word_eqI) (use assms in \<open>auto simp: bit_simps\<close>)

lemma base64_bytes:
  fixes a b c :: u8
  assumes "v = push_bit 16 (ucast a) OR push_bit 8 (ucast b) OR ucast c"
  shows "ucast (drop_bit 16 v :: u32) = a" "ucast (drop_bit 8 v :: u32) = b" "ucast (v :: u32) = c"
    "bit v n \<Longrightarrow> n < 24"
proof -
  show "ucast (drop_bit 16 v :: u32) = a" "ucast (drop_bit 8 v :: u32) = b" "ucast (v :: u32) = c"
    unfolding assms by (rule bit_word_eqI, auto simp: bit_simps dest: bit_imp_le_length)+
  show "bit v n \<Longrightarrow> n < 24" unfolding assms by (auto simp: bit_simps dest: bit_imp_le_length)
qed

lemma base64_roundtrip: "base64_decode (rd_base64 xs) = xs"
proof (induction xs rule: rd_base64.induct)
  case (2 a)
  define v where "v = push_bit 16 (ucast a) OR push_bit 8 (ucast (0 :: u8)) OR (ucast (0 :: u8) :: u32)"
  have v: "v = push_bit 16 (ucast a)" by (simp add: v_def)
  note b = base64_bytes [OF v_def]
  have z: "base64_value (base64_digit v 0) = 0" "base64_value (base64_digit v 6) = 0"
    unfolding v by (rule base64_low_bits, simp add: bit_simps)+
  have "base64_digit v s \<noteq> 61" for s by (rule base64_digit_not_pad)
  then show ?case using base64_digits [of v, OF b(4)] b(1) z
    by (simp add: Let_def v [symmetric])
next
  case (3 a b)
  define v where "v = push_bit 16 (ucast a) OR push_bit 8 (ucast b) OR (ucast (0 :: u8) :: u32)"
  have v: "v = push_bit 16 (ucast a) OR push_bit 8 (ucast b)" by (simp add: v_def)
  note bs = base64_bytes [OF v_def]
  have z: "base64_value (base64_digit v 0) = 0" unfolding v by (rule base64_low_bits, simp add: bit_simps)
  have "base64_digit v s \<noteq> 61" for s by (rule base64_digit_not_pad)
  then show ?case using base64_digits [of v, OF bs(4)] bs(1,2) z
    by (simp add: Let_def v [symmetric])
next
  case (4 a b c rest)
  define v where "v = push_bit 16 (ucast a) OR push_bit 8 (ucast b) OR (ucast c :: u32)"
  note bs = base64_bytes [OF v_def]
  have "base64_digit v s \<noteq> 61" for s by (rule base64_digit_not_pad)
  then show ?case using base64_digits [of v, OF bs(4)] bs(1-3) 4
    by (simp add: Let_def v_def [symmetric])
qed simp

lemma length_rd_base64 [len_simps]: "length (rd_base64 xs) = 4 * ((length xs + 2) div 3)"
  by (induction xs rule: rd_base64.induct) (simp_all add: Let_def, presburger)

section \<open>Constant-time comparison\<close>

lemma ct_fold: "fold (\<lambda>i d. d OR (x ! i XOR y ! i)) is d = (0 :: u8) \<longleftrightarrow>
    d = 0 \<and> (\<forall>i \<in> set is. x ! i = y ! i)"
proof (induction "is" arbitrary: d)
  case (Cons i "is")
  have "d OR e = 0 \<longleftrightarrow> d = 0 \<and> e = (0 :: u8)" for d e by (auto simp: bit_eq_iff bit_simps)
  moreover have "x ! i XOR y ! i = 0 \<longleftrightarrow> x ! i = y ! i" by (auto simp: bit_eq_iff bit_simps)
  ultimately show ?case using Cons by simp
qed simp

lemma rd_ct_equal_iff:
  "len \<le> length x \<Longrightarrow> len \<le> length y \<Longrightarrow> rd_ct_equal x y len \<longleftrightarrow> take len x = take len y"
  by (auto simp: rd_ct_equal_def ct_fold list_eq_iff_nth_eq)

lemma base64_digit_not_nul: "base64_digit v s \<noteq> 0"
proof -
  have "0 \<notin> set base64_tbl" by (simp add: base64_tbl_def bytes_of_def of_char_def)
  then show ?thesis
    using nth_mem [of "unat (drop_bit s v AND 63)" base64_tbl] base64_tbl_props unat_and_63 [of "drop_bit s v"]
    unfolding base64_digit_def by metis
qed

lemma rd_base64_no_nul: "0 \<notin> set (rd_base64 xs)"
  by (induction xs rule: rd_base64.induct) (use base64_digit_not_nul in \<open>force simp: Let_def\<close>)+

section \<open>Properties\<close>

text \<open>C38: However a message is cut into updates, and whatever bytes the stack left in the context's
  block buffer, the streaming SHA-256 returns the hash of the whole message as FIPS 180-4 defines it:
  the block function folded over the message padded with 0x80, zeros and its 64-bit length in bits.\<close>

theorem rd_sha256_any_chunking:
  assumes "length (sc_block c) = 64"
  shows "rd_sha256_final (fold (\<lambda>p c. rd_sha256_update c p) parts (rd_sha256_init c)) =
    md_hash sha256_block sha256_iv (concat parts)"
  using sha256.streamed [OF assms] by (simp add: sha256_spec_def)

theorem rd_sha256_any_chunking_witness:
  "rd_sha256_final (fold (\<lambda>p c. rd_sha256_update c p) [bytes_of ''a'', [], bytes_of ''bc'']
      (rd_sha256_init sha256_ctx0)) = [186, 120, 22, 191, 143, 1, 207, 234, 65, 65, 64, 222, 93, 174, 34, 35, 176, 3, 97, 163, 150, 23, 122, 156, 180, 16, 255, 97, 242, 0, 21, 173]"
  unfolding rd_sha256_any_chunking [of sha256_ctx0, unfolded sha256_ctx0_def, simplified, folded sha256_ctx0_def]
  by code_simp

text \<open>The one-shot SHA-1, whose tail buffer is one or two blocks, hashes every message as the
  padded-message specification, and always returns 20 bytes.\<close>

theorem rd_sha1_padded:
  "rd_sha1 m = md_hash sha1_block [0x67452301, 0xEFCDAB89, 0x98BADCFE, 0x10325476, 0xC3D2E1F0] m \<and>
   length (rd_sha1 m) = 20"
  using rd_sha1_eq_spec [of m] length_rd_sha1 [of m] unfolding sha1_spec_def sha1_iv_def by simp

text \<open>\<open>rd_hmac_sha256\<close> is HMAC as RFC 2104 defines it over \<open>rd_sha256\<close>, for keys of every length: a
  key longer than a block is hashed first, the key is padded with zeros to 64 bytes, and the inner and
  outer hashes are taken over the two pads.\<close>

theorem rd_hmac_is_hmac:
  "rd_hmac_sha256 key msg =
     (let k0 = (if length key > 64 then rd_sha256 key else key);
          k = k0 @ replicate (64 - length k0) 0
      in rd_sha256 (map (\<lambda>b. b XOR 0x5c) k @ rd_sha256 (map (\<lambda>b. b XOR 0x36) k @ msg)))"
  using rd_hmac_eq_spec [of key msg] by (simp add: hmac_spec_def)

text \<open>Base64 loses nothing: the standard decoding gives the bytes back, the output is four
  characters for every three bytes begun, and none of them is a NUL.\<close>

theorem rd_base64_faithful:
  "base64_decode (rd_base64 xs) = xs \<and> length (rd_base64 xs) = 4 * ((length xs + 2) div 3) \<and>
   0 \<notin> set (rd_base64 xs)"
  using base64_roundtrip length_rd_base64 rd_base64_no_nul by blast

end
