(* ===== verification/Rd_Ws.thy ===== *)
theory Rd_Ws
  imports Rd_Crypto
begin

text \<open>
  The WebSocket framing of \<open>common/rd_ws.c\<close>, for both roles: the accept key of the handshake, the
  frame writers, the reader with its reassembly of fragmented messages, and the HTTP header lookup
  the upgrade handshakes use.
\<close>

section \<open>Opcodes and the accept key\<close>

abbreviation (input) RD_WS_CONT :: nat where "RD_WS_CONT \<equiv> 0"
abbreviation (input) RD_WS_TEXT :: nat where "RD_WS_TEXT \<equiv> 1"
abbreviation (input) RD_WS_BINARY :: nat where "RD_WS_BINARY \<equiv> 2"
abbreviation (input) RD_WS_CLOSE :: nat where "RD_WS_CLOSE \<equiv> 8"
abbreviation (input) RD_WS_PING :: nat where "RD_WS_PING \<equiv> 9"
abbreviation (input) RD_WS_PONG :: nat where "RD_WS_PONG \<equiv> 10"

definition ws_guid :: bytes where
  "ws_guid = bytes_of ''258EAFA5-E914-47DA-95CA-C5AB0DC85B11''"

definition rd_ws_accept_key :: "bytes \<Rightarrow> bytes" where
  "rd_ws_accept_key client_key =
     (let key = c_str client_key;
          kl = (if length key > 256 - 37 then 256 - 37 else length key)
      in rd_base64 (rd_sha1 (take kl key @ ws_guid)))"

section \<open>Writing frames\<close>

definition ws_len_field :: "u8 \<Rightarrow> nat \<Rightarrow> bytes" where
  "ws_len_field mbit len =
     (if len < 126 then [mbit OR of_nat len]
      else if len \<le> 0xFFFF then [mbit OR 126, of_nat (len div 256), of_nat len]
      else (mbit OR 127) # map (\<lambda>i. of_nat (len div 2 ^ (8 * i))) (rev [0..<8]))"

definition ws_byte0 :: "nat \<Rightarrow> u8" where
  "ws_byte0 opcode = 0x80 OR (of_nat opcode AND 0x0F)"

definition rd_ws_write_header :: "alloc \<Rightarrow> rd_buf \<Rightarrow> nat \<Rightarrow> nat \<Rightarrow> rd_buf" where
  "rd_ws_write_header al out opcode len = rd_buf_put al out (ws_byte0 opcode # ws_len_field 0 len)"

text \<open>\<open>p[i] ^= key[i & 3]\<close> over a payload.\<close>

definition ws_mask :: "bytes \<Rightarrow> bytes \<Rightarrow> bytes" where
  "ws_mask key p = map (\<lambda>i. p ! i XOR key ! (i mod 4)) [0..<length p]"

text \<open>\<open>key\<close> is what \<open>rd_random\<close> left in the four key bytes; its result is not looked at.\<close>

definition rd_ws_write_frame ::
  "alloc \<Rightarrow> bytes \<Rightarrow> rd_buf \<Rightarrow> nat \<Rightarrow> bytes \<Rightarrow> bool \<Rightarrow> rd_buf" where
  "rd_ws_write_frame al key out opcode payload msk =
     (let len = length payload;
          hdr = ws_byte0 opcode # ws_len_field (if msk then 0x80 else 0) len @ (if msk then key else [])
      in case rd_buf_reserve al out (length hdr + len) of
           None \<Rightarrow> out
         | Some out1 \<Rightarrow>
             (let out2 = rd_buf_put al out1 hdr in
              case rd_buf_grow al out2 (if msk then ws_mask key payload else payload) of
                None \<Rightarrow> out2
              | Some out3 \<Rightarrow> out3))"

section \<open>The reader\<close>

record rd_ws_reader =
  wr_assembly :: rd_buf
  wr_opcode :: int
  wr_max_message :: nat
  wr_expect_masked :: bool
  wr_ctrl :: bytes

definition rd_ws_reader_init :: "rd_ws_reader \<Rightarrow> nat \<Rightarrow> bool \<Rightarrow> rd_ws_reader" where
  "rd_ws_reader_init r max_message expect_masked =
     r\<lparr>wr_assembly := rd_buf_init, wr_opcode := -1, wr_max_message := max_message,
       wr_expect_masked := expect_masked\<rparr>"

definition rd_ws_reader_free :: "rd_ws_reader \<Rightarrow> rd_ws_reader" where
  "rd_ws_reader_free r = r\<lparr>wr_assembly := rd_buf_free (wr_assembly r)\<rparr>"

text \<open>The return values 0, -1 and 1, the last with the message.\<close>

datatype ws_result = WsMore | WsError | WsMsg nat bytes

text \<open>
  The parse of a frame header: more bytes needed, a protocol error, or the header's fields with its
  length \<open>h\<close>. The declared length is a \<open>uint64_t\<close>; it is refused beyond \<open>max_message\<close> before it is
  added to anything, so the sums of the code do not wrap.
\<close>

datatype ws_header =
    HdrMore
  | HdrError
  | Hdr (hdr_fin: bool) (hdr_opcode: nat) (hdr_masked: bool) (hdr_len: nat) (hdr_key: bytes) (hdr_size: nat)

definition be_nat :: "bytes \<Rightarrow> nat" where
  "be_nat p = foldl (\<lambda>len b. len * 256 + unat b) 0 p"

definition ws_parse_rest ::
  "rd_ws_reader \<Rightarrow> bytes \<Rightarrow> bool \<Rightarrow> nat \<Rightarrow> bool \<Rightarrow> nat \<Rightarrow> nat \<Rightarrow> ws_header" where
  "ws_parse_rest r p fin opcode masked len h =
     (if len > wr_max_message r then HdrError
      else if masked \<and> length p < h + 4 then HdrMore
      else let key = (if masked then take 4 (drop h p) else [0, 0, 0, 0]);
               h' = (if masked then h + 4 else h)
        in if length p < h' + len then HdrMore else Hdr fin opcode masked len key h')"

definition ws_parse_header :: "rd_ws_reader \<Rightarrow> bytes \<Rightarrow> ws_header" where
  "ws_parse_header r p =
     (if length p < 2 then HdrMore
      else let fin = bit (p ! 0) 7;
               rsv = p ! 0 AND 0x70;
               opcode = unat (p ! 0 AND 0x0F);
               masked = bit (p ! 1) 7;
               len7 = unat (p ! 1 AND 0x7F)
        in if rsv \<noteq> 0 then HdrError
           else if masked \<noteq> wr_expect_masked r then HdrError
           else if len7 = 126 then
             (if length p < 4 then HdrMore
              else ws_parse_rest r p fin opcode masked (be_nat (take 2 (drop 2 p))) 4)
           else if len7 = 127 then
             (if length p < 10 then HdrMore
              else ws_parse_rest r p fin opcode masked (be_nat (take 8 (drop 2 p))) 10)
           else ws_parse_rest r p fin opcode masked len7 2)"

text \<open>
  One turn of the loop: \<open>Inl\<close> returns from \<open>rd_ws_next\<close>, \<open>Inr\<close> is its \<open>continue\<close>. The payload is
  unmasked in place, also on the paths that then fail.
\<close>

definition ws_frame ::
  "alloc \<Rightarrow> rd_ws_reader \<Rightarrow> rd_buf \<Rightarrow> (ws_result \<times> rd_ws_reader \<times> rd_buf) + (rd_ws_reader \<times> rd_buf)" where
  "ws_frame al r inb =
     (case ws_parse_header r (rb_data inb) of
        HdrMore \<Rightarrow> Inl (WsMore, r, inb)
      | HdrError \<Rightarrow> Inl (WsError, r, inb)
      | Hdr fin opcode masked len key h \<Rightarrow>
          (let raw = take len (drop h (rb_data inb));
               payload = (if masked then ws_mask key raw else raw);
               inb1 = inb\<lparr>rb_data := splice (rb_data inb) h payload\<rparr>
           in if opcode \<ge> 8 then
                (if \<not> fin \<or> len > 125 then Inl (WsError, r, inb1)
                 else Inl (WsMsg opcode payload, r\<lparr>wr_ctrl := splice (wr_ctrl r) 0 payload\<rparr>,
                        rd_buf_consume inb1 (h + len)))
              else if opcode = RD_WS_CONT \<and> wr_opcode r < 0 then Inl (WsError, r, inb1)
              else if opcode \<noteq> RD_WS_CONT \<and> opcode \<noteq> RD_WS_BINARY \<and> opcode \<noteq> RD_WS_TEXT
                then Inl (WsError, r, inb1)
              else if opcode \<noteq> RD_WS_CONT \<and> wr_opcode r \<ge> 0 then Inl (WsError, r, inb1)
              else let r1 = (if opcode = RD_WS_CONT then r
                      else r\<lparr>wr_opcode := int opcode, wr_assembly := rd_buf_clear (wr_assembly r)\<rparr>)
                in if rb_len (wr_assembly r1) + len > wr_max_message r then Inl (WsError, r1, inb1)
                   else let r2 = r1\<lparr>wr_assembly := rd_buf_put al (wr_assembly r1) payload\<rparr>;
                            inb2 = rd_buf_consume inb1 (h + len)
                     in if \<not> fin then Inr (r2, inb2)
                        else Inl (WsMsg (nat (wr_opcode r2)) (rb_data (wr_assembly r2)),
                               r2\<lparr>wr_opcode := -1\<rparr>, inb2)))"

lemma ws_parse_header_fits:
  "ws_parse_header r p = Hdr fin opc masked len key h \<Longrightarrow> 2 \<le> h \<and> h + len \<le> length p \<and> opc < 16 \<and>
     len \<le> wr_max_message r \<and> masked = wr_expect_masked r \<and> length key = 4"
proof -
  have "unat (v AND 0x0F :: u8) < 16" for v :: u8
  proof -
    have "v AND 0x0F = take_bit 4 v" by (simp add: take_bit_eq_mask mask_eq_exp_minus_1)
    then show ?thesis using take_bit_nat_less_exp [of 4 "unat v"] by (simp add: unsigned_take_bit_eq)
  qed
  moreover assume "ws_parse_header r p = Hdr fin opc masked len key h"
  ultimately show ?thesis
    by (auto simp: ws_parse_header_def ws_parse_rest_def Let_def split: if_splits)
qed

lemma ws_frame_continue:
  assumes "ws_frame al r inb = Inr (r', inb')"
  shows "length (rb_data inb') < length (rb_data inb)"
proof -
  from assms obtain fin opc masked len key h
    where "ws_parse_header r (rb_data inb) = Hdr fin opc masked len key h"
    by (auto simp: ws_frame_def split: ws_header.splits)
  with ws_parse_header_fits [OF this] assms show ?thesis
    by (auto simp: ws_frame_def Let_def rd_buf_consume_def length_splice ws_mask_def split: if_splits)
qed

function rd_ws_next :: "alloc \<Rightarrow> rd_ws_reader \<Rightarrow> rd_buf \<Rightarrow> ws_result \<times> rd_ws_reader \<times> rd_buf" where
  "rd_ws_next al r inb =
     (case ws_frame al r inb of Inl res \<Rightarrow> res | Inr (r', inb') \<Rightarrow> rd_ws_next al r' inb')"
  by pat_completeness auto
termination
  by (relation "measure (\<lambda>(al, r, inb). length (rb_data inb))") (auto dest: ws_frame_continue)

declare rd_ws_next.simps [simp del]

lemma rd_ws_next_consumes:
  "rd_ws_next al r b = (WsMsg opc p, r', b') \<Longrightarrow> rb_len b' < rb_len b"
proof (induction al r b rule: rd_ws_next.induct)
  case (1 al r b)
  show ?case
  proof (cases "ws_frame al r b")
    case (Inl res)
    then have "ws_frame al r b = Inl (WsMsg opc p, r', b')"
      using "1.prems" by (subst (asm) rd_ws_next.simps) simp
    moreover from this obtain fin opc' masked len key h
      where "ws_parse_header r (rb_data b) = Hdr fin opc' masked len key h"
      by (auto simp: ws_frame_def split: ws_header.splits)
    ultimately show ?thesis using ws_parse_header_fits [of r "rb_data b"]
      by (auto simp: ws_frame_def Let_def rd_buf_consume_def length_splice ws_mask_def split: if_splits)
  next
    case (Inr y)
    obtain r1 b1 where y: "y = (r1, b1)" by fastforce
    have "rd_ws_next al r1 b1 = (WsMsg opc p, r', b')"
      using "1.prems" Inr y by (subst (asm) rd_ws_next.simps) simp
    from "1.IH" [OF Inr y [symmetric] this] ws_frame_continue [OF Inr [unfolded y]]
    show ?thesis by simp
  qed
qed

section \<open>HTTP headers\<close>

definition tolower :: "u8 \<Rightarrow> u8" where
  "tolower c = (if 65 \<le> c \<and> c \<le> 90 then c + 32 else c)"

text \<open>\<open>strstr(line, "\r\n")\<close> as an offset.\<close>

fun strstr_crlf :: "bytes \<Rightarrow> nat option" where
  "strstr_crlf (a # b # s) = (if a = 13 \<and> b = 10 then Some 0 else map_option Suc (strstr_crlf (b # s)))"
| "strstr_crlf _ = None"

definition is_blank :: "u8 \<Rightarrow> bool" where
  "is_blank b \<longleftrightarrow> b = 32 \<or> b = 9"

definition trim_blanks :: "bytes \<Rightarrow> bytes" where
  "trim_blanks v = rev (dropWhile is_blank (rev (dropWhile is_blank v)))"

definition header_named :: "bytes \<Rightarrow> bytes \<Rightarrow> bool" where
  "header_named name line \<longleftrightarrow> length line > length name \<and> line ! length name = 58 \<and>
     map tolower (take (length name) line) = map tolower name"

lemma strstr_crlf_bound: "strstr_crlf s = Some k \<Longrightarrow> k + 2 \<le> length s"
  by (induction s arbitrary: k rule: strstr_crlf.induct) (auto split: if_splits)

text \<open>The loop over the lines; the result is the value copied to \<open>out\<close>, without its NUL.\<close>

function http_header_loop :: "bytes \<Rightarrow> bytes \<Rightarrow> nat \<Rightarrow> bytes option" where
  "http_header_loop name line cap =
     (if line = [] then None
      else let eol = strstr_crlf line;
               l = (case eol of Some k \<Rightarrow> take k line | None \<Rightarrow> line)
        in if header_named name l
           then (let v = trim_blanks (drop (length name + 1) l) in
                 Some (if length v \<ge> cap then take (cap - 1) v else v))
           else case eol of None \<Rightarrow> None | Some k \<Rightarrow> http_header_loop name (drop (k + 2) line) cap)"
  by pat_completeness auto
termination
  by (relation "measure (\<lambda>(name, line, cap). length line)") (auto dest: strstr_crlf_bound)

declare http_header_loop.simps [simp del]

definition rd_http_header :: "bytes \<Rightarrow> bytes \<Rightarrow> nat \<Rightarrow> bytes option" where
  "rd_http_header headers name cap = http_header_loop name (c_str headers) cap"

section \<open>More bytes\<close>

definition more_bytes :: "rd_buf \<Rightarrow> bytes \<Rightarrow> rd_buf" where
  "more_bytes b m = b\<lparr>rb_data := rb_data b @ m\<rparr>"

lemma more_bytes_data [simp]: "rb_data (more_bytes b m) = rb_data b @ m"
  by (simp add: more_bytes_def)

lemma ws_parse_rest_more:
  "ws_parse_rest r p fin opc masked len h \<noteq> HdrMore \<Longrightarrow>
     ws_parse_rest r (p @ m) fin opc masked len h = ws_parse_rest r p fin opc masked len h"
  by (simp add: ws_parse_rest_def Let_def split: if_splits)

lemma ws_parse_header_more:
  assumes "ws_parse_header r p \<noteq> HdrMore"
  shows "ws_parse_header r (p @ m) = ws_parse_header r p"
proof -
  have "2 \<le> length p" using assms by (simp add: ws_parse_header_def split: if_splits)
  then have n: "(p @ m) ! 0 = p ! 0" "(p @ m) ! 1 = p ! 1" "\<not> length (p @ m) < 2" "\<not> length p < 2"
    by (auto simp: nth_append simp del: length_greater_0_conv)
  consider "p ! 0 AND 0x70 \<noteq> 0 \<or> bit (p ! 1) 7 \<noteq> wr_expect_masked r"
    | "p ! 0 AND 0x70 = 0" "bit (p ! 1) 7 = wr_expect_masked r" "unat (p ! 1 AND 0x7F) = 126"
    | "p ! 0 AND 0x70 = 0" "bit (p ! 1) 7 = wr_expect_masked r" "unat (p ! 1 AND 0x7F) = 127"
    | "p ! 0 AND 0x70 = 0" "bit (p ! 1) 7 = wr_expect_masked r" "unat (p ! 1 AND 0x7F) \<notin> {126, 127}"
    by blast
  then show ?thesis
  proof cases
    case 1
    with n show ?thesis by (auto simp: ws_parse_header_def Let_def)
  next
    case 2
    with assms have "4 \<le> length p" by (simp add: ws_parse_header_def Let_def split: if_splits)
    with 2 assms n show ?thesis
      by (simp add: ws_parse_header_def Let_def ws_parse_rest_more)
  next
    case 3
    with assms have "10 \<le> length p" by (simp add: ws_parse_header_def Let_def split: if_splits)
    with 3 assms n show ?thesis
      by (simp add: ws_parse_header_def Let_def ws_parse_rest_more)
  next
    case 4
    with assms n show ?thesis by (simp add: ws_parse_header_def Let_def ws_parse_rest_more)
  qed
qed

lemma splice_more: "off + length q \<le> length d \<Longrightarrow> splice (d @ m) off q = splice d off q @ m"
  by (simp add: splice_def)

lemma rd_buf_consume_more:
  "n \<le> rb_len b \<Longrightarrow> rd_buf_consume (more_bytes b m) n = more_bytes (rd_buf_consume b n) m"
  by (auto simp: rd_buf_consume_def more_bytes_def)

lemma length_ws_mask [simp, len_simps]: "length (ws_mask key p) = length p"
  by (simp add: ws_mask_def)

definition push_more :: "bytes \<Rightarrow> (ws_result \<times> rd_ws_reader \<times> rd_buf) + (rd_ws_reader \<times> rd_buf) \<Rightarrow>
    (ws_result \<times> rd_ws_reader \<times> rd_buf) + (rd_ws_reader \<times> rd_buf)" where
  "push_more m x = (case x of Inl (res, r, b) \<Rightarrow> Inl (res, r, more_bytes b m) | Inr (r, b) \<Rightarrow> Inr (r, more_bytes b m))"

lemma ws_frame_more:
  assumes "ws_parse_header r (rb_data b) \<noteq> HdrMore"
  shows "ws_frame al r (more_bytes b m) = push_more m (ws_frame al r b)"
proof (cases "ws_parse_header r (rb_data b)")
  case HdrMore
  with assms show ?thesis by simp
next
  case HdrError
  then show ?thesis using ws_parse_header_more [OF assms, of m] by (simp add: ws_frame_def push_more_def)
next
  case (Hdr fin opc masked len key h)
  note fits = ws_parse_header_fits [OF Hdr]
  have hm: "ws_parse_header r (rb_data b @ m) = Hdr fin opc masked len key h"
    using ws_parse_header_more [OF assms, of m] Hdr by simp
  define raw pl where "raw = take len (drop h (rb_data b))" and
    "pl = (if masked then ws_mask key raw else raw)"
  have raw: "take len (drop h (rb_data b @ m)) = raw" "length raw = len"
    using fits by (auto simp: raw_def min_def)
  then have lp: "length pl = len" by (simp add: pl_def)
  define b1 where "b1 = b\<lparr>rb_data := splice (rb_data b) h pl\<rparr>"
  have s: "(more_bytes b m)\<lparr>rb_data := splice (rb_data b @ m) h pl\<rparr> = more_bytes b1 m"
    using fits lp by (simp add: more_bytes_def b1_def splice_more)
  have c: "rd_buf_consume (more_bytes b1 m) (h + len) = more_bytes (rd_buf_consume b1 (h + len)) m"
    using fits lp by (intro rd_buf_consume_more) (simp add: b1_def length_splice)
  show ?thesis
    unfolding ws_frame_def more_bytes_data hm Hdr ws_header.case raw(1) raw_def [symmetric]
      pl_def [symmetric] Let_def s b1_def [symmetric] c
    by (simp add: push_more_def)
qed

lemma rd_ws_next_more:
  "rd_ws_next al r b = (res, r', b') \<Longrightarrow>
   (case res of
      WsMore \<Rightarrow> rd_ws_next al r (more_bytes b m) = rd_ws_next al r' (more_bytes b' m)
    | _ \<Rightarrow> rd_ws_next al r (more_bytes b m) = (res, r', more_bytes b' m))"
proof (induction al r b arbitrary: res r' b' rule: rd_ws_next.induct)
  case (1 al r b)
  show ?case
  proof (cases "ws_parse_header r (rb_data b) = HdrMore")
    case True
    then have "res = WsMore \<and> r' = r \<and> b' = b"
      using "1.prems" by (subst (asm) rd_ws_next.simps) (simp add: ws_frame_def)
    then show ?thesis by simp
  next
    case False
    note fm = ws_frame_more [OF False, of al m]
    show ?thesis
    proof (cases "ws_frame al r b")
      case (Inl x)
      then have x: "x = (res, r', b')" using "1.prems" by (subst (asm) rd_ws_next.simps) simp
      then have "rd_ws_next al r (more_bytes b m) = (res, r', more_bytes b' m)"
        using fm Inl by (subst rd_ws_next.simps) (simp add: push_more_def)
      moreover have "res \<noteq> WsMore"
        using Inl x False unfolding ws_frame_def Let_def
        by (auto split: ws_header.splits if_splits)
      ultimately show ?thesis by (cases res) simp_all
    next
      case (Inr y)
      obtain r1 b1 where y: "y = (r1, b1)" by (cases y)
      have "rd_ws_next al r1 b1 = (res, r', b')"
        using "1.prems" Inr y by (subst (asm) rd_ws_next.simps) simp
      moreover have "rd_ws_next al r (more_bytes b m) = rd_ws_next al r1 (more_bytes b1 m)"
        using fm Inr y by (subst rd_ws_next.simps) (simp add: push_more_def)
      ultimately show ?thesis using "1.IH" [OF Inr y [symmetric]] by (cases res) simp_all
    qed
  qed
qed

section \<open>Limits\<close>

definition ws_reader_ok :: "rd_ws_reader \<Rightarrow> bool" where
  "ws_reader_ok r \<longleftrightarrow> length (wr_ctrl r) = 125 \<and> (wr_opcode r = -1 \<or> wr_opcode r = 1 \<or> wr_opcode r = 2) \<and>
     rd_buf_ok (wr_assembly r) \<and> rb_len (wr_assembly r) \<le> wr_max_message r"

definition ws_bounded :: "nat \<Rightarrow> ws_result \<Rightarrow> bool" where
  "ws_bounded mx res \<longleftrightarrow> (case res of
      WsMsg opc d \<Rightarrow> (opc = RD_WS_TEXT \<or> opc = RD_WS_BINARY) \<and> length d \<le> mx \<or>
        8 \<le> opc \<and> opc < 16 \<and> length d \<le> 125 \<and> length d \<le> mx
    | _ \<Rightarrow> True)"

lemma rd_buf_put_len_le: "rb_len (rd_buf_put al b p) \<le> rb_len b + length p"
  using rd_buf_put_cases [of al b p] by auto

lemma ws_frame_ok:
  assumes "ws_reader_ok r"
  shows "case ws_frame al r b of
      Inl (res, r', b') \<Rightarrow> ws_reader_ok r' \<and> wr_max_message r' = wr_max_message r \<and>
        ws_bounded (wr_max_message r) res \<and> rb_len b' \<le> rb_len b
    | Inr (r', b') \<Rightarrow> ws_reader_ok r' \<and> wr_max_message r' = wr_max_message r \<and> rb_len b' \<le> rb_len b"
proof (cases "ws_parse_header r (rb_data b)")
  case (Hdr fin opc masked len key h)
  note fits = ws_parse_header_fits [OF Hdr]
  define raw pl where "raw = take len (drop h (rb_data b))" and
    "pl = (if masked then ws_mask key raw else raw)"
  have lp: "length pl = len" using fits by (auto simp: pl_def raw_def min_def)
  have put: "rb_len (rd_buf_put al a pl) \<le> rb_len a + len" for a
    using rd_buf_put_len_le [of al a pl] lp by simp
  show ?thesis
    unfolding ws_frame_def Hdr ws_header.case raw_def [symmetric] pl_def [symmetric] Let_def
    using assms fits lp put [of "wr_assembly r"] put [of "rd_buf_clear (wr_assembly r)"]
    by (auto simp: ws_reader_ok_def ws_bounded_def length_splice rd_buf_consume_data buf_simps)
qed (use assms in \<open>simp_all add: ws_frame_def ws_bounded_def\<close>)

lemma rd_ws_next_ok:
  "ws_reader_ok r \<Longrightarrow> rd_ws_next al r b = (res, r', b') \<Longrightarrow>
     ws_reader_ok r' \<and> wr_max_message r' = wr_max_message r \<and>
     ws_bounded (wr_max_message r) res \<and> rb_len b' \<le> rb_len b"
proof (induction al r b arbitrary: res r' b' rule: rd_ws_next.induct)
  case (1 al r b)
  note f = ws_frame_ok [OF "1.prems"(1), where al = al and b = b]
  show ?case
  proof (cases "ws_frame al r b")
    case (Inl x)
    then show ?thesis using "1.prems"(2) f by (subst (asm) rd_ws_next.simps) simp
  next
    case (Inr y)
    obtain r1 b1 where y: "y = (r1, b1)" by (cases y)
    have "rd_ws_next al r1 b1 = (res, r', b')"
      using "1.prems"(2) Inr y by (subst (asm) rd_ws_next.simps) simp
    moreover have "ws_reader_ok r1" "wr_max_message r1 = wr_max_message r" "rb_len b1 \<le> rb_len b"
      using f Inr y by simp_all
    ultimately show ?thesis using "1.IH" [OF Inr y [symmetric], of res r' b'] by auto
  qed
qed

section \<open>Frames\<close>

text \<open>The bytes of one frame; the writer of the code always sets the FIN bit.\<close>

definition frame_bytes :: "bytes option \<Rightarrow> bool \<times> nat \<times> bytes \<Rightarrow> bytes" where
  "frame_bytes key f = (case f of (fin, opc, p) \<Rightarrow>
     ((if fin then 0x80 else 0) OR of_nat opc) #
     ws_len_field (if key = None then 0 else 0x80) (length p) @
     (case key of None \<Rightarrow> p | Some k \<Rightarrow> k @ ws_mask k p))"

lemma byte0_fields:
  assumes "opc < 16"
  shows "bit ((if fin then 0x80 else 0) OR of_nat opc :: u8) 7 = fin"
    "((if fin then 0x80 else 0) OR of_nat opc :: u8) AND 0x70 = 0"
    "unat (((if fin then 0x80 else 0) OR of_nat opc :: u8) AND 0x0F) = opc"
proof -
  have "opc \<in> {0, 1, 2, 3, 4, 5, 6, 7, 8, 9, 10, 11, 12, 13, 14, 15}"
    using assms unfolding insert_iff empty_iff by presburger
  then show "bit ((if fin then 0x80 else 0) OR of_nat opc :: u8) 7 = fin"
    "((if fin then 0x80 else 0) OR of_nat opc :: u8) AND 0x70 = 0"
    "unat (((if fin then 0x80 else 0) OR of_nat opc :: u8) AND 0x0F) = opc"
    by (elim insertE emptyE; simp)+
qed

lemma byte1_fields:
  assumes "n < 128"
  shows "bit ((if msk then 0x80 else 0) OR of_nat n :: u8) 7 = msk"
    "unat (((if msk then 0x80 else 0) OR of_nat n :: u8) AND 0x7F) = n"
proof -
  have n: "take_bit 7 n = n" using assms by (simp add: take_bit_nat_eq_self)
  have "bit (of_nat n :: u8) i \<Longrightarrow> i < 7" for i
    using n by (auto simp: bit_of_nat_iff) (metis bit_take_bit_iff)
  then have b: "\<not> bit (of_nat n :: u8) 7" by blast
  then show "bit ((if msk then 0x80 else 0) OR of_nat n :: u8) 7 = msk"
    by (auto simp: bit_or_iff)
  have "x AND 0x7F = take_bit 7 x" for x :: u8 by (simp add: take_bit_eq_mask mask_eq_exp_minus_1)
  moreover have "take_bit 7 (0x80 :: u8) = 0" by simp
  moreover have "take_bit 7 (of_nat n :: u8) = of_nat n" by (metis n take_bit_of_nat)
  ultimately have "((if msk then 0x80 else 0) OR of_nat n :: u8) AND 0x7F = of_nat n"
    by (simp add: take_bit_or)
  then show "unat (((if msk then 0x80 else 0) OR of_nat n :: u8) AND 0x7F) = n"
    using assms by (simp only:) simp
qed

lemma be_nat_acc: "foldl (\<lambda>len b. len * 256 + unat b) a xs = a * 256 ^ length xs + be_nat xs"
proof -
  define f where "f = (\<lambda>len (b :: u8). len * 256 + unat b)"
  have "foldl f a xs = a * 256 ^ length xs + foldl f 0 xs"
  proof (induction xs arbitrary: a)
    case (Cons x xs)
    have "foldl f a (x # xs) = f a x * 256 ^ length xs + foldl f 0 xs"
      "foldl f 0 (x # xs) = f 0 x * 256 ^ length xs + foldl f 0 xs"
      using Cons.IH [of "f a x"] Cons.IH [of "f 0 x"] by simp_all
    then show ?case by (simp only: f_def list.size power_add power_one_right add_mult_distrib add_mult_distrib2) simp
  qed simp
  then show ?thesis by (simp add: be_nat_def f_def)
qed

lemma be_nat_Cons: "be_nat (x # xs) = unat x * 256 ^ length xs + be_nat xs"
  using be_nat_acc [of "unat x" xs] by (simp add: be_nat_def)

lemma be_nat_digits:
  "be_nat (map (\<lambda>i. of_nat (n div 2 ^ (8 * i))) (rev [0..<k])) = n mod 2 ^ (8 * k)"
proof (induction k)
  case 0
  then show ?case by (simp add: be_nat_def)
next
  case (Suc k)
  have "n mod 2 ^ (8 * Suc k) = 2 ^ (8 * k) * (n div 2 ^ (8 * k) mod 256) + n mod 2 ^ (8 * k)"
    using mod_mult2_eq [of n "2 ^ (8 * k)" 256] by (simp add: power_add mult.commute)
  moreover have "(256 :: nat) ^ k = 2 ^ (8 * k)" by (simp add: power_mult)
  moreover have "unat (of_nat (n div 2 ^ (8 * k)) :: u8) = n div 2 ^ (8 * k) mod 256"
    by (simp add: unsigned_of_nat take_bit_eq_mod)
  ultimately show ?case using Suc by (simp add: be_nat_Cons mult.commute)
qed

lemma ws_mask_involution: "ws_mask k (ws_mask k p) = p"
  by (rule nth_equalityI) (simp_all add: ws_mask_def)

text \<open>What the reader makes of a frame followed by other bytes.\<close>

lemma ws_parse_rest_frame:
  assumes "length pre = h" "length p = n" "\<And>k. key = Some k \<Longrightarrow> length k = 4"
  shows "ws_parse_rest r (pre @ (case key of None \<Rightarrow> p | Some k \<Rightarrow> k @ ws_mask k p) @ rest) fin opc
      (key \<noteq> None) n h =
    (if n > wr_max_message r then HdrError
     else Hdr fin opc (key \<noteq> None) n (case key of None \<Rightarrow> [0, 0, 0, 0] | Some k \<Rightarrow> k)
       (h + (if key = None then 0 else 4)))"
  using assms by (cases key) (auto simp: ws_parse_rest_def Let_def)

lemma ws_parse_frame:
  assumes "opc < 16" "length p < 2 ^ 64" "\<And>k. key = Some k \<Longrightarrow> length k = 4"
    and "wr_expect_masked r = (key \<noteq> None)"
  shows "\<exists>h. length (frame_bytes key (fin, opc, p)) = h + length p \<and>
    ws_parse_header r (frame_bytes key (fin, opc, p) @ rest) =
      (if length p > wr_max_message r then HdrError
       else Hdr fin opc (key \<noteq> None) (length p) (case key of None \<Rightarrow> [0, 0, 0, 0] | Some k \<Rightarrow> k) h)"
proof -
  let ?b0 = "(if fin then 0x80 else 0) OR of_nat opc :: u8"
  let ?m = "if key = None then 0 else 0x80 :: u8"
  have m: "?m = (if key \<noteq> None then 0x80 else 0)" by simp
  let ?body = "case key of None \<Rightarrow> p | Some k \<Rightarrow> k @ ws_mask k p"
  have k4: "length ?body = (if key = None then 0 else 4) + length p"
    using assms(3) by (cases key) auto
  consider (s) "length p < 126" | (m) "length p \<ge> 126" "length p \<le> 0xFFFF" | (l) "length p > 0xFFFF" by linarith
  then show ?thesis
  proof cases
    case s
    have b1: "bit (?m OR of_nat (length p)) 7 = (key \<noteq> None)" "unat ((?m OR of_nat (length p)) AND 0x7F) = length p"
      using byte1_fields [of "length p" "key \<noteq> None"] s unfolding m by simp_all
    have f: "frame_bytes key (fin, opc, p) = [?b0, ?m OR of_nat (length p)] @ ?body"
      using s by (simp add: frame_bytes_def ws_len_field_def)
    have "ws_parse_header r (frame_bytes key (fin, opc, p) @ rest) =
        ws_parse_rest r ([?b0, ?m OR of_nat (length p)] @ ?body @ rest) fin opc (key \<noteq> None) (length p) 2"
      unfolding f ws_parse_header_def Let_def append_assoc
      using byte0_fields [OF assms(1), of fin] b1 s assms(4) by simp
    with ws_parse_rest_frame [of "[?b0, ?m OR of_nat (length p)]" 2 p "length p" key r rest fin opc] assms(3) f k4
    show ?thesis by (intro exI [of _ "2 + (if key = None then 0 else 4)"]) simp
  next
    case m
    have b1: "bit (?m OR 126) 7 = (key \<noteq> None)" "unat ((?m OR 126) AND 0x7F) = 126"
      using byte1_fields [of 126 "key \<noteq> None"] by simp_all
    let ?l = "[of_nat (length p div 256), of_nat (length p)] :: bytes"
    have "?l = map (\<lambda>i. of_nat (length p div 2 ^ (8 * i))) (rev [0..<2])" by (simp add: upt_rec)
    then have l: "be_nat ?l = length p" using be_nat_digits [of "length p" 2] m(2) by simp
    have f: "frame_bytes key (fin, opc, p) = (?b0 # (?m OR 126) # ?l) @ ?body"
      using m by (simp add: frame_bytes_def ws_len_field_def)
    have "ws_parse_header r (frame_bytes key (fin, opc, p) @ rest) =
        ws_parse_rest r ((?b0 # (?m OR 126) # ?l) @ ?body @ rest) fin opc (key \<noteq> None) (be_nat ?l) 4"
      unfolding f ws_parse_header_def Let_def append_assoc
      using byte0_fields [OF assms(1), of fin] b1 assms(4) by (simp add: numeral_2_eq_2)
    with l ws_parse_rest_frame [of "?b0 # (?m OR 126) # ?l" 4 p "length p" key r rest fin opc] assms(3) f k4
    show ?thesis by (intro exI [of _ "4 + (if key = None then 0 else 4)"]) simp
  next
    case l
    have b1: "bit (?m OR 127) 7 = (key \<noteq> None)" "unat ((?m OR 127) AND 0x7F) = 127"
      using byte1_fields [of 127 "key \<noteq> None"] by simp_all
    let ?l = "map (\<lambda>i. of_nat (length p div 2 ^ (8 * i))) (rev [0..<8]) :: bytes"
    have ll: "be_nat ?l = length p" "length ?l = 8" using be_nat_digits [of "length p" 8] assms(2) by simp_all
    have f: "frame_bytes key (fin, opc, p) = (?b0 # (?m OR 127) # ?l) @ ?body"
      using l by (simp add: frame_bytes_def ws_len_field_def)
    have t: "take 8 (drop 2 ((?b0 # (?m OR 127) # L) @ X)) = L" if "length L = 8" for L X :: bytes
      using that by simp
    have "ws_parse_header r ((?b0 # (?m OR 127) # L) @ ?body @ rest) =
        ws_parse_rest r ((?b0 # (?m OR 127) # L) @ ?body @ rest) fin opc (key \<noteq> None) (be_nat L) 10"
      if "length L = 8" for L
      unfolding ws_parse_header_def Let_def t [OF that]
      using byte0_fields [OF assms(1), of fin] b1 assms(4) that by simp
    from this [of ?l] ll have "ws_parse_header r (frame_bytes key (fin, opc, p) @ rest) =
        ws_parse_rest r ((?b0 # (?m OR 127) # ?l) @ ?body @ rest) fin opc (key \<noteq> None) (length p) 10"
      unfolding f append_assoc by simp
    with ws_parse_rest_frame [of "?b0 # (?m OR 127) # ?l" 10 p "length p" key r rest fin opc] assms(3) f k4
    show ?thesis by (intro exI [of _ "10 + (if key = None then 0 else 4)"]) simp
  qed
qed

lemma frame_bytes_split:
  obtains X where "frame_bytes key (fin, opc, p) = X @ (case key of None \<Rightarrow> p | Some k \<Rightarrow> ws_mask k p)"
proof (cases key)
  case None
  then show thesis using that by (simp add: frame_bytes_def)
next
  case (Some k)
  then have "frame_bytes key (fin, opc, p) = (((if fin then 0x80 else 0) OR of_nat opc) #
      ws_len_field 0x80 (length p) @ k) @ ws_mask k p" by (simp add: frame_bytes_def)
  with that Some show thesis by simp
qed

lemma drop_splice: "off + length q \<le> n \<Longrightarrow> length d \<ge> off + length q \<Longrightarrow> drop n (splice d off q) = drop n d"
  by (auto simp: splice_def)

text \<open>One turn of the loop on a frame that fits the limit.\<close>

lemma ws_frame_of_frame:
  assumes "opc < 16" "length p < 2 ^ 64" "\<And>k. key = Some k \<Longrightarrow> length k = 4"
    and "wr_expect_masked r = (key \<noteq> None)" "length p \<le> wr_max_message r"
    and b: "rb_data b = frame_bytes key (fin, opc, p) @ rest"
  shows "\<exists>b1 b2. rb_data b2 = rest \<and> ws_frame al r b =
     (if opc \<ge> 8 then
        (if \<not> fin \<or> length p > 125 then Inl (WsError, r, b1)
         else Inl (WsMsg opc p, r\<lparr>wr_ctrl := splice (wr_ctrl r) 0 p\<rparr>, b2))
      else if opc = 0 \<and> wr_opcode r < 0 then Inl (WsError, r, b1)
      else if opc \<noteq> 0 \<and> opc \<noteq> 2 \<and> opc \<noteq> 1 then Inl (WsError, r, b1)
      else if opc \<noteq> 0 \<and> wr_opcode r \<ge> 0 then Inl (WsError, r, b1)
      else let r1 = (if opc = 0 then r
                     else r\<lparr>wr_opcode := int opc, wr_assembly := rd_buf_clear (wr_assembly r)\<rparr>)
        in if rb_len (wr_assembly r1) + length p > wr_max_message r then Inl (WsError, r1, b1)
           else let r2 = r1\<lparr>wr_assembly := rd_buf_put al (wr_assembly r1) p\<rparr>
             in if \<not> fin then Inr (r2, b2)
                else Inl (WsMsg (nat (wr_opcode r2)) (rb_data (wr_assembly r2)), r2\<lparr>wr_opcode := -1\<rparr>, b2))"
proof -
  obtain h where h: "length (frame_bytes key (fin, opc, p)) = h + length p"
    and hdr: "ws_parse_header r (rb_data b) =
      Hdr fin opc (key \<noteq> None) (length p) (case key of None \<Rightarrow> [0, 0, 0, 0] | Some k \<Rightarrow> k) h"
    using ws_parse_frame [OF assms(1-4), of fin rest] assms(5) unfolding b by auto
  obtain X where X: "frame_bytes key (fin, opc, p) = X @ (case key of None \<Rightarrow> p | Some k \<Rightarrow> ws_mask k p)"
    by (rule frame_bytes_split)
  have lX: "length X = h" using arg_cong [OF X, of length] h by (cases key) simp_all
  let ?raw = "take (length p) (drop h (rb_data b))"
  have raw: "?raw = (case key of None \<Rightarrow> p | Some k \<Rightarrow> ws_mask k p)"
    unfolding b X using lX by (cases key) simp_all
  have pl: "(if key \<noteq> None then ws_mask (case key of None \<Rightarrow> [0, 0, 0, 0] | Some k \<Rightarrow> k) ?raw else ?raw) = p"
    unfolding raw by (cases key) (simp_all add: ws_mask_involution)
  define b1 where "b1 = b\<lparr>rb_data := splice (rb_data b) h p\<rparr>"
  have "rb_data (rd_buf_consume b1 (h + length p)) = rest"
    using h by (simp add: b1_def buf_simps drop_splice b)
  then show ?thesis
    unfolding ws_frame_def hdr ws_header.case pl Let_def b1_def [symmetric] by blast
qed

section \<open>The message layer as a specification\<close>

type_synonym ws_part = "(nat \<times> bytes) option"

text \<open>
  The message reassembly of RFC 6455 over a list of frames (each with its masking key), with the
  size limit: the outcome, the message in progress and the frames left.
\<close>

fun ws_spec :: "nat \<Rightarrow> ws_part \<Rightarrow> ('k \<times> bool \<times> nat \<times> bytes) list \<Rightarrow>
    ws_result \<times> ws_part \<times> ('k \<times> bool \<times> nat \<times> bytes) list" where
  "ws_spec mx st [] = (WsMore, st, [])"
| "ws_spec mx st ((k, fin, opc, p) # fs) =
     (if length p > mx then (WsError, st, fs)
      else if opc \<ge> 8 then
        (if \<not> fin \<or> length p > 125 then (WsError, st, fs) else (WsMsg opc p, st, fs))
      else if opc = 0 then
        (case st of
           None \<Rightarrow> (WsError, st, fs)
         | Some (o1, d) \<Rightarrow>
             if length d + length p > mx then (WsError, st, fs)
             else if fin then (WsMsg o1 (d @ p), None, fs) else ws_spec mx (Some (o1, d @ p)) fs)
      else if opc = 1 \<or> opc = 2 then
        (if st \<noteq> None then (WsError, st, fs)
         else if fin then (WsMsg opc p, None, fs) else ws_spec mx (Some (opc, p)) fs)
      else (WsError, st, fs))"

definition ws_abs :: "rd_ws_reader \<Rightarrow> ws_part" where
  "ws_abs r = (if wr_opcode r < 0 then None else Some (nat (wr_opcode r), rb_data (wr_assembly r)))"

definition ws_wire :: "(bytes option \<times> bool \<times> nat \<times> bytes) list \<Rightarrow> bytes" where
  "ws_wire kfs = concat (map (\<lambda>(k, f). frame_bytes k f) kfs)"

definition ws_wire_ok :: "bool \<Rightarrow> (bytes option \<times> bool \<times> nat \<times> bytes) list \<Rightarrow> bool" where
  "ws_wire_ok msk kfs \<longleftrightarrow> (\<forall>(k, fin, opc, p) \<in> set kfs. opc < 16 \<and> length p < 2 ^ 64 \<and>
     (k \<noteq> None) = msk \<and> (\<forall>x. k = Some x \<longrightarrow> length x = 4))"

lemma rd_ws_next_refines:
  assumes "no_oom al" "ws_reader_ok r" "ws_wire_ok (wr_expect_masked r) kfs"
    and "rb_data b = ws_wire kfs" "ws_spec (wr_max_message r) (ws_abs r) kfs = (res, st, rest)"
  shows "\<exists>r' b'. rd_ws_next al r b = (res, r', b') \<and>
    (res \<noteq> WsError \<longrightarrow> ws_abs r' = st \<and> rb_data b' = ws_wire rest \<and> wr_expect_masked r' = wr_expect_masked r)"
  using assms(2-5)
proof (induction kfs arbitrary: r b)
  case Nil
  then have "ws_frame al r b = Inl (WsMore, r, b)"
    by (simp add: ws_frame_def ws_parse_header_def ws_wire_def)
  with Nil show ?case by (subst rd_ws_next.simps) auto
next
  case (Cons kf kfs)
  obtain k fin opc p where kf: "kf = (k, fin, opc, p)" by (cases kf)
  have ok: "opc < 16" "length p < 2 ^ 64" "\<And>x. k = Some x \<Longrightarrow> length x = 4"
    "wr_expect_masked r = (k \<noteq> None)" and okt: "ws_wire_ok (wr_expect_masked r) kfs"
    using Cons.prems(2) by (auto simp: ws_wire_ok_def kf)
  have b: "rb_data b = frame_bytes k (fin, opc, p) @ ws_wire kfs"
    using Cons.prems(3) by (simp add: ws_wire_def kf)
  show ?case
  proof (cases "length p > wr_max_message r")
    case True
    obtain h where "ws_parse_header r (rb_data b) = HdrError"
      using ws_parse_frame [OF ok, of fin "ws_wire kfs"] True unfolding b by auto
    with True Cons.prems(4) show ?thesis
      by (subst rd_ws_next.simps) (simp add: ws_frame_def kf)
  next
    case False
    then have le: "length p \<le> wr_max_message r" by simp
    from ws_frame_of_frame [OF ok le b, of al]
    obtain b1 b2 where b2: "rb_data b2 = ws_wire kfs"
      and f: "ws_frame al r b =
       (if opc \<ge> 8 then
          (if \<not> fin \<or> length p > 125 then Inl (WsError, r, b1)
           else Inl (WsMsg opc p, r\<lparr>wr_ctrl := splice (wr_ctrl r) 0 p\<rparr>, b2))
        else if opc = 0 \<and> wr_opcode r < 0 then Inl (WsError, r, b1)
        else if opc \<noteq> 0 \<and> opc \<noteq> 2 \<and> opc \<noteq> 1 then Inl (WsError, r, b1)
        else if opc \<noteq> 0 \<and> wr_opcode r \<ge> 0 then Inl (WsError, r, b1)
        else let r1 = (if opc = 0 then r
                       else r\<lparr>wr_opcode := int opc, wr_assembly := rd_buf_clear (wr_assembly r)\<rparr>)
          in if rb_len (wr_assembly r1) + length p > wr_max_message r then Inl (WsError, r1, b1)
             else let r2 = r1\<lparr>wr_assembly := rd_buf_put al (wr_assembly r1) p\<rparr>
               in if \<not> fin then Inr (r2, b2)
                  else Inl (WsMsg (nat (wr_opcode r2)) (rb_data (wr_assembly r2)), r2\<lparr>wr_opcode := -1\<rparr>, b2))"
      by blast
    have put: "rb_data (rd_buf_put al a p) = rb_data a @ p" for a using assms(1) by (simp add: buf_simps)
    show ?thesis
    proof (cases "\<exists>r2. ws_frame al r b = Inr (r2, b2)")
      case False
      then show ?thesis
        using f b2 Cons.prems(4) \<open>\<not> length p > wr_max_message r\<close>
        by (subst rd_ws_next.simps)
          (auto simp: kf Let_def ws_abs_def put buf_simps split: if_splits option.splits prod.splits)
    next
      case True
      then obtain r2 where r2: "ws_frame al r b = Inr (r2, b2)" by blast
      have "ws_reader_ok r2 \<and> wr_max_message r2 = wr_max_message r"
        using ws_frame_ok [OF Cons.prems(1), where al = al and b = b] r2 by simp
      moreover have "wr_expect_masked r2 = wr_expect_masked r \<and>
          ws_spec (wr_max_message r) (ws_abs r2) kfs = (res, st, rest)"
        using r2 f b2 Cons.prems(4) \<open>\<not> length p > wr_max_message r\<close>
        by (auto simp: kf Let_def ws_abs_def put buf_simps split: if_splits)
      moreover have "rd_ws_next al r b = rd_ws_next al r2 b2" using r2 by (subst rd_ws_next.simps) simp
      ultimately show ?thesis using Cons.IH [of r2 b2] okt b2 by simp
    qed
  qed
qed

section \<open>The writers\<close>

lemma ws_byte0_eq: "opc < 16 \<Longrightarrow> ws_byte0 opc = 0x80 OR of_nat opc"
proof -
  assume "opc < 16"
  then have "unat ((of_nat opc :: u8) AND 0x0F) = opc"
    using byte0_fields(3) [of opc False] by simp
  then have "(of_nat opc :: u8) AND 0x0F = of_nat opc"
    using \<open>opc < 16\<close> by (intro word_unat_eq_iff [THEN iffD2]) simp
  then show ?thesis unfolding ws_byte0_def by simp
qed

lemma rd_ws_write_frame_data:
  assumes "no_oom al" "opc < 16"
  shows "rb_data (rd_ws_write_frame al key out opc p msk) =
    rb_data out @ frame_bytes (if msk then Some key else None) (True, opc, p)"
proof -
  let ?hdr = "ws_byte0 opc # ws_len_field (if msk then 0x80 else 0) (length p) @ (if msk then key else [])"
  obtain o1 where o1: "rd_buf_reserve al out (length ?hdr + length p) = Some o1"
    using rd_buf_reserve_no_oom [OF assms(1)] by blast
  let ?pl = "if msk then ws_mask key p else p"
  obtain o3 where o3: "rd_buf_grow al (rd_buf_put al o1 ?hdr) ?pl = Some o3"
    "rb_data o3 = rb_data (rd_buf_put al o1 ?hdr) @ ?pl"
    using rd_buf_grow_no_oom [OF assms(1)] by blast
  have "rd_ws_write_frame al key out opc p msk = o3"
    unfolding rd_ws_write_frame_def Let_def o1 option.case o3(1) ..
  then show ?thesis
    using o3(2) rd_buf_reserve_data [OF o1] assms
    by (simp add: buf_simps frame_bytes_def ws_byte0_eq)
qed

lemma rd_ws_write_header_data:
  assumes "no_oom al" "opc < 16"
  shows "rb_data (rd_buf_put al (rd_ws_write_header al out opc (length p)) p) =
    rb_data out @ frame_bytes None (True, opc, p)"
  using assms by (simp add: rd_ws_write_header_def buf_simps frame_bytes_def ws_byte0_eq)

text \<open>Reading \<open>n\<close> messages.\<close>

primrec ws_recv :: "nat \<Rightarrow> alloc \<Rightarrow> rd_ws_reader \<Rightarrow> rd_buf \<Rightarrow> ws_result list" where
  "ws_recv 0 al r b = []"
| "ws_recv (Suc n) al r b = (case rd_ws_next al r b of (res, r', b') \<Rightarrow> res # ws_recv n al r' b')"

definition ws_sendable :: "nat \<Rightarrow> nat \<Rightarrow> bytes \<Rightarrow> bool" where
  "ws_sendable mx opc p \<longleftrightarrow> length p \<le> mx \<and> length p < 2 ^ 64 \<and>
     (opc = 1 \<or> opc = 2 \<or> 8 \<le> opc \<and> opc < 16 \<and> length p \<le> 125)"

lemma ws_recv_frames:
  assumes "no_oom al" "ws_reader_ok r" "ws_abs r = None"
    and "\<forall>(k, opc, p) \<in> set msgs. ws_sendable (wr_max_message r) opc p \<and> length k = 4"
    and "rb_data b = ws_wire (map (\<lambda>(k, opc, p). (if wr_expect_masked r then Some k else None, True, opc, p)) msgs)"
  shows "ws_recv (length msgs) al r b = map (\<lambda>(k, opc, p). WsMsg opc p) msgs"
  using assms(2-5)
proof (induction msgs arbitrary: r b)
  case (Cons m msgs)
  obtain k opc p where m: "m = (k, opc, p)" by (cases m)
  let ?w = "\<lambda>(k, opc, p). (if wr_expect_masked r then Some k else None, True, opc, p)"
  have s: "ws_sendable (wr_max_message r) opc p" "length k = 4" using Cons.prems(3) m by auto
  have wok: "ws_wire_ok (wr_expect_masked r) (map ?w (m # msgs))"
    using Cons.prems(3) by (fastforce simp: ws_wire_ok_def ws_sendable_def split: if_splits)
  have "ws_spec (wr_max_message r) (ws_abs r) (map ?w (m # msgs)) = (WsMsg opc p, None, map ?w msgs)"
    using s Cons.prems(2) by (auto simp: m ws_sendable_def)
  from rd_ws_next_refines [OF assms(1) Cons.prems(1) wok Cons.prems(4) this]
  obtain r' b' where n: "rd_ws_next al r b = (WsMsg opc p, r', b')" "ws_abs r' = None"
    "rb_data b' = ws_wire (map ?w msgs)" "wr_expect_masked r' = wr_expect_masked r" by auto
  have r': "ws_reader_ok r'" "wr_max_message r' = wr_max_message r"
    using rd_ws_next_ok [OF Cons.prems(1) n(1)] by auto
  have "ws_recv (length msgs) al r' b' = map (\<lambda>(k, opc, p). WsMsg opc p) msgs"
  proof (rule Cons.IH)
    show "rb_data b' = ws_wire (map (\<lambda>(k, opc, p). (if wr_expect_masked r' then Some k else None, True, opc, p)) msgs)"
      unfolding n(3,4) ..
  qed (use n r' Cons.prems(3) in auto)
  then show ?case by (simp add: n(1) m)
qed simp

section \<open>Header lookup\<close>

lemma strstr_crlf_line: "strstr_crlf l = None \<Longrightarrow> strstr_crlf (l @ 13 # 10 # rest) = Some (length l)"
  by (induction l rule: strstr_crlf.induct) (auto split: if_splits)

definition header_block :: "bytes list \<Rightarrow> bytes" where
  "header_block ls = concat (map (\<lambda>l. l @ [13, 10]) ls)"

lemma http_header_loop_block:
  assumes "\<forall>l \<in> set ls. strstr_crlf l = None" "0 < cap"
  shows "http_header_loop name (header_block ls) cap =
    (case find (header_named name) ls of None \<Rightarrow> None
     | Some l \<Rightarrow> Some (take (cap - 1) (trim_blanks (drop (length name + 1) l))))"
  using assms(1)
proof (induction ls)
  case Nil
  then show ?case by (subst http_header_loop.simps) (simp add: header_block_def)
next
  case (Cons l ls)
  have b: "header_block (l # ls) = l @ 13 # 10 # header_block ls" by (simp add: header_block_def)
  have e: "strstr_crlf (header_block (l # ls)) = Some (length l)"
    unfolding b using Cons.prems by (intro strstr_crlf_line) simp
  have "(if length v \<ge> cap then take (cap - 1) v else v) = take (cap - 1) v" for v :: bytes
    using assms(2) by auto
  moreover have "header_block (l # ls) \<noteq> []" "take (length l) (header_block (l # ls)) = l"
    "drop (length l + 2) (header_block (l # ls)) = header_block ls" unfolding b by simp_all
  ultimately show ?case
    using Cons by (subst http_header_loop.simps) (simp add: e Let_def)
qed

lemma header_block_no_nul: "\<forall>l \<in> set ls. 0 \<notin> set l \<Longrightarrow> 0 \<notin> set (header_block ls)"
  by (auto simp: header_block_def)

lemma http_header_loop_length: "http_header_loop name line cap = Some v \<Longrightarrow> 0 < cap \<Longrightarrow> length v < cap"
proof (induction name line cap rule: http_header_loop.induct)
  case (1 name line cap)
  show ?case
  proof (cases "strstr_crlf line")
    case None
    with "1.prems" show ?thesis
      by (subst (asm) http_header_loop.simps) (auto simp: Let_def split: if_splits)
  next
    case (Some k)
    with "1.prems" "1.IH" show ?thesis
      by (subst (asm) http_header_loop.simps) (auto simp: Let_def split: if_splits)
  qed
qed

section \<open>Properties\<close>

text \<open>C26: The writers and the reader agree: whatever sequence of data messages and control messages
  (at most 125 bytes) is written with \<open>rd_ws_write_frame\<close>, masked exactly when the reader expects it
  and with any masking keys, the reader returns those messages, in order and unchanged.\<close>

theorem ws_written_messages_are_read:
  assumes "no_oom al" and "ws_reader_ok r" and "wr_opcode r = -1"
    and "\<forall>(k, opc, p) \<in> set msgs. ws_sendable (wr_max_message r) opc p \<and> length k = 4"
    and "rb_data b = rb_data (fold (\<lambda>(k, opc, p) out. rd_ws_write_frame al k out opc p (wr_expect_masked r))
           msgs rd_buf_init)"
  shows "ws_recv (length msgs) al r b = map (\<lambda>(k, opc, p). WsMsg opc p) msgs"
proof -
  let ?w = "\<lambda>(k, opc, p). (if wr_expect_masked r then Some k else None, True, opc, p)"
  have "rb_data (fold (\<lambda>(k, opc, p) out. rd_ws_write_frame al k out opc p (wr_expect_masked r)) ms out) =
      rb_data out @ ws_wire (map ?w ms)"
    if "\<forall>(k, opc, p) \<in> set ms. ws_sendable (wr_max_message r) opc p" for ms out
    using that
  proof (induction ms arbitrary: out)
    case (Cons m ms)
    obtain k opc p where m: "m = (k, opc, p)" by (cases m)
    then have "opc < 16" using Cons.prems by (auto simp: ws_sendable_def)
    then show ?case
      using Cons by (simp add: m rd_ws_write_frame_data [OF assms(1)] ws_wire_def)
  qed (simp add: ws_wire_def)
  moreover have "\<forall>(k, opc, p) \<in> set msgs. ws_sendable (wr_max_message r) opc p"
    using assms(4) by auto
  ultimately have "rb_data b = ws_wire (map ?w msgs)"
    using assms(5) by (simp add: buf_simps)
  then show ?thesis
    using assms by (intro ws_recv_frames) (simp_all add: ws_abs_def)
qed

theorem ws_written_messages_are_read_witness:
  "ws_recv (Suc (Suc 0)) (\<lambda>_. True)
     \<lparr>wr_assembly = rd_buf_init, wr_opcode = -1, wr_max_message = 100, wr_expect_masked = True,
      wr_ctrl = replicate 125 0\<rparr>
     (fold (\<lambda>(k, opc, p) out. rd_ws_write_frame (\<lambda>_. True) k out opc p True)
        [([1, 2, 3, 4], 2, [10, 20, 30, 40, 50]), ([9, 9, 9, 9], 9, [])] rd_buf_init) =
   [WsMsg 2 [10, 20, 30, 40, 50], WsMsg 9 []]"
  using ws_written_messages_are_read [of "\<lambda>_. True"
     "\<lparr>wr_assembly = rd_buf_init, wr_opcode = -1, wr_max_message = 100, wr_expect_masked = True,
      wr_ctrl = replicate 125 0\<rparr>"
     "[([1, 2, 3, 4], 2, [10, 20, 30, 40, 50]), ([9, 9, 9, 9], 9, [])]", OF _ _ _ _ refl]
  by (simp add: ws_reader_ok_def rd_buf_ok_def rd_buf_init_def ws_sendable_def del: ws_recv.simps)



text \<open>Reading is incremental: how the network cuts the byte stream does not matter. With more bytes
  behind them, bytes that gave a message or an error give the same; bytes that were not enough leave the
  reader where reading all of them together passes through.\<close>

theorem rd_ws_next_incremental:
  assumes "rd_ws_next al r b = (res, r', b')"
  shows "rd_ws_next al r (b\<lparr>rb_data := rb_data b @ m\<rparr>) =
    (if res = WsMore then rd_ws_next al r' (b'\<lparr>rb_data := rb_data b' @ m\<rparr>)
     else (res, r', b'\<lparr>rb_data := rb_data b' @ m\<rparr>))"
  using rd_ws_next_more [OF assms, of m] unfolding more_bytes_def by (cases res) simp_all

theorem rd_ws_next_incremental_witness:
  "let r = \<lparr>wr_assembly = rd_buf_init, wr_opcode = -1, wr_max_message = 10, wr_expect_masked = False,
      wr_ctrl = []\<rparr>
   in rd_ws_next (\<lambda>_. True) r \<lparr>rb_data = [0xF0, 0] @ [1, 2], rb_cap = 99\<rparr> =
      (WsError, r, \<lparr>rb_data = [0xF0, 0] @ [1, 2], rb_cap = 99\<rparr>)"
proof -
  let ?r = "\<lparr>wr_assembly = rd_buf_init, wr_opcode = -1, wr_max_message = 10, wr_expect_masked = False,
      wr_ctrl = []\<rparr>"
  have "rd_ws_next (\<lambda>_. True) ?r \<lparr>rb_data = [0xF0, 0], rb_cap = 99\<rparr> =
      (WsError, ?r, \<lparr>rb_data = [0xF0, 0], rb_cap = 99\<rparr>)"
    by (subst rd_ws_next.simps) (simp add: ws_frame_def ws_parse_header_def)
  from rd_ws_next_incremental [OF this, of "[1, 2]"] show ?thesis by simp
qed

text \<open>Whatever arrives, valid or not, the reader's memory stays within its limits: the message in
  progress never exceeds \<open>max_message\<close>, a returned data message is a TEXT or BINARY of at most that size,
  a control message has at most the 125 bytes of its buffer, and the input only shrinks.\<close>

theorem rd_ws_next_within_limits:
  assumes "ws_reader_ok r" and "rd_ws_next al r b = (res, r', b')"
  shows "ws_reader_ok r' \<and> wr_max_message r' = wr_max_message r \<and> rb_len b' \<le> rb_len b \<and>
    (case res of
       WsMsg opc d \<Rightarrow> length d \<le> wr_max_message r \<and>
         (opc = RD_WS_TEXT \<or> opc = RD_WS_BINARY \<or> 8 \<le> opc \<and> opc < 16 \<and> length d \<le> 125)
     | _ \<Rightarrow> True)"
  using rd_ws_next_ok [OF assms] by (auto simp: ws_bounded_def split: ws_result.splits)

theorem rd_ws_next_within_limits_witness:
  "let r = \<lparr>wr_assembly = rd_buf_init, wr_opcode = -1, wr_max_message = 10, wr_expect_masked = False,
      wr_ctrl = replicate 125 0\<rparr>
   in ws_reader_ok r \<and> ws_reader_ok (fst (snd (rd_ws_next (\<lambda>_. True) r \<lparr>rb_data = [0x81, 200], rb_cap = 99\<rparr>)))"
proof -
  let ?r = "\<lparr>wr_assembly = rd_buf_init, wr_opcode = -1, wr_max_message = 10, wr_expect_masked = False,
      wr_ctrl = replicate 125 0\<rparr>"
  obtain res r' b' where n: "rd_ws_next (\<lambda>_. True) ?r \<lparr>rb_data = [0x81, 200], rb_cap = 99\<rparr> = (res, r', b')"
    by (cases "rd_ws_next (\<lambda>_. True) ?r \<lparr>rb_data = [0x81, 200], rb_cap = 99\<rparr>")
  have "ws_reader_ok ?r" by (simp add: ws_reader_ok_def rd_buf_ok_def rd_buf_init_def)
  with rd_ws_next_within_limits [OF this n] n show ?thesis by simp
qed

text \<open>In a block of CRLF-terminated header lines, \<open>rd_http_header\<close> returns the value of the first
  line with the given name, compared without case, its surrounding blanks removed and cut to the
  caller's buffer with room for the NUL; and nothing exactly when no line has the name.\<close>

theorem rd_http_header_finds_first:
  assumes "\<forall>l \<in> set ls. strstr_crlf l = None \<and> 0 \<notin> set l" and "0 < cap"
  shows "rd_http_header (header_block ls @ 0 # junk) name cap =
    (case find (header_named name) ls of
       None \<Rightarrow> None
     | Some l \<Rightarrow> Some (take (cap - 1) (trim_blanks (drop (length name + 1) l))))"
proof -
  have "c_str (header_block ls @ 0 # junk) = header_block ls"
    using assms(1) by (intro c_str_append_nul header_block_no_nul) blast
  then show ?thesis
    unfolding rd_http_header_def using http_header_loop_block [of ls cap name] assms by simp
qed

theorem rd_http_header_finds_first_witness:
  "rd_http_header (header_block [bytes_of ''GET / HTTP/1.1'', bytes_of ''upgrade:  WebSocket '', []] @ 0 # [])
     (bytes_of ''Upgrade'') 64 = Some (bytes_of ''WebSocket'')"
  by (subst rd_http_header_finds_first)
    (simp_all add: bytes_of_def of_char_def header_named_def tolower_def trim_blanks_def is_blank_def)

end
