(* ===== verification/Rd_Aead.thy ===== *)
theory Rd_Aead
  imports Rd_Crypto
begin

text \<open>
  The authenticated encryption of \<open>common/rd_secure.c\<close>: ChaCha20, Poly1305 with its five 26-bit limbs
  in \<open>uint32_t\<close>, and their combination, the AEAD of RFC 8439. The limb arithmetic stays at its machine
  width; that nothing wraps is part of the proof that it computes modulo 2^130 - 5.
\<close>

section \<open>Little-endian words\<close>

definition le32 :: "bytes \<Rightarrow> u32" where
  "le32 p = ucast (p ! 0) OR push_bit 8 (ucast (p ! 1)) OR push_bit 16 (ucast (p ! 2))
     OR push_bit 24 (ucast (p ! 3))"

definition put_le32 :: "u32 \<Rightarrow> bytes" where
  "put_le32 v = [ucast v, ucast (drop_bit 8 v), ucast (drop_bit 16 v), ucast (drop_bit 24 v)]"

definition put_le64 :: "u64 \<Rightarrow> bytes" where
  "put_le64 v = put_le32 (ucast v) @ put_le32 (ucast (drop_bit 32 v))"

section \<open>ChaCha20\<close>

definition chacha_qr :: "nat \<Rightarrow> nat \<Rightarrow> nat \<Rightarrow> nat \<Rightarrow> u32 list \<Rightarrow> u32 list" where
  "chacha_qr ia ib ic ie x =
     (let a = x ! ia + x ! ib; d = rol32 (x ! ie XOR a) 16;
          c = x ! ic + d; b = rol32 (x ! ib XOR c) 12;
          a = a + b; d = rol32 (d XOR a) 8;
          c = c + d; b = rol32 (b XOR c) 7
      in x[ia := a, ib := b, ic := c, ie := d])"

definition chacha_double_round :: "u32 list \<Rightarrow> u32 list" where
  "chacha_double_round x0 =
     (let x = chacha_qr 0 4 8 12 x0;
          x = chacha_qr 1 5 9 13 x;
          x = chacha_qr 2 6 10 14 x;
          x = chacha_qr 3 7 11 15 x;
          x = chacha_qr 0 5 10 15 x;
          x = chacha_qr 1 6 11 12 x;
          x = chacha_qr 2 7 8 13 x
      in chacha_qr 3 4 9 14 x)"

definition chacha_block :: "u32 list \<Rightarrow> bytes" where
  "chacha_block st =
     (let x = (chacha_double_round ^^ 10) st
      in concat (map (\<lambda>i. put_le32 (x ! i + st ! i)) [0..<16]))"

definition chacha_state :: "bytes \<Rightarrow> bytes \<Rightarrow> u32 \<Rightarrow> u32 list" where
  "chacha_state key nonce counter =
     [0x61707865, 0x3320646e, 0x79622d32, 0x6b206574] @ map (\<lambda>i. le32 (drop (4 * i) key)) [0..<8] @
     [counter, le32 nonce, le32 (drop 4 nonce), le32 (drop 8 nonce)]"

text \<open>The loop over blocks of 64 bytes; \<open>st[12]++\<close> wraps.\<close>

function chacha_stream :: "u32 list \<Rightarrow> bytes \<Rightarrow> bytes" where
  "chacha_stream st inp =
     (if inp = [] then []
      else let ks = chacha_block st; n = (if length inp < 64 then length inp else 64)
        in map (\<lambda>i. inp ! i XOR ks ! i) [0..<n] @ chacha_stream (st[12 := st ! 12 + 1]) (drop n inp))"
  by pat_completeness auto
termination by (relation "measure (\<lambda>(st, inp). length inp)") auto

declare chacha_stream.simps [simp del]

definition rd_chacha20 :: "bytes \<Rightarrow> bytes \<Rightarrow> bytes \<Rightarrow> u32 \<Rightarrow> bytes" where
  "rd_chacha20 inp key nonce counter = chacha_stream (chacha_state key nonce counter) inp"

section \<open>Poly1305\<close>

type_synonym limbs = "u32 \<times> u32 \<times> u32 \<times> u32 \<times> u32"

record poly_state =
  p_r :: limbs
  p_h :: limbs
  p_pad :: "u32 list"

definition poly_init :: "bytes \<Rightarrow> poly_state" where
  "poly_init key =
     \<lparr>p_r = (le32 key AND 0x3ffffff,
             drop_bit 2 (le32 (drop 3 key)) AND 0x3ffff03,
             drop_bit 4 (le32 (drop 6 key)) AND 0x3ffc0ff,
             drop_bit 6 (le32 (drop 9 key)) AND 0x3f03fff,
             drop_bit 8 (le32 (drop 12 key)) AND 0x00fffff),
      p_h = (0, 0, 0, 0, 0),
      p_pad = map (\<lambda>i. le32 (drop (16 + 4 * i) key)) [0..<4]\<rparr>"

fun poly_add_block :: "bytes \<Rightarrow> u32 \<Rightarrow> limbs \<Rightarrow> limbs" where
  "poly_add_block m hibit (h0, h1, h2, h3, h4) =
     (h0 + (le32 m AND 0x3ffffff),
      h1 + (drop_bit 2 (le32 (drop 3 m)) AND 0x3ffffff),
      h2 + (drop_bit 4 (le32 (drop 6 m)) AND 0x3ffffff),
      h3 + (drop_bit 6 (le32 (drop 9 m)) AND 0x3ffffff),
      h4 + (drop_bit 8 (le32 (drop 12 m)) OR hibit))"

fun poly_products :: "limbs \<Rightarrow> limbs \<Rightarrow> u64 \<times> u64 \<times> u64 \<times> u64 \<times> u64" where
  "poly_products (r0, r1, r2, r3, r4) (h0, h1, h2, h3, h4) =
     (let s1 = r1 * 5; s2 = r2 * 5; s3 = r3 * 5; s4 = r4 * 5;
          mul = (\<lambda>x y. ucast (x :: u32) * ucast (y :: u32) :: u64)
      in (mul h0 r0 + mul h1 s4 + mul h2 s3 + mul h3 s2 + mul h4 s1,
          mul h0 r1 + mul h1 r0 + mul h2 s4 + mul h3 s3 + mul h4 s2,
          mul h0 r2 + mul h1 r1 + mul h2 r0 + mul h3 s4 + mul h4 s3,
          mul h0 r3 + mul h1 r2 + mul h2 r1 + mul h3 r0 + mul h4 s4,
          mul h0 r4 + mul h1 r3 + mul h2 r2 + mul h3 r1 + mul h4 r0))"

fun poly_carry :: "u64 \<times> u64 \<times> u64 \<times> u64 \<times> u64 \<Rightarrow> limbs" where
  "poly_carry (d0, d1, d2, d3, d4) =
     (let c = ucast (drop_bit 26 d0) :: u32; h0 = ucast d0 AND 0x3ffffff;
          d1 = d1 + ucast c; c = ucast (drop_bit 26 d1) :: u32; h1 = ucast d1 AND 0x3ffffff;
          d2 = d2 + ucast c; c = ucast (drop_bit 26 d2) :: u32; h2 = ucast d2 AND 0x3ffffff;
          d3 = d3 + ucast c; c = ucast (drop_bit 26 d3) :: u32; h3 = ucast d3 AND 0x3ffffff;
          d4 = d4 + ucast c; c = ucast (drop_bit 26 d4) :: u32; h4 = ucast d4 AND 0x3ffffff;
          h0 = h0 + c * 5; c = drop_bit 26 h0; h0 = h0 AND 0x3ffffff;
          h1 = h1 + c
      in (h0, h1, h2, h3, h4))"

function poly_loop :: "limbs \<Rightarrow> u32 \<Rightarrow> bytes \<Rightarrow> limbs \<Rightarrow> limbs" where
  "poly_loop r hibit m h =
     (if length m \<ge> 16
      then poly_loop r hibit (drop 16 m) (poly_carry (poly_products r (poly_add_block m hibit h)))
      else h)"
  by pat_completeness auto
termination by (relation "measure (\<lambda>(r, hibit, m, h). length m)") auto

declare poly_loop.simps [simp del]

definition poly_blocks :: "poly_state \<Rightarrow> bytes \<Rightarrow> u32 \<Rightarrow> poly_state" where
  "poly_blocks st m hibit = st\<lparr>p_h := poly_loop (p_r st) hibit m (p_h st)\<rparr>"

text \<open>The last carries, and the reduction by a comparison with 2^130 - 5.\<close>

fun poly_freeze :: "limbs \<Rightarrow> limbs" where
  "poly_freeze (h0, h1, h2, h3, h4) =
     (let c = drop_bit 26 h1; h1 = h1 AND 0x3ffffff; h2 = h2 + c;
          c = drop_bit 26 h2; h2 = h2 AND 0x3ffffff; h3 = h3 + c;
          c = drop_bit 26 h3; h3 = h3 AND 0x3ffffff; h4 = h4 + c;
          c = drop_bit 26 h4; h4 = h4 AND 0x3ffffff; h0 = h0 + c * 5;
          c = drop_bit 26 h0; h0 = h0 AND 0x3ffffff; h1 = h1 + c
      in (h0, h1, h2, h3, h4))"

fun poly_reduce :: "limbs \<Rightarrow> limbs" where
  "poly_reduce (h0, h1, h2, h3, h4) =
     (let g0 = h0 + 5; c = drop_bit 26 g0; g0 = g0 AND 0x3ffffff;
          g1 = h1 + c; c = drop_bit 26 g1; g1 = g1 AND 0x3ffffff;
          g2 = h2 + c; c = drop_bit 26 g2; g2 = g2 AND 0x3ffffff;
          g3 = h3 + c; c = drop_bit 26 g3; g3 = g3 AND 0x3ffffff;
          g4 = h4 + c - push_bit 26 1;
          m = drop_bit 31 g4 - 1;
          sel = (\<lambda>h g. (h AND NOT m) OR (g AND m))
      in (sel h0 g0, sel h1 g1, sel h2 g2, sel h3 g3, sel h4 g4))"

fun poly_pack :: "limbs \<Rightarrow> u32 list" where
  "poly_pack (h0, h1, h2, h3, h4) =
     [h0 OR push_bit 26 h1, drop_bit 6 h1 OR push_bit 20 h2, drop_bit 12 h2 OR push_bit 14 h3,
      drop_bit 18 h3 OR push_bit 8 h4]"

definition poly_add_pad :: "u32 list \<Rightarrow> u32 list \<Rightarrow> u32 list" where
  "poly_add_pad h pad =
     (let f0 = ucast (h ! 0) + ucast (pad ! 0) :: u64;
          f1 = ucast (h ! 1) + ucast (pad ! 1) + drop_bit 32 f0;
          f2 = ucast (h ! 2) + ucast (pad ! 2) + drop_bit 32 f1;
          f3 = ucast (h ! 3) + ucast (pad ! 3) + drop_bit 32 f2
      in [ucast f0, ucast f1, ucast f2, ucast f3])"

definition poly_finish :: "poly_state \<Rightarrow> bytes" where
  "poly_finish st =
     concat (map put_le32 (poly_add_pad (poly_pack (poly_reduce (poly_freeze (p_h st)))) (p_pad st)))"

text \<open>\<open>len & ~(size_t)15\<close>\<close>

definition full_len :: "bytes \<Rightarrow> nat" where
  "full_len p = length p - length p mod 16"

definition rd_poly1305 :: "bytes \<Rightarrow> bytes \<Rightarrow> bytes" where
  "rd_poly1305 msg key =
     (let st = poly_init key; full = full_len msg;
          st = poly_blocks st (take full msg) 0x1000000;
          st = (if length msg > full
                then poly_blocks st (splice (replicate 16 0) 0 (drop full msg @ [1])) 0 else st)
      in poly_finish st)"

section \<open>AEAD\<close>

definition poly_padded :: "poly_state \<Rightarrow> bytes \<Rightarrow> poly_state" where
  "poly_padded st p =
     (let full = full_len p; st = poly_blocks st (take full p) 0x1000000
      in if length p > full
         then poly_blocks st (splice (replicate 16 0) 0 (drop full p)) 0x1000000 else st)"

definition aead_tag :: "bytes \<Rightarrow> bytes \<Rightarrow> bytes \<Rightarrow> bytes \<Rightarrow> bytes" where
  "aead_tag ct ad key nonce =
     (let otk = rd_chacha20 (replicate 64 0) key nonce 0;
          st = poly_padded (poly_padded (poly_init otk) ad) ct;
          st = poly_blocks st (put_le64 (of_nat (length ad)) @ put_le64 (of_nat (length ct))) 0x1000000
      in poly_finish st)"

definition rd_aead_seal :: "bytes \<Rightarrow> bytes \<Rightarrow> bytes \<Rightarrow> bytes \<Rightarrow> bytes" where
  "rd_aead_seal msg ad key nonce =
     (let ct = rd_chacha20 msg key nonce 1 in ct @ aead_tag ct ad key nonce)"

text \<open>\<open>None\<close> is the return value -1.\<close>

definition rd_aead_open :: "bytes \<Rightarrow> bytes \<Rightarrow> bytes \<Rightarrow> bytes \<Rightarrow> bytes option" where
  "rd_aead_open inp ad key nonce =
     (if length inp < 16 then None
      else let n = length inp - 16; ct = take n inp
        in if \<not> rd_ct_equal (aead_tag ct ad key nonce) (drop n inp) 16 then None
           else Some (rd_chacha20 ct key nonce 1))"

section \<open>ChaCha20\<close>

lemma length_put_le32 [simp, len_simps]: "length (put_le32 v) = 4"
  by (simp add: put_le32_def)

lemma length_chacha_block [simp, len_simps]: "length (chacha_block st) = 64"
  by (simp add: chacha_block_def Let_def length_concat comp_def sum_list_triv)

text \<open>Byte \<open>i\<close> of the keystream that starts with the block counter \<open>st[12]\<close>.\<close>

definition chacha_key_byte :: "u32 list \<Rightarrow> nat \<Rightarrow> u8" where
  "chacha_key_byte st i = chacha_block (st[12 := st ! 12 + of_nat (i div 64)]) ! (i mod 64)"

lemma chacha_stream_xor:
  "length st = 16 \<Longrightarrow> chacha_stream st inp = map (\<lambda>i. inp ! i XOR chacha_key_byte st i) [0..<length inp]"
proof (induction st inp rule: chacha_stream.induct)
  case (1 st inp)
  show ?case
  proof (cases "inp = []")
    case True
    then show ?thesis by (subst chacha_stream.simps) simp
  next
    case False
    define n where "n = (if length inp < 64 then length inp else 64)"
    let ?st = "st[12 := st ! 12 + 1]"
    have n: "n \<le> length inp" "n \<le> 64" "length inp - n = 0 \<or> n = 64" by (auto simp: n_def)
    have ih: "chacha_stream ?st (drop n inp) =
        map (\<lambda>i. drop n inp ! i XOR chacha_key_byte ?st i) [0..<length (drop n inp)]"
      using "1.IH" [OF False refl n_def] "1.prems" by simp
    have first: "chacha_block st ! i = chacha_key_byte st i" if "i < n" for i
      using that n(2) "1.prems" by (simp add: chacha_key_byte_def)
    have rest: "chacha_key_byte ?st i = chacha_key_byte st (n + i)" if "i < length inp - n" for i
    proof -
      have "n = 64" using that n(3) by auto
      moreover have "(64 + i) div 64 = Suc (i div 64)" "(64 + i) mod 64 = i mod 64" by simp_all
      ultimately show ?thesis using "1.prems" by (simp add: chacha_key_byte_def add.assoc)
    qed
    have "chacha_stream st inp = map (\<lambda>i. inp ! i XOR chacha_block st ! i) [0..<n] @ chacha_stream ?st (drop n inp)"
      using False by (subst chacha_stream.simps) (simp add: Let_def n_def)
    also have "\<dots> = map (\<lambda>i. inp ! i XOR chacha_key_byte st i) ([0..<n] @ map ((+) n) [0..<length inp - n])"
      using first rest n(1) by (simp add: ih)
    also have "[0..<n] @ map ((+) n) [0..<length inp - n] = [0..<length inp]"
    proof -
      have "map ((+) n) [0..<k] = [n..<n + k]" for k by (induction k) simp_all
      then show ?thesis using n(1) upt_add_eq_append [of 0 n "length inp - n"] by simp
    qed
    finally show ?thesis .
  qed
qed

lemma length_chacha_state [simp]: "length (chacha_state key nonce ctr) = 16"
  by (simp add: chacha_state_def)

lemma length_rd_chacha20 [simp, len_simps]: "length (rd_chacha20 m key nonce ctr) = length m"
  by (simp add: rd_chacha20_def chacha_stream_xor)

lemma rd_chacha20_involution: "rd_chacha20 (rd_chacha20 m key nonce ctr) key nonce ctr = m"
  by (rule nth_equalityI) (simp_all add: rd_chacha20_def chacha_stream_xor)

section \<open>Opening what was sealed\<close>

lemma length_poly_add_pad: "length (poly_add_pad h pad) = 4"
  by (simp add: poly_add_pad_def Let_def)

lemma length_poly_finish [simp, len_simps]: "length (poly_finish st) = 16"
  by (simp add: poly_finish_def length_concat comp_def sum_list_triv length_poly_add_pad)

lemma length_aead_tag [simp, len_simps]: "length (aead_tag ct ad key nonce) = 16"
  by (simp add: aead_tag_def Let_def)

lemma length_rd_aead_seal [simp, len_simps]: "length (rd_aead_seal m ad key nonce) = length m + 16"
  by (simp add: rd_aead_seal_def Let_def)

lemma rd_aead_open_iff:
  "rd_aead_open inp ad key nonce = Some m \<longleftrightarrow> inp = rd_aead_seal m ad key nonce"
proof
  assume "inp = rd_aead_seal m ad key nonce"
  then show "rd_aead_open inp ad key nonce = Some m"
    by (simp add: rd_aead_open_def rd_aead_seal_def Let_def rd_ct_equal_iff rd_chacha20_involution)
next
  assume o: "rd_aead_open inp ad key nonce = Some m"
  then have l: "16 \<le> length inp" by (simp add: rd_aead_open_def split: if_splits)
  define n ct where "n = length inp - 16" and "ct = take n inp"
  have "length (drop n inp) = 16" using l by (simp add: n_def)
  then have t: "aead_tag ct ad key nonce = drop n inp" and m: "m = rd_chacha20 ct key nonce 1"
    using o l by (auto simp: rd_aead_open_def Let_def n_def [symmetric] ct_def [symmetric]
        rd_ct_equal_iff split: if_splits)
  then show "inp = rd_aead_seal m ad key nonce"
    unfolding rd_aead_seal_def Let_def m rd_chacha20_involution t by (simp add: ct_def)
qed

section \<open>Little-endian numbers\<close>

primrec le_nat :: "bytes \<Rightarrow> nat" where
  "le_nat [] = 0"
| "le_nat (x # xs) = unat x + 256 * le_nat xs"

lemma le_nat_append: "le_nat (xs @ ys) = le_nat xs + 256 ^ length xs * le_nat ys"
  by (induction xs) (simp_all add: algebra_simps)

lemma le_nat_less: "le_nat xs < 256 ^ length xs"
proof (induction xs)
  case (Cons x xs)
  have "unat x + 256 * le_nat xs < 256 + 256 * le_nat xs" by simp
  also have "\<dots> = 256 * (le_nat xs + 1)" by simp
  also have "\<dots> \<le> 256 * 256 ^ length xs" using Cons by (intro mult_le_mono2) simp
  finally show ?case by simp
qed simp

lemma le_nat_drop: "k \<le> length xs \<Longrightarrow> le_nat (drop k xs) = le_nat xs div 256 ^ k"
proof -
  assume "k \<le> length xs"
  then have "le_nat xs = le_nat (take k xs) + 256 ^ k * le_nat (drop k xs)"
    using le_nat_append [of "take k xs" "drop k xs"] by simp
  moreover have "le_nat (take k xs) < 256 ^ k"
    using le_nat_less [of "take k xs"] \<open>k \<le> length xs\<close> by simp
  ultimately show ?thesis by simp
qed

lemma unat_or_shift:
  assumes "unat (a :: u32) < 2 ^ k"
  shows "unat (a OR push_bit k b) = (unat a + 2 ^ k * unat b) mod 2 ^ 32"
proof -
  have "\<not> bit a n \<or> \<not> bit (push_bit k b) n" for n
  proof -
    have "take_bit k (unat a) = unat a" using assms by (simp add: take_bit_nat_eq_self)
    then have "bit (unat a) n \<Longrightarrow> n < k" by (metis bit_take_bit_iff)
    then show ?thesis by (auto simp: bit_simps)
  qed
  then have "a OR push_bit k b = a + push_bit k b" by (simp add: disjunctive_add)
  moreover have "unat (push_bit k b) = 2 ^ k * unat b mod 2 ^ 32"
    by (simp only: unsigned_push_bit_eq take_bit_eq_mod push_bit_eq_mult [of k "unat b"]) (simp add: mult.commute)
  ultimately show ?thesis by (simp only: unat_word_ariths) (simp add: mod_simps)
qed

lemma unat_ucast_8_32: "unat (ucast (b :: u8) :: u32) = unat b"
proof -
  have "unat b < 4294967296" using unat_u8_less [of b] by linarith
  then show ?thesis by (simp add: unsigned_ucast_eq take_bit_nat_eq_self)
qed

lemma unat_le32_Cons: "unat (le32 (a # b # c # d # rest)) = le_nat [a, b, c, d]"
proof -
  have b1: "unat a + 256 * unat b < 65536"
    using unat_u8_less [of a] unat_u8_less [of b] by linarith
  then have b2: "unat a + 256 * unat b + 65536 * unat c < 16777216"
    using unat_u8_less [of c] by linarith
  then have b3: "unat a + 256 * unat b + 65536 * unat c + 16777216 * unat d < 4294967296"
    using unat_u8_less [of d] by linarith
  have or: "unat (x OR push_bit k y :: u32) = unat x + K * unat y"
    if "unat x < K" "K = 2 ^ k" "unat x + K * unat y < 4294967296" for x y k K
    using that by (simp add: unat_or_shift)
  have 1: "unat (ucast a OR push_bit 8 (ucast b) :: u32) = unat a + 256 * unat b"
    using b1 by (subst or [where K = 256]) (simp_all add: unat_ucast_8_32)
  have 2: "unat ((ucast a OR push_bit 8 (ucast b)) OR push_bit 16 (ucast c) :: u32) =
      unat a + 256 * unat b + 65536 * unat c"
    using b1 b2 by (subst or [where K = 65536]) (simp_all only: 1 unat_ucast_8_32, simp_all)
  have 3: "unat (((ucast a OR push_bit 8 (ucast b)) OR push_bit 16 (ucast c)) OR push_bit 24 (ucast d) :: u32) =
      unat a + 256 * unat b + 65536 * unat c + 16777216 * unat d"
    using b2 b3 by (subst or [where K = 16777216]) (simp_all only: 2 unat_ucast_8_32, simp_all)
  have "le_nat [a, b, c, d] = unat a + 256 * unat b + 65536 * unat c + 16777216 * unat d" by simp
  then show ?thesis using 3 by (simp add: le32_def or.assoc)
qed

lemma unat_le32: "4 \<le> length p \<Longrightarrow> unat (le32 p) = le_nat p mod 2 ^ 32"
proof -
  assume l: "4 \<le> length p"
  then obtain a b c d rest where p: "p = a # b # c # d # rest"
    by (auto simp: numeral_eq_Suc Suc_le_length_iff)
  have "le_nat p = le_nat [a, b, c, d] + 2 ^ 32 * le_nat rest"
    using le_nat_append [of "[a, b, c, d]" rest] by (simp add: p)
  moreover have "le_nat [a, b, c, d] < 2 ^ 32" using le_nat_less [of "[a, b, c, d]"] by simp
  ultimately have "le_nat p mod 2 ^ 32 = le_nat [a, b, c, d]"
    by (simp only: mod_mult_self2 mod_less)
  then show ?thesis by (simp only: p unat_le32_Cons)
qed

lemma unat_le32_drop:
  assumes "k + 4 \<le> length p"
  shows "unat (le32 (drop k p)) = le_nat p div 2 ^ (8 * k) mod 2 ^ 32"
  using assms by (simp add: unat_le32 le_nat_drop power_mult)

lemma le_nat_put_le32: "le_nat (put_le32 v) = unat v"
proof -
  have "le_nat (put_le32 v) = unat (le32 (put_le32 v))"
    by (simp add: put_le32_def unat_le32_Cons)
  also have "le32 (put_le32 v) = v"
  proof (rule bit_word_eqI)
    fix n assume n: "n < LENGTH(32)"
    have "n < 8 \<or> n \<ge> 8 \<and> n < 16 \<or> n \<ge> 16 \<and> n < 24 \<or> n \<ge> 24" by arith
    then show "bit (le32 (put_le32 v)) n = bit v n"
      using n by (auto simp: le32_def put_le32_def bit_simps)
  qed
  finally show ?thesis .
qed

section \<open>The limbs of a block\<close>

fun limb_val :: "limbs \<Rightarrow> nat" where
  "limb_val (h0, h1, h2, h3, h4) =
     unat h0 + 2 ^ 26 * unat h1 + 2 ^ 52 * unat h2 + 2 ^ 78 * unat h3 + 2 ^ 104 * unat h4"

lemma unat_and_mask26: "unat (w AND 0x3ffffff :: u32) = unat w mod 2 ^ 26"
proof -
  have "w AND 0x3ffffff = take_bit 26 w" by (simp add: take_bit_eq_mask mask_eq_exp_minus_1)
  then show ?thesis by (simp add: unsigned_take_bit_eq take_bit_eq_mod [of 26 "unat w"])
qed

lemma unat_drop_bit: "unat (drop_bit k w :: 'a::len word) = unat w div 2 ^ k"
proof -
  have "take_bit LENGTH('a) (unat w) = unat w" by (simp add: take_bit_nat_eq_self)
  then have "unat (drop_bit k w) = drop_bit k (unat w)" by (simp only: unsigned_drop_bit_eq)
  then show ?thesis by (simp add: drop_bit_eq_div)
qed

lemma mod_div_mod:
  assumes "j + k \<le> (32 :: nat)"
  shows "(x mod 2 ^ 32) div 2 ^ j mod 2 ^ k = x div 2 ^ j mod (2 ^ k :: nat)"
proof -
  have "take_bit k (drop_bit j (take_bit 32 x)) = take_bit k (drop_bit j x)"
    using assms by (intro bit_eqI) (auto simp: bit_simps)
  then show ?thesis by (simp only: take_bit_eq_mod drop_bit_eq_div)
qed

lemma block_limb:
  assumes "k + 4 \<le> length m" "j \<le> 6"
  shows "unat (drop_bit j (le32 (drop k m)) AND 0x3ffffff) = le_nat m div 2 ^ (8 * k + j) mod 2 ^ 26"
proof -
  have "unat (drop_bit j (le32 (drop k m)) AND 0x3ffffff) =
      (le_nat m div 2 ^ (8 * k) mod 2 ^ 32) div 2 ^ j mod 2 ^ 26"
    using assms by (simp add: unat_and_mask26 unat_drop_bit unat_le32_drop)
  also have "\<dots> = le_nat m div 2 ^ (8 * k) div 2 ^ j mod 2 ^ 26"
    by (rule mod_div_mod) (use assms in simp)
  also have "le_nat m div 2 ^ (8 * k) div 2 ^ j = le_nat m div 2 ^ (8 * k + j)"
    by (simp add: div_mult2_eq power_add)
  finally show ?thesis .
qed

lemma digits_26:
  fixes N :: nat
  shows "N mod 2 ^ 26 + 2 ^ 26 * (N div 2 ^ 26 mod 2 ^ 26) + 2 ^ 52 * (N div 2 ^ 52 mod 2 ^ 26) +
    2 ^ 78 * (N div 2 ^ 78 mod 2 ^ 26) + 2 ^ 104 * (N div 2 ^ 104) = N"
proof -
  have s: "N mod 2 ^ k + 2 ^ k * (N div 2 ^ k mod 2 ^ 26) = N mod 2 ^ (k + 26)" for k
    by (simp add: mod_mult2_eq power_add add.commute)
  show ?thesis
    using s [of 26] s [of 52] s [of 78] mult_div_mod_eq [of "2 ^ 104" N] by simp
qed

section \<open>One block\<close>

text \<open>Bounds on the limbs: \<open>r\<close> after clamping, \<open>h\<close> between blocks.\<close>

fun r_ok :: "limbs \<Rightarrow> bool" where
  "r_ok (r0, r1, r2, r3, r4) \<longleftrightarrow> unat r0 < 2 ^ 26 \<and> unat r1 < 2 ^ 26 \<and> unat r2 < 2 ^ 26 \<and>
     unat r3 < 2 ^ 26 \<and> unat r4 < 2 ^ 26"

fun h_ok :: "limbs \<Rightarrow> bool" where
  "h_ok (h0, h1, h2, h3, h4) \<longleftrightarrow> unat h0 < 2 ^ 26 \<and> unat h1 < 2 ^ 26 + 64 \<and> unat h2 < 2 ^ 26 \<and>
     unat h3 < 2 ^ 26 \<and> unat h4 < 2 ^ 26"

fun h_sum_ok :: "limbs \<Rightarrow> bool" where
  "h_sum_ok (h0, h1, h2, h3, h4) \<longleftrightarrow> unat h0 < 2 ^ 27 + 64 \<and> unat h1 < 2 ^ 27 + 64 \<and>
     unat h2 < 2 ^ 27 + 64 \<and> unat h3 < 2 ^ 27 + 64 \<and> unat h4 < 2 ^ 27 + 64"

lemma unat_add_u32: "unat (a :: u32) + unat b < 4294967296 \<Longrightarrow> unat (a + b) = unat a + unat b"
  by (simp add: unat_word_ariths)

lemma unat_add_u64: "unat (a :: u64) + unat b < 18446744073709551616 \<Longrightarrow> unat (a + b) = unat a + unat b"
  by (simp add: unat_word_ariths)

lemma unat_ucast_32_64: "unat (ucast (a :: u32) :: u64) = unat a"
proof -
  have "unat a < 18446744073709551616" using unat_u32_less [of a] by linarith
  then show ?thesis by (simp add: unsigned_ucast_eq take_bit_nat_eq_self)
qed

lemma unat_mul_32_64: "unat (ucast (a :: u32) * ucast (b :: u32) :: u64) = unat a * unat b"
proof -
  have "unat a * unat b \<le> 4294967295 * 4294967295"
    using unat_u32_less [of a] unat_u32_less [of b] by (intro mult_le_mono) linarith+
  then show ?thesis by (simp add: unat_word_ariths unat_ucast_32_64)
qed

lemma hibit_limb:
  assumes "hibit = 0 \<or> hibit = 0x1000000" "length m = 16"
  shows "unat (drop_bit 8 (le32 (drop 12 m)) OR hibit) = le_nat m div 2 ^ 104 + unat hibit"
proof -
  let ?x = "drop_bit 8 (le32 (drop 12 m))"
  have N: "le_nat m < 2 ^ 128" using le_nat_less [of m] assms(2) by simp
  have "unat ?x = (le_nat m div 2 ^ 96 mod 2 ^ 32) div 2 ^ 8"
    using assms(2) by (simp only: unat_drop_bit) (simp add: unat_le32_drop)
  also have "le_nat m div 2 ^ 96 < 2 ^ 32" using N by (simp add: less_mult_imp_div_less)
  then have "(le_nat m div 2 ^ 96 mod 2 ^ 32) div 2 ^ 8 = le_nat m div 2 ^ 96 div 2 ^ 8"
    by (simp only: mod_less)
  also have "le_nat m div 2 ^ 96 div 2 ^ 8 = le_nat m div 2 ^ 104" by (simp add: div_mult2_eq [symmetric])
  finally have x: "unat ?x = le_nat m div 2 ^ 104" .
  have lt: "unat ?x < 2 ^ 24" unfolding x using N by (simp add: less_mult_imp_div_less)
  show ?thesis
  proof (cases "hibit = 0")
    case False
    then have h: "hibit = push_bit 24 1" using assms(1) by simp
    have "unat (?x OR push_bit 24 1) = (unat ?x + 2 ^ 24 * unat (1 :: u32)) mod 2 ^ 32"
      using lt by (rule unat_or_shift)
    with lt x h show ?thesis by simp
  qed (use x in simp)
qed

text \<open>Adding a block adds its number, with the high bit above it.\<close>

lemma poly_add_block_val:
  assumes h: "h_ok h" and hb: "hibit = 0 \<or> hibit = 0x1000000" and m: "length m = 16"
  shows "limb_val (poly_add_block m hibit h) = limb_val h + le_nat m + 2 ^ 104 * unat hibit \<and>
    h_sum_ok (poly_add_block m hibit h)"
proof -
  obtain h0 h1 h2 h3 h4 where hh: "h = (h0, h1, h2, h3, h4)" by (cases h)
  define N where "N = le_nat m"
  have l: "unat (le32 m AND 0x3ffffff) = N mod 2 ^ 26"
    "unat (drop_bit 2 (le32 (drop 3 m)) AND 0x3ffffff) = N div 2 ^ 26 mod 2 ^ 26"
    "unat (drop_bit 4 (le32 (drop 6 m)) AND 0x3ffffff) = N div 2 ^ 52 mod 2 ^ 26"
    "unat (drop_bit 6 (le32 (drop 9 m)) AND 0x3ffffff) = N div 2 ^ 78 mod 2 ^ 26"
    "unat (drop_bit 8 (le32 (drop 12 m)) OR hibit) = N div 2 ^ 104 + unat hibit"
    using block_limb [of 0 m 0] block_limb [of 3 m 2] block_limb [of 6 m 4] block_limb [of 9 m 6]
      hibit_limb [OF hb m] m by (simp_all add: N_def)
  have lt: "N mod 2 ^ 26 < 67108864" "N div 2 ^ 26 mod 2 ^ 26 < 67108864"
    "N div 2 ^ 52 mod 2 ^ 26 < 67108864" "N div 2 ^ 78 mod 2 ^ 26 < 67108864" by simp_all
  have "N < 2 ^ 128" using le_nat_less [of m] m by (simp add: N_def)
  then have lt4: "N div 2 ^ 104 < 16777216" by (simp add: less_mult_imp_div_less)
  have hb2: "unat hibit \<le> 16777216" using hb by auto
  have hb3: "unat h0 < 67108864" "unat h1 < 67108928" "unat h2 < 67108864" "unat h3 < 67108864" "unat h4 < 67108864"
    using h by (simp_all add: hh)
  have s: "unat (h0 + (le32 m AND 0x3ffffff)) = unat h0 + N mod 2 ^ 26"
    "unat (h1 + (drop_bit 2 (le32 (drop 3 m)) AND 0x3ffffff)) = unat h1 + N div 2 ^ 26 mod 2 ^ 26"
    "unat (h2 + (drop_bit 4 (le32 (drop 6 m)) AND 0x3ffffff)) = unat h2 + N div 2 ^ 52 mod 2 ^ 26"
    "unat (h3 + (drop_bit 6 (le32 (drop 9 m)) AND 0x3ffffff)) = unat h3 + N div 2 ^ 78 mod 2 ^ 26"
    "unat (h4 + (drop_bit 8 (le32 (drop 12 m)) OR hibit)) = unat h4 + (N div 2 ^ 104 + unat hibit)"
    by (subst unat_add_u32; use l lt lt4 hb2 hb3 in linarith)+
  have "limb_val (poly_add_block m hibit h) = limb_val h +
      (N mod 2 ^ 26 + 2 ^ 26 * (N div 2 ^ 26 mod 2 ^ 26) + 2 ^ 52 * (N div 2 ^ 52 mod 2 ^ 26) +
       2 ^ 78 * (N div 2 ^ 78 mod 2 ^ 26) + 2 ^ 104 * (N div 2 ^ 104)) + 2 ^ 104 * unat hibit"
    by (simp only: hh poly_add_block.simps limb_val.simps s) (simp only: distrib_left add.assoc add.commute add.left_commute)
  also have "\<dots> = limb_val h + N + 2 ^ 104 * unat hibit" by (simp only: digits_26)
  finally have v: "limb_val (poly_add_block m hibit h) = limb_val h + le_nat m + 2 ^ 104 * unat hibit"
    by (simp only: N_def)
  have n27: "(2 :: nat) ^ 27 + 64 = 134217792" by simp
  have "h_sum_ok (poly_add_block m hibit h)"
    unfolding hh poly_add_block.simps h_sum_ok.simps s n27
    using lt lt4 hb2 hb3 by (intro conjI) linarith+
  with v show ?thesis by simp
qed

text \<open>The five products, with 5 r for the terms that wrap around 2^130.\<close>

lemma unat_add5:
  assumes "unat a \<le> 1152921504606846976" "unat b \<le> 1152921504606846976" "unat c \<le> 1152921504606846976"
    "unat d \<le> 1152921504606846976" "unat e \<le> 1152921504606846976"
  shows "unat (a + b + c + d + e :: u64) = unat a + unat b + unat c + unat d + unat e"
proof -
  have 1: "unat (a + b) = unat a + unat b" by (rule unat_add_u64) (use assms in linarith)
  have 2: "unat (a + b + c) = unat a + unat b + unat c"
    by (subst unat_add_u64) (use assms 1 in linarith)+
  have 3: "unat (a + b + c + d) = unat a + unat b + unat c + unat d"
    by (subst unat_add_u64) (use assms 2 in linarith)+
  show ?thesis by (subst unat_add_u64) (use assms 3 in linarith)+
qed

lemma mult_bound: "a \<le> A \<Longrightarrow> b \<le> B \<Longrightarrow> A * B \<le> C \<Longrightarrow> a * b \<le> (C :: nat)"
  by (meson mult_le_mono order_trans)

fun d_val :: "u64 \<times> u64 \<times> u64 \<times> u64 \<times> u64 \<Rightarrow> nat" where
  "d_val (d0, d1, d2, d3, d4) =
     unat d0 + 2 ^ 26 * unat d1 + 2 ^ 52 * unat d2 + 2 ^ 78 * unat d3 + 2 ^ 104 * unat d4"

fun d_ok :: "u64 \<times> u64 \<times> u64 \<times> u64 \<times> u64 \<Rightarrow> bool" where
  "d_ok (d0, d1, d2, d3, d4) \<longleftrightarrow> unat d0 \<le> 225180083709540825 \<and> unat d1 \<le> 225180083709540825 \<and>
     unat d2 \<le> 225180083709540825 \<and> unat d3 \<le> 225180083709540825 \<and> unat d4 \<le> 45036016741908165"

lemma limbs_product:
  fixes h0 h1 h2 h3 h4 r0 r1 r2 r3 r4 :: nat
  shows "(h0 + 2 ^ 26 * h1 + 2 ^ 52 * h2 + 2 ^ 78 * h3 + 2 ^ 104 * h4) *
      (r0 + 2 ^ 26 * r1 + 2 ^ 52 * r2 + 2 ^ 78 * r3 + 2 ^ 104 * r4) =
    (h0 * r0 + h1 * (5 * r4) + h2 * (5 * r3) + h3 * (5 * r2) + h4 * (5 * r1)) +
    2 ^ 26 * (h0 * r1 + h1 * r0 + h2 * (5 * r4) + h3 * (5 * r3) + h4 * (5 * r2)) +
    2 ^ 52 * (h0 * r2 + h1 * r1 + h2 * r0 + h3 * (5 * r4) + h4 * (5 * r3)) +
    2 ^ 78 * (h0 * r3 + h1 * r2 + h2 * r1 + h3 * r0 + h4 * (5 * r4)) +
    2 ^ 104 * (h0 * r4 + h1 * r3 + h2 * r2 + h3 * r1 + h4 * r0) +
    (2 ^ 130 - 5) * (h1 * r4 + h2 * r3 + h3 * r2 + h4 * r1 +
      2 ^ 26 * (h2 * r4 + h3 * r3 + h4 * r2) + 2 ^ 52 * (h3 * r4 + h4 * r3) + 2 ^ 78 * (h4 * r4))"
  by (simp add: distrib_left distrib_right)

lemma unat_5_times: "unat (r :: u32) \<le> 67108863 \<Longrightarrow> unat (r * 5) = 5 * unat r"
  by (simp add: unat_word_ariths mult.commute)

lemma poly_products_val:
  assumes r: "r_ok r" and h: "h_sum_ok h"
  shows "d_ok (poly_products r h) \<and> limb_val h * limb_val r mod (2 ^ 130 - 5) = d_val (poly_products r h) mod (2 ^ 130 - 5)"
proof -
  obtain r0 r1 r2 r3 r4 where rr: "r = (r0, r1, r2, r3, r4)" by (cases r)
  obtain h0 h1 h2 h3 h4 where hh: "h = (h0, h1, h2, h3, h4)" by (cases h)
  have rb: "unat r0 \<le> 67108863" "unat r1 \<le> 67108863" "unat r2 \<le> 67108863" "unat r3 \<le> 67108863"
    "unat r4 \<le> 67108863" using r by (simp_all add: rr)
  have hb: "unat h0 \<le> 134217791" "unat h1 \<le> 134217791" "unat h2 \<le> 134217791" "unat h3 \<le> 134217791"
    "unat h4 \<le> 134217791" using h by (simp_all add: hh)
  have s: "unat (r1 * 5) = 5 * unat r1" "unat (r2 * 5) = 5 * unat r2" "unat (r3 * 5) = 5 * unat r3"
    "unat (r4 * 5) = 5 * unat r4" using rb by (simp_all only: unat_5_times)
  have hr: "x * y \<le> 9007203348381633" if "x \<le> 134217791" "y \<le> 67108863" for x y :: nat
    by (rule mult_bound [OF that]) simp
  have hs: "x * (5 * y) \<le> 45036016741908165" if "x \<le> 134217791" "y \<le> 67108863" for x y :: nat
    by (rule mult_bound [of _ 134217791 _ 335544315]) (use that in simp_all)
  note e = unat_mul_32_64 s
  have d0: "unat (ucast h0 * ucast r0 + ucast h1 * ucast (r4 * 5) + ucast h2 * ucast (r3 * 5) +
       ucast h3 * ucast (r2 * 5) + ucast h4 * ucast (r1 * 5) :: u64) =
     unat h0 * unat r0 + unat h1 * (5 * unat r4) + unat h2 * (5 * unat r3) + unat h3 * (5 * unat r2) +
       unat h4 * (5 * unat r1)"
    using hr [OF hb(1) rb(1)] hs [OF hb(2) rb(5)] hs [OF hb(3) rb(4)] hs [OF hb(4) rb(3)] hs [OF hb(5) rb(2)]
    by (subst unat_add5; unfold e) linarith+
  have d1: "unat (ucast h0 * ucast r1 + ucast h1 * ucast r0 + ucast h2 * ucast (r4 * 5) +
       ucast h3 * ucast (r3 * 5) + ucast h4 * ucast (r2 * 5) :: u64) =
     unat h0 * unat r1 + unat h1 * unat r0 + unat h2 * (5 * unat r4) + unat h3 * (5 * unat r3) +
       unat h4 * (5 * unat r2)"
    using hr [OF hb(1) rb(2)] hr [OF hb(2) rb(1)] hs [OF hb(3) rb(5)] hs [OF hb(4) rb(4)] hs [OF hb(5) rb(3)]
    by (subst unat_add5; unfold e) linarith+
  have d2: "unat (ucast h0 * ucast r2 + ucast h1 * ucast r1 + ucast h2 * ucast r0 +
       ucast h3 * ucast (r4 * 5) + ucast h4 * ucast (r3 * 5) :: u64) =
     unat h0 * unat r2 + unat h1 * unat r1 + unat h2 * unat r0 + unat h3 * (5 * unat r4) +
       unat h4 * (5 * unat r3)"
    using hr [OF hb(1) rb(3)] hr [OF hb(2) rb(2)] hr [OF hb(3) rb(1)] hs [OF hb(4) rb(5)] hs [OF hb(5) rb(4)]
    by (subst unat_add5; unfold e) linarith+
  have d3: "unat (ucast h0 * ucast r3 + ucast h1 * ucast r2 + ucast h2 * ucast r1 +
       ucast h3 * ucast r0 + ucast h4 * ucast (r4 * 5) :: u64) =
     unat h0 * unat r3 + unat h1 * unat r2 + unat h2 * unat r1 + unat h3 * unat r0 +
       unat h4 * (5 * unat r4)"
    using hr [OF hb(1) rb(4)] hr [OF hb(2) rb(3)] hr [OF hb(3) rb(2)] hr [OF hb(4) rb(1)] hs [OF hb(5) rb(5)]
    by (subst unat_add5; unfold e) linarith+
  have d4: "unat (ucast h0 * ucast r4 + ucast h1 * ucast r3 + ucast h2 * ucast r2 +
       ucast h3 * ucast r1 + ucast h4 * ucast r0 :: u64) =
     unat h0 * unat r4 + unat h1 * unat r3 + unat h2 * unat r2 + unat h3 * unat r1 + unat h4 * unat r0"
    using hr [OF hb(1) rb(5)] hr [OF hb(2) rb(4)] hr [OF hb(3) rb(3)] hr [OF hb(4) rb(2)] hr [OF hb(5) rb(1)]
    by (subst unat_add5; unfold e) linarith+
  have "d_ok (poly_products r h)"
    unfolding rr hh poly_products.simps Let_def d_ok.simps d0 d1 d2 d3 d4
    using hr [OF hb(1) rb(1)] hs [OF hb(2) rb(5)] hs [OF hb(3) rb(4)] hs [OF hb(4) rb(3)] hs [OF hb(5) rb(2)]
      hr [OF hb(1) rb(2)] hr [OF hb(2) rb(1)] hs [OF hb(3) rb(5)] hs [OF hb(4) rb(4)] hs [OF hb(5) rb(3)]
      hr [OF hb(1) rb(3)] hr [OF hb(2) rb(2)] hr [OF hb(3) rb(1)] hs [OF hb(4) rb(5)] hs [OF hb(5) rb(4)]
      hr [OF hb(1) rb(4)] hr [OF hb(2) rb(3)] hr [OF hb(3) rb(2)] hr [OF hb(4) rb(1)] hs [OF hb(5) rb(5)]
      hr [OF hb(1) rb(5)] hr [OF hb(2) rb(4)] hr [OF hb(3) rb(3)] hr [OF hb(4) rb(2)] hr [OF hb(5) rb(1)]
    by (intro conjI) linarith+
  moreover have "\<exists>K. limb_val h * limb_val r = d_val (poly_products r h) + (2 ^ 130 - 5) * K"
    unfolding rr hh poly_products.simps Let_def d_val.simps limb_val.simps d0 d1 d2 d3 d4 limbs_product
    by blast
  then have "limb_val h * limb_val r mod (2 ^ 130 - 5) = d_val (poly_products r h) mod (2 ^ 130 - 5)"
    by (metis mod_mult_self2)
  ultimately show ?thesis by blast
qed

text \<open>The carries: the value changes by a multiple of 2^130 - 5 only.\<close>

lemma unat_low26: "unat (ucast (d :: u64) AND 0x3ffffff :: u32) = unat d mod 2 ^ 26"
proof -
  have "unat (ucast d :: u32) = unat d mod 2 ^ 32" by (simp add: unsigned_ucast_eq take_bit_eq_mod)
  then show ?thesis by (simp add: unat_and_mask26 mod_mod_cancel)
qed

lemma unat_hi26:
  assumes "unat (d :: u64) < 288230376151711744"
  shows "unat (ucast (drop_bit 26 d) :: u32) = unat d div 2 ^ 26"
proof -
  have "unat d div 2 ^ 26 < 2 ^ 32" using assms by (simp add: less_mult_imp_div_less)
  then show ?thesis
    by (simp only: unsigned_ucast_eq unat_drop_bit) (simp add: take_bit_nat_eq_self)
qed

lemma carry_chain:
  fixes d0 d1 d2 d3 d4 c0 c1 c2 c3 c4 c5 l0 l1 l2 l3 l4 k :: nat
  assumes "d0 = 67108864 * c0 + l0" "d1 + c0 = 67108864 * c1 + l1" "d2 + c1 = 67108864 * c2 + l2"
    "d3 + c2 = 67108864 * c3 + l3" "d4 + c3 = 67108864 * c4 + l4" "l0 + 5 * c4 = 67108864 * c5 + k"
  shows "d0 + 2 ^ 26 * d1 + 2 ^ 52 * d2 + 2 ^ 78 * d3 + 2 ^ 104 * d4 =
    k + 2 ^ 26 * (l1 + c5) + 2 ^ 52 * l2 + 2 ^ 78 * l3 + 2 ^ 104 * l4 + (2 ^ 130 - 5) * c4"
proof -
  have "2 ^ 26 * (d1 + c0) = 2 ^ 26 * (67108864 * c1 + l1)" "2 ^ 52 * (d2 + c1) = 2 ^ 52 * (67108864 * c2 + l2)"
    "2 ^ 78 * (d3 + c2) = 2 ^ 78 * (67108864 * c3 + l3)" "2 ^ 104 * (d4 + c3) = 2 ^ 104 * (67108864 * c4 + l4)"
    using assms by (simp_all only:)
  then show ?thesis using assms(1,6) by simp
qed

lemma poly_carry_val:
  assumes "d_ok d"
  shows "h_ok (poly_carry d) \<and> limb_val (poly_carry d) mod (2 ^ 130 - 5) = d_val d mod (2 ^ 130 - 5)"
proof -
  obtain d0 d1 d2 d3 d4 where dd: "d = (d0, d1, d2, d3, d4)" by (cases d)
  have b: "unat d0 \<le> 225180083709540825" "unat d1 \<le> 225180083709540825" "unat d2 \<le> 225180083709540825"
    "unat d3 \<le> 225180083709540825" "unat d4 \<le> 45036016741908165" using assms by (simp_all add: dd)
  define c0 :: u32 where "c0 = ucast (drop_bit 26 d0)"
  define e1 where "e1 = d1 + ucast c0"
  define c1 :: u32 where "c1 = ucast (drop_bit 26 e1)"
  define e2 where "e2 = d2 + ucast c1"
  define c2 :: u32 where "c2 = ucast (drop_bit 26 e2)"
  define e3 where "e3 = d3 + ucast c2"
  define c3 :: u32 where "c3 = ucast (drop_bit 26 e3)"
  define e4 where "e4 = d4 + ucast c3"
  define c4 :: u32 where "c4 = ucast (drop_bit 26 e4)"
  define k0 :: u32 where "k0 = (ucast d0 AND 0x3ffffff) + c4 * 5"
  have step: "unat (x + ucast (c :: u32) :: u64) = unat x + unat c"
    if "unat x \<le> 225180083709540825" for x c
    using that unat_u32_less [of c] by (subst unat_add_u64; unfold unat_ucast_32_64) linarith+
  have ev: "unat e1 = unat d1 + unat c0" "unat e2 = unat d2 + unat c1" "unat e3 = unat d3 + unat c2"
    "unat e4 = unat d4 + unat c3"
    unfolding e1_def e2_def e3_def e4_def by (rule step; use b in linarith)+
  have el: "unat d0 < 288230376151711744" "unat e1 < 288230376151711744" "unat e2 < 288230376151711744"
    "unat e3 < 288230376151711744" "unat e4 < 288230376151711744"
    unfolding ev using b unat_u32_less [of c0] unat_u32_less [of c1] unat_u32_less [of c2] unat_u32_less [of c3]
    by linarith+
  have cv: "unat c0 = unat d0 div 67108864" "unat c1 = unat e1 div 67108864" "unat c2 = unat e2 div 67108864"
    "unat c3 = unat e3 div 67108864" "unat c4 = unat e4 div 67108864"
    unfolding c0_def c1_def c2_def c3_def c4_def using el by (simp_all add: unat_hi26)
  have "unat e4 < 45036021036875461" unfolding ev using b(5) unat_u32_less [of c3] by linarith
  then have c4: "unat c4 \<le> 671089008" unfolding cv by linarith
  have lo: "unat (ucast x AND 0x3ffffff :: u32) = unat x mod 67108864" for x :: u64
    using unat_low26 [of x] by simp
  have lo26: "x mod 67108864 < 67108864" for x :: nat by simp
  have n26: "(2 :: nat) ^ 26 = 67108864" by simp
  have c45: "unat (c4 * 5) = 5 * unat c4"
    using c4 by (simp add: unat_word_ariths mult.commute)
  have k0: "unat k0 = unat d0 mod 67108864 + 5 * unat c4"
    unfolding k0_def
    using c4 lo26 [of "unat d0"] by (subst unat_add_u32; unfold lo c45) linarith+
  have c5: "unat (drop_bit 26 k0) = unat k0 div 67108864" using unat_drop_bit [of 26 k0] by simp
  have "unat k0 < 4294967296" by simp
  then have c5b: "unat k0 div 67108864 < 64" by linarith
  have h1: "unat ((ucast e1 AND 0x3ffffff) + drop_bit 26 k0) = unat e1 mod 67108864 + unat k0 div 67108864"
    using c5b lo26 [of "unat e1"] by (subst unat_add_u32; unfold lo c5) linarith+
  have k0m: "unat (k0 AND 0x3ffffff) = unat k0 mod 67108864" using unat_and_mask26 [of k0] by simp
  have res: "poly_carry d = (k0 AND 0x3ffffff, (ucast e1 AND 0x3ffffff) + drop_bit 26 k0,
      ucast e2 AND 0x3ffffff, ucast e3 AND 0x3ffffff, ucast e4 AND 0x3ffffff)"
    by (simp add: dd Let_def k0_def c0_def e1_def c1_def e2_def c2_def e3_def c3_def e4_def c4_def)
  have ok: "h_ok (poly_carry d)"
    unfolding res h_ok.simps k0m lo h1 n26
    using c5b lo26 [of "unat k0"] lo26 [of "unat e1"] lo26 [of "unat e2"] lo26 [of "unat e3"] lo26 [of "unat e4"]
    by (intro conjI) linarith+
  have dm: "x = 67108864 * (x div 67108864) + x mod 67108864" for x :: nat by simp
  have dv: "d_val d = unat d0 + 2 ^ 26 * unat d1 + 2 ^ 52 * unat d2 + 2 ^ 78 * unat d3 + 2 ^ 104 * unat d4"
    by (simp add: dd)
  have "d_val d = limb_val (poly_carry d) + (2 ^ 130 - 5) * unat c4"
    unfolding dv res limb_val.simps k0m lo h1
  proof (rule carry_chain)
    show "unat d0 = 67108864 * unat c0 + unat d0 mod 67108864" "unat d1 + unat c0 = 67108864 * unat c1 + unat e1 mod 67108864"
      "unat d2 + unat c1 = 67108864 * unat c2 + unat e2 mod 67108864" "unat d3 + unat c2 = 67108864 * unat c3 + unat e3 mod 67108864"
      "unat d4 + unat c3 = 67108864 * unat c4 + unat e4 mod 67108864"
      unfolding ev [symmetric] unfolding cv by (rule dm)+
    show "unat d0 mod 67108864 + 5 * unat c4 = 67108864 * (unat k0 div 67108864) + unat k0 mod 67108864"
      unfolding k0 [symmetric] by (rule dm)
  qed
  then show ?thesis using ok by (metis mod_mult_self2)
qed

text \<open>One turn of \<open>poly_blocks\<close> multiplies by \<open>r\<close> modulo 2^130 - 5 after adding the block.\<close>

lemma poly_step_val:
  assumes "r_ok r" "h_ok h" "hibit = 0 \<or> hibit = 0x1000000" "length m = 16"
  defines "h' \<equiv> poly_carry (poly_products r (poly_add_block m hibit h))"
  shows "h_ok h' \<and> limb_val h' mod (2 ^ 130 - 5) =
    (limb_val h + le_nat m + 2 ^ 104 * unat hibit) * limb_val r mod (2 ^ 130 - 5)"
proof -
  note a = poly_add_block_val [OF assms(2-4)]
  note p = poly_products_val [OF assms(1) conjunct2 [OF a]]
  note c = poly_carry_val [OF conjunct1 [OF p]]
  show ?thesis unfolding h'_def using a p c by simp
qed

text \<open>The accumulator over the blocks of a message, as RFC 8439 defines it.\<close>

function poly_acc :: "nat \<Rightarrow> nat \<Rightarrow> bytes \<Rightarrow> nat \<Rightarrow> nat" where
  "poly_acc R hb m acc =
     (if length m \<ge> 16
      then poly_acc R hb (drop 16 m) ((acc + le_nat (take 16 m) + hb) * R mod (2 ^ 130 - 5))
      else acc)"
  by pat_completeness auto
termination by (relation "measure (\<lambda>(R, hb, m, acc). length m)") auto

declare poly_acc.simps [simp del]

lemma poly_add_block_take: "length m \<ge> 16 \<Longrightarrow> poly_add_block (take 16 m) hibit h = poly_add_block m hibit h"
  by (cases h) (simp add: le32_def nth_drop)

lemma poly_loop_val:
  assumes "r_ok r" "hibit = 0 \<or> hibit = 0x1000000"
  shows "h_ok h \<Longrightarrow> h_ok (poly_loop r hibit m h) \<and>
    limb_val (poly_loop r hibit m h) mod (2 ^ 130 - 5) =
      poly_acc (limb_val r) (2 ^ 104 * unat hibit) m (limb_val h mod (2 ^ 130 - 5)) mod (2 ^ 130 - 5)"
proof (induction "length m" arbitrary: m h rule: less_induct)
  case less
  show ?case
  proof (cases "length m \<ge> 16")
    case True
    define h' where "h' = poly_carry (poly_products r (poly_add_block m hibit h))"
    have l: "poly_loop r hibit m h = poly_loop r hibit (drop 16 m) h'"
      using True by (subst poly_loop.simps) (simp add: h'_def)
    have s: "h_ok h'" "limb_val h' mod (2 ^ 130 - 5) =
        (limb_val h + le_nat (take 16 m) + 2 ^ 104 * unat hibit) * limb_val r mod (2 ^ 130 - 5)"
      using poly_step_val [OF assms(1) less.prems assms(2), of "take 16 m"] True
      by (simp_all add: poly_add_block_take h'_def)
    have e: "(x mod P + a + b) * R mod P = (x + a + b) * R mod P" for x a b R P :: nat
      by (subst mod_mult_left_eq [symmetric], unfold add.assoc, subst mod_add_left_eq, rule mod_mult_left_eq)
    have pa: "poly_acc R hb m acc =
        poly_acc R hb (drop 16 m) ((acc + le_nat (take 16 m) + hb) * R mod (2 ^ 130 - 5))" for R hb acc
      using True by (subst poly_acc.simps) (simp only: if_True)
    have "length (drop 16 m) < length m" using True by simp
    from less.hyps [OF this s(1)] show ?thesis
      unfolding l pa e s(2) .
  next
    case False
    then have "poly_loop r hibit m h = h" "poly_acc R hb m acc = acc" for R hb acc
      by (subst poly_loop.simps, simp) (use False in \<open>subst poly_acc.simps, simp\<close>)
    then show ?thesis using less.prems by simp
  qed
qed

section \<open>The final reduction\<close>

fun h_tight :: "limbs \<Rightarrow> bool" where
  "h_tight (h0, h1, h2, h3, h4) \<longleftrightarrow> unat h0 < 67108864 \<and> unat h1 < 67108864 \<and> unat h2 < 67108864 \<and>
     unat h3 < 67108864 \<and> unat h4 < 67108864"

lemma unat_drop26: "unat (drop_bit 26 (w :: u32)) = unat w div 67108864"
  using unat_drop_bit [of 26 w] by simp

lemma unat_low26': "unat (w AND 0x3ffffff :: u32) = unat w mod 67108864"
  using unat_and_mask26 [of w] by simp

lemma mod26_less: "x mod 67108864 < (67108864 :: nat)"
  by simp

lemma dm26: "x = 67108864 * (x div 67108864) + x mod 67108864" for x :: nat
  by simp

lemma freeze_chain:
  fixes h0 h1 h2 h3 h4 c1 c2 c3 c4 c5 l1 l2 l3 l4 l0 :: nat
  assumes "h1 = 67108864 * c1 + l1" "h2 + c1 = 67108864 * c2 + l2" "h3 + c2 = 67108864 * c3 + l3"
    "h4 + c3 = 67108864 * c4 + l4" "h0 + c4 * 5 = 67108864 * c5 + l0"
  shows "h0 + 2 ^ 26 * h1 + 2 ^ 52 * h2 + 2 ^ 78 * h3 + 2 ^ 104 * h4 =
    l0 + 2 ^ 26 * (l1 + c5) + 2 ^ 52 * l2 + 2 ^ 78 * l3 + 2 ^ 104 * l4 + (2 ^ 130 - 5) * c4"
proof -
  have "2 ^ 26 * h1 = 2 ^ 26 * (67108864 * c1 + l1)" "2 ^ 52 * (h2 + c1) = 2 ^ 52 * (67108864 * c2 + l2)"
    "2 ^ 78 * (h3 + c2) = 2 ^ 78 * (67108864 * c3 + l3)" "2 ^ 104 * (h4 + c3) = 2 ^ 104 * (67108864 * c4 + l4)"
    using assms by (simp_all only:)
  then show ?thesis using assms(5) by simp
qed

lemma poly_freeze_val:
  assumes "h_ok h"
  shows "h_tight (poly_freeze h) \<and> limb_val (poly_freeze h) mod (2 ^ 130 - 5) = limb_val h mod (2 ^ 130 - 5)"
proof -
  obtain h0 h1 h2 h3 h4 where hh: "h = (h0, h1, h2, h3, h4)" by (cases h)
  have b: "unat h0 < 67108864" "unat h1 < 67108928" "unat h2 < 67108864" "unat h3 < 67108864" "unat h4 < 67108864"
    using assms by (simp_all add: hh)
  define g2 where "g2 = h2 + drop_bit 26 h1"
  define g3 where "g3 = h3 + drop_bit 26 g2"
  define g4 where "g4 = h4 + drop_bit 26 g3"
  define g0 where "g0 = h0 + drop_bit 26 g4 * 5"
  define g1 where "g1 = (h1 AND 0x3ffffff) + drop_bit 26 g0"
  note u = unat_drop26 unat_low26'
  have v2: "unat g2 = unat h2 + unat h1 div 67108864"
    unfolding g2_def using b by (subst unat_add_u32; unfold u) linarith+
  have v3: "unat g3 = unat h3 + unat g2 div 67108864"
    unfolding g3_def using b v2 by (subst unat_add_u32; unfold u) linarith+
  have v4: "unat g4 = unat h4 + unat g3 div 67108864"
    unfolding g4_def using b v3 v2 by (subst unat_add_u32; unfold u) linarith+
  have c4: "unat g4 div 67108864 \<le> 1" using v4 v3 v2 b by linarith
  have c45: "unat (drop_bit 26 g4 * 5) = unat g4 div 67108864 * 5"
    using c4 u(1) [of g4] by (simp add: unat_word_ariths)
  have v0: "unat g0 = unat h0 + unat g4 div 67108864 * 5"
    unfolding g0_def using b c4 by (subst unat_add_u32; unfold c45) linarith+
  have v1: "unat g1 = unat h1 mod 67108864 + unat g0 div 67108864"
    unfolding g1_def using b v0 c4 mod26_less [of "unat h1"] by (subst unat_add_u32; unfold u) linarith+
  have res: "poly_freeze h = (g0 AND 0x3ffffff, g1, g2 AND 0x3ffffff, g3 AND 0x3ffffff, g4 AND 0x3ffffff)"
    by (simp add: hh Let_def g0_def g1_def g2_def g3_def g4_def)
  have "unat h1 mod 67108864 + unat g0 div 67108864 < 67108864"
  proof (cases "unat h1 < 67108864")
    case True
    then have "unat g4 div 67108864 = 0" using v2 v3 v4 b by linarith
    then show ?thesis using v0 b mod26_less [of "unat h1"] by linarith
  next
    case False
    then have "unat h1 mod 67108864 = unat h1 - 67108864" using b by (simp add: le_mod_geq not_less)
    moreover have "unat g0 div 67108864 \<le> 1" using v0 b c4 by linarith
    ultimately show ?thesis using b False by linarith
  qed
  then have "h_tight (poly_freeze h)"
    unfolding res h_tight.simps u v1 using mod26_less by (intro conjI) assumption+
  moreover have "limb_val h = limb_val (poly_freeze h) + (2 ^ 130 - 5) * (unat g4 div 67108864)"
    unfolding res unfolding hh limb_val.simps u v1
  proof (rule freeze_chain)
    show "unat h0 + unat g4 div 67108864 * 5 = 67108864 * (unat g0 div 67108864) + unat g0 mod 67108864"
      unfolding v0 [symmetric] by (rule dm26)
    show "unat h2 + unat h1 div 67108864 = 67108864 * (unat g2 div 67108864) + unat g2 mod 67108864"
      unfolding v2 [symmetric] by (rule dm26)
    show "unat h3 + unat g2 div 67108864 = 67108864 * (unat g3 div 67108864) + unat g3 mod 67108864"
      unfolding v3 [symmetric] by (rule dm26)
    show "unat h4 + unat g3 div 67108864 = 67108864 * (unat g4 div 67108864) + unat g4 mod 67108864"
      unfolding v4 [symmetric] by (rule dm26)
  qed (rule dm26)
  ultimately show ?thesis by (metis mod_mult_self2)
qed

lemma reduce_chain:
  fixes h0 h1 h2 h3 h4 c0 c1 c2 c3 l0 l1 l2 l3 :: nat
  assumes "h0 + 5 = 67108864 * c0 + l0" "h1 + c0 = 67108864 * c1 + l1" "h2 + c1 = 67108864 * c2 + l2"
    "h3 + c2 = 67108864 * c3 + l3"
  shows "h0 + 2 ^ 26 * h1 + 2 ^ 52 * h2 + 2 ^ 78 * h3 + 2 ^ 104 * h4 + 5 =
    l0 + 2 ^ 26 * l1 + 2 ^ 52 * l2 + 2 ^ 78 * l3 + 2 ^ 104 * (h4 + c3)"
proof -
  have "2 ^ 26 * (h1 + c0) = 2 ^ 26 * (67108864 * c1 + l1)" "2 ^ 52 * (h2 + c1) = 2 ^ 52 * (67108864 * c2 + l2)"
    "2 ^ 78 * (h3 + c2) = 2 ^ 78 * (67108864 * c3 + l3)"
    using assms by (simp_all only:)
  then show ?thesis using assms(1) by simp
qed

lemma bit31: "unat (drop_bit 31 (w :: u32)) = (if unat w < 2147483648 then 0 else 1)"
proof -
  have "unat (drop_bit 31 w) = unat w div 2147483648" using unat_drop_bit [of 31 w] by simp
  moreover have "unat w div 2147483648 < 2" using unat_u32_less [of w] by linarith
  ultimately show ?thesis by (auto simp: not_less)
qed

lemma poly_reduce_val:
  assumes "h_tight h"
  shows "h_tight (poly_reduce h) \<and> limb_val (poly_reduce h) = limb_val h mod (2 ^ 130 - 5)"
proof -
  obtain h0 h1 h2 h3 h4 where hh: "h = (h0, h1, h2, h3, h4)" by (cases h)
  have b: "unat h0 < 67108864" "unat h1 < 67108864" "unat h2 < 67108864" "unat h3 < 67108864" "unat h4 < 67108864"
    using assms by (simp_all add: hh)
  define g0 where "g0 = h0 + 5"
  define g1 where "g1 = h1 + drop_bit 26 g0"
  define g2 where "g2 = h2 + drop_bit 26 g1"
  define g3 where "g3 = h3 + drop_bit 26 g2"
  define s4 where "s4 = h4 + drop_bit 26 g3"
  define g4 where "g4 = s4 - push_bit 26 1"
  define m where "m = drop_bit 31 g4 - 1"
  note u = unat_drop26 unat_low26'
  have v0: "unat g0 = unat h0 + 5"
    unfolding g0_def using b by (subst unat_add_u32) simp_all
  have v1: "unat g1 = unat h1 + unat g0 div 67108864"
    unfolding g1_def using b v0 by (subst unat_add_u32; unfold u) linarith+
  have v2: "unat g2 = unat h2 + unat g1 div 67108864"
    unfolding g2_def using b v0 v1 by (subst unat_add_u32; unfold u) linarith+
  have v3: "unat g3 = unat h3 + unat g2 div 67108864"
    unfolding g3_def using b v0 v1 v2 by (subst unat_add_u32; unfold u) linarith+
  have c3: "unat g3 div 67108864 \<le> 1" using b v0 v1 v2 v3 by linarith
  have v4: "unat s4 = unat h4 + unat g3 div 67108864"
    unfolding s4_def using b c3 by (subst unat_add_u32; unfold u) linarith+
  have sum: "limb_val h + 5 = unat g0 mod 67108864 + 2 ^ 26 * (unat g1 mod 67108864) +
      2 ^ 52 * (unat g2 mod 67108864) + 2 ^ 78 * (unat g3 mod 67108864) + 2 ^ 104 * unat s4"
    unfolding hh limb_val.simps v4
  proof (rule reduce_chain)
    show "unat h0 + 5 = 67108864 * (unat g0 div 67108864) + unat g0 mod 67108864"
      unfolding v0 [symmetric] by (rule dm26)
    show "unat h1 + unat g0 div 67108864 = 67108864 * (unat g1 div 67108864) + unat g1 mod 67108864"
      unfolding v1 [symmetric] by (rule dm26)
    show "unat h2 + unat g1 div 67108864 = 67108864 * (unat g2 div 67108864) + unat g2 mod 67108864"
      unfolding v2 [symmetric] by (rule dm26)
    show "unat h3 + unat g2 div 67108864 = 67108864 * (unat g3 div 67108864) + unat g3 mod 67108864"
      unfolding v3 [symmetric] by (rule dm26)
  qed
  have res: "poly_reduce h = ((h0 AND NOT m) OR ((g0 AND 0x3ffffff) AND m), (h1 AND NOT m) OR ((g1 AND 0x3ffffff) AND m),
      (h2 AND NOT m) OR ((g2 AND 0x3ffffff) AND m), (h3 AND NOT m) OR ((g3 AND 0x3ffffff) AND m),
      (h4 AND NOT m) OR (g4 AND m))"
    by (simp add: hh Let_def g0_def g1_def g2_def g3_def g4_def s4_def m_def)
  have p26: "unat (push_bit 26 1 :: u32) = 67108864" by simp
  show ?thesis
  proof (cases "unat s4 < 67108864")
    case True
    have "g4 = s4 + (- push_bit 26 1)" by (simp add: g4_def)
    moreover have "unat (- push_bit 26 1 :: u32) = 4227858432" by simp
    ultimately have "unat g4 = unat s4 + 4227858432"
      using True by (simp only:) (subst unat_add_u32; simp)
    then have "unat (drop_bit 31 g4) = 1" unfolding bit31 by simp
    then have "drop_bit 31 g4 = 1" by (metis unat_1 word_unat_eq_iff)
    then have m: "m = 0" by (simp add: m_def)
    have e: "poly_reduce h = h" unfolding res m by (simp add: hh)
    have "limb_val h + 5 < 2 ^ 130"
      unfolding sum using True mod26_less [of "unat g0"] mod26_less [of "unat g1"] mod26_less [of "unat g2"]
        mod26_less [of "unat g3"] by simp
    then have "limb_val h < 2 ^ 130 - 5" by linarith
    then show ?thesis using assms unfolding e by (simp only: mod_less)
  next
    case False
    have s4b: "unat s4 \<le> 67108864" using v4 c3 b by linarith
    with False have s4: "unat s4 = 67108864" by simp
    have g4: "g4 = 0" unfolding g4_def using s4 p26 by (metis right_minus_eq word_unat_eq_iff)
    then have m: "m = - 1" by (simp add: m_def)
    have e: "poly_reduce h = (g0 AND 0x3ffffff, g1 AND 0x3ffffff, g2 AND 0x3ffffff, g3 AND 0x3ffffff, 0)"
      unfolding res m g4 by simp
    have lv: "limb_val (poly_reduce h) + 2 ^ 130 = limb_val h + 5"
      unfolding sum s4 e limb_val.simps u by simp
    have lt: "limb_val (poly_reduce h) < 2 ^ 104"
      unfolding e limb_val.simps u using mod26_less [of "unat g0"] mod26_less [of "unat g1"]
        mod26_less [of "unat g2"] mod26_less [of "unat g3"] by simp
    have "limb_val h = limb_val (poly_reduce h) + (2 ^ 130 - 5)" using lv by simp
    then have "limb_val h mod (2 ^ 130 - 5) = limb_val (poly_reduce h)" using lt by simp
    moreover have "h_tight (poly_reduce h)" unfolding e h_tight.simps u using mod26_less by simp
    ultimately show ?thesis by simp
  qed
qed

section \<open>The tag\<close>

lemma pack_chain:
  fixes a1 b1 a2 b2 a3 b3 a4 b4 :: nat
  shows "h0 + 2 ^ 26 * (a1 + 64 * b1) + 2 ^ 52 * (a2 + 4096 * b2) + 2 ^ 78 * (a3 + 262144 * b3) +
      2 ^ 104 * (a4 + 16777216 * b4) =
    (h0 + 67108864 * a1) + 2 ^ 32 * (b1 + 1048576 * a2) + 2 ^ 64 * (b2 + 16384 * a3) +
      2 ^ 96 * (b3 + 256 * a4) + 2 ^ 128 * b4"
  by simp

fun word_list_val :: "u32 list \<Rightarrow> nat" where
  "word_list_val [] = 0"
| "word_list_val (w # ws) = unat w + 2 ^ 32 * word_list_val ws"

lemma or_shift_mod:
  assumes "unat (a :: u32) < K" "K = 2 ^ k" "K * L = 4294967296"
  shows "unat (a OR push_bit k b) = unat a + K * (unat b mod L)"
proof -
  have "unat (a OR push_bit k b) = (unat a + K * unat b) mod (K * L)"
    using unat_or_shift [of a k b] assms by simp
  also have "\<dots> = unat a + K * (unat b mod L)"
    using assms(1) by (simp add: mod_mult2_eq)
  finally show ?thesis .
qed

lemma poly_pack_val:
  assumes "h_tight h"
  shows "word_list_val (poly_pack h) = limb_val h mod 2 ^ 128 \<and> length (poly_pack h) = 4"
proof -
  obtain h0 h1 h2 h3 h4 where hh: "h = (h0, h1, h2, h3, h4)" by (cases h)
  have b: "unat h0 < 67108864" "unat h1 < 67108864" "unat h2 < 67108864" "unat h3 < 67108864" "unat h4 < 67108864"
    using assms by (simp_all add: hh)
  have d: "unat (drop_bit 6 h1) = unat h1 div 64" "unat (drop_bit 12 h2) = unat h2 div 4096"
    "unat (drop_bit 18 h3) = unat h3 div 262144"
    using unat_drop_bit [of 6 h1] unat_drop_bit [of 12 h2] unat_drop_bit [of 18 h3] by simp_all
  have w0: "unat (h0 OR push_bit 26 h1) = unat h0 + 67108864 * (unat h1 mod 64)"
    using b by (intro or_shift_mod) simp_all
  have w1: "unat (drop_bit 6 h1 OR push_bit 20 h2) = unat h1 div 64 + 1048576 * (unat h2 mod 4096)"
    unfolding d(1) [symmetric] by (rule or_shift_mod) (use b d in linarith, simp_all)
  have w2: "unat (drop_bit 12 h2 OR push_bit 14 h3) = unat h2 div 4096 + 16384 * (unat h3 mod 262144)"
    unfolding d(2) [symmetric] by (rule or_shift_mod) (use b d in linarith, simp_all)
  have w3: "unat (drop_bit 18 h3 OR push_bit 8 h4) = unat h3 div 262144 + 256 * (unat h4 mod 16777216)"
    unfolding d(3) [symmetric] by (rule or_shift_mod) (use b d in linarith, simp_all)
  have e: "unat w mod n + n * (unat w div n) = unat w" for w :: u32 and n by simp
  have "limb_val h = word_list_val (poly_pack h) + 2 ^ 128 * (unat h4 div 16777216)"
    using pack_chain [of "unat h0" "unat h1 mod 64" "unat h1 div 64" "unat h2 mod 4096" "unat h2 div 4096"
        "unat h3 mod 262144" "unat h3 div 262144" "unat h4 mod 16777216" "unat h4 div 16777216"]
    unfolding e by (simp add: hh w0 w1 w2 w3)
  moreover have "word_list_val (poly_pack h) < 2 ^ 128"
  proof -
    have "word_list_val [a, b, c, d] < 2 ^ 128" for a b c d
      using unat_u32_less [of a] unat_u32_less [of b] unat_u32_less [of c] unat_u32_less [of d]
      by (simp del: unat_u32_less)
    then show ?thesis by (simp only: hh poly_pack.simps)
  qed
  ultimately have "limb_val h mod 2 ^ 128 = word_list_val (poly_pack h)" by (simp only: mod_mult_self2 mod_less)
  then show ?thesis by (simp add: hh)
qed

section \<open>The key\<close>

lemma and_le_nat: "(a AND c :: nat) \<le> a" "(a AND c :: nat) \<le> c"
  using AND_upper1 [of "int a" "int c"] AND_upper2 [of "int c" "int a"]
  by (simp_all flip: of_nat_and_eq)

lemma and_digit:
  assumes "(a :: nat) < 2 ^ k" "c < 2 ^ k"
  shows "(a + 2 ^ k * b) AND (c + 2 ^ k * d) = (a AND c) + 2 ^ k * (b AND d)"
proof -
  have lt: "bit x n \<Longrightarrow> x < 2 ^ k \<Longrightarrow> n < k" for x n :: nat
    by (metis bit_take_bit_iff take_bit_nat_eq_self)
  have nb: "x < 2 ^ k \<Longrightarrow> k \<le> n \<Longrightarrow> \<not> bit x n" for x n :: nat
    using lt [of x n] by auto
  have s: "x + 2 ^ k * y = x OR push_bit k y" if "x < 2 ^ k" for x y :: nat
  proof -
    have "x + push_bit k y = x OR push_bit k y"
      by (rule disjunctive_add) (metis bit_push_bit_iff_nat not_less lt [OF _ that])
    then show ?thesis by (simp add: push_bit_eq_mult mult.commute)
  qed
  have "a AND c < 2 ^ k" using assms(1) by (meson and_le_nat order_le_less_trans)
  then show ?thesis
    unfolding s [OF assms(1)] s [OF assms(2)] s [OF \<open>a AND c < 2 ^ k\<close>]
    using nb [OF assms(1)] nb [OF assms(2)] by (intro bit_eqI) (auto simp: bit_simps)
qed

definition poly_clamp :: nat where
  "poly_clamp = 0x0ffffffc0ffffffc0ffffffc0fffffff"

lemma le32_take: "k + 4 \<le> n \<Longrightarrow> n \<le> length key \<Longrightarrow> le32 (drop k (take n key)) = le32 (drop k key)"
  by (simp add: le32_def)

lemma masked_limb:
  assumes "M = M AND 0x3ffffff" "k + 4 \<le> 16" "j \<le> 6" "16 \<le> length key"
  shows "unat (drop_bit j (le32 (drop k key)) AND M) =
    (le_nat (take 16 key) div 2 ^ (8 * k + j) mod 2 ^ 26) AND unat M"
proof -
  have "x AND M = (x AND 0x3ffffff) AND M" for x using assms(1) by (metis and.assoc and.commute)
  then have "drop_bit j (le32 (drop k key)) AND M = (drop_bit j (le32 (drop k (take 16 key))) AND 0x3ffffff) AND M"
    using assms by (simp only: le32_take)
  then show ?thesis
    using assms block_limb [of k "take 16 key" j] by (simp add: unsigned_and_eq)
qed

lemma digits_26_nested:
  fixes N :: nat
  shows "N = N mod 2 ^ 26 + 2 ^ 26 * (N div 2 ^ 26 mod 2 ^ 26 + 2 ^ 26 * (N div 2 ^ 52 mod 2 ^ 26 +
    2 ^ 26 * (N div 2 ^ 78 mod 2 ^ 26 + 2 ^ 26 * (N div 2 ^ 104))))"
  using digits_26 [of N] by simp

lemma poly_init_r:
  assumes "length key = 32"
  shows "r_ok (p_r (poly_init key)) \<and> limb_val (p_r (poly_init key)) = le_nat (take 16 key) AND poly_clamp"
proof -
  define N where "N = le_nat (take 16 key)"
  have N: "N < 2 ^ 128" using le_nat_less [of "take 16 key"] assms by (simp add: N_def)
  have N4: "N div 2 ^ 104 mod 2 ^ 26 = N div 2 ^ 104" using N by (simp add: less_mult_imp_div_less)
  have d0: "unat (le32 key AND 0x3ffffff) = (N mod 2 ^ 26) AND 0x3ffffff"
    using masked_limb [of "0x3ffffff" 0 0 key] assms by (simp add: N_def)
  have d1: "unat (drop_bit 2 (le32 (drop 3 key)) AND 0x3ffff03) = (N div 2 ^ 26 mod 2 ^ 26) AND 0x3ffff03"
    using masked_limb [of "0x3ffff03" 3 2 key] assms by (simp add: N_def)
  have d2: "unat (drop_bit 4 (le32 (drop 6 key)) AND 0x3ffc0ff) = (N div 2 ^ 52 mod 2 ^ 26) AND 0x3ffc0ff"
    using masked_limb [of "0x3ffc0ff" 6 4 key] assms by (simp add: N_def)
  have d3: "unat (drop_bit 6 (le32 (drop 9 key)) AND 0x3f03fff) = (N div 2 ^ 78 mod 2 ^ 26) AND 0x3f03fff"
    using masked_limb [of "0x3f03fff" 9 6 key] assms by (simp add: N_def)
  have "unat (drop_bit 8 (le32 (drop 12 key)) OR 0) = N div 2 ^ 104 + unat (0 :: u32)"
    using hibit_limb [of 0 "take 16 key"] le32_take [of 12 16 key] assms by (simp add: N_def)
  then have d4: "unat (drop_bit 8 (le32 (drop 12 key)) AND 0x00fffff) = (N div 2 ^ 104) AND 0x00fffff"
    by (simp add: unsigned_and_eq)
  have lt: "x AND y < 2 ^ 26" if "y < 2 ^ 26" for x y :: nat
    using that by (meson and_le_nat order_le_less_trans)
  have ok: "r_ok (p_r (poly_init key))"
    unfolding poly_init_def poly_state.simps r_ok.simps d0 d1 d2 d3 d4 by (intro conjI lt) simp_all
  have clamp: "poly_clamp = 0x3ffffff + 2 ^ 26 * (0x3ffff03 + 2 ^ 26 * (0x3ffc0ff + 2 ^ 26 * (0x3f03fff + 2 ^ 26 * 0x00fffff)))"
    by (simp add: poly_clamp_def)
  have "N AND poly_clamp =
      ((N mod 2 ^ 26) AND 0x3ffffff) + 2 ^ 26 * (((N div 2 ^ 26 mod 2 ^ 26) AND 0x3ffff03) +
      2 ^ 26 * (((N div 2 ^ 52 mod 2 ^ 26) AND 0x3ffc0ff) + 2 ^ 26 * (((N div 2 ^ 78 mod 2 ^ 26) AND 0x3f03fff) +
      2 ^ 26 * ((N div 2 ^ 104) AND 0x00fffff))))"
  proof -
    define n0 n1 n2 n3 n4 where n: "n0 = N mod 2 ^ 26" "n1 = N div 2 ^ 26 mod 2 ^ 26"
      "n2 = N div 2 ^ 52 mod 2 ^ 26" "n3 = N div 2 ^ 78 mod 2 ^ 26" "n4 = N div 2 ^ 104"
    have b: "n0 < 2 ^ 26" "n1 < 2 ^ 26" "n2 < 2 ^ 26" "n3 < 2 ^ 26" by (simp_all add: n)
    have "N = n0 + 2 ^ 26 * (n1 + 2 ^ 26 * (n2 + 2 ^ 26 * (n3 + 2 ^ 26 * n4)))"
      unfolding n by (rule digits_26_nested)
    then have "N AND poly_clamp = (n0 + 2 ^ 26 * (n1 + 2 ^ 26 * (n2 + 2 ^ 26 * (n3 + 2 ^ 26 * n4)))) AND
        (0x3ffffff + 2 ^ 26 * (0x3ffff03 + 2 ^ 26 * (0x3ffc0ff + 2 ^ 26 * (0x3f03fff + 2 ^ 26 * 0x00fffff))))"
      by (simp only: clamp)
    also have "\<dots> = (n0 AND 0x3ffffff) + 2 ^ 26 * ((n1 AND 0x3ffff03) + 2 ^ 26 * ((n2 AND 0x3ffc0ff) +
        2 ^ 26 * ((n3 AND 0x3f03fff) + 2 ^ 26 * (n4 AND 0x00fffff))))"
      by (subst and_digit, fact, simp)+ (rule refl)
    finally show ?thesis unfolding n .
  qed
  moreover have "limb_val (p_r (poly_init key)) =
      ((N mod 2 ^ 26) AND 0x3ffffff) + 2 ^ 26 * (((N div 2 ^ 26 mod 2 ^ 26) AND 0x3ffff03) +
      2 ^ 26 * (((N div 2 ^ 52 mod 2 ^ 26) AND 0x3ffc0ff) + 2 ^ 26 * (((N div 2 ^ 78 mod 2 ^ 26) AND 0x3f03fff) +
      2 ^ 26 * ((N div 2 ^ 104) AND 0x00fffff))))"
    unfolding poly_init_def poly_state.simps limb_val.simps d0 d1 d2 d3 d4
    by (simp add: distrib_left)
  ultimately show ?thesis using ok by (simp only: N_def)
qed

section \<open>The end of the computation\<close>

lemma le_nat_words: "le_nat (concat (map put_le32 ws)) = word_list_val ws"
  by (induction ws) (simp_all add: le_nat_append le_nat_put_le32)

lemma add_chain:
  fixes h0 h1 h2 h3 p0 p1 p2 p3 c0 c1 c2 c3 l0 l1 l2 l3 :: nat
  assumes "h0 + p0 = 4294967296 * c0 + l0" "h1 + p1 + c0 = 4294967296 * c1 + l1"
    "h2 + p2 + c1 = 4294967296 * c2 + l2" "h3 + p3 + c2 = 4294967296 * c3 + l3"
  shows "(h0 + 2 ^ 32 * (h1 + 2 ^ 32 * (h2 + 2 ^ 32 * h3))) + (p0 + 2 ^ 32 * (p1 + 2 ^ 32 * (p2 + 2 ^ 32 * p3))) =
    l0 + 2 ^ 32 * (l1 + 2 ^ 32 * (l2 + 2 ^ 32 * l3)) + 2 ^ 128 * c3"
proof -
  have "2 ^ 32 * (h1 + p1 + c0) = 2 ^ 32 * (4294967296 * c1 + l1)" "2 ^ 64 * (h2 + p2 + c1) = 2 ^ 64 * (4294967296 * c2 + l2)"
    "2 ^ 96 * (h3 + p3 + c2) = 2 ^ 96 * (4294967296 * c3 + l3)"
    using assms by (simp_all only:)
  then show ?thesis using assms(1) by simp
qed

lemma word_list_4_less: "word_list_val [a, b, c, d] < 2 ^ 128"
  using unat_u32_less [of a] unat_u32_less [of b] unat_u32_less [of c] unat_u32_less [of d]
  by (simp del: unat_u32_less)

lemma poly_add_pad_val:
  assumes "length h = 4" "length pad = 4"
  shows "word_list_val (poly_add_pad h pad) = (word_list_val h + word_list_val pad) mod 2 ^ 128"
proof -
  obtain h0 h1 h2 h3 where h: "h = [h0, h1, h2, h3]" using assms(1) by (auto simp: length_4_conv)
  obtain p0 p1 p2 p3 where p: "pad = [p0, p1, p2, p3]" using assms(2) by (auto simp: length_4_conv)
  define f0 where "f0 = (ucast h0 + ucast p0 :: u64)"
  define f1 where "f1 = ucast h1 + ucast p1 + drop_bit 32 f0"
  define f2 where "f2 = ucast h2 + ucast p2 + drop_bit 32 f1"
  define f3 where "f3 = ucast h3 + ucast p3 + drop_bit 32 f2"
  have dr: "unat (drop_bit 32 f) = unat f div 4294967296" for f :: u64
    using unat_drop_bit [of 32 f] by simp
  have lo: "unat (ucast f :: u32) = unat f mod 4294967296" for f :: u64
    by (simp add: unsigned_ucast_eq take_bit_eq_mod)
  have hp: "unat (ucast x + ucast y :: u64) = unat x + unat y" for x y :: u32
    using unat_u32_less [of x] unat_u32_less [of y]
    by (subst unat_add_u64; unfold unat_ucast_32_64) linarith+
  have f0: "unat f0 = unat h0 + unat p0" unfolding f0_def by (rule hp)
  have st: "unat ((ucast x + ucast y) + drop_bit 32 f :: u64) = unat x + unat y + unat f div 4294967296"
    for x y :: u32 and f
  proof -
    have "unat f div 4294967296 < 4294967296" using unat_u64_less [of f] by linarith
    then show ?thesis using unat_u32_less [of x] unat_u32_less [of y]
      by (subst unat_add_u64; unfold hp dr) linarith+
  qed
  have f: "unat f1 = unat h1 + unat p1 + unat f0 div 4294967296"
    "unat f2 = unat h2 + unat p2 + unat f1 div 4294967296"
    "unat f3 = unat h3 + unat p3 + unat f2 div 4294967296"
    unfolding f1_def f2_def f3_def by (rule st)+
  have dm: "x = 4294967296 * (x div 4294967296) + x mod 4294967296" for x :: nat by simp
  have r: "poly_add_pad h pad = [ucast f0, ucast f1, ucast f2, ucast f3]"
    by (simp add: h p poly_add_pad_def Let_def f0_def f1_def f2_def f3_def)
  have "word_list_val h + word_list_val pad =
      word_list_val (poly_add_pad h pad) + 2 ^ 128 * (unat f3 div 4294967296)"
    unfolding r unfolding h p word_list_val.simps lo mult_0_right add_0_right
  proof (rule add_chain)
    show "unat h0 + unat p0 = 4294967296 * (unat f0 div 4294967296) + unat f0 mod 4294967296"
      unfolding f0 [symmetric] by (rule dm)
    show "unat h1 + unat p1 + unat f0 div 4294967296 = 4294967296 * (unat f1 div 4294967296) + unat f1 mod 4294967296"
      "unat h2 + unat p2 + unat f1 div 4294967296 = 4294967296 * (unat f2 div 4294967296) + unat f2 mod 4294967296"
      "unat h3 + unat p3 + unat f2 div 4294967296 = 4294967296 * (unat f3 div 4294967296) + unat f3 mod 4294967296"
      unfolding f [symmetric] by (rule dm)+
  qed
  moreover have "word_list_val (poly_add_pad h pad) < 2 ^ 128" unfolding r by (rule word_list_4_less)
  ultimately show ?thesis by (simp only: mod_mult_self2 mod_less)
qed

lemma poly_init_pad:
  assumes "length key = 32"
  shows "word_list_val (p_pad (poly_init key)) = le_nat (drop 16 key) \<and> length (p_pad (poly_init key)) = 4"
proof -
  have w: "le_nat (drop k key) = unat (le32 (drop k key)) + 2 ^ 32 * le_nat (drop (k + 4) key)"
    if "k + 4 \<le> 32" for k
  proof -
    have l4: "length (take 4 (drop k key)) = 4" using that assms by simp
    have sp: "take 4 (drop k key) @ drop (k + 4) key = drop k key"
      using append_take_drop_id [of 4 "drop k key"] by (simp add: add.commute)
    have "le_nat (drop k key) = le_nat (take 4 (drop k key)) + 2 ^ 32 * le_nat (drop (k + 4) key)"
      using le_nat_append [of "take 4 (drop k key)" "drop (k + 4) key"] unfolding l4 sp by simp
    moreover have "unat (le32 (drop k key)) = le_nat (take 4 (drop k key))"
      using unat_le32 [of "take 4 (drop k key)"] le_nat_less [of "take 4 (drop k key)"] that assms
        le32_take [of 0 4 "drop k key"] by simp
    ultimately show ?thesis by simp
  qed
  have "p_pad (poly_init key) = [le32 (drop 16 key), le32 (drop 20 key), le32 (drop 24 key), le32 (drop 28 key)]"
    by (simp add: poly_init_def upt_rec)
  then show ?thesis using w [of 16] w [of 20] w [of 24] w [of 28] assms by simp
qed

lemma poly_finish_val:
  assumes "h_ok (p_h st)" "length (p_pad st) = 4"
  shows "le_nat (poly_finish st) =
    (limb_val (p_h st) mod (2 ^ 130 - 5) + word_list_val (p_pad st)) mod 2 ^ 128"
proof -
  note f = poly_freeze_val [OF assms(1)]
  note r = poly_reduce_val [OF conjunct1 [OF f]]
  note k = poly_pack_val [OF conjunct1 [OF r]]
  have "le_nat (poly_finish st) = (word_list_val (poly_pack (poly_reduce (poly_freeze (p_h st)))) +
      word_list_val (p_pad st)) mod 2 ^ 128"
    unfolding poly_finish_def le_nat_words using k assms(2) by (intro poly_add_pad_val) simp_all
  also have "\<dots> = (limb_val (p_h st) mod (2 ^ 130 - 5) + word_list_val (p_pad st)) mod 2 ^ 128"
    using k r f by (simp only: mod_add_left_eq)
  finally show ?thesis .
qed

text \<open>The accumulator of RFC 8439: each chunk of at most 16 bytes, with a 1 byte behind it.\<close>

function poly1305_acc :: "nat \<Rightarrow> bytes \<Rightarrow> nat \<Rightarrow> nat" where
  "poly1305_acc R m acc =
     (if m = [] then acc
      else poly1305_acc R (drop 16 m) ((acc + le_nat (take 16 m @ [1])) * R mod (2 ^ 130 - 5)))"
  by pat_completeness auto
termination by (relation "measure (\<lambda>(R, m, acc). length m)") auto

declare poly1305_acc.simps [simp del]

definition poly1305_spec :: "bytes \<Rightarrow> bytes \<Rightarrow> nat" where
  "poly1305_spec msg key =
     (poly1305_acc (le_nat (take 16 key) AND poly_clamp) msg 0 + le_nat (drop 16 key)) mod 2 ^ 128"

lemma poly_acc_full:
  assumes "length m mod 16 = 0"
  shows "poly1305_acc R (m @ rest) acc = poly1305_acc R rest (poly_acc R (2 ^ 128) m acc)"
  using assms
proof (induction "length m" arbitrary: m acc rule: less_induct)
  case less
  show ?case
  proof (cases "m = []")
    case True
    have "poly_acc R (2 ^ 128) [] acc = acc" by (subst poly_acc.simps) simp
    with True show ?thesis by simp
  next
    case False
    then have l: "16 \<le> length m" using less.prems mod_less [of "length m" 16] by (cases "length m < 16") auto
    have t: "le_nat (take 16 m @ [1]) = le_nat (take 16 m) + 2 ^ 128"
      using l by (simp add: le_nat_append)
    have tk: "take 16 (m @ rest) = take 16 m" "drop 16 (m @ rest) = drop 16 m @ rest" using l by simp_all
    have "poly1305_acc R (m @ rest) acc =
        poly1305_acc R (drop 16 m @ rest) ((acc + (le_nat (take 16 m) + 2 ^ 128)) * R mod (2 ^ 130 - 5))"
      using False unfolding t [symmetric]
      by (subst poly1305_acc.simps) (simp only: tk append_is_Nil_conv simp_thms if_False)
    also have "\<dots> = poly1305_acc R rest (poly_acc R (2 ^ 128) (drop 16 m)
        ((acc + (le_nat (take 16 m) + 2 ^ 128)) * R mod (2 ^ 130 - 5)))"
      using l less.prems by (intro less.hyps) (simp_all add: le_mod_geq)
    also have "poly_acc R (2 ^ 128) (drop 16 m) ((acc + (le_nat (take 16 m) + 2 ^ 128)) * R mod (2 ^ 130 - 5)) =
        poly_acc R (2 ^ 128) m acc"
    proof -
      have "poly_acc R (2 ^ 128) m acc = poly_acc R (2 ^ 128) (drop 16 m)
        ((acc + le_nat (take 16 m) + 2 ^ 128) * R mod (2 ^ 130 - 5))"
        using l by (subst poly_acc.simps) (simp only: if_True)
      then show ?thesis by (simp only: add.assoc)
    qed
    finally show ?thesis .
  qed
qed

lemma poly_acc_reduced:
  "acc < 2 ^ 130 - 5 \<Longrightarrow> poly_acc R hb m acc < 2 ^ 130 - 5"
proof (induction R hb m acc rule: poly_acc.induct)
  case (1 R hb m acc)
  show ?case
  proof (cases "16 \<le> length m")
    case True
    have "(acc + le_nat (take 16 m) + hb) * R mod (2 ^ 130 - 5) < 2 ^ 130 - 5" by simp
    from "1.IH" [OF True this] show ?thesis using True by (subst poly_acc.simps) (simp only: if_True)
  next
    case False
    with "1.prems" show ?thesis by (subst poly_acc.simps) (simp only: if_False)
  qed
qed

lemma full_len_props: "full_len p \<le> length p" "length p - full_len p < 16" "length (take (full_len p) p) mod 16 = 0"
proof -
  have "length p mod 16 \<le> length p" by simp
  then show "full_len p \<le> length p" "length p - full_len p < 16" by (simp_all add: full_len_def)
  have "full_len p mod 16 = 0" by (simp add: full_len_def minus_mod_eq_mult_div)
  moreover have "length (take (full_len p) p) = full_len p"
    using \<open>full_len p \<le> length p\<close> by (simp add: min.absorb2)
  ultimately show "length (take (full_len p) p) mod 16 = 0" by simp
qed

lemma le_nat_zeros: "le_nat (xs @ replicate k 0) = le_nat xs"
proof -
  have "le_nat (replicate k 0) = 0" by (induction k) simp_all
  then show ?thesis by (simp add: le_nat_append)
qed

lemma rd_poly1305_val:
  assumes key: "length key = 32"
  shows "le_nat (rd_poly1305 msg key) = poly1305_spec msg key"
proof -
  define st0 R P where "st0 = poly_init key" and "R = limb_val (p_r st0)" and "P = (2 ^ 130 - 5 :: nat)"
  have r: "r_ok (p_r st0)" "R = le_nat (take 16 key) AND poly_clamp"
    using poly_init_r [OF key] by (simp_all add: st0_def R_def)
  have pad: "word_list_val (p_pad st0) = le_nat (drop 16 key)" "length (p_pad st0) = 4"
    using poly_init_pad [OF key] by (simp_all add: st0_def)
  have h0: "h_ok (p_h st0)" "limb_val (p_h st0) = 0" by (simp_all add: st0_def poly_init_def)
  define full rest where "full = take (full_len msg) msg" and "rest = drop (full_len msg) msg"
  have msg: "msg = full @ rest" by (simp add: full_def rest_def)
  have fr: "length full mod 16 = 0" "length rest < 16"
    using full_len_props [of msg] by (simp_all add: full_def rest_def)
  define h1 where "h1 = poly_loop (p_r st0) 0x1000000 full (p_h st0)"
  have h1: "h_ok h1" "limb_val h1 mod P = poly_acc R (2 ^ 128) full 0"
    using poly_loop_val [OF r(1) _ h0(1), where hibit = "0x1000000" and m = full] poly_acc_reduced [of 0 R "2 ^ 128" full]
    by (simp_all add: h1_def h0(2) R_def P_def)
  have spec: "poly1305_acc R msg 0 = poly1305_acc R rest (poly_acc R (2 ^ 128) full 0)"
    unfolding msg by (rule poly_acc_full [OF fr(1)])
  show ?thesis
  proof (cases "rest = []")
    case True
    then have "\<not> length msg > full_len msg" by (simp add: rest_def)
    then have "rd_poly1305 msg key = poly_finish (st0\<lparr>p_h := h1\<rparr>)"
      by (simp add: rd_poly1305_def Let_def poly_blocks_def st0_def h1_def full_def)
    moreover have "poly1305_acc R msg 0 = limb_val h1 mod P"
      unfolding spec True h1(2) by (subst poly1305_acc.simps) simp
    ultimately show ?thesis
      using poly_finish_val [of "st0\<lparr>p_h := h1\<rparr>"] h1(1) pad r(2)
      by (simp add: poly1305_spec_def P_def)
  next
    case False
    then have lt: "length msg > full_len msg" by (simp add: rest_def)
    define lb where "lb = rest @ [1] @ replicate (15 - length rest) (0 :: u8)"
    have lb: "splice (replicate 16 0) 0 (drop (full_len msg) msg @ [1]) = lb"
      using fr(2) by (simp add: splice_zeros rest_def [symmetric] lb_def)
    have ll: "length lb = 16" using fr(2) by (simp add: lb_def)
    define h2 where "h2 = poly_loop (p_r st0) 0 lb h1"
    have "rd_poly1305 msg key = poly_finish (st0\<lparr>p_h := h2\<rparr>)"
      using lt by (simp add: rd_poly1305_def Let_def poly_blocks_def st0_def [symmetric] h1_def [symmetric]
          full_def [symmetric] lb h2_def)
    moreover have "h_ok h2" "limb_val h2 mod P = poly_acc R 0 lb (limb_val h1 mod P) mod P"
      using poly_loop_val [OF r(1) _ h1(1), where hibit = 0 and m = lb] by (simp_all add: h2_def R_def P_def)
    moreover have "poly_acc R 0 lb acc = (acc + le_nat (rest @ [1])) * R mod P" for acc
    proof -
      have "le_nat lb = le_nat (rest @ [1])"
        using le_nat_zeros [of "rest @ [1]" "15 - length rest"] by (simp add: lb_def)
      then have "poly_acc R 0 lb acc = poly_acc R 0 [] ((acc + le_nat (rest @ [1]) + 0) * R mod P)"
        using ll by (subst poly_acc.simps) (simp add: P_def)
      also have "\<dots> = (acc + le_nat (rest @ [1])) * R mod P" by (subst poly_acc.simps) simp
      finally show ?thesis .
    qed
    moreover have "poly1305_acc R rest acc = (acc + le_nat (rest @ [1])) * R mod P" for acc
    proof -
      have "poly1305_acc R rest acc = poly1305_acc R [] ((acc + le_nat (rest @ [1])) * R mod P)"
        using False fr(2) by (subst poly1305_acc.simps) (simp add: P_def)
      then show ?thesis by (subst (asm) (2) poly1305_acc.simps) simp
    qed
    ultimately show ?thesis
      using poly_finish_val [of "st0\<lparr>p_h := h2\<rparr>"] pad r(2) spec h1(2)
      by (simp add: poly1305_spec_def P_def)
  qed
qed


section \<open>Properties\<close>

lemma chacha_state_counter: "(chacha_state key nonce ctr)[12 := chacha_state key nonce ctr ! 12 + k] = chacha_state key nonce (ctr + k)"
  by (simp add: chacha_state_def upt_rec)

text \<open>ChaCha20 encryption XORs byte i of the message with byte i mod 64 of the block whose
counter is the initial counter plus i div 64, for a message of any length, and applying it a
second time gives the message back.\<close>
theorem rd_chacha20_keystream:
  "rd_chacha20 m key nonce ctr =
     map (\<lambda>i. m ! i XOR chacha_block (chacha_state key nonce (ctr + of_nat (i div 64))) ! (i mod 64)) [0..<length m] \<and>
   rd_chacha20 (rd_chacha20 m key nonce ctr) key nonce ctr = m"
  by (simp add: rd_chacha20_involution) (simp add: rd_chacha20_def chacha_stream_xor chacha_key_byte_def chacha_state_counter)

text \<open>C28: The five-limb Poly1305 with its 64-bit accumulators, lazy carries and final
conditional subtraction computes the authenticator of RFC 8439, a polynomial evaluation modulo
2^130 - 5 over unbounded integers, for every message and every 32-byte key; no intermediate sum
overflows.\<close>
theorem rd_poly1305_is_rfc8439:
  assumes "length key = 32"
  shows "le_nat (rd_poly1305 msg key) = poly1305_spec msg key \<and> length (rd_poly1305 msg key) = 16"
  using rd_poly1305_val [OF assms] by (simp add: rd_poly1305_def Let_def)

theorem rd_poly1305_is_rfc8439_witness:
  "le_nat (rd_poly1305 [255, 1, 2] (map of_nat [1..<33])) = 135998166303619149571594793200806929671 \<and>
   length (rd_poly1305 [255, 1, 2] (map of_nat [1..<33])) = 16"
  using rd_poly1305_is_rfc8439 [of "map of_nat [1..<33]" "[255, 1, 2]"]
  by (simp add: poly1305_spec_def poly1305_acc.simps poly_clamp_def upt_rec)

text \<open>C22: The AEAD opens an input, and then to the message m, exactly when the input is what
sealing m under the same key, nonce and additional data gives; the sealed form is 16 bytes
longer, and an input shorter than a tag is refused.\<close>
theorem rd_aead_open_exactly_sealed:
  "(rd_aead_open inp ad key nonce = Some m \<longleftrightarrow> inp = rd_aead_seal m ad key nonce) \<and>
   length (rd_aead_seal m ad key nonce) = length m + 16 \<and>
   (rd_aead_open inp ad key nonce = None \<longleftrightarrow> inp \<notin> range (\<lambda>m. rd_aead_seal m ad key nonce))"
proof -
  have "rd_aead_open inp ad key nonce = None \<longleftrightarrow> (\<forall>m. rd_aead_open inp ad key nonce \<noteq> Some m)" by simp
  then show ?thesis by (auto simp only: rd_aead_open_iff length_rd_aead_seal image_iff)
qed


end
