(* ===== verification/Rd_Secure.thy ===== *)
theory Rd_Secure
  imports Rd_Aead
begin

text \<open>
  The session layer of \<open>common/rd_secure.c\<close>: HKDF, the handshake's transcript, keys and password
  proof, the host fingerprint, and the channel that seals and opens messages under a counter nonce.
  X25519 is in \<^theory_text>\<open>Rd_X25519\<close>; here its results are the arguments \<open>dh1\<close> and \<open>dh2\<close>.
  \<open>rd_wipe\<close> only clears memory nothing reads again and has no counterpart.
\<close>

section \<open>HKDF\<close>

text \<open>The loop of \<open>rd_hkdf_sha256\<close>; \<open>t\<close> is the first \<open>t_len\<close> bytes of the C array, none at first.\<close>

function hkdf_loop :: "bytes \<Rightarrow> bytes \<Rightarrow> u8 \<Rightarrow> bytes \<Rightarrow> nat \<Rightarrow> bytes" where
  "hkdf_loop prk info i t out_len =
     (if out_len = 0 then []
      else let t' = rd_hmac_sha256 prk (t @ info @ [i]);
               n = (if out_len < 32 then out_len else 32)
           in take n t' @ hkdf_loop prk info (i + 1) t' (out_len - n))"
  by pat_completeness auto
termination by (relation "measure (\<lambda>(prk, info, i, t, n). n)") (auto split: if_splits)

declare hkdf_loop.simps [simp del]

definition rd_hkdf_sha256 :: "nat \<Rightarrow> bytes \<Rightarrow> bytes option \<Rightarrow> bytes \<Rightarrow> bytes" where
  "rd_hkdf_sha256 out_len ikm salt info =
     (let salt = (case salt of None \<Rightarrow> replicate 32 0 | Some s \<Rightarrow> s);
          prk = rd_hmac_sha256 salt ikm;
          info = (if length info > 256 then take 256 info else info)
      in hkdf_loop prk info 1 [] out_len)"

section \<open>Handshake\<close>

definition rd_hs_transcript :: "bytes \<Rightarrow> bytes \<Rightarrow> bytes \<Rightarrow> bytes \<Rightarrow> bytes" where
  "rd_hs_transcript ce ss se nonce =
     (let c = rd_sha256_init sha256_ctx0;
          c = rd_sha256_update c (bytes_of ''TetherDesk v2'');
          c = rd_sha256_update c ce;
          c = rd_sha256_update c ss;
          c = rd_sha256_update c se;
          c = rd_sha256_update c nonce
      in rd_sha256_final c)"

record rd_channel =
  send_key :: bytes
  recv_key :: bytes
  send_ctr :: u64
  recv_ctr :: u64
  ch_active :: bool

definition rd_hs_keys :: "bytes \<Rightarrow> bytes \<Rightarrow> bytes \<Rightarrow> bool \<Rightarrow> rd_channel" where
  "rd_hs_keys dh1 dh2 th is_host =
     (let okm = rd_hkdf_sha256 64 (dh1 @ dh2) (Some th) (bytes_of ''tetherdesk keys'');
          c2s = take 32 okm; s2c = drop 32 okm
      in \<lparr>send_key = (if is_host then s2c else c2s), recv_key = (if is_host then c2s else s2c),
          send_ctr = 0, recv_ctr = 0, ch_active = True\<rparr>)"

definition rd_hs_auth_mac :: "bytes \<Rightarrow> bytes \<Rightarrow> bytes" where
  "rd_hs_auth_mac password th = rd_hmac_sha256 password (bytes_of ''tetherdesk-auth'' @ th)"

definition hex_digit :: "u8 \<Rightarrow> u8" where
  "hex_digit v = bytes_of ''0123456789abcdef'' ! unat v"

definition rd_fingerprint :: "bytes \<Rightarrow> bytes" where
  "rd_fingerprint pub =
     (let d = rd_sha256 pub
      in concat (map (\<lambda>i. (if i \<noteq> 0 \<and> i mod 2 = 0 then [45] else []) @
           [hex_digit (drop_bit 4 (d ! i)), hex_digit (d ! i AND 15)]) [0..<16]))"

section \<open>Channel\<close>

definition ctr_nonce :: "u64 \<Rightarrow> bytes" where
  "ctr_nonce ctr = replicate 4 0 @ put_le64 ctr"

text \<open>Sealing appends to a buffer; when the buffer cannot grow the message is lost, the counter spent.\<close>

definition rd_channel_seal :: "alloc \<Rightarrow> rd_channel \<Rightarrow> bytes \<Rightarrow> rd_buf \<Rightarrow> rd_channel \<times> rd_buf" where
  "rd_channel_seal al ch msg out =
     (let nonce = ctr_nonce (send_ctr ch)
      in (ch\<lparr>send_ctr := send_ctr ch + 1\<rparr>,
          case rd_buf_grow al out (rd_aead_seal msg [] (send_key ch) nonce) of
            None \<Rightarrow> out | Some out' \<Rightarrow> out'))"

definition rd_channel_open :: "rd_channel \<Rightarrow> bytes \<Rightarrow> bytes option \<times> rd_channel" where
  "rd_channel_open ch inp =
     (if length inp < 16 then (None, ch)
      else case rd_aead_open inp [] (recv_key ch) (ctr_nonce (recv_ctr ch)) of
             None \<Rightarrow> (None, ch)
           | Some m \<Rightarrow> (Some m, ch\<lparr>recv_ctr := recv_ctr ch + 1\<rparr>))"

section \<open>HKDF against RFC 5869\<close>

text \<open>The blocks T(1), T(2), ... of RFC 5869.\<close>

primrec hkdf_T :: "bytes \<Rightarrow> bytes \<Rightarrow> nat \<Rightarrow> bytes" where
  "hkdf_T prk info 0 = []"
| "hkdf_T prk info (Suc k) = rd_hmac_sha256 prk (hkdf_T prk info k @ info @ [of_nat (Suc k)])"

lemma length_rd_hmac [simp, len_simps]: "length (rd_hmac_sha256 key msg) = 32"
  by (simp add: rd_hmac_eq_spec hmac_spec_def Let_def)

lemma hkdf_loop_blocks:
  "n \<le> 32 * k \<Longrightarrow> hkdf_loop prk info (of_nat (Suc j)) (hkdf_T prk info j) n =
     take n (concat (map (hkdf_T prk info) [Suc j..<Suc j + k]))"
proof (induction k arbitrary: j n)
  case 0
  then show ?case by (subst hkdf_loop.simps) simp
next
  case (Suc k)
  let ?T = "hkdf_T prk info (Suc j)"
  have u: "[Suc j..<Suc j + Suc k] = Suc j # [Suc (Suc j)..<Suc (Suc j) + k]"
    by (simp add: upt_conv_Cons)
  have l: "length ?T = 32" by simp
  have i: "(of_nat (Suc j) :: u8) + 1 = of_nat (Suc (Suc j))" by simp
  show ?case
  proof (cases "n < 32")
    case True
    have z: "hkdf_loop prk info x y 0 = []" for x y by (subst hkdf_loop.simps) simp
    show ?thesis
      using True l unfolding u by (subst hkdf_loop.simps) (simp add: z)
  next
    case False
    have "hkdf_loop prk info (of_nat (Suc j)) (hkdf_T prk info j) n =
        ?T @ hkdf_loop prk info (of_nat (Suc (Suc j))) ?T (n - 32)"
      using False l by (subst hkdf_loop.simps) (simp add: Let_def flip: i)
    also have "hkdf_loop prk info (of_nat (Suc (Suc j))) ?T (n - 32) =
        take (n - 32) (concat (map (hkdf_T prk info) [Suc (Suc j)..<Suc (Suc j) + k]))"
      using Suc.prems by (intro Suc.IH) simp
    finally show ?thesis using False l unfolding u by simp
  qed
qed

text \<open>HKDF-SHA256 returns the first out_len bytes of T(1) | T(2) | ... as RFC 5869 defines them,
with 32 zero bytes for an absent salt and at most 256 bytes of info.\<close>
theorem rd_hkdf_is_rfc5869:
  "rd_hkdf_sha256 n ikm salt info =
     take n (concat (map (hkdf_T (rd_hmac_sha256 (case salt of None \<Rightarrow> replicate 32 0 | Some s \<Rightarrow> s) ikm)
       (take 256 info)) [1..<Suc ((n + 31) div 32)]))"
proof -
  have b: "n \<le> 32 * ((n + 31) div 32)" by linarith
  have t: "(if length info > 256 then take 256 info else info) = take 256 info" by simp
  show ?thesis
    using hkdf_loop_blocks [OF b, of _ "take 256 info" 0] unfolding rd_hkdf_sha256_def Let_def t by simp
qed

lemma length_rd_hkdf [simp, len_simps]: "length (rd_hkdf_sha256 n ikm salt info) = n"
proof -
  have "length (hkdf_loop prk info i t n) = n" for prk info i t
    by (induction prk info i t n rule: hkdf_loop.induct)
      (subst hkdf_loop.simps, simp add: Let_def)
  then show ?thesis by (simp add: rd_hkdf_sha256_def)
qed

section \<open>The channel over a sealed box\<close>

text \<open>
  What the channel needs of its AEAD: exactly the sealed form of a message opens, to that message.
  Everything about the channel is proved from this contract.
\<close>

locale sealed_box =
  fixes seal :: "bytes \<Rightarrow> bytes \<Rightarrow> bytes \<Rightarrow> bytes"
    and unseal :: "bytes \<Rightarrow> bytes \<Rightarrow> bytes \<Rightarrow> bytes option"
  assumes unseal_iff: "unseal c key nonce = Some m \<longleftrightarrow> c = seal m key nonce"
    and seal_length: "16 \<le> length (seal m key nonce)"
begin

lemma unseal_seal: "unseal (seal m key nonce) key nonce = Some m"
  by (simp add: unseal_iff)

lemma seal_inject: "seal m key nonce = seal m' key nonce \<longleftrightarrow> m = m'"
  by (metis option.inject unseal_iff)

lemma unseal_short: "length c < 16 \<Longrightarrow> unseal c key nonce = None"
  using seal_length by (metis leD not_None_eq unseal_iff)

text \<open>The sealed forms of a list of messages under successive counters.\<close>

primrec sealed_from :: "bytes \<Rightarrow> u64 \<Rightarrow> bytes list \<Rightarrow> bytes list" where
  "sealed_from key c [] = []"
| "sealed_from key c (m # ms) = seal m key (ctr_nonce c) # sealed_from key (c + 1) ms"

lemma sealed_from_append:
  "sealed_from key c (ms @ ms') = sealed_from key c ms @ sealed_from key (c + of_nat (length ms)) ms'"
  by (induction ms arbitrary: c) (simp_all add: add.assoc)

lemma length_sealed_from: "length (sealed_from key c ms) = length ms"
  by (induction ms arbitrary: c) simp_all

text \<open>One direction of a session: what was sent is what was received, then what is in flight.\<close>

definition link :: "bytes \<Rightarrow> u64 \<Rightarrow> u64 \<Rightarrow> bytes list \<Rightarrow> bytes list \<Rightarrow> bytes list \<Rightarrow> bool" where
  "link key sctr rctr flight sent got \<longleftrightarrow> (\<exists>pend. sent = got @ pend \<and>
     flight = sealed_from key rctr pend \<and> sctr = rctr + of_nat (length pend))"

lemma link_start: "link key c c [] [] []"
  by (simp add: link_def)

lemma link_send:
  "link key sctr rctr flight sent got \<Longrightarrow>
   link key (sctr + 1) rctr (flight @ [seal m key (ctr_nonce sctr)]) (sent @ [m]) got"
  by (force simp: link_def sealed_from_append)

lemma link_recv:
  assumes "link key sctr rctr (c # flight) sent got"
  shows "\<exists>m. unseal c key (ctr_nonce rctr) = Some m \<and> link key sctr (rctr + 1) flight sent (got @ [m])"
proof -
  obtain pend where p: "sent = got @ pend" "c # flight = sealed_from key rctr pend"
    "sctr = rctr + of_nat (length pend)"
    using assms by (auto simp: link_def)
  then obtain m ms where "pend = m # ms" by (cases pend) auto
  with p show ?thesis
    by (intro exI [of _ m]) (auto simp: link_def unseal_seal add.assoc)
qed

lemma link_prefix: "link key sctr rctr flight sent got \<Longrightarrow>
    \<exists>pend. sent = got @ pend \<and> length pend = length flight"
  by (auto simp: link_def length_sealed_from)

end

interpretation box: sealed_box "\<lambda>m. rd_aead_seal m []" "\<lambda>c. rd_aead_open c []"
  by unfold_locales (simp_all add: rd_aead_open_iff)

lemma rd_channel_open_iff:
  "rd_channel_open ch c = (Some m, ch') \<longleftrightarrow>
     c = rd_aead_seal m [] (recv_key ch) (ctr_nonce (recv_ctr ch)) \<and> ch' = ch\<lparr>recv_ctr := recv_ctr ch + 1\<rparr>"
  using box.unseal_iff [of c "recv_key ch" "ctr_nonce (recv_ctr ch)" m] box.seal_length [of m]
  by (auto simp: rd_channel_open_def split: option.splits)

lemma rd_channel_seal_into_empty:
  "no_oom al \<Longrightarrow> rd_channel_seal al ch m rd_buf_init = (ch', out) \<longleftrightarrow>
     ch' = ch\<lparr>send_ctr := send_ctr ch + 1\<rparr> \<and> rd_buf_grow al rd_buf_init
       (rd_aead_seal m [] (send_key ch) (ctr_nonce (send_ctr ch))) = Some out"
  by (auto simp: rd_channel_seal_def Let_def rd_buf_grow_def rd_buf_reserve_def split: option.splits)

lemma grow_data: "rd_buf_grow al b d = Some b' \<Longrightarrow> rb_data b' = rb_data b @ d"
  by (auto simp: rd_buf_grow_def rd_buf_reserve_def Let_def split: option.splits if_splits)

lemma ctr_nonce_inject: "ctr_nonce a = ctr_nonce b \<longleftrightarrow> a = b"
proof
  assume "ctr_nonce a = ctr_nonce b"
  then have "put_le32 (ucast a) = put_le32 (ucast b)"
    "put_le32 (ucast (drop_bit 32 a)) = put_le32 (ucast (drop_bit 32 b))"
    by (simp_all add: ctr_nonce_def put_le64_def)
  then have lo: "(ucast a :: u32) = ucast b" and hi: "(ucast (drop_bit 32 a) :: u32) = ucast (drop_bit 32 b)"
    by (metis le_nat_put_le32 word_eq_iff_unsigned)+
  show "a = b"
  proof (rule bit_word_eqI)
    fix n assume n: "n < LENGTH(64)"
    show "bit a n = bit b n"
    proof (cases "n < 32")
      case True
      with arg_cong [OF lo, of "\<lambda>w. bit w n"] show ?thesis by (simp add: bit_simps)
    next
      case False
      with n have "n - 32 < 32" by simp
      with False n arg_cong [OF hi, of "\<lambda>w. bit w (n - 32)"] show ?thesis by (simp add: bit_simps)
    qed
  qed
qed simp

section \<open>Two parties\<close>

text \<open>
  Viewer and host with the two byte streams between them. The transport keeps the order of the
  messages of a direction and is free to delay them; nothing orders the two directions.
\<close>

record duplex =
  dx_viewer :: rd_channel
  dx_host :: rd_channel
  dx_up :: "bytes list"
  dx_down :: "bytes list"
  dx_sent_up :: "bytes list"
  dx_got_up :: "bytes list"
  dx_sent_down :: "bytes list"
  dx_got_down :: "bytes list"
  dx_refused :: bool

definition duplex_start :: "bytes \<Rightarrow> bytes \<Rightarrow> bytes \<Rightarrow> duplex" where
  "duplex_start dh1 dh2 th =
     \<lparr>dx_viewer = rd_hs_keys dh1 dh2 th False, dx_host = rd_hs_keys dh1 dh2 th True, dx_up = [], dx_down = [],
      dx_sent_up = [], dx_got_up = [], dx_sent_down = [], dx_got_down = [], dx_refused = False\<rparr>"

inductive duplex_step :: "alloc \<Rightarrow> duplex \<Rightarrow> duplex \<Rightarrow> bool" for al where
  viewer_send: "rd_channel_seal al (dx_viewer s) m rd_buf_init = (ch, out) \<Longrightarrow>
    duplex_step al s (s\<lparr>dx_viewer := ch, dx_up := dx_up s @ [rb_data out], dx_sent_up := dx_sent_up s @ [m]\<rparr>)"
| host_send: "rd_channel_seal al (dx_host s) m rd_buf_init = (ch, out) \<Longrightarrow>
    duplex_step al s (s\<lparr>dx_host := ch, dx_down := dx_down s @ [rb_data out], dx_sent_down := dx_sent_down s @ [m]\<rparr>)"
| host_recv: "dx_up s = c # rest \<Longrightarrow> rd_channel_open (dx_host s) c = (Some m, ch) \<Longrightarrow>
    duplex_step al s (s\<lparr>dx_host := ch, dx_up := rest, dx_got_up := dx_got_up s @ [m]\<rparr>)"
| host_refuse: "dx_up s = c # rest \<Longrightarrow> rd_channel_open (dx_host s) c = (None, ch) \<Longrightarrow>
    duplex_step al s (s\<lparr>dx_host := ch, dx_up := rest, dx_refused := True\<rparr>)"
| viewer_recv: "dx_down s = c # rest \<Longrightarrow> rd_channel_open (dx_viewer s) c = (Some m, ch) \<Longrightarrow>
    duplex_step al s (s\<lparr>dx_viewer := ch, dx_down := rest, dx_got_down := dx_got_down s @ [m]\<rparr>)"
| viewer_refuse: "dx_down s = c # rest \<Longrightarrow> rd_channel_open (dx_viewer s) c = (None, ch) \<Longrightarrow>
    duplex_step al s (s\<lparr>dx_viewer := ch, dx_down := rest, dx_refused := True\<rparr>)"

definition duplex_inv :: "duplex \<Rightarrow> bool" where
  "duplex_inv s \<longleftrightarrow> \<not> dx_refused s \<and>
     send_key (dx_viewer s) = recv_key (dx_host s) \<and> send_key (dx_host s) = recv_key (dx_viewer s) \<and>
     box.link (send_key (dx_viewer s)) (send_ctr (dx_viewer s)) (recv_ctr (dx_host s)) (dx_up s) (dx_sent_up s) (dx_got_up s) \<and>
     box.link (send_key (dx_host s)) (send_ctr (dx_host s)) (recv_ctr (dx_viewer s)) (dx_down s) (dx_sent_down s) (dx_got_down s)"

lemma duplex_inv_start: "duplex_inv (duplex_start dh1 dh2 th)"
  by (simp add: duplex_inv_def duplex_start_def rd_hs_keys_def Let_def box.link_start)

lemma open_in_order:
  assumes "box.link (recv_key ch) sctr (recv_ctr ch) (c # rest) sent got" "rd_channel_open ch c = (r, ch')"
  shows "\<exists>m. r = Some m \<and> ch' = ch\<lparr>recv_ctr := recv_ctr ch + 1\<rparr> \<and>
    box.link (recv_key ch) sctr (recv_ctr ch + 1) rest sent (got @ [m])"
proof -
  obtain m where m: "rd_aead_open c [] (recv_key ch) (ctr_nonce (recv_ctr ch)) = Some m"
    "box.link (recv_key ch) sctr (recv_ctr ch + 1) rest sent (got @ [m])"
    using box.link_recv [OF assms(1)] by blast
  then have "rd_channel_open ch c = (Some m, ch\<lparr>recv_ctr := recv_ctr ch + 1\<rparr>)"
    by (simp add: rd_channel_open_iff rd_aead_open_iff)
  with assms(2) m(2) show ?thesis by auto
qed

lemma duplex_inv_step:
  assumes al: "no_oom al" and st: "duplex_step al s s'" and inv: "duplex_inv s"
  shows "duplex_inv s'"
  using st
proof cases
  case (viewer_send m ch out)
  then show ?thesis using inv al
    by (auto simp: duplex_inv_def rd_channel_seal_into_empty dest!: grow_data
        intro!: box.link_send simp del: rd_buf_init_def) (simp add: rd_buf_init_def box.link_send)
next
  case (host_send m ch out)
  then show ?thesis using inv al
    by (auto simp: duplex_inv_def rd_channel_seal_into_empty dest!: grow_data
        intro!: box.link_send) (simp add: rd_buf_init_def box.link_send)
next
  case (host_recv c rest m ch)
  with open_in_order [of "dx_host s" "send_ctr (dx_viewer s)" c rest] inv
  show ?thesis by (fastforce simp: duplex_inv_def)
next
  case (host_refuse c rest ch)
  with open_in_order [of "dx_host s" "send_ctr (dx_viewer s)" c rest] inv
  show ?thesis by (fastforce simp: duplex_inv_def)
next
  case (viewer_recv c rest m ch)
  with open_in_order [of "dx_viewer s" "send_ctr (dx_host s)" c rest] inv
  show ?thesis by (fastforce simp: duplex_inv_def)
next
  case (viewer_refuse c rest ch)
  with open_in_order [of "dx_viewer s" "send_ctr (dx_host s)" c rest] inv
  show ?thesis by (fastforce simp: duplex_inv_def)
qed

lemma duplex_inv_reachable:
  "(duplex_step al)\<^sup>*\<^sup>* (duplex_start dh1 dh2 th) s \<Longrightarrow> no_oom al \<Longrightarrow> duplex_inv s"
  by (induction rule: rtranclp_induct) (auto intro: duplex_inv_start duplex_inv_step)

section \<open>Properties\<close>

text \<open>C10: When viewer and host have derived their keys from the same two X25519 results and the same
transcript, every session over a transport that keeps the order of each direction delivers exactly
what was sent: no message is ever refused, and on each side the received messages are the sent ones
in order, without the messages still in flight.\<close>
theorem channel_delivers_in_order:
  assumes "(duplex_step al)\<^sup>*\<^sup>* (duplex_start dh1 dh2 th) s" and "no_oom al"
  shows "\<not> dx_refused s \<and>
    (\<exists>pend. dx_sent_up s = dx_got_up s @ pend \<and> length pend = length (dx_up s)) \<and>
    (\<exists>pend. dx_sent_down s = dx_got_down s @ pend \<and> length pend = length (dx_down s))"
  using duplex_inv_reachable [OF assms] by (auto simp: duplex_inv_def dest: box.link_prefix)

lemma duplex_send_recv:
  assumes "no_oom al" "dx_up s = []" "dx_host s = rd_hs_keys dh1 dh2 th True" "dx_viewer s = rd_hs_keys dh1 dh2 th False"
  shows "\<exists>s'. (duplex_step al)\<^sup>*\<^sup>* s s' \<and> dx_up s' = [] \<and> dx_sent_up s' = dx_sent_up s @ [m] \<and> dx_got_up s' = dx_got_up s @ [m]"
proof -
  obtain ch out where o: "rd_channel_seal al (dx_viewer s) m rd_buf_init = (ch, out)" by fastforce
  with assms have c: "rb_data out = rd_aead_seal m [] (send_key (dx_viewer s)) (ctr_nonce (send_ctr (dx_viewer s)))"
    by (auto simp: rd_channel_seal_into_empty dest!: grow_data) (simp add: rd_buf_init_def)
  define t where "t = s\<lparr>dx_viewer := ch, dx_up := dx_up s @ [rb_data out], dx_sent_up := dx_sent_up s @ [m]\<rparr>"
  have 1: "duplex_step al s t" unfolding t_def by (rule viewer_send [OF o])
  obtain ch' where 2: "rd_channel_open (dx_host t) (rb_data out) = (Some m, ch')"
    using c assms(3,4) by (auto simp: t_def rd_channel_open_iff rd_hs_keys_def Let_def)
  have "duplex_step al t (t\<lparr>dx_host := ch', dx_up := [], dx_got_up := dx_got_up t @ [m]\<rparr>)"
    by (rule host_recv [OF _ 2]) (simp add: t_def assms(2))
  then have "(duplex_step al)\<^sup>*\<^sup>* s (t\<lparr>dx_host := ch', dx_up := [], dx_got_up := dx_got_up t @ [m]\<rparr>)"
    using 1 by (meson converse_rtranclp_into_rtranclp r_into_rtranclp)
  moreover have "dx_up (t\<lparr>dx_host := ch', dx_up := [], dx_got_up := dx_got_up t @ [m]\<rparr>) = []"
    "dx_sent_up (t\<lparr>dx_host := ch', dx_up := [], dx_got_up := dx_got_up t @ [m]\<rparr>) = dx_sent_up s @ [m]"
    "dx_got_up (t\<lparr>dx_host := ch', dx_up := [], dx_got_up := dx_got_up t @ [m]\<rparr>) = dx_got_up s @ [m]"
    by (simp_all add: t_def)
  ultimately show ?thesis by blast
qed

theorem channel_delivers_in_order_witness:
  "\<exists>s. (duplex_step (\<lambda>n. True))\<^sup>*\<^sup>* (duplex_start [1] [2] [3]) s \<and> \<not> dx_refused s \<and>
     dx_got_up s = [[7, 8]] \<and> dx_sent_up s = dx_got_up s @ []"
proof -
  obtain s where s: "(duplex_step (\<lambda>n. True))\<^sup>*\<^sup>* (duplex_start [1] [2] [3]) s" "dx_up s = []" "dx_got_up s = [[7, 8]]"
    using duplex_send_recv [of "\<lambda>n. True" "duplex_start [1] [2] [3]" "[1]" "[2]" "[3]" "[7, 8]"]
    by (auto simp: duplex_start_def)
  from channel_delivers_in_order [OF s(1)] s show ?thesis by auto
qed

text \<open>Whatever bytes arrive, the channel opens them, and to the message m, exactly when they are m
sealed under the receiving key with the nonce of the current counter; then the counter advances.
Anything else, a replayed, reordered, forged or short input included, is refused and leaves the
channel as it was. Nonces of different counters differ, so no nonce is used twice before 2^64
messages.\<close>
theorem rd_channel_open_exact:
  "(rd_channel_open ch c = (Some m, ch') \<longleftrightarrow>
     c = rd_aead_seal m [] (recv_key ch) (ctr_nonce (recv_ctr ch)) \<and> ch' = ch\<lparr>recv_ctr := recv_ctr ch + 1\<rparr>) \<and>
   (rd_channel_open ch c = (None, ch') \<longleftrightarrow>
     c \<notin> range (\<lambda>m. rd_aead_seal m [] (recv_key ch) (ctr_nonce (recv_ctr ch))) \<and> ch' = ch) \<and>
   inj ctr_nonce"
proof -
  have "fst (rd_channel_open ch c) = None \<longrightarrow> snd (rd_channel_open ch c) = ch"
    by (auto simp: rd_channel_open_def split: option.splits)
  moreover have "fst (rd_channel_open ch c) \<noteq> None \<longleftrightarrow>
      c \<in> range (\<lambda>m. rd_aead_seal m [] (recv_key ch) (ctr_nonce (recv_ctr ch)))"
  proof -
    have "fst (rd_channel_open ch c) = Some x \<longleftrightarrow>
        c = rd_aead_seal x [] (recv_key ch) (ctr_nonce (recv_ctr ch))" for x
    proof
      assume "fst (rd_channel_open ch c) = Some x"
      then have "rd_channel_open ch c = (Some x, snd (rd_channel_open ch c))" by (simp add: prod_eq_iff)
      then show "c = rd_aead_seal x [] (recv_key ch) (ctr_nonce (recv_ctr ch))"
        unfolding rd_channel_open_iff ..
    next
      assume "c = rd_aead_seal x [] (recv_key ch) (ctr_nonce (recv_ctr ch))"
      then have "rd_channel_open ch c = (Some x, ch\<lparr>recv_ctr := recv_ctr ch + 1\<rparr>)"
        unfolding rd_channel_open_iff by simp
      then show "fst (rd_channel_open ch c) = Some x" by simp
    qed
    then show ?thesis by auto
  qed
  ultimately show ?thesis
    by (cases "rd_channel_open ch c") (auto simp: rd_channel_open_iff ctr_nonce_inject box.seal_inject intro: injI)
qed

end
