(* ===== verification/Rd_X25519.thy ===== *)
theory Rd_X25519
  imports Rd_Aead
begin

text \<open>
  X25519 of \<open>common/rd_secure.c\<close>: field arithmetic on 16 limbs of 16 bits held in \<open>int64_t\<close>, and the
  Montgomery ladder. A \<open>gf\<close> is a list of 16 integers; \<open>>>\<close> on a negative \<open>int64_t\<close> is the arithmetic
  shift every supported compiler uses, \<open>drop_bit\<close> on \<open>int\<close>. The operations work in place there and
  return their result here.
\<close>

section \<open>Field operations\<close>

type_synonym gf = "int list"

definition gf_k121665 :: gf where
  "gf_k121665 = [0xDB41, 1] @ replicate 14 0"

definition car_step :: "nat \<Rightarrow> gf \<Rightarrow> gf" where
  "car_step i o0 =
     (let o1 = o0[i := o0 ! i + 65536];
          c = drop_bit 16 (o1 ! i);
          k = (if i < 15 then i + 1 else 0);
          o2 = o1[k := o1 ! k + (c - 1 + (if i = 15 then 37 * (c - 1) else 0))]
      in o2[i := o2 ! i - c * 65536])"

definition car25519 :: "gf \<Rightarrow> gf" where
  "car25519 t = fold car_step [0..<16] t"

definition sel25519 :: "gf \<Rightarrow> gf \<Rightarrow> int \<Rightarrow> gf \<times> gf" where
  "sel25519 p q b =
     (let c = NOT (b - 1);
          t = map (\<lambda>i. c AND (p ! i XOR q ! i)) [0..<16]
      in (map (\<lambda>i. p ! i XOR t ! i) [0..<16], map (\<lambda>i. q ! i XOR t ! i) [0..<16]))"

text \<open>The loop that subtracts 2^255 - 19: the borrow chain from limb 1 to limb 14.\<close>

definition sub_step :: "gf \<Rightarrow> nat \<Rightarrow> gf \<Rightarrow> gf" where
  "sub_step t i m =
     (let m1 = m[i := t ! i - 0xffff - (drop_bit 16 (m ! (i - 1)) AND 1)]
      in m1[i - 1 := m1 ! (i - 1) AND 0xffff])"

definition pack_try :: "gf \<Rightarrow> gf" where
  "pack_try t =
     (let m = (replicate 16 0)[0 := t ! 0 - 0xffed];
          m = fold (sub_step t) [1..<15] m;
          m = m[15 := t ! 15 - 0x7fff - (drop_bit 16 (m ! 14) AND 1)];
          b = drop_bit 16 (m ! 15) AND 1;
          m = m[14 := m ! 14 AND 0xffff]
      in fst (sel25519 t m (1 - b)))"

definition gf_bytes :: "gf \<Rightarrow> bytes" where
  "gf_bytes t = concat (map (\<lambda>i. [of_int (t ! i AND 0xff), of_int (drop_bit 8 (t ! i))]) [0..<16])"

definition pack25519 :: "gf \<Rightarrow> bytes" where
  "pack25519 n = gf_bytes (pack_try (pack_try (car25519 (car25519 (car25519 n)))))"

definition unpack25519 :: "bytes \<Rightarrow> gf" where
  "unpack25519 n =
     (let t = map (\<lambda>i. int (unat (n ! (2 * i))) + push_bit 8 (int (unat (n ! (2 * i + 1))))) [0..<16]
      in t[15 := t ! 15 AND 0x7fff])"

definition fadd :: "gf \<Rightarrow> gf \<Rightarrow> gf" where
  "fadd a b = map (\<lambda>i. a ! i + b ! i) [0..<16]"

definition fsub :: "gf \<Rightarrow> gf \<Rightarrow> gf" where
  "fsub a b = map (\<lambda>i. a ! i - b ! i) [0..<16]"

text \<open>The double loop \<open>t[i + j] += a[i] * b[j]\<close>, then the fold of the upper limbs with 38.\<close>

definition mul_products :: "gf \<Rightarrow> gf \<Rightarrow> int list" where
  "mul_products a b =
     fold (\<lambda>i t. fold (\<lambda>j t. t[i + j := t ! (i + j) + a ! i * b ! j]) [0..<16] t) [0..<16] (replicate 31 0)"

definition mul_fold :: "int list \<Rightarrow> gf" where
  "mul_fold t = take 16 (fold (\<lambda>i t. t[i := t ! i + 38 * t ! (i + 16)]) [0..<15] t)"

definition fmul :: "gf \<Rightarrow> gf \<Rightarrow> gf" where
  "fmul a b = car25519 (car25519 (mul_fold (mul_products a b)))"

definition fsq :: "gf \<Rightarrow> gf" where
  "fsq a = fmul a a"

definition inv25519 :: "gf \<Rightarrow> gf" where
  "inv25519 i = fold (\<lambda>a c. let c = fsq c in if a \<noteq> 2 \<and> a \<noteq> 4 then fmul c i else c) (rev [0..<254]) i"

section \<open>The ladder\<close>

type_synonym ladder = "gf \<times> gf \<times> gf \<times> gf"

definition clamp :: "bytes \<Rightarrow> bytes" where
  "clamp n = (let z = n[31 := (n ! 31 AND 127) OR 64] in z[0 := z ! 0 AND 248])"

definition scalar_bit :: "bytes \<Rightarrow> nat \<Rightarrow> int" where
  "scalar_bit z i = uint (drop_bit (i mod 8) (z ! (i div 8)) AND 1)"

definition ladder_step :: "bytes \<Rightarrow> gf \<Rightarrow> nat \<Rightarrow> ladder \<Rightarrow> ladder" where
  "ladder_step z x i s =
     (let (a, b, c, d) = s;
          r = scalar_bit z i;
          (a, b) = sel25519 a b r;
          (c, d) = sel25519 c d r;
          e = fadd a c;
          a = fsub a c;
          c = fadd b d;
          b = fsub b d;
          d = fsq e;
          f = fsq a;
          a = fmul c a;
          c = fmul b e;
          e = fadd a c;
          a = fsub a c;
          b = fsq a;
          c = fsub d f;
          a = fmul c gf_k121665;
          a = fadd a d;
          c = fmul c a;
          a = fmul d f;
          d = fmul b x;
          b = fsq e;
          (a, b) = sel25519 a b r;
          (c, d) = sel25519 c d r
      in (a, b, c, d))"

text \<open>The result is \<open>q\<close>, or \<open>None\<close> for the return value -1 (an all-zero result).\<close>

definition x25519_out :: "bytes \<Rightarrow> bytes \<Rightarrow> bytes" where
  "x25519_out n p =
     (let z = clamp n;
          x = unpack25519 p;
          one = 1 # replicate 15 0;
          zero = replicate 16 0;
          (a, b, c, d) = fold (ladder_step z x) (rev [0..<255]) (one, x, zero, one);
          c = inv25519 c;
          a = fmul a c
      in pack25519 a)"

definition rd_x25519 :: "bytes \<Rightarrow> bytes \<Rightarrow> bytes option" where
  "rd_x25519 n p =
     (let q = x25519_out n p; acc = fold (\<lambda>i acc. acc OR q ! i) [0..<32] (0 :: u8)
      in if acc \<noteq> 0 then Some q else None)"

definition rd_x25519_base :: "bytes \<Rightarrow> bytes" where
  "rd_x25519_base scalar = x25519_out scalar (9 # replicate 31 0)"

text \<open>\<open>rnd\<close> is what \<open>rd_random\<close> returns: the bytes, or nothing when the generator fails.\<close>

definition rd_x25519_keypair :: "bytes option \<Rightarrow> (bytes \<times> bytes) option" where
  "rd_x25519_keypair rnd = map_option (\<lambda>priv. (priv, rd_x25519_base priv)) rnd"

end
