(* ===== verification/X25519_Field.thy ===== *)
theory X25519_Field
  imports Rd_X25519
begin

text \<open>
  What the limb arithmetic of \<open>common/rd_secure.c\<close> computes: the value of a list of limbs, carrying as
  division with remainder, multiplication modulo \<open>p = 2^255 - 19\<close>, packing as reduction to the least
  residue, and the bounds under which no \<open>int64_t\<close> overflows.
\<close>

section \<open>Values\<close>

primrec gf_val :: "gf \<Rightarrow> int" where
  "gf_val [] = 0"
| "gf_val (x # xs) = x + 65536 * gf_val xs"

lemma gf_val_append: "gf_val (xs @ ys) = gf_val xs + 65536 ^ length xs * gf_val ys"
  by (induction xs) (simp_all add: algebra_simps)

lemma gf_val_update: "i < length xs \<Longrightarrow> gf_val (xs[i := v]) = gf_val xs + (v - xs ! i) * 65536 ^ i"
proof (induction xs arbitrary: i)
  case (Cons x xs)
  show ?case
  proof (cases i)
    case (Suc j)
    with Cons have "gf_val (xs[j := v]) = gf_val xs + (v - xs ! j) * 65536 ^ j" by simp
    then show ?thesis by (simp add: Suc algebra_simps)
  qed simp
qed simp

lemma gf_val_replicate_0 [simp]: "gf_val (replicate n 0) = 0"
  by (induction n) simp_all

text \<open>The digits of a value, least significant first.\<close>

definition limbs :: "nat \<Rightarrow> int \<Rightarrow> gf" where
  "limbs n v = map (\<lambda>i. v div 65536 ^ i mod 65536) [0..<n]"

lemma length_limbs [simp]: "length (limbs n v) = n"
  by (simp add: limbs_def)

lemma limbs_Suc: "limbs (Suc n) v = limbs n v @ [v div 65536 ^ n mod 65536]"
  by (simp add: limbs_def)

lemma gf_val_limbs: "gf_val (limbs n v) = v mod 65536 ^ n"
proof (induction n)
  case (Suc n)
  have "v mod (65536 ^ n * 65536) = 65536 ^ n * (v div 65536 ^ n mod 65536) + v mod 65536 ^ n"
    by (rule zmod_zmult2_eq) simp
  then show ?case by (simp add: limbs_Suc gf_val_append Suc mult.commute)
qed (simp add: limbs_def)

lemma car_step_inner:
  assumes "length ds = k" "k < 15"
  shows "car_step k (ds @ x # y # r) = ds @ x mod 65536 # (y + x div 65536) # r"
proof -
  have "drop_bit 16 (x + 65536) = x div 65536 + 1" by (simp add: drop_bit_eq_div)
  then show ?thesis
    using assms unfolding car_step_def Let_def
    by (simp add: list_update_append nth_append minus_div_mult_eq_mod [symmetric])
qed

lemma car_steps:
  assumes "length t = 16" "k \<le> 15"
  shows "\<exists>r. fold car_step [0..<k] t = limbs k (gf_val t) @ r \<and> length r = 16 - k \<and> gf_val r = gf_val t div 65536 ^ k"
  using assms(2)
proof (induction k)
  case 0
  then show ?case by (intro exI [of _ t]) (simp add: limbs_def assms)
next
  case (Suc k)
  then obtain r where r: "fold car_step [0..<k] t = limbs k (gf_val t) @ r" "length r = 16 - k"
    "gf_val r = gf_val t div 65536 ^ k"
    by auto
  then obtain x y s where s: "r = x # y # s" using Suc.prems by (cases r; cases "tl r") auto
  let ?v = "gf_val t div 65536 ^ k"
  have v: "?v = x + 65536 * (y + 65536 * gf_val s)" using r(3) s by simp
  have split: "(x + 65536 * z) mod 65536 = x mod 65536" "(x + 65536 * z) div 65536 = z + x div 65536" for z
    by simp_all
  have "x mod 65536 = ?v mod 65536" "(y + 65536 * gf_val s) + x div 65536 = ?v div 65536"
    using split [of "y + 65536 * gf_val s"] by (simp_all only: v)
  moreover have "?v div 65536 = gf_val t div 65536 ^ Suc k"
    by (simp add: zdiv_zmult2_eq [symmetric] mult.commute)
  moreover have "fold car_step [0..<Suc k] t = car_step k (limbs k (gf_val t) @ x # y # s)"
    using r(1) s by simp
  ultimately show ?case
    using r(2) s Suc.prems
    by (intro exI [of _ "(y + x div 65536) # s"]) (simp add: car_step_inner limbs_Suc)
qed

lemma car25519_limbs:
  assumes "length t = 16"
  shows "car25519 t = (limbs 16 (gf_val t))[0 := gf_val t mod 65536 + 38 * (gf_val t div 2 ^ 256)]"
proof -
  obtain r where r: "fold car_step [0..<15] t = limbs 15 (gf_val t) @ r" "length r = 1"
    "gf_val r = gf_val t div 65536 ^ 15"
    using car_steps [OF assms, of 15] by auto
  then obtain x where x: "r = [x]" by (cases r) auto
  have "[0..<16] = [0..<15] @ [15::nat]" by (simp add: upt_rec)
  then have "car25519 t = car_step 15 (limbs 15 (gf_val t) @ [x])"
    using r(1) x by (simp add: car25519_def)
  moreover obtain a ds where a: "limbs 15 (gf_val t) = a # ds" "length ds = 14" "a = gf_val t mod 65536"
    by (simp add: limbs_def upt_rec)
  moreover have "drop_bit 16 (x + 65536) = x div 65536 + 1" by (simp add: drop_bit_eq_div)
  moreover have "x div 65536 = gf_val t div 2 ^ 256" "x = gf_val t div 65536 ^ 15"
    using r(3) x by (simp_all add: zdiv_zmult2_eq [symmetric])
  ultimately show ?thesis
    using limbs_Suc [of 15 "gf_val t"]
    by (simp add: car_step_def Let_def nth_append list_update_append minus_div_mult_eq_mod [symmetric])
qed


section \<open>Residues\<close>

definition P25519 :: int where
  "P25519 = 2 ^ 255 - 19"

lemma P25519_pos [simp]: "0 < P25519"
  by (simp add: P25519_def)

lemma gf_val_car25519:
  assumes "length t = 16"
  shows "gf_val (car25519 t) = gf_val t mod 2 ^ 256 + 38 * (gf_val t div 2 ^ 256)"
proof -
  have "limbs 16 (gf_val t) ! 0 = gf_val t mod 65536" by (simp add: limbs_def)
  then show ?thesis by (simp add: car25519_limbs assms gf_val_update gf_val_limbs)
qed

lemma length_car25519 [simp]: "length t = 16 \<Longrightarrow> length (car25519 t) = 16"
  by (simp add: car25519_limbs)

lemma mod_P_fold: "(x + 38 * y) mod P25519 = (x + 2 ^ 256 * y) mod P25519"
proof -
  have "x + 2 ^ 256 * y = x + 38 * y + P25519 * (2 * y)" by (simp add: P25519_def)
  then show ?thesis by (simp only: mod_mult_self2)
qed

lemma car25519_mod: "length t = 16 \<Longrightarrow> gf_val (car25519 t) mod P25519 = gf_val t mod P25519"
  unfolding gf_val_car25519 mod_P_fold by (simp only: mod_mult_div_eq)

lemma gf_val_take_Suc: "k < length b \<Longrightarrow> gf_val (take (Suc k) b) = gf_val (take k b) + b ! k * 65536 ^ k"
  by (simp add: take_Suc_conv_app_nth gf_val_append)

lemma mul_row:
  assumes "length b = 16" "length t = 31" "i < 16" "k \<le> 16"
  shows "gf_val (fold (\<lambda>j t. t[i + j := t ! (i + j) + x * b ! j]) [0..<k] t) = gf_val t + x * 65536 ^ i * gf_val (take k b) \<and>
         length (fold (\<lambda>j t. t[i + j := t ! (i + j) + x * b ! j]) [0..<k] t) = 31"
  using assms(4)
proof (induction k)
  case (Suc k)
  then show ?case using assms(1-3) by (simp add: gf_val_update gf_val_take_Suc algebra_simps power_add)
qed (simp add: assms)

lemma mul_rows:
  assumes "length b = 16" "length a = 16" "k \<le> 16"
  shows "gf_val (fold (\<lambda>i t. fold (\<lambda>j t. t[i + j := t ! (i + j) + a ! i * b ! j]) [0..<16] t) [0..<k] (replicate 31 0))
           = gf_val (take k a) * gf_val b \<and>
         length (fold (\<lambda>i t. fold (\<lambda>j t. t[i + j := t ! (i + j) + a ! i * b ! j]) [0..<16] t) [0..<k] (replicate 31 0)) = 31"
  using assms(3)
proof (induction k)
  case (Suc k)
  then show ?case
    using mul_row [OF assms(1), of "fold (\<lambda>i t. fold (\<lambda>j t. t[i + j := t ! (i + j) + a ! i * b ! j]) [0..<16] t) [0..<k] (replicate 31 0)" k 16 "a ! k"] assms(1,2)
    by (simp add: gf_val_take_Suc algebra_simps)
qed simp

lemma mul_products_val:
  assumes "length a = 16" "length b = 16"
  shows "gf_val (mul_products a b) = gf_val a * gf_val b" "length (mul_products a b) = 31"
  using mul_rows [OF assms(2,1), of 16] assms by (simp_all add: mul_products_def)

lemma mul_fold_steps:
  assumes "length t = 31" "k \<le> 15"
  shows "fold (\<lambda>i t. t[i := t ! i + 38 * t ! (i + 16)]) [0..<k] t
         = map (\<lambda>i. if i < k then t ! i + 38 * t ! (i + 16) else t ! i) [0..<31]"
  using assms(2)
proof (induction k)
  case 0
  show ?case using assms by (intro nth_equalityI) simp_all
next
  case (Suc k)
  then have "k < 15" by simp
  then show ?case using Suc by (intro nth_equalityI) (auto simp: nth_list_update)
qed

lemma length_mul_fold [simp]: "length t = 31 \<Longrightarrow> length (mul_fold t) = 16"
  by (simp add: mul_fold_def mul_fold_steps)

lemma gf_val_add: "length a = length b \<Longrightarrow> gf_val (map2 (+) a b) = gf_val a + gf_val b"
  by (induction a b rule: list_induct2) simp_all

lemma gf_val_scale: "gf_val (map ((*) c) a) = c * gf_val a"
  by (induction a) (simp_all add: algebra_simps)

lemma mul_fold_val:
  assumes "length t = 31"
  shows "gf_val (mul_fold t) = gf_val (take 16 t) + 38 * gf_val (drop 16 t)"
proof -
  have "mul_fold t = map2 (+) (take 16 t) (map ((*) 38) (drop 16 t @ [0]))"
    using assms by (intro nth_equalityI) (auto simp: mul_fold_def mul_fold_steps nth_append add.commute)
  then show ?thesis using assms by (simp add: gf_val_add gf_val_scale gf_val_append)
qed

lemma fmul_mod:
  assumes "length a = 16" "length b = 16"
  shows "gf_val (fmul a b) mod P25519 = gf_val a * gf_val b mod P25519" "length (fmul a b) = 16"
proof -
  define t where "t = mul_products a b"
  have t: "length t = 31" "gf_val t = gf_val a * gf_val b" using mul_products_val assms by (simp_all add: t_def)
  have "gf_val t = gf_val (take 16 t) + 2 ^ 256 * gf_val (drop 16 t)"
    using gf_val_append [of "take 16 t" "drop 16 t"] t(1) by simp
  then show "gf_val (fmul a b) mod P25519 = gf_val a * gf_val b mod P25519"
    using t by (simp only: fmul_def t_def [symmetric] car25519_mod length_mul_fold length_car25519 mul_fold_val mod_P_fold)
  show "length (fmul a b) = 16" using t by (simp add: fmul_def t_def)
qed

section \<open>Packing\<close>

lemma two_carries:
  fixes v :: int
  defines "f \<equiv> \<lambda>v :: int. v mod 2 ^ 256 + 38 * (v div 2 ^ 256)"
  assumes "\<bar>v\<bar> < 2 ^ 400"
  shows "0 \<le> f (f v) \<and> f (f v) < 2 ^ 256"
proof -
  define q where "q = v div 2 ^ 256"
  have "v div 2 ^ 256 \<le> 2 ^ 400 div 2 ^ 256" "- (2 ^ 400) div 2 ^ 256 \<le> v div 2 ^ 256"
    using assms(2) by (intro zdiv_mono1; simp)+
  then have q: "\<bar>q\<bar> \<le> 2 ^ 144" by (simp add: q_def)
  define w where "w = f v"
  have "0 \<le> v mod 2 ^ 256" "v mod 2 ^ 256 < 2 ^ 256" by simp_all
  then have w: "- (2 ^ 150) \<le> w" "w < 2 ^ 256 + 2 ^ 150" using q unfolding w_def f_def q_def[symmetric] by simp_all
  have ff: "f (f v) = w mod 2 ^ 256 + 38 * (w div 2 ^ 256)" by (simp add: f_def w_def)
  consider "w < 0" | "0 \<le> w" "w < 2 ^ 256" | "2 ^ 256 \<le> w" by linarith
  then show ?thesis
  proof cases
    case 1
    then have "w div 2 ^ 256 = - 1" using w by (intro int_div_pos_eq [of _ _ _ "w + 2 ^ 256"]) simp_all
    moreover have "w mod 2 ^ 256 = w + 2 ^ 256" using 1 w by (intro int_mod_pos_eq [of _ _ "-1"]) simp_all
    ultimately show ?thesis using 1 w by (simp add: ff)
  next
    case 2
    then show ?thesis by (simp add: ff)
  next
    case 3
    then have "w div 2 ^ 256 = 1" using w by (intro int_div_pos_eq [of _ _ _ "w - 2 ^ 256"]) simp_all
    moreover have "w mod 2 ^ 256 = w - 2 ^ 256" using 3 w by (intro int_mod_pos_eq [of _ _ "1"]) simp_all
    ultimately show ?thesis using 3 w by (simp add: ff)
  qed
qed

lemma car25519_reduced:
  assumes "length t = 16" "0 \<le> gf_val t" "gf_val t < 2 ^ 256"
  shows "car25519 t = limbs 16 (gf_val t)"
proof -
  have "gf_val t div 2 ^ 256 = 0" "limbs 16 (gf_val t) ! 0 = gf_val t mod 65536"
    using assms(2,3) by (simp_all add: limbs_def div_pos_pos_trivial)
  then show ?thesis
    using list_update_id [of "limbs 16 (gf_val t)" 0] by (simp add: car25519_limbs assms(1))
qed

lemma three_carries:
  assumes "length t = 16" "\<bar>gf_val t\<bar> < 2 ^ 400"
  obtains w where "car25519 (car25519 (car25519 t)) = limbs 16 w" "0 \<le> w" "w < 2 ^ 256"
    "w mod P25519 = gf_val t mod P25519"
proof -
  define u where "u = car25519 (car25519 t)"
  have "length u = 16" "gf_val u mod P25519 = gf_val t mod P25519"
    using assms(1) by (simp_all add: u_def car25519_mod)
  moreover have "0 \<le> gf_val u" "gf_val u < 2 ^ 256"
    using two_carries [OF assms(2)] assms(1) by (simp_all add: u_def gf_val_car25519)
  ultimately show thesis using that [of "gf_val u"] car25519_reduced [of u] by (simp add: u_def)
qed

lemma limbs_cong:
  assumes "x mod 65536 ^ n = y mod 65536 ^ n" "m \<le> n"
  shows "limbs m x = limbs m y"
proof -
  have "z div 65536 ^ i mod 65536 = z mod 65536 ^ n mod 65536 ^ Suc i div 65536 ^ i" if "i < n" for z :: int and i
  proof -
    have "z mod (65536 ^ i * 65536) = 65536 ^ i * (z div 65536 ^ i mod 65536) + z mod 65536 ^ i"
      by (rule zmod_zmult2_eq) simp
    then have "z mod 65536 ^ Suc i div 65536 ^ i = z div 65536 ^ i mod 65536"
      by (simp add: mult.commute)
    moreover have "(65536 :: int) ^ Suc i dvd 65536 ^ n" using that by (intro le_imp_power_dvd) simp
    ultimately show ?thesis by (simp only: mod_mod_cancel)
  qed
  then show ?thesis using assms by (simp add: limbs_def)
qed

lemma sel25519_swap:
  assumes "length p = 16" "length q = 16" "r = 0 \<or> r = 1"
  shows "sel25519 p q r = (if r = 1 then (q, p) else (p, q))"
proof -
  have "p ! i XOR (p ! i XOR q ! i) = q ! i" "q ! i XOR (p ! i XOR q ! i) = p ! i" for i
    by (simp_all add: xor.left_commute)
  then show ?thesis using assms by (auto simp: sel25519_def Let_def intro!: nth_equalityI)
qed

lemma borrow_bit: "- 65536 \<le> h \<Longrightarrow> h < 65536 \<Longrightarrow> drop_bit 16 h AND 1 = - (h div 65536)" for h :: int
proof -
  assume h: "- 65536 \<le> h" "h < 65536"
  then have "h div 65536 = 0 \<or> h div 65536 = - 1" by linarith
  then show ?thesis by (auto simp: drop_bit_eq_div)
qed

lemma and_ffff: "h AND 0xffff = h mod 65536" for h :: int
  using take_bit_eq_mask [of 16 h] by (simp add: take_bit_eq_mod mask_eq_exp_minus_1)

lemma P25519_limbs: "limbs 16 P25519 = 0xffed # replicate 14 0xffff @ [0x7fff]"
  by (simp add: limbs_def P25519_def upt_rec numeral_eq_Suc replicate_def)

lemma P25519_limb: "1 \<le> k \<Longrightarrow> k < 15 \<Longrightarrow> P25519 div 65536 ^ k mod 65536 = 0xffff"
proof -
  assume k: "1 \<le> k" "k < 15"
  then have "P25519 div 65536 ^ k mod 65536 = limbs 16 P25519 ! k" by (simp add: limbs_def)
  then show ?thesis using k by (auto simp: P25519_limbs nth_Cons nth_append split: nat.split)
qed

text \<open>After limb \<open>k - 1\<close> the loop holds the difference of the lower parts, its last limb signed.\<close>

definition part_diff :: "int \<Rightarrow> nat \<Rightarrow> int" where
  "part_diff w k = w mod 65536 ^ k - P25519 mod 65536 ^ k"

lemma mod_power_Suc: "v mod 65536 ^ Suc k = v div 65536 ^ k mod 65536 * 65536 ^ k + v mod 65536 ^ k" for v :: int
proof -
  have "v mod (65536 ^ k * 65536) = 65536 ^ k * (v div 65536 ^ k mod 65536) + v mod 65536 ^ k"
    by (rule zmod_zmult2_eq) simp
  then show ?thesis by (simp add: mult.commute)
qed

lemma part_diff_Suc:
  "part_diff w (Suc k) = (w div 65536 ^ k mod 65536 - P25519 div 65536 ^ k mod 65536) * 65536 ^ k + part_diff w k"
  unfolding part_diff_def mod_power_Suc by (simp add: algebra_simps)

lemma part_diff_div: "part_diff w (Suc k) div 65536 ^ k =
    w div 65536 ^ k mod 65536 - P25519 div 65536 ^ k mod 65536 + part_diff w k div 65536 ^ k"
  unfolding part_diff_Suc by simp

lemma part_diff_bounds: "- (65536 ^ k) < part_diff w k" "part_diff w k < 65536 ^ k"
proof -
  have "0 \<le> w mod 65536 ^ k" "w mod 65536 ^ k < 65536 ^ k" "0 \<le> P25519 mod 65536 ^ k" "P25519 mod 65536 ^ k < 65536 ^ k"
    by simp_all
  then show "- (65536 ^ k) < part_diff w k" "part_diff w k < 65536 ^ k" unfolding part_diff_def by linarith+
qed

lemma part_diff_limb: "- 65536 \<le> part_diff w (Suc k) div 65536 ^ k \<and> part_diff w (Suc k) div 65536 ^ k < 65536"
proof -
  have "(- 65536) * 65536 ^ k \<le> part_diff w (Suc k)" using part_diff_bounds(1) [of "Suc k" w] by simp
  then have "(- 65536) * 65536 ^ k div 65536 ^ k \<le> part_diff w (Suc k) div 65536 ^ k" by (rule zdiv_mono1) simp
  moreover have "(- 65536) * 65536 ^ k div 65536 ^ k = (- 65536 :: int)" by (rule nonzero_mult_div_cancel_right) simp
  ultimately have "- 65536 \<le> part_diff w (Suc k) div 65536 ^ k" by (simp only:)
  moreover have "part_diff w (Suc k) div 65536 ^ k * 65536 ^ k \<le> part_diff w (Suc k)"
    by (simp add: minus_mod_eq_div_mult [symmetric])
  then have "part_diff w (Suc k) div 65536 ^ k * 65536 ^ k < 65536 * 65536 ^ k"
    by (rule le_less_trans) (use part_diff_bounds(2) [of w "Suc k"] in simp)
  then have "part_diff w (Suc k) div 65536 ^ k < 65536" by (rule mult_right_less_imp_less) simp
  ultimately show ?thesis by simp
qed

lemma part_diff_mod: "part_diff w (Suc k) mod 65536 ^ k = part_diff w k mod 65536 ^ k"
  unfolding part_diff_Suc by simp

lemma sub_steps:
  assumes "1 \<le> k" "k \<le> 15"
  shows "fold (sub_step (limbs 16 w)) [1..<k] ((replicate 16 0)[0 := limbs 16 w ! 0 - 0xffed])
         = limbs (k - 1) (part_diff w k) @ (part_diff w k div 65536 ^ (k - 1)) # replicate (16 - k) 0"
  using assms
proof (induction k rule: nat_induct_at_least)
  case base
  have "P25519 mod 65536 = 0xffed" by (simp add: P25519_def)
  then show ?case by (simp add: limbs_def part_diff_def numeral_eq_Suc)
next
  case (Suc k)
  then obtain j where j: "k = Suc j" by (cases k) auto
  let ?h = "part_diff w k div 65536 ^ j"
  have h: "- 65536 \<le> ?h" "?h < 65536" using part_diff_limb [of w j] by (simp_all add: j)
  have "?h div 65536 = part_diff w k div 65536 ^ k" by (simp add: j zdiv_zmult2_eq [symmetric] mult.commute)
  then have borrow: "limbs 16 w ! k - 0xffff - (drop_bit 16 ?h AND 1) = part_diff w (Suc k) div 65536 ^ k"
    using Suc.prems Suc.hyps by (simp add: borrow_bit [OF h] part_diff_div P25519_limb) (simp add: limbs_def)
  have low: "limbs j (part_diff w k) @ [?h mod 65536] = limbs k (part_diff w (Suc k))"
    using limbs_cong [OF part_diff_mod [of w k], of k] by (simp add: j limbs_Suc)
  obtain n where n: "16 - k = Suc n" "15 - k = n" using Suc.prems that [of "15 - k"] by simp
  have "fold (sub_step (limbs 16 w)) [1..<Suc k] ((replicate 16 0)[0 := limbs 16 w ! 0 - 0xffed])
      = sub_step (limbs 16 w) k (limbs j (part_diff w k) @ ?h # replicate (16 - k) 0)"
    using Suc by (simp add: j)
  also have "\<dots> = limbs j (part_diff w k) @ (?h mod 65536) # (part_diff w (Suc k) div 65536 ^ k) # replicate (15 - k) 0"
    using Suc.prems borrow n
    by (simp add: sub_step_def Let_def j nth_append list_update_append and_ffff Suc_diff_le)
  finally show ?case using low Suc.prems by (simp add: j)
qed


lemma nth_nat_limbs: "i < n \<Longrightarrow> limbs n w ! i = w div 65536 ^ i mod 65536"
  by (simp add: limbs_def)

lemma mod_pow16: "0 \<le> w \<Longrightarrow> w < 2 ^ 256 \<Longrightarrow> w mod 65536 ^ 16 = w" for w :: int
  by simp

lemma pack_try_limbs:
  assumes "0 \<le> w" "w < 2 ^ 256"
  shows "pack_try (limbs 16 w) = limbs 16 (if P25519 \<le> w then w - P25519 else w)"
proof -
  define d where "d = w - P25519"
  define h where "h = part_diff w 15 div 65536 ^ 14"
  have d: "part_diff w 16 = d" using assms by (simp add: part_diff_def d_def P25519_def)
  have h: "- 65536 \<le> h" "h < 65536" using part_diff_limb [of w 14] by (simp_all add: h_def)
  have "h div 65536 = part_diff w 15 div 65536 ^ 15" by (simp add: h_def zdiv_zmult2_eq [symmetric])
  moreover have "P25519 div 65536 ^ 15 mod 65536 = 0x7fff" by (simp add: P25519_def)
  moreover have "limbs 16 w ! 15 = w div 65536 ^ 15 mod 65536" by (rule nth_nat_limbs) simp
  moreover have "part_diff w (Suc 15) = d" using d by simp
  ultimately have top: "limbs 16 w ! 15 - 0x7fff - (drop_bit 16 h AND 1) = d div 65536 ^ 15"
    using part_diff_div [of w 15] by (simp only: borrow_bit [OF h] diff_minus_eq_add)
  have "limbs 14 (part_diff w 15) @ [h mod 65536] = limbs 15 (part_diff w 15)"
    using limbs_Suc [of 14] by (simp add: h_def)
  also have "\<dots> = limbs 15 d" using limbs_cong [OF part_diff_mod [of w 15], of 15] d by simp
  finally have low: "limbs 14 (part_diff w 15) @ [h mod 65536] = limbs 15 d" .
  then have low2: "limbs 14 (part_diff w 15) @ [h mod 65536, y] = limbs 15 d @ [y]" for y
    by (metis append.assoc append_Cons append_Nil)
  have m: "fold (sub_step (limbs 16 w)) [1..<15] ((replicate 16 0)[0 := limbs 16 w ! 0 - 0xffed])
      = limbs 14 (part_diff w 15) @ [h, 0]"
    using sub_steps [of 15 w] by (simp add: h_def)
  let ?x = "d div 65536 ^ 15"
  have x: "- 65536 \<le> ?x" "?x < 65536" using part_diff_limb [of w 15] d by simp_all
  have b: "drop_bit 16 ?x AND 1 = (if P25519 \<le> w then 0 else 1)"
  proof (cases "P25519 \<le> w")
    case True
    then have "0 \<le> ?x" by (simp add: d_def pos_imp_zdiv_nonneg_iff)
    then show ?thesis using x True by (simp add: borrow_bit div_pos_pos_trivial)
  next
    case False
    then have "?x < 0" by (simp add: d_def pos_imp_zdiv_neg_iff)
    then have "?x div 65536 = - 1" using x by linarith
    then show ?thesis using x False by (simp add: borrow_bit)
  qed
  have "pack_try (limbs 16 w) = fst (sel25519 (limbs 16 w) (limbs 15 d @ [?x]) (1 - (if P25519 \<le> w then 0 else 1)))"
    using top b unfolding pack_try_def Let_def m
    by (simp add: low2 nth_append list_update_append and_ffff)
  moreover have "P25519 \<le> w \<Longrightarrow> limbs 15 d @ [?x] = limbs 16 d"
    using x limbs_Suc [of 15 d] by (simp add: d_def pos_imp_zdiv_nonneg_iff)
  ultimately show ?thesis by (simp add: sel25519_swap d_def)
qed

lemma pack25519_limbs:
  assumes "length t = 16" "\<bar>gf_val t\<bar> < 2 ^ 400"
  shows "pack25519 t = gf_bytes (limbs 16 (gf_val t mod P25519))"
proof -
  obtain w where w: "car25519 (car25519 (car25519 t)) = limbs 16 w" "0 \<le> w" "w < 2 ^ 256"
    "w mod P25519 = gf_val t mod P25519"
    using three_carries [OF assms] .
  define u where "u = (if P25519 \<le> w then w - P25519 else w)"
  have u: "0 \<le> u" "u < 2 ^ 256" "u < P25519 + 38" "u mod P25519 = w mod P25519"
    using w by (auto simp: u_def P25519_def)
  have "u mod P25519 = u - P25519" if "P25519 \<le> u"
  proof -
    have "u mod P25519 = (u - P25519) mod P25519" by (rule mod_pos_geq) (simp_all add: that)
    also have "\<dots> = u - P25519"
      using that u(3) by (intro mod_pos_pos_trivial) (simp_all add: P25519_def)
    finally show ?thesis .
  qed
  then have "(if P25519 \<le> u then u - P25519 else u) = w mod P25519"
    using u by (auto simp: mod_pos_pos_trivial)
  then show ?thesis using w u by (simp add: pack25519_def pack_try_limbs flip: u_def)
qed

section \<open>Bounds of the limbs\<close>

definition within :: "int \<Rightarrow> int list \<Rightarrow> bool" where
  "within m t \<longleftrightarrow> list_all (\<lambda>x. \<bar>x\<bar> \<le> m) t"

definition tight :: "gf \<Rightarrow> bool" where
  "tight a \<longleftrightarrow> length a = 16 \<and> within (2 ^ 17) a"

definition loose :: "gf \<Rightarrow> bool" where
  "loose a \<longleftrightarrow> length a = 16 \<and> within (2 ^ 18) a"

lemma tight_loose: "tight a \<Longrightarrow> loose a"
  by (auto simp: tight_def loose_def within_def list_all_iff)

lemma within_mono: "within m t \<Longrightarrow> m \<le> n \<Longrightarrow> within n t"
  by (force simp: within_def list_all_iff)

lemma within_update: "within m t \<Longrightarrow> \<bar>x\<bar> \<le> m \<Longrightarrow> within m (t[i := x])"
  by (cases "i < length t") (auto simp: within_def list_all_length nth_list_update)

lemma within_nth: "within m t \<Longrightarrow> i < length t \<Longrightarrow> \<bar>t ! i\<bar> \<le> m"
  by (simp add: within_def list_all_length)

lemma gf_val_bound: "within m t \<Longrightarrow> 0 \<le> m \<Longrightarrow> \<bar>gf_val t\<bar> \<le> m * (65536 ^ length t - 1)"
proof (induction t)
  case (Cons x t)
  then have "\<bar>x\<bar> \<le> m" "\<bar>gf_val t\<bar> \<le> m * (65536 ^ length t - 1)" by (simp_all add: within_def)
  then have "\<bar>gf_val (x # t)\<bar> \<le> m + 65536 * (m * (65536 ^ length t - 1))" by simp
  also have "\<dots> \<le> m * (65536 ^ length (x # t) - 1)" using Cons.prems by (simp add: algebra_simps)
  finally show ?case .
qed simp

lemma fadd_loose: "tight a \<Longrightarrow> tight b \<Longrightarrow> loose (fadd a b)"
  and fsub_loose: "tight a \<Longrightarrow> tight b \<Longrightarrow> loose (fsub a b)"
  by (fastforce simp: tight_def loose_def fadd_def fsub_def within_def list_all_length)+

text \<open>The partial sums of a product, after \<open>i\<close> rows and \<open>j\<close> entries of the next one.\<close>

definition product_row :: "gf \<Rightarrow> gf \<Rightarrow> nat \<Rightarrow> nat \<Rightarrow> int list \<Rightarrow> int list" where
  "product_row a b i j t = fold (\<lambda>j t. t[i + j := t ! (i + j) + a ! i * b ! j]) [0..<j] t"

definition product_rows :: "gf \<Rightarrow> gf \<Rightarrow> nat \<Rightarrow> int list" where
  "product_rows a b i = fold (\<lambda>i. product_row a b i 16) [0..<i] (replicate 31 0)"

lemma mul_products_rows: "mul_products a b = product_rows a b 16"
  by (simp add: mul_products_def product_rows_def product_row_def [abs_def])

lemma product_row_within:
  assumes "loose a" "loose b" "i < 16" "j \<le> 16" "length t = 31" "within m t"
  shows "length (product_row a b i j t) = 31 \<and> within (m + int j * 2 ^ 36) (product_row a b i j t)"
  using assms(4)
proof (induction j)
  case (Suc j)
  let ?t = "product_row a b i j t"
  have "\<bar>a ! i * b ! j\<bar> \<le> 2 ^ 18 * 2 ^ 18"
    using assms Suc.prems unfolding abs_mult by (intro mult_mono) (auto simp: loose_def within_nth)
  moreover have t: "length ?t = 31" "within (m + int j * 2 ^ 36) ?t" using Suc by simp_all
  then have "\<bar>?t ! (i + j)\<bar> \<le> m + int j * 2 ^ 36" using assms Suc.prems by (simp add: within_nth)
  ultimately have "\<bar>?t ! (i + j) + a ! i * b ! j\<bar> \<le> m + int (Suc j) * 2 ^ 36" by (simp add: algebra_simps)
  moreover have "within (m + int (Suc j) * 2 ^ 36) ?t" using t(2) by (rule within_mono) simp
  moreover have "product_row a b i (Suc j) t = ?t[i + j := ?t ! (i + j) + a ! i * b ! j]"
    by (simp add: product_row_def)
  ultimately show ?case using t by (simp add: within_update)
qed (use assms in \<open>simp add: product_row_def\<close>)

lemma product_rows_within:
  assumes "loose a" "loose b" "i \<le> 16"
  shows "length (product_rows a b i) = 31 \<and> within (int i * 2 ^ 40) (product_rows a b i)"
  using assms(3)
proof (induction i)
  case (Suc i)
  then have "length (product_rows a b i) = 31 \<and> within (int i * 2 ^ 40) (product_rows a b i)" by simp
  then have "length (product_row a b i 16 (product_rows a b i)) = 31 \<and>
      within (int i * 2 ^ 40 + int 16 * 2 ^ 36) (product_row a b i 16 (product_rows a b i))"
    using Suc.prems by (intro product_row_within assms) simp_all
  then show ?case by (simp add: product_rows_def algebra_simps)
qed (simp add: product_rows_def within_def list_all_length)

lemma mul_fold_within:
  assumes "loose a" "loose b"
  shows "within (2 ^ 50) (mul_fold (mul_products a b))"
proof -
  have t: "length (mul_products a b) = 31" "within (2 ^ 44) (mul_products a b)"
    using product_rows_within [OF assms, of 16] by (simp_all add: mul_products_rows)
  have "\<bar>mul_products a b ! i + 38 * mul_products a b ! (i + 16)\<bar> \<le> 2 ^ 50" if "i < 15" for i
    using within_nth [OF t(2), of i] within_nth [OF t(2), of "i + 16"] t(1) that by simp
  moreover have "\<bar>mul_products a b ! 15\<bar> \<le> 2 ^ 50" using within_nth [OF t(2), of 15] t(1) by simp
  moreover have "mul_fold (mul_products a b) ! i = (if i < 15 then mul_products a b ! i + 38 * mul_products a b ! (i + 16)
      else mul_products a b ! 15)" if "i < 16" for i
    using that t(1) by (auto simp: mul_fold_def mul_fold_steps less_Suc_eq [of _ 15, simplified])
  ultimately show ?thesis using t(1) by (simp add: within_def list_all_length)
qed

text \<open>Two carries leave limbs of sixteen bits, the lowest up to 38 off.\<close>

lemma car25519_within:
  assumes "length t = 16" "\<bar>gf_val t div 2 ^ 256\<bar> \<le> m"
  shows "within (65535 + 38 * m) (car25519 t)"
proof -
  have m: "0 \<le> m" using assms(2) by linarith
  have l: "\<bar>x\<bar> \<le> 65535 + 38 * m" if "x \<in> set (limbs 16 (gf_val t))" for x
  proof -
    have "0 \<le> x \<and> x < 65536" using that by (auto simp: limbs_def)
    then show ?thesis using m by simp
  qed
  have "0 \<le> gf_val t mod 65536" "gf_val t mod 65536 < 65536" by simp_all
  then have "\<bar>gf_val t mod 65536 + 38 * (gf_val t div 2 ^ 256)\<bar> \<le> 65535 + 38 * m" using assms(2) by linarith
  then show ?thesis
    unfolding car25519_limbs [OF assms(1)] using l by (intro within_update) (auto simp: within_def list_all_iff)
qed

lemma fmul_tight:
  assumes "loose a" "loose b"
  shows "tight (fmul a b)" "0 \<le> gf_val (fmul a b)" "gf_val (fmul a b) < 2 ^ 256"
proof -
  define t where "t = mul_fold (mul_products a b)"
  have t: "length t = 16" "within (2 ^ 50) t"
    using mul_fold_within [OF assms] mul_products_val [of a b] assms by (simp_all add: t_def loose_def)
  define q where "q = gf_val t div 2 ^ 256"
  have v: "\<bar>gf_val t\<bar> \<le> 2 ^ 50 * (65536 ^ 16 - 1)" using gf_val_bound [OF t(2)] t(1) by simp
  then have "gf_val t div 2 ^ 256 \<le> 2 ^ 306 div 2 ^ 256" "- (2 ^ 306) div 2 ^ 256 \<le> gf_val t div 2 ^ 256"
    by (intro zdiv_mono1; simp)+
  then have q: "\<bar>q\<bar> \<le> 2 ^ 50" by (simp add: q_def)
  have m: "0 \<le> gf_val t mod 2 ^ 256" "gf_val t mod 2 ^ 256 < 2 ^ 256" by simp_all
  have w: "gf_val (car25519 t) = gf_val t mod 2 ^ 256 + 38 * q" using t(1) by (simp add: gf_val_car25519 q_def)
  have "gf_val (car25519 t) div 2 ^ 256 \<le> (2 ^ 257 - 1) div 2 ^ 256"
    "- (2 ^ 256) div 2 ^ 256 \<le> gf_val (car25519 t) div 2 ^ 256"
    using m q unfolding w by (intro zdiv_mono1; simp)+
  then have "\<bar>gf_val (car25519 t) div 2 ^ 256\<bar> \<le> 1" by simp
  then have "within (65535 + 38 * 1) (car25519 (car25519 t))" using t(1) by (intro car25519_within) simp_all
  then have "within (2 ^ 17) (car25519 (car25519 t))" by (rule within_mono) simp
  then show "tight (fmul a b)" using t(1) by (simp add: tight_def fmul_def t_def)
  have "\<bar>gf_val t\<bar> < 2 ^ 400" using v by simp
  from two_carries [OF this] show "0 \<le> gf_val (fmul a b)" "gf_val (fmul a b) < 2 ^ 256"
    using t(1) by (simp_all add: gf_val_car25519 fmul_def flip: t_def)
qed

end
