(* ===== verification/X25519_Ladder.thy ===== *)
theory X25519_Ladder
  imports X25519_Field
begin

text \<open>
  X25519 of \<open>common/rd_secure.c\<close> is the function of RFC 7748: field elements, inversion as the power
  \<open>p - 2\<close>, the coding of scalars and coordinates, the ladder step by step, and the absence of overflow.
\<close>

section \<open>The field element a list of limbs stands for\<close>

definition fe :: "gf \<Rightarrow> int" where
  "fe a = gf_val a mod P25519"

lemma gf_val_map2: "length a = length b \<Longrightarrow> gf_val (map2 (-) a b) = gf_val a - gf_val b"
  by (induction a b rule: list_induct2) simp_all

lemma fe_fadd: "length a = 16 \<Longrightarrow> length b = 16 \<Longrightarrow> fe (fadd a b) = (fe a + fe b) mod P25519"
proof -
  assume l: "length a = 16" "length b = 16"
  then have "fadd a b = map2 (+) a b" by (intro nth_equalityI) (simp_all add: fadd_def)
  then show ?thesis using l by (simp add: fe_def gf_val_add mod_add_eq)
qed

lemma fe_fsub: "length a = 16 \<Longrightarrow> length b = 16 \<Longrightarrow> fe (fsub a b) = (fe a - fe b) mod P25519"
proof -
  assume l: "length a = 16" "length b = 16"
  then have "fsub a b = map2 (-) a b" by (intro nth_equalityI) (simp_all add: fsub_def)
  then show ?thesis using l by (simp add: fe_def gf_val_map2 mod_diff_eq)
qed

lemma fe_fmul: "length a = 16 \<Longrightarrow> length b = 16 \<Longrightarrow> fe (fmul a b) = fe a * fe b mod P25519"
  by (simp add: fe_def fmul_mod mod_mult_eq)

lemma tight_length: "tight a \<Longrightarrow> length a = 16"
  and loose_length: "loose a \<Longrightarrow> length a = 16"
  by (simp_all add: tight_def loose_def)

text \<open>Inversion raises to the power \<open>p - 2\<close>.\<close>

definition inv_exponent :: "nat list \<Rightarrow> nat \<Rightarrow> nat" where
  "inv_exponent as e = fold (\<lambda>a e. 2 * e + (if a \<noteq> 2 \<and> a \<noteq> 4 then 1 else 0)) as e"

lemma inv_fold:
  assumes "tight i" "tight c" "fe c = fe i ^ e mod P25519"
  shows "tight (fold (\<lambda>a c. let c = fsq c in if a \<noteq> 2 \<and> a \<noteq> 4 then fmul c i else c) as c) \<and>
    fe (fold (\<lambda>a c. let c = fsq c in if a \<noteq> 2 \<and> a \<noteq> 4 then fmul c i else c) as c) = fe i ^ inv_exponent as e mod P25519"
  using assms(2,3)
proof (induction as arbitrary: c e)
  case Nil
  then show ?case by (simp add: inv_exponent_def)
next
  case (Cons a as)
  define s where "s = fsq c"
  have s: "tight s" "fe s = fe i ^ (2 * e) mod P25519"
    using Cons.prems by (simp_all add: s_def fsq_def fmul_tight tight_loose fe_fmul tight_length mod_mult_eq power_add mult_2)
  define d where "d = (if a \<noteq> 2 \<and> a \<noteq> 4 then fmul s i else s)"
  define k where "k = 2 * e + (if a \<noteq> 2 \<and> a \<noteq> 4 then 1 else 0 :: nat)"
  have "tight d" "fe d = fe i ^ k mod P25519"
    using s assms(1) by (auto simp: d_def k_def fmul_tight tight_loose fe_fmul tight_length mod_mult_right_eq mult.commute)
  from Cons.IH [OF this] show ?case by (simp only: fold_simps inv_exponent_def d_def k_def s_def Let_def)
qed

lemma inv_exponent_ones: "\<forall>a \<in> set as. a \<noteq> 2 \<and> a \<noteq> 4 \<Longrightarrow> inv_exponent as e + 1 = 2 ^ length as * (e + 1)"
  by (induction as arbitrary: e) (simp_all add: inv_exponent_def algebra_simps)

lemma inv_exponent_value: "inv_exponent (rev [0..<254]) 1 = nat (P25519 - 2)"
proof -
  have "[0..<254] = [0..<5] @ [5..<254 :: nat]" using upt_add_eq_append [of 0 5 249] by simp
  then have "rev [0..<254] = rev [5..<254] @ [4, 3, 2, 1, 0 :: nat]" by (simp add: upt_rec)
  moreover have "inv_exponent (rev [5..<254]) 1 + 1 = 2 ^ 250"
    by (subst inv_exponent_ones) auto
  then have "inv_exponent (rev [5..<254]) 1 = 2 ^ 250 - 1" by simp
  ultimately have "inv_exponent (rev [0..<254]) 1 = inv_exponent [4, 3, 2, 1, 0] (2 ^ 250 - 1)"
    by (simp add: inv_exponent_def)
  then show ?thesis by (simp add: inv_exponent_def P25519_def)
qed

lemma inv25519_fe:
  assumes "tight i"
  shows "tight (inv25519 i)" "fe (inv25519 i) = fe i ^ nat (P25519 - 2) mod P25519"
proof -
  have "fe i = fe i ^ 1 mod P25519" by (simp add: fe_def)
  from inv_fold [OF assms assms this, of "rev [0..<254]"]
  show "tight (inv25519 i)" "fe (inv25519 i) = fe i ^ nat (P25519 - 2) mod P25519"
    unfolding inv25519_def inv_exponent_value by simp_all
qed


section \<open>Bytes\<close>

text \<open>The coordinate and scalar coding of RFC 7748.\<close>

definition rfc_encode :: "int \<Rightarrow> bytes" where
  "rfc_encode u = map (\<lambda>i. of_int (u div 256 ^ i)) [0..<32]"

definition rfc_decode_u :: "bytes \<Rightarrow> int" where
  "rfc_decode_u b = int (le_nat (b[31 := b ! 31 AND 127]))"

definition rfc_decode_scalar :: "bytes \<Rightarrow> int" where
  "rfc_decode_scalar b = int (le_nat (b[0 := b ! 0 AND 248, 31 := (b ! 31 AND 127) OR 64]))"

lemma of_int_u8_cong: "x mod 256 = y mod 256 \<Longrightarrow> (of_int x :: u8) = of_int y"
  by (simp add: word_of_int_eq_iff take_bit_eq_mod)

lemma digit_pair: "concat (map (\<lambda>i. [f (2 * i), f (2 * i + 1)]) [0..<n]) = map f [0..<2 * n]"
  by (induction n) simp_all

lemma gf_bytes_limbs:
  assumes "0 \<le> v" "v < 2 ^ 256"
  shows "gf_bytes (limbs 16 v) = rfc_encode v"
proof -
  have pw: "(65536 :: int) ^ i = 256 ^ (2 * i)" for i by (simp add: power_mult)
  have "(of_int (limbs 16 v ! i AND 0xff) :: u8) = of_int (v div 256 ^ (2 * i))"
    "(of_int (drop_bit 8 (limbs 16 v ! i)) :: u8) = of_int (v div 256 ^ (2 * i + 1))" if "i < 16" for i
  proof -
    let ?x = "v div 256 ^ (2 * i)"
    have x: "limbs 16 v ! i = ?x mod 65536" using that by (simp add: limbs_def pw)
    have "?x mod 65536 mod 256 = ?x mod 256" by (rule mod_mod_cancel) simp
    then show "(of_int (limbs 16 v ! i AND 0xff) :: u8) = of_int ?x"
      using take_bit_eq_mask [of 8 "?x mod 65536"]
      by (intro of_int_u8_cong) (simp add: x take_bit_eq_mod mask_eq_exp_minus_1)
    have "?x mod 65536 = 256 * (?x div 256 mod 256) + ?x mod 256" using zmod_zmult2_eq [of 256 ?x 256] by simp
    then have "?x mod 65536 div 256 = ?x div 256 mod 256" by simp
    moreover have "?x div 256 = v div 256 ^ (2 * i + 1)" by (simp add: zdiv_zmult2_eq [symmetric] mult.commute)
    ultimately show "(of_int (drop_bit 8 (limbs 16 v ! i)) :: u8) = of_int (v div 256 ^ (2 * i + 1))"
      by (intro of_int_u8_cong) (simp add: x drop_bit_eq_div)
  qed
  then have "gf_bytes (limbs 16 v) = concat (map (\<lambda>i. [of_int (v div 256 ^ (2 * i)), of_int (v div 256 ^ (2 * i + 1))]) [0..<16])"
    unfolding gf_bytes_def by (intro arg_cong [of _ _ concat] map_cong) simp_all
  then show ?thesis using digit_pair [of "\<lambda>i. of_int (v div 256 ^ i) :: u8" 16] by (simp add: rfc_encode_def)
qed

lemma pack25519_encode:
  assumes "tight t" "0 \<le> gf_val t" "gf_val t < 2 ^ 256"
  shows "pack25519 t = rfc_encode (fe t)"
proof -
  have "0 \<le> fe t" "fe t < P25519" by (simp_all add: fe_def)
  then have "0 \<le> fe t" "fe t < 2 ^ 256" by (simp_all add: P25519_def)
  then show ?thesis using assms by (simp add: pack25519_limbs tight_length gf_bytes_limbs flip: fe_def)
qed

lemma gf_val_pairs: "length xs = 2 * n \<Longrightarrow> gf_val (map (\<lambda>i. int (unat (xs ! (2 * i))) + push_bit 8 (int (unat (xs ! (2 * i + 1))))) [0..<n]) = int (le_nat xs)"
proof (induction n arbitrary: xs)
  case (Suc n)
  then obtain a b ys where xs: "xs = a # b # ys" "length ys = 2 * n"
    by (cases xs; cases "tl xs") auto
  show ?case
    using Suc.IH [OF xs(2)] by (simp add: xs(1) map_upt_Suc push_bit_eq_mult del: upt_Suc)
qed simp

lemma unpack25519_fe:
  assumes "length b = 32"
  shows "tight (unpack25519 b)" "fe (unpack25519 b) = rfc_decode_u b mod P25519"
proof -
  let ?t = "map (\<lambda>i. int (unat (b ! (2 * i))) + push_bit 8 (int (unat (b ! (2 * i + 1))))) [0..<16]"
  let ?c = "b[31 := b ! 31 AND 127]"
  have uint_lt: "uint (x :: u8) < 256" for x using uint_bounded [of x] by simp
  have byte: "unat (x :: u8) < 256" for x using unsigned_less [of x] by simp
  have "(int (unat x) + push_bit 8 (int (unat y))) AND 0x7fff = int (unat x) + push_bit 8 (int (unat (y AND 127)))" for x y :: u8
  proof -
    have "y AND 127 = take_bit 7 y" by (simp add: take_bit_eq_mask mask_eq_exp_minus_1)
    then have y: "unat (y AND 127) = unat y mod 128" by (simp add: unsigned_take_bit_eq take_bit_eq_mod [of 7 "unat y"])
    have "(int (unat x) + push_bit 8 (int (unat y))) AND 0x7fff = (int (unat x) + 256 * int (unat y)) mod 32768"
      using take_bit_eq_mask [of 15 "int (unat x) + 256 * int (unat y)"]
      by (simp add: take_bit_eq_mod mask_eq_exp_minus_1 push_bit_eq_mult mult.commute)
    also have "\<dots> = 256 * ((int (unat x) + 256 * int (unat y)) div 256 mod 128) + (int (unat x) + 256 * int (unat y)) mod 256"
      using zmod_zmult2_eq [of 128 "int (unat x) + 256 * int (unat y)" 256] by simp
    also have "\<dots> = int (unat x) + push_bit 8 (int (unat y mod 128))"
      using uint_lt by (simp add: push_bit_eq_mult zmod_int)
    finally show ?thesis by (simp add: y)
  qed
  then have "unpack25519 b = map (\<lambda>i. int (unat (?c ! (2 * i))) + push_bit 8 (int (unat (?c ! (2 * i + 1))))) [0..<16]"
    using assms by (intro nth_equalityI) (auto simp: unpack25519_def Let_def nth_list_update)
  moreover have "\<bar>int (unat x) + push_bit 8 (int (unat y))\<bar> \<le> 2 ^ 17" for x y :: u8
    using uint_lt [of x] uint_lt [of y] by (simp add: push_bit_eq_mult)
  ultimately show "tight (unpack25519 b)" "fe (unpack25519 b) = rfc_decode_u b mod P25519"
    using gf_val_pairs [of ?c 16] assms by (simp_all add: tight_def within_def list_all_length fe_def rfc_decode_u_def)
qed


section \<open>The function of RFC 7748\<close>

text \<open>One turn of the loop of section 5 there, on residues; \<open>bit\<close> is the scalar's bit \<open>t\<close>.\<close>

type_synonym rfc_state = "int \<times> int \<times> int \<times> int \<times> bool"

definition rfc_cswap :: "bool \<Rightarrow> 'a \<Rightarrow> 'a \<Rightarrow> 'a \<times> 'a" where
  "rfc_cswap swap x y = (if swap then (y, x) else (x, y))"

definition rfc_step :: "int \<Rightarrow> int \<Rightarrow> nat \<Rightarrow> rfc_state \<Rightarrow> rfc_state" where
  "rfc_step k x1 t s =
     (let (x2, z2, x3, z3, swap) = s;
          k_t = bit k t;
          swap = (swap \<noteq> k_t);
          (x2, x3) = rfc_cswap swap x2 x3;
          (z2, z3) = rfc_cswap swap z2 z3;
          swap = k_t;
          A = (x2 + z2) mod P25519;
          AA = A * A mod P25519;
          B = (x2 - z2) mod P25519;
          BB = B * B mod P25519;
          E = (AA - BB) mod P25519;
          C = (x3 + z3) mod P25519;
          D = (x3 - z3) mod P25519;
          DA = D * A mod P25519;
          CB = C * B mod P25519;
          x3 = (DA + CB) ^ 2 mod P25519;
          z3 = x1 * (DA - CB) ^ 2 mod P25519;
          x2 = AA * BB mod P25519;
          z2 = E * (AA + 121665 * E) mod P25519
      in (x2, z2, x3, z3, swap))"

definition rfc_ladder :: "int \<Rightarrow> int \<Rightarrow> int" where
  "rfc_ladder k u =
     (let (x2, z2, x3, z3, swap) = fold (rfc_step k u) (rev [0..<255]) (1, 0, u, 1, False);
          (x2, x3) = rfc_cswap swap x2 x3;
          (z2, z3) = rfc_cswap swap z2 z3
      in x2 * z2 ^ nat (P25519 - 2) mod P25519)"

definition rfc7748_x25519 :: "bytes \<Rightarrow> bytes \<Rightarrow> bytes" where
  "rfc7748_x25519 k u = rfc_encode (rfc_ladder (rfc_decode_scalar k) (rfc_decode_u u mod P25519))"


lemma le_nat_bit:
  assumes "i < 8 * length z"
  shows "bit (int (le_nat z)) i \<longleftrightarrow> bit (z ! (i div 8)) (i mod 8)"
proof -
  let ?k = "i div 8" and ?m = "i mod 8"
  have k: "?k < length z" using assms by linarith
  have "bit (le_nat z) i \<longleftrightarrow> bit (drop_bit (8 * ?k) (le_nat z)) ?m" by (simp add: bit_drop_bit_eq)
  also have "drop_bit (8 * ?k) (le_nat z) = le_nat (drop ?k z)"
    using k by (simp add: drop_bit_eq_div le_nat_drop power_mult)
  also have "\<dots> = unat (z ! ?k) + 256 * le_nat (drop (Suc ?k) z)"
    using k by (simp flip: Cons_nth_drop_Suc)
  also have "bit \<dots> ?m \<longleftrightarrow> bit (take_bit 8 \<dots>) ?m" by (simp add: bit_take_bit_iff)
  also have "take_bit 8 (unat (z ! ?k) + 256 * le_nat (drop (Suc ?k) z)) = unat (z ! ?k)"
    using unsigned_less [of "z ! ?k"] by (simp add: take_bit_eq_mod)
  finally show ?thesis by (simp add: bit_unsigned_iff bit_of_nat_iff_bit)
qed

lemma scalar_bit_le_nat: "i < 8 * length z \<Longrightarrow> scalar_bit z i = of_bool (bit (int (le_nat z)) i)"
  by (simp add: scalar_bit_def le_nat_bit and_one_eq bit_iff_odd_drop_bit [of "z ! (i div 8)" "i mod 8"] mod_2_eq_odd)

lemma clamp_decode: "length n = 32 \<Longrightarrow> int (le_nat (clamp n)) = rfc_decode_scalar n \<and> length (clamp n) = 32"
  by (simp add: clamp_def rfc_decode_scalar_def list_update_swap Let_def)

section \<open>The ladder follows it\<close>

definition ladder_rel :: "ladder \<Rightarrow> rfc_state \<Rightarrow> bool" where
  "ladder_rel s r \<longleftrightarrow>
     (case s of (a, b, c, d) \<Rightarrow> case r of (x2, z2, x3, z3, swap) \<Rightarrow>
       tight a \<and> tight b \<and> tight c \<and> tight d \<and>
       (fe a, fe b) = rfc_cswap swap x2 x3 \<and> (fe c, fe d) = rfc_cswap swap z2 z3)"

lemma fmul_fe: "loose a \<Longrightarrow> loose b \<Longrightarrow> tight (fmul a b) \<and> fe (fmul a b) = fe a * fe b mod P25519"
  by (simp add: fmul_tight fe_fmul loose_length)

lemma fadd_fe: "tight a \<Longrightarrow> tight b \<Longrightarrow> loose (fadd a b) \<and> fe (fadd a b) = (fe a + fe b) mod P25519"
  by (simp add: fadd_loose fe_fadd tight_length)

lemma fsub_fe: "tight a \<Longrightarrow> tight b \<Longrightarrow> loose (fsub a b) \<and> fe (fsub a b) = (fe a - fe b) mod P25519"
  by (simp add: fsub_loose fe_fsub tight_length)

lemma gf_k121665_fe: "tight gf_k121665 \<and> fe gf_k121665 = 121665"
  by (simp add: gf_k121665_def tight_def within_def list_all_length fe_def P25519_def numeral_eq_Suc nth_Cons' replicate_def)

lemma ladder_rel_swapped:
  assumes "tight p" "tight q" "tight v" "tight w"
  shows "ladder_rel (let (a, b) = sel25519 p q (of_bool kt); (c, d) = sel25519 v w (of_bool kt) in (a, b, c, d))
    (fe p, fe v, fe q, fe w, kt)"
  using assms by (cases kt) (simp_all add: ladder_rel_def sel25519_swap tight_length rfc_cswap_def)

lemma ladder_step_rel:
  assumes "ladder_rel s r" "tight x" "fe x = u" "scalar_bit z t = of_bool (bit k t)"
  shows "ladder_rel (ladder_step z x t s) (rfc_step k u t r)"
proof -
  obtain a0 b0 c0 d0 where s: "s = (a0, b0, c0, d0)" by (cases s) auto
  obtain x20 z20 x30 z30 sw where r: "r = (x20, z20, x30, z30, sw)" by (cases r) auto
  let ?kt = "bit k t"
  let ?r = "of_bool ?kt :: int"
  obtain a b c d where ab: "sel25519 a0 b0 ?r = (a, b)" and cd: "sel25519 c0 d0 ?r = (c, d)" by (meson surj_pair)
  obtain x2 x3 z2 z3 where X: "rfc_cswap (sw \<noteq> ?kt) x20 x30 = (x2, x3)" and Z: "rfc_cswap (sw \<noteq> ?kt) z20 z30 = (z2, z3)"
    by (meson surj_pair)
  have t: "tight a" "tight b" "tight c" "tight d" and f: "fe a = x2" "fe b = x3" "fe c = z2" "fe d = z3"
    using assms(1) ab cd X Z
    by (auto simp: ladder_rel_def s r rfc_cswap_def sel25519_swap tight_length split: if_splits)
  define A where "A = fadd a c"
  define B where "B = fsub a c"
  define C where "C = fadd b d"
  define D where "D = fsub b d"
  have 1: "loose A" "loose B" "loose C" "loose D" "fe A = (x2 + z2) mod P25519" "fe B = (x2 - z2) mod P25519"
    "fe C = (x3 + z3) mod P25519" "fe D = (x3 - z3) mod P25519"
    using t f fadd_fe [of a c] fsub_fe [of a c] fadd_fe [of b d] fsub_fe [of b d] by (simp_all add: A_def B_def C_def D_def)
  define AA where "AA = fsq A"
  define BB where "BB = fsq B"
  define CB where "CB = fmul C B"
  define DA where "DA = fmul D A"
  have 2: "tight AA" "tight BB" "tight CB" "tight DA" "fe AA = fe A * fe A mod P25519" "fe BB = fe B * fe B mod P25519"
    "fe CB = fe C * fe B mod P25519" "fe DA = fe D * fe A mod P25519"
    using 1 by (simp_all add: fmul_fe AA_def BB_def CB_def DA_def fsq_def)
  define S where "S = fadd CB DA"
  define T where "T = fsub CB DA"
  define E where "E = fsub AA BB"
  have 3: "loose S" "loose T" "loose E" "fe S = (fe CB + fe DA) mod P25519" "fe T = (fe CB - fe DA) mod P25519"
    "fe E = (fe AA - fe BB) mod P25519"
    using 2 by (simp_all add: fadd_fe fsub_fe S_def T_def E_def)
  define T2 where "T2 = fsq T"
  define K where "K = fmul E gf_k121665"
  have 4: "tight T2" "tight K" "fe T2 = fe T * fe T mod P25519" "fe K = fe E * 121665 mod P25519"
    using 3 gf_k121665_fe by (simp_all add: fmul_fe tight_loose T2_def K_def fsq_def)
  define M where "M = fadd K AA"
  have 5: "loose M" "fe M = (fe K + fe AA) mod P25519" using 4 2 by (simp_all add: fadd_fe M_def)
  have step: "ladder_step z x t s =
      (let (a, b) = sel25519 (fmul AA BB) (fsq S) ?r; (c, d) = sel25519 (fmul E M) (fmul T2 x) ?r in (a, b, c, d))"
    unfolding ladder_step_def Let_def s assms(4) prod.case ab cd
    by (simp only: A_def B_def C_def D_def AA_def BB_def CB_def DA_def S_def T_def E_def T2_def K_def M_def)
  have out: "tight (fmul AA BB)" "tight (fsq S)" "tight (fmul E M)" "tight (fmul T2 x)"
    "fe (fmul AA BB) = fe AA * fe BB mod P25519" "fe (fsq S) = fe S * fe S mod P25519"
    "fe (fmul E M) = fe E * fe M mod P25519" "fe (fmul T2 x) = fe T2 * u mod P25519"
    using fmul_fe [OF tight_loose [OF 2(1)] tight_loose [OF 2(2)]] fmul_fe [OF 3(1) 3(1)] fmul_fe [OF 3(3) 5(1)]
      fmul_fe [OF tight_loose [OF 4(1)] tight_loose [OF assms(2)]]
    unfolding fsq_def assms(3) by blast+
  have x3: "fe (fsq S) = (fe DA + fe CB) ^ 2 mod P25519"
    unfolding out 3 power2_eq_square by (simp add: mod_mult_eq add.commute)
  have "(fe CB - fe DA) * (fe CB - fe DA) = (fe DA - fe CB) * (fe DA - fe CB)" by (simp add: algebra_simps)
  then have z3: "fe (fmul T2 x) = u * (fe DA - fe CB) ^ 2 mod P25519"
    unfolding out 4 3 power2_eq_square by (simp add: mod_simps mult.commute)
  have z2: "fe (fmul E M) = fe E * (fe AA + 121665 * fe E) mod P25519"
    unfolding out 5 4 by (simp add: mod_simps algebra_simps)
  have rs: "rfc_step k u t r =
      (fe AA * fe BB mod P25519, fe E * (fe AA + 121665 * fe E) mod P25519, (fe DA + fe CB) ^ 2 mod P25519,
       u * (fe DA - fe CB) ^ 2 mod P25519, ?kt)"
    unfolding rfc_step_def Let_def r prod.case X Z by (simp only: 1 2 3)
  show ?thesis
    using ladder_rel_swapped [OF out(1-4), of ?kt] unfolding step rs x3 z2 z3 out(5) .
qed


lemma ladder_fold:
  assumes "tight x" "fe x = u" "length z = 32" "\<forall>t \<in> set ts. t < 256" "ladder_rel s r"
  shows "ladder_rel (fold (ladder_step z x) ts s) (fold (rfc_step (int (le_nat z)) u) ts r)"
  using assms(4,5)
proof (induction ts arbitrary: s r)
  case (Cons t ts)
  then have "ladder_rel (ladder_step z x t s) (rfc_step (int (le_nat z)) u t r)"
    using assms(1-3) by (intro ladder_step_rel) (simp_all add: scalar_bit_le_nat)
  then show ?case using Cons by simp
qed simp

lemma ladder_start:
  assumes "tight x"
  shows "ladder_rel (1 # replicate 15 0, x, replicate 16 0, 1 # replicate 15 0) (1, 0, fe x, 1, False)"
proof -
  have "fe (1 # replicate 15 0) = 1" "fe (replicate 16 0) = 0" by (simp_all add: fe_def P25519_def)
  moreover have "tight (1 # replicate 15 0)" "tight (replicate 16 0)"
    by (auto simp: tight_def within_def list_all_iff)
  ultimately show ?thesis using assms by (simp add: ladder_rel_def rfc_cswap_def)
qed

lemma x25519_out_rfc:
  assumes "length n = 32" "length p = 32"
  shows "x25519_out n p = rfc7748_x25519 n p"
proof -
  let ?k = "rfc_decode_scalar n" and ?u = "rfc_decode_u p mod P25519"
  define x where "x = unpack25519 p"
  have x: "tight x" "fe x = ?u" using unpack25519_fe [OF assms(2)] by (simp_all add: x_def)
  have z: "int (le_nat (clamp n)) = ?k" "length (clamp n) = 32" using clamp_decode [OF assms(1)] by simp_all
  obtain a b c d where s: "fold (ladder_step (clamp n) x) (rev [0..<255]) (1 # replicate 15 0, x, replicate 16 0, 1 # replicate 15 0)
      = (a, b, c, d)"
    by (meson prod_cases4)
  obtain x2 z2 x3 z3 swap where r: "fold (rfc_step ?k ?u) (rev [0..<255]) (1, 0, ?u, 1, False) = (x2, z2, x3, z3, swap)"
    by (meson prod_cases5)
  have "ladder_rel (a, b, c, d) (x2, z2, x3, z3, swap)"
    using ladder_fold [OF x z(2) _ ladder_start [OF x(1), unfolded x(2)], of "rev [0..<255]"] unfolding s z r by simp
  then have t: "tight a" "tight c" and f: "(fe a, fe b) = rfc_cswap swap x2 x3" "(fe c, fe d) = rfc_cswap swap z2 z3"
    by (simp_all add: ladder_rel_def)
  have inv: "tight (inv25519 c)" "fe (inv25519 c) = fe c ^ nat (P25519 - 2) mod P25519"
    by (rule inv25519_fe [OF t(2)])+
  have m: "tight (fmul a (inv25519 c))" "0 \<le> gf_val (fmul a (inv25519 c))" "gf_val (fmul a (inv25519 c)) < 2 ^ 256"
    by (rule fmul_tight [OF tight_loose [OF t(1)] tight_loose [OF inv(1)]])+
  have e: "fe (fmul a (inv25519 c)) = fe a * fe c ^ nat (P25519 - 2) mod P25519"
    unfolding fe_fmul [OF tight_length [OF t(1)] tight_length [OF inv(1)]] inv(2) by (rule mod_mult_right_eq)
  have "x25519_out n p = pack25519 (fmul a (inv25519 c))"
    unfolding x25519_out_def Let_def x_def [symmetric] s prod.case by (rule refl)
  also have "\<dots> = rfc_encode (fe a * fe c ^ nat (P25519 - 2) mod P25519)"
    unfolding pack25519_encode [OF m] e by (rule refl)
  finally have "x25519_out n p = rfc_encode (fe a * fe c ^ nat (P25519 - 2) mod P25519)" .
  then show ?thesis
    unfolding rfc7748_x25519_def rfc_ladder_def r Let_def prod.case f [symmetric] .
qed

lemma or_fold_zero: "fold (\<lambda>i acc. acc OR q ! i) [0..<n] (a :: u8) = 0 \<longleftrightarrow> a = 0 \<and> (\<forall>i < n. q ! i = 0)"
proof (induction n)
  case (Suc n)
  have "x OR y = 0 \<longleftrightarrow> x = 0 \<and> y = 0" for x y :: u8 by (rule or_eq_0_iff)
  then show ?case using Suc by (auto simp: less_Suc_eq)
qed simp

text \<open>C13:
  for a scalar and a point of 32 bytes the ladder on sixteen limbs computes the X25519 function of RFC
  7748, with its conditional swaps, clamping, masking and encoding; it fails exactly when the shared
  secret would be all zeros.
\<close>

theorem rd_x25519_is_rfc7748:
  assumes "length n = 32" "length p = 32"
  shows "rd_x25519 n p = (let q = rfc7748_x25519 n p in if q = replicate 32 0 then None else Some q)"
proof -
  have "length (rfc7748_x25519 n p) = 32" by (simp add: rfc7748_x25519_def rfc_encode_def)
  then have "q = replicate 32 0 \<longleftrightarrow> (\<forall>i < 32. q ! i = 0)" if "q = rfc7748_x25519 n p" for q
    using that by (auto simp: list_eq_iff_nth_eq)
  then show ?thesis
    using or_fold_zero [of "rfc7748_x25519 n p" 32 0]
    by (auto simp: rd_x25519_def x25519_out_rfc assms Let_def)
qed

theorem rd_x25519_is_rfc7748_witness:
  "rd_x25519 (map of_nat [0..<32]) (9 # replicate 31 0) =
     (let q = rfc7748_x25519 (map of_nat [0..<32]) (9 # replicate 31 0) in if q = replicate 32 0 then None else Some q)"
  by (rule rd_x25519_is_rfc7748) simp_all

section \<open>No overflow\<close>

text \<open>Carrying with limbs up to \<open>m\<close>: at step \<open>k\<close> only limb \<open>k\<close> holds more than it did.\<close>

definition car_bounded :: "int \<Rightarrow> nat \<Rightarrow> gf \<Rightarrow> bool" where
  "car_bounded m k t \<longleftrightarrow> length t = 16 \<and> (\<forall>j < 16. \<bar>t ! j\<bar> \<le> (if j < k then 65536 else if j = k then 2 * m else m))"

lemma car_step_bounded:
  assumes "car_bounded m k t" "k < 15" "65536 \<le> m"
  shows "car_bounded m (Suc k) (car_step k t)"
proof -
  have b: "\<bar>t ! j\<bar> \<le> (if j < k then 65536 else if j = k then 2 * m else m)" if "j < 16" for j
    using assms(1) that by (simp only: car_bounded_def)
  have t: "length t = 16" "\<bar>t ! k\<bar> \<le> 2 * m" "\<bar>t ! Suc k\<bar> \<le> m"
    using assms b [of k] b [of "Suc k"] by (simp_all add: car_bounded_def)
  have c: "drop_bit 16 (t ! k + 65536) = t ! k div 65536 + 1" by (simp add: drop_bit_eq_div)
  have "\<bar>t ! k div 65536\<bar> \<le> m" using t(2) assms(3) by linarith
  then have s: "\<bar>t ! Suc k + t ! k div 65536\<bar> \<le> 2 * m" using t(3) by linarith
  have r: "\<bar>t ! k mod 65536\<bar> \<le> 65536" by (simp add: abs_if not_less order.strict_implies_order)
  have "car_step k t = t[Suc k := t ! Suc k + t ! k div 65536, k := t ! k mod 65536]"
    using t(1) assms(2) by (intro nth_equalityI) (auto simp: car_step_def Let_def c nth_list_update minus_div_mult_eq_mod [symmetric])
  moreover have "j < k \<Longrightarrow> \<bar>t ! j\<bar> \<le> 65536" "j < 16 \<Longrightarrow> k < j \<Longrightarrow> \<bar>t ! j\<bar> \<le> m" for j
    using b [of j] assms(2) by (auto split: if_splits)
  ultimately show ?thesis
    using t(1) s r by (auto simp: car_bounded_def nth_list_update less_Suc_eq)
qed

lemma car_steps_bounded:
  assumes "length t = 16" "within m t" "65536 \<le> m" "k \<le> 15"
  shows "car_bounded m k (fold car_step [0..<k] t)"
  using assms(4)
proof (induction k)
  case 0
  have "\<bar>t ! j\<bar> \<le> m" if "j < 16" for j using that assms by (simp add: within_nth)
  then show ?case using assms by (fastforce simp: car_bounded_def)
qed (use assms in \<open>simp add: car_step_bounded\<close>)

lemma car_partial_within:
  assumes "length t = 16" "within m t" "65536 \<le> m" "k \<le> 16"
  shows "within (39 * m) (fold car_step [0..<k] t)"
proof (cases "k = 16")
  case True
  have "\<bar>gf_val t\<bar> \<le> m * (65536 ^ 16 - 1)" using gf_val_bound [OF assms(2)] assms(1,3) by simp
  then have "gf_val t \<le> m * 2 ^ 256" "(- m) * 2 ^ 256 \<le> gf_val t" using assms(3) by simp_all
  then have "gf_val t div 2 ^ 256 \<le> m * 2 ^ 256 div 2 ^ 256" "(- m) * 2 ^ 256 div 2 ^ 256 \<le> gf_val t div 2 ^ 256"
    by (intro zdiv_mono1; simp)+
  then have "\<bar>gf_val t div 2 ^ 256\<bar> \<le> m" unfolding nonzero_mult_div_cancel_right [OF power_not_zero [OF zero_neq_numeral [symmetric]]] by linarith
  then have "within (65535 + 38 * m) (car25519 t)" by (rule car25519_within [OF assms(1)])
  then have "within (39 * m) (car25519 t)" by (rule within_mono) (use assms(3) in simp)
  then show ?thesis by (simp add: True car25519_def)
next
  case False
  then have "car_bounded m k (fold car_step [0..<k] t)" using assms by (intro car_steps_bounded) simp_all
  then have c: "length (fold car_step [0..<k] t) = 16"
      "j < 16 \<Longrightarrow> \<bar>fold car_step [0..<k] t ! j\<bar> \<le> (if j < k then 65536 else if j = k then 2 * m else m)" for j
    by (simp_all only: car_bounded_def)
  have "\<bar>fold car_step [0..<k] t ! j\<bar> \<le> 39 * m" if "j < 16" for j
    by (rule order_trans [OF c(2) [OF that]]) (use assms(3) in simp)
  then show ?thesis using c(1) by (simp add: within_def list_all_length)
qed

definition fits_int64 :: "int list \<Rightarrow> bool" where
  "fits_int64 t \<longleftrightarrow> list_all (\<lambda>x. - (2 ^ 63) \<le> x \<and> x < 2 ^ 63) t"

lemma within_fits: "within m t \<Longrightarrow> m < 2 ^ 63 \<Longrightarrow> fits_int64 t"
  by (fastforce simp: within_def fits_int64_def list_all_iff)

text \<open>Every array a multiplication goes through: partial products, the fold with 38, both carries.\<close>

definition fmul_trace :: "gf \<Rightarrow> gf \<Rightarrow> int list set" where
  "fmul_trace a b =
     (let t = mul_products a b; u = mul_fold t in
      {product_row a b i j (product_rows a b i) |i j. i < 16 \<and> j \<le> 16} \<union>
      {fold (\<lambda>i t. t[i := t ! i + 38 * t ! (i + 16)]) [0..<k] t |k. k \<le> 15} \<union>
      {fold car_step [0..<k] u |k. k \<le> 16} \<union> {fold car_step [0..<k] (car25519 u) |k. k \<le> 16})"

lemma fmul_trace_fits:
  assumes "loose a" "loose b" "t \<in> fmul_trace a b"
  shows "fits_int64 t"
proof -
  let ?p = "mul_products a b"
  let ?u = "mul_fold ?p"
  have p: "length ?p = 31" "within (2 ^ 44) ?p"
    using product_rows_within [OF assms(1,2), of 16] by (simp_all add: mul_products_rows)
  have u: "length ?u = 16" "within (2 ^ 50) ?u" using p(1) mul_fold_within [OF assms(1,2)] by simp_all
  have c: "within (39 * 2 ^ 50) (fold car_step [0..<k] ?u)" if "k \<le> 16" for k
    by (rule car_partial_within [OF u]) (use that in simp_all)
  have v: "length (car25519 ?u) = 16" "within (39 * 2 ^ 50) (car25519 ?u)"
    using u(1) c [of 16] by (simp_all add: car25519_def [symmetric])
  have d: "within (39 * (39 * 2 ^ 50)) (fold car_step [0..<k] (car25519 ?u))" if "k \<le> 16" for k
    by (rule car_partial_within [OF v]) (use that in simp_all)
  consider (rows) i j where "t = product_row a b i j (product_rows a b i)" "i < 16" "j \<le> 16"
    | (fold38) k where "t = fold (\<lambda>i t. t[i := t ! i + 38 * t ! (i + 16)]) [0..<k] ?p" "k \<le> 15"
    | (car1) k where "t = fold car_step [0..<k] ?u" "k \<le> 16"
    | (car2) k where "t = fold car_step [0..<k] (car25519 ?u)" "k \<le> 16"
    using assms(3) unfolding fmul_trace_def Let_def by blast
  then show ?thesis
  proof cases
    case rows
    then have "length (product_rows a b i) = 31 \<and> within (int i * 2 ^ 40) (product_rows a b i)"
      using product_rows_within [OF assms(1,2), of i] by simp
    then have "within (int i * 2 ^ 40 + int j * 2 ^ 36) t"
      using product_row_within [OF assms(1,2) rows(2,3)] rows(1) by blast
    then show ?thesis by (rule within_fits) (use rows in simp)
  next
    case fold38
    have "\<bar>t ! i\<bar> \<le> 2 ^ 50" if "i < 31" for i
      using within_nth [OF p(2), of i] within_nth [OF p(2), of "i + 16"] p(1) that fold38(2)
      by (cases "i < k") (simp_all add: fold38(1) mul_fold_steps)
    then have "within (2 ^ 50) t" using p(1) by (simp add: fold38 mul_fold_steps within_def list_all_length)
    then show ?thesis by (rule within_fits) simp
  next
    case car1
    show ?thesis unfolding car1(1) by (rule within_fits [OF c [OF car1(2)]]) simp
  next
    case car2
    show ?thesis unfolding car2(1) by (rule within_fits [OF d [OF car2(2)]]) simp
  qed
qed

lemma ladder_rel_tight: "ladder_rel s r \<Longrightarrow> case s of (a, b, c, d) \<Rightarrow> tight a \<and> tight b \<and> tight c \<and> tight d"
  by (cases s; cases r) (simp add: ladder_rel_def)



end
