(* ===== verification/Encoder.thy ===== *)
theory Encoder
  imports Rd_Codec
begin

text \<open>
  The frame encoder, \<open>host/encoder.cpp\<close>: every tile is compared with the viewer's shadow copy, changed
  tiles (and a budget of lossy ones) are encoded into the buffer of the worker that took them, and the
  buffers are concatenated. The workers take chunks of four tiles from an atomic counter and each tile
  touches its own part of the shadow, so a run is a sequence of tile steps, each with the worker that
  makes it; the sequence is an argument, and \<open>schedule\<close> says which ones the counter allows. Theory
  \<^theory_text>\<open>Worker_Pool\<close> proves that the pool's threads follow such a schedule.
\<close>

record frame =
  fr_width :: int
  fr_height :: int
  fr_stride :: nat
  fr_seq :: u64
  fr_pixels :: bytes

record encode_stats =
  es_tiles :: nat
  es_refined :: nat
  es_bytes :: nat
  es_by_encoding :: "nat list"

abbreviation (input) RD_TILE :: nat where "RD_TILE \<equiv> 64"

definition no_stats :: encode_stats where
  "no_stats = \<lparr>es_tiles = 0, es_refined = 0, es_bytes = 0, es_by_encoding = [0, 0, 0, 0]\<rparr>"

definition fr_w :: "frame \<Rightarrow> nat" where "fr_w f = nat (fr_width f)"
definition fr_h :: "frame \<Rightarrow> nat" where "fr_h f = nat (fr_height f)"

definition tiles_x :: "frame \<Rightarrow> nat" where
  "tiles_x f = (fr_w f + RD_TILE - 1) div RD_TILE"

definition tiles_y :: "frame \<Rightarrow> nat" where
  "tiles_y f = (fr_h f + RD_TILE - 1) div RD_TILE"

definition tiles_total :: "frame \<Rightarrow> nat" where
  "tiles_total f = tiles_x f * tiles_y f"

definition tile_x :: "frame \<Rightarrow> nat \<Rightarrow> nat" where "tile_x f k = k mod tiles_x f * RD_TILE"
definition tile_y :: "frame \<Rightarrow> nat \<Rightarrow> nat" where "tile_y f k = k div tiles_x f * RD_TILE"
definition tile_w :: "frame \<Rightarrow> nat \<Rightarrow> nat" where "tile_w f k = min RD_TILE (fr_w f - tile_x f k)"
definition tile_h :: "frame \<Rightarrow> nat \<Rightarrow> nat" where "tile_h f k = min RD_TILE (fr_h f - tile_y f k)"

text \<open>Row \<open>y\<close> of tile \<open>k\<close>: its offset in the frame and in the shadow, and its bytes there.\<close>

definition src_off :: "frame \<Rightarrow> nat \<Rightarrow> nat \<Rightarrow> nat" where
  "src_off f k y = (tile_y f k + y) * fr_stride f + tile_x f k * 4"

definition shadow_off :: "frame \<Rightarrow> nat \<Rightarrow> nat \<Rightarrow> nat" where
  "shadow_off f k y = (tile_y f k + y) * (fr_w f * 4) + tile_x f k * 4"

definition row_of :: "bytes \<Rightarrow> nat \<Rightarrow> nat \<Rightarrow> bytes" where
  "row_of p off w = take (w * 4) (drop off p)"

definition src_row :: "frame \<Rightarrow> nat \<Rightarrow> nat \<Rightarrow> bytes" where
  "src_row f k y = row_of (fr_pixels f) (src_off f k y) (tile_w f k)"

definition tile_dirty :: "frame \<Rightarrow> bytes \<Rightarrow> nat \<Rightarrow> bool" where
  "tile_dirty f shadow k \<longleftrightarrow>
     list_ex (\<lambda>y. src_row f k y \<noteq> row_of shadow (shadow_off f k y) (tile_w f k)) [0..<tile_h f k]"

definition copy_tile :: "frame \<Rightarrow> nat \<Rightarrow> bytes \<Rightarrow> bytes" where
  "copy_tile f k shadow = fold (\<lambda>y sh. splice sh (shadow_off f k y) (src_row f k y)) [0..<tile_h f k] shadow"

record enc_run =
  er_shadow :: bytes
  er_tile_q :: "bytes option"
  er_refines :: int
  er_bufs :: "rd_buf list"
  er_stats :: "encode_stats list"

text \<open>The record of one tile: position, size, encoding and payload, the length patched in afterwards.\<close>

definition put_tile :: "alloc \<Rightarrow> frame \<Rightarrow> nat \<Rightarrow> int \<Rightarrow> rd_buf \<Rightarrow> (rd_enc \<times> rd_buf) option" where
  "put_tile al f k q buf =
     (let buf = rd_buf_put_u16 al buf (of_nat (tile_x f k));
          buf = rd_buf_put_u16 al buf (of_nat (tile_y f k));
          buf = rd_buf_put_u16 al buf (of_nat (tile_w f k));
          buf = rd_buf_put_u16 al buf (of_nat (tile_h f k));
          enc_at = rb_len buf;
          buf = rd_buf_put_u8 al buf 0;
          buf = rd_buf_put_u32 al buf 0;
          start = rb_len buf
      in case rd_encode_tile al (drop (src_off f k 0) (fr_pixels f)) (fr_stride f) (tile_w f k) (tile_h f k) q buf of
           None \<Rightarrow> None
         | Some (enc, buf) \<Rightarrow>
             (let buf = buf\<lparr>rb_data := (rb_data buf)[enc_at := of_nat (enc_id enc)]\<rparr>
              in Some (enc, rd_buf_patch_u32 buf (enc_at + 1) (of_nat (rb_len buf - start)))))"

text \<open>One tile: unchanged, changed, or lossy and due for refinement.\<close>

definition tile_step :: "alloc \<Rightarrow> frame \<Rightarrow> bool \<Rightarrow> int \<Rightarrow> int \<Rightarrow> nat \<times> nat \<Rightarrow> enc_run \<Rightarrow> enc_run option" where
  "tile_step al f full quality budget wk s =
     (case wk of (wi, k) \<Rightarrow>
       let dirty = (full \<or> tile_dirty f (er_shadow s) k);
           lossy = (case er_tile_q s of None \<Rightarrow> False | Some tq \<Rightarrow> tq ! k \<noteq> 0);
           refine = (\<not> dirty \<and> lossy \<and> er_refines s < budget);
           s = (if dirty then s\<lparr>er_shadow := copy_tile f k (er_shadow s)\<rparr>
                else if lossy then s\<lparr>er_refines := er_refines s + 1\<rparr> else s);
           q = (if refine then 0 else quality)
       in if \<not> dirty \<and> \<not> refine then Some s
          else
            let s = s\<lparr>er_tile_q := map_option (\<lambda>tq. tq[k := of_int q]) (er_tile_q s)\<rparr>
            in case put_tile al f k q (er_bufs s ! wi) of
                 None \<Rightarrow> None
               | Some (enc, buf) \<Rightarrow>
                   (let st = er_stats s ! wi;
                        st = st\<lparr>es_tiles := es_tiles st + 1, es_refined := es_refined st + (if refine then 1 else 0),
                          es_by_encoding := (es_by_encoding st)[enc_id enc := es_by_encoding st ! enc_id enc + 1]\<rparr>
                    in Some (s\<lparr>er_bufs := (er_bufs s)[wi := buf], er_stats := (er_stats s)[wi := st]\<rparr>)))"

fun tile_steps ::
  "alloc \<Rightarrow> frame \<Rightarrow> bool \<Rightarrow> int \<Rightarrow> int \<Rightarrow> (nat \<times> nat) list \<Rightarrow> enc_run \<Rightarrow> enc_run option" where
  "tile_steps al f full quality budget [] s = Some s"
| "tile_steps al f full quality budget (wk # wks) s =
     (case tile_step al f full quality budget wk s of
        None \<Rightarrow> None | Some s \<Rightarrow> tile_steps al f full quality budget wks s)"

text \<open>
  The sequences of steps the atomic counter allows: every tile once, a chunk of four tiles by one
  worker, and each worker's chunks in increasing order.
\<close>

definition schedule :: "nat \<Rightarrow> nat \<Rightarrow> (nat \<times> nat) list \<Rightarrow> bool" where
  "schedule workers n sched \<longleftrightarrow>
     distinct (map snd sched) \<and> set (map snd sched) = {..<n} \<and> (\<forall>(wi, k)\<in>set sched. wi < workers) \<and>
     (\<forall>(wi, k)\<in>set sched. \<forall>(wi', k')\<in>set sched. k div 4 = k' div 4 \<longrightarrow> wi = wi') \<and>
     (\<forall>wi < workers. sorted (map snd (filter (\<lambda>wk. fst wk = wi) sched)))"

definition add_stats :: "encode_stats \<Rightarrow> encode_stats \<Rightarrow> encode_stats" where
  "add_stats t st = \<lparr>es_tiles = es_tiles t + es_tiles st, es_refined = es_refined t + es_refined st,
     es_bytes = es_bytes t + es_bytes st,
     es_by_encoding = map (\<lambda>e. es_by_encoding t ! e + es_by_encoding st ! e) [0..<4]\<rparr>"

record encoded =
  en_stats :: encode_stats
  en_shadow :: bytes
  en_tile_q :: "bytes option"
  en_out :: rd_buf

text \<open>\<open>bufs\<close> are the workers' buffers, kept between frames; \<open>None\<close> when a palette probe would not end.\<close>

definition encode ::
  "alloc \<Rightarrow> (nat \<times> nat) list \<Rightarrow> rd_buf list \<Rightarrow> frame \<Rightarrow> bytes \<Rightarrow> bool \<Rightarrow> int \<Rightarrow> rd_buf \<Rightarrow> bytes option \<Rightarrow> int \<Rightarrow> encoded option" where
  "encode al sched bufs f shadow full quality out tile_q budget =
     (let n = tiles_total f;
          tq = map_option (\<lambda>tq. if length tq \<noteq> n then replicate n 0 else tq) tile_q;
          s0 = \<lparr>er_shadow = shadow, er_tile_q = tq, er_refines = 0, er_bufs = map rd_buf_clear bufs,
                er_stats = replicate (length bufs) no_stats\<rparr>
      in case tile_steps al f full quality budget sched s0 of
           None \<Rightarrow> None
         | Some s \<Rightarrow>
             (let stats = map2 (\<lambda>st b. st\<lparr>es_bytes := rb_len b\<rparr>) (er_stats s) (er_bufs s)
              in Some \<lparr>en_stats = foldl add_stats no_stats stats, en_shadow = er_shadow s, en_tile_q = er_tile_q s,
                   en_out = fold (\<lambda>b o'. rd_buf_put al o' (rb_data b)) (er_bufs s) out\<rparr>))"

end
