(* ===== verification/Worker_Pool.thy ===== *)
theory Worker_Pool
  imports Encoder
begin

text \<open>
  \<open>WorkerPool\<close> of \<open>host/encoder.cpp\<close> with the job \<open>FrameEncoder::encode\<close> gives it. A critical section
  of the mutex is one step; a wait on a condition variable is the step that goes to sleep, a notification
  or a spurious wake-up, and the new look at the condition. The closure of the current call is
  \<open>wp_next\<close> (the atomic counter), \<open>wp_total\<close>, and \<open>wp_log\<close>, the tiles encoded so far with the thread that
  did each; \<open>job_\<close> always points to it.
\<close>

section \<open>Threads\<close>

text \<open>
  Inside a job a thread takes the next chunk of tiles or encodes tile \<open>k\<close> of a chunk that ends before \<open>e\<close>.
\<close>

datatype job_pc = JTake | JTile nat nat

datatype worker_pc = WCheck | WSleep | WJob job_pc | WDone | WExit

datatype main_pc = MIdle | MNotify | MJob job_pc | MWait | MSleep | MQuitNotify | MJoin | MEnd

record pool =
  wp_generation :: u64
  wp_pending :: u32
  wp_quit :: bool
  wp_seen :: "u64 list"
  wp_workers :: "worker_pc list"
  wp_main :: main_pc
  wp_next :: nat
  wp_total :: nat
  wp_log :: "(nat \<times> nat) list"

text \<open>The constructor: every worker is about to look at the generation.\<close>

definition wp_init :: "nat \<Rightarrow> pool" where
  "wp_init n = \<lparr>wp_generation = 0, wp_pending = 0, wp_quit = False, wp_seen = replicate n 0, wp_workers = replicate n WCheck,
     wp_main = MIdle, wp_next = 0, wp_total = 0, wp_log = []\<rparr>"

text \<open>One step of thread \<open>i\<close> inside the job; \<open>None\<close> as program counter when its loop has ended.\<close>

definition job_step :: "nat \<Rightarrow> job_pc \<Rightarrow> pool \<Rightarrow> job_pc option \<times> pool" where
  "job_step i pc s =
     (case pc of
        JTake \<Rightarrow>
          (let t = wp_next s; s = s\<lparr>wp_next := t + 4\<rparr>
           in (if t < wp_total s then Some (JTile t (t + 4)) else None, s))
      | JTile k e \<Rightarrow>
          (let s = s\<lparr>wp_log := wp_log s @ [(i, k)]\<rparr>
           in (Some (if k + 1 < e \<and> k + 1 < wp_total s then JTile (k + 1) e else JTake), s)))"

definition notify_start :: "pool \<Rightarrow> pool" where
  "notify_start s = s\<lparr>wp_workers := map (\<lambda>pc. if pc = WSleep then WCheck else pc) (wp_workers s)\<rparr>"

definition set_worker :: "nat \<Rightarrow> worker_pc \<Rightarrow> pool \<Rightarrow> pool" where
  "set_worker w pc s = s\<lparr>wp_workers := (wp_workers s)[w := pc]\<rparr>"

text \<open>\<open>worker_main\<close>: what worker \<open>w\<close> (thread \<open>w + 1\<close>) does next; \<open>None\<close> when it is asleep or has returned.\<close>

definition worker_step :: "nat \<Rightarrow> pool \<Rightarrow> pool option" where
  "worker_step w s =
     (case wp_workers s ! w of
        WCheck \<Rightarrow>
          Some (if \<not> (wp_quit s \<or> wp_generation s \<noteq> wp_seen s ! w) then set_worker w WSleep s
                else if wp_quit s then set_worker w WExit s
                else set_worker w (WJob JTake) (s\<lparr>wp_seen := (wp_seen s)[w := wp_generation s]\<rparr>))
      | WSleep \<Rightarrow> None
      | WJob pc \<Rightarrow> (case job_step (w + 1) pc s of (pc', s) \<Rightarrow> Some (set_worker w (case pc' of None \<Rightarrow> WDone | Some pc \<Rightarrow> WJob pc) s))
      | WDone \<Rightarrow>
          (let s = s\<lparr>wp_pending := wp_pending s - 1\<rparr>;
               s = (if wp_pending s = 0 \<and> wp_main s = MSleep then s\<lparr>wp_main := MWait\<rparr> else s)
           in Some (set_worker w WCheck s))
      | WExit \<Rightarrow> None)"

text \<open>The thread that owns the pool: the rest of \<open>run_all\<close> and of the destructor.\<close>

definition main_step :: "pool \<Rightarrow> pool option" where
  "main_step s =
     (case wp_main s of
        MIdle \<Rightarrow> None
      | MNotify \<Rightarrow> Some ((notify_start s)\<lparr>wp_main := MJob JTake\<rparr>)
      | MJob pc \<Rightarrow> (case job_step 0 pc s of (pc', s) \<Rightarrow> Some (s\<lparr>wp_main := (case pc' of None \<Rightarrow> MWait | Some pc \<Rightarrow> MJob pc)\<rparr>))
      | MWait \<Rightarrow> Some (s\<lparr>wp_main := (if wp_pending s = 0 then MIdle else MSleep)\<rparr>)
      | MSleep \<Rightarrow> None
      | MQuitNotify \<Rightarrow> Some ((notify_start s)\<lparr>wp_main := MJoin\<rparr>)
      | MJoin \<Rightarrow> if list_all (\<lambda>pc. pc = WExit) (wp_workers s) then Some (s\<lparr>wp_main := MEnd\<rparr>) else None
      | MEnd \<Rightarrow> None)"

text \<open>Calls of the owner: \<open>run_all\<close> on a frame of \<open>n\<close> tiles up to the end of its first critical section, the destructor.\<close>

definition run_all_call :: "nat \<Rightarrow> pool \<Rightarrow> pool option" where
  "run_all_call n s =
     (if wp_main s = MIdle
      then Some (s\<lparr>wp_pending := of_nat (length (wp_workers s)), wp_generation := wp_generation s + 1,
             wp_main := MNotify, wp_next := 0, wp_total := n, wp_log := []\<rparr>)
      else None)"

definition quit_call :: "pool \<Rightarrow> pool option" where
  "quit_call s = (if wp_main s = MIdle then Some (s\<lparr>wp_quit := True, wp_main := MQuitNotify\<rparr>) else None)"

text \<open>
  What can happen: a thread moves, the owner calls, or a wait returns although nobody notified it.
\<close>

datatype pool_act = Owner_Moves | Worker_Moves nat | Run_All nat | Destroy | Wake_Owner | Wake_Worker nat

fun pool_event :: "pool_act \<Rightarrow> pool \<Rightarrow> pool option" where
  "pool_event Owner_Moves s = main_step s"
| "pool_event (Worker_Moves w) s = (if w < length (wp_workers s) then worker_step w s else None)"
| "pool_event (Run_All n) s = run_all_call n s"
| "pool_event Destroy s = quit_call s"
| "pool_event Wake_Owner s = (if wp_main s = MSleep then Some (s\<lparr>wp_main := MWait\<rparr>) else None)"
| "pool_event (Wake_Worker w) s =
     (if w < length (wp_workers s) \<and> wp_workers s ! w = WSleep then Some (set_worker w WCheck s) else None)"

inductive pool_reach :: "nat \<Rightarrow> pool \<Rightarrow> bool" for n where
  start: "pool_reach n (wp_init n)"
| event: "pool_reach n s \<Longrightarrow> pool_event e s = Some t \<Longrightarrow> pool_reach n t"


section \<open>The tiles of one job\<close>

text \<open>
  \<open>act i\<close> is where thread \<open>i\<close> is in the job. Chunks belong to one thread, a thread works through its chunks
  upwards, and every tile below the counter is done or in the rest of a chunk some thread holds.
\<close>

definition tile_taken :: "(nat \<Rightarrow> job_pc option) \<Rightarrow> (nat \<times> nat) list \<Rightarrow> nat \<Rightarrow> bool" where
  "tile_taken act log k \<longleftrightarrow> k \<in> snd ` set log \<or> (\<exists>i l e. act i = Some (JTile l e) \<and> l \<le> k \<and> k < e)"

definition tiles_ok :: "nat \<Rightarrow> (nat \<Rightarrow> job_pc option) \<Rightarrow> nat \<Rightarrow> nat \<Rightarrow> (nat \<times> nat) list \<Rightarrow> bool" where
  "tiles_ok p act nxt m log \<longleftrightarrow>
     nxt mod 4 = 0 \<and> distinct (map snd log) \<and>
     (\<forall>i k. (i, k) \<in> set log \<longrightarrow> i < p \<and> k < nxt \<and> k < m) \<and>
     (\<forall>i k j l. (i, k) \<in> set log \<and> (j, l) \<in> set log \<and> k div 4 = l div 4 \<longrightarrow> i = j) \<and>
     (\<forall>i. sorted (map snd (filter (\<lambda>wk. fst wk = i) log))) \<and>
     (\<forall>i k e. act i = Some (JTile k e) \<longrightarrow> i < p \<and> e = k div 4 * 4 + 4 \<and> k < m \<and> e \<le> nxt \<and>
        (\<forall>j l. (j, l) \<in> set log \<longrightarrow> (l div 4 = k div 4 \<longrightarrow> j = i) \<and> (j = i \<longrightarrow> l < k))) \<and>
     (\<forall>i j k e l d. act i = Some (JTile k e) \<and> act j = Some (JTile l d) \<and> k div 4 = l div 4 \<longrightarrow> i = j) \<and>
     (\<forall>k. k < nxt \<and> k < m \<longrightarrow> tile_taken act log k)"

lemma tiles_ok_start: "tiles_ok p (\<lambda>i. None) 0 n []"
  by (simp add: tiles_ok_def)

lemma tiles_ok_cong:
  assumes "tiles_ok p act nxt m log" "\<And>i k e. act' i = Some (JTile k e) \<longleftrightarrow> act i = Some (JTile k e)"
  shows "tiles_ok p act' nxt m log"
  using assms(1) unfolding tiles_ok_def tile_taken_def assms(2) .

lemma tiles_ok_done:
  assumes "tiles_ok p act nxt m log" "m \<le> nxt" "\<And>i k e. act i \<noteq> Some (JTile k e)"
  shows "schedule p m log"
proof -
  have "set (map snd log) = {..<m}"
    using assms unfolding tiles_ok_def tile_taken_def by (auto simp: image_iff split: prod.splits)
  then show ?thesis using assms(1) unfolding tiles_ok_def schedule_def by blast
qed

lemma tiles_okD:
  assumes "tiles_ok p act nxt m log"
  shows "nxt mod 4 = 0" "distinct (map snd log)"
    "(i, k) \<in> set log \<Longrightarrow> i < p \<and> k < nxt \<and> k < m"
    "(i, k) \<in> set log \<Longrightarrow> (j, l) \<in> set log \<Longrightarrow> k div 4 = l div 4 \<Longrightarrow> i = j"
    "sorted (map snd (filter (\<lambda>wk. fst wk = i) log))"
    "act i = Some (JTile k e) \<Longrightarrow> i < p \<and> e = k div 4 * 4 + 4 \<and> k < m \<and> e \<le> nxt"
    "act i = Some (JTile k e) \<Longrightarrow> (j, l) \<in> set log \<Longrightarrow> (l div 4 = k div 4 \<longrightarrow> j = i) \<and> (j = i \<longrightarrow> l < k)"
    "act i = Some (JTile k e) \<Longrightarrow> act j = Some (JTile l d) \<Longrightarrow> k div 4 = l div 4 \<Longrightarrow> i = j"
    "k < nxt \<Longrightarrow> k < m \<Longrightarrow> tile_taken act log k"
  using assms unfolding tiles_ok_def by blast+

lemma tiles_ok_take:
  assumes t: "tiles_ok p act nxt m log" and i: "i < p" "act i = Some JTake" and n: "nxt < m"
  shows "tiles_ok p (act(i := Some (JTile nxt (nxt + 4)))) (nxt + 4) m log"
proof -
  note D = tiles_okD [OF t]
  have e: "nxt div 4 * 4 = nxt" using D(1) by presburger
  have low: "l div 4 \<noteq> nxt div 4" if "l < nxt" for l using div_times_less_eq_dividend [of l 4] that e by auto
  have act: "act j = Some (JTile l d) \<Longrightarrow> l < nxt" for j l d
    using D(6) [of j l d] dividend_less_div_times [of 4 l] by auto
  show ?thesis
    unfolding tiles_ok_def
  proof (intro conjI)
    show "\<forall>i k. (i, k) \<in> set log \<longrightarrow> i < p \<and> k < nxt + 4 \<and> k < m" using D(3) trans_less_add1 by blast
    show "\<forall>i k j l. (i, k) \<in> set log \<and> (j, l) \<in> set log \<and> k div 4 = l div 4 \<longrightarrow> i = j" using D(4) by blast
    show "\<forall>j k e. (act(i := Some (JTile nxt (nxt + 4)))) j = Some (JTile k e) \<longrightarrow>
        j < p \<and> e = k div 4 * 4 + 4 \<and> k < m \<and> e \<le> nxt + 4 \<and>
        (\<forall>i' l. (i', l) \<in> set log \<longrightarrow> (l div 4 = k div 4 \<longrightarrow> i' = j) \<and> (i' = j \<longrightarrow> l < k))"
    proof (intro allI impI)
      fix j k e' assume j: "(act(i := Some (JTile nxt (nxt + 4)))) j = Some (JTile k e')"
      show "j < p \<and> e' = k div 4 * 4 + 4 \<and> k < m \<and> e' \<le> nxt + 4 \<and>
          (\<forall>i' l. (i', l) \<in> set log \<longrightarrow> (l div 4 = k div 4 \<longrightarrow> i' = j) \<and> (i' = j \<longrightarrow> l < k))"
      proof (cases "j = i")
        case True
        then have "k = nxt" "e' = nxt + 4" using j by simp_all
        then show ?thesis using True D(3) i n e low by auto
      next
        case False
        then have "act j = Some (JTile k e')" using j by simp
        then show ?thesis using D(6,7) [of j k e'] by auto
      qed
    qed
    show "\<forall>i' j k e l d. (act(i := Some (JTile nxt (nxt + 4)))) i' = Some (JTile k e) \<and>
        (act(i := Some (JTile nxt (nxt + 4)))) j = Some (JTile l d) \<and> k div 4 = l div 4 \<longrightarrow> i' = j"
      using D(8) act low by (metis (no_types, lifting) fun_upd_apply job_pc.inject option.inject)
    show "\<forall>k. k < nxt + 4 \<and> k < m \<longrightarrow> tile_taken (act(i := Some (JTile nxt (nxt + 4)))) log k"
    proof (intro allI impI)
      fix k assume k: "k < nxt + 4 \<and> k < m"
      show "tile_taken (act(i := Some (JTile nxt (nxt + 4)))) log k"
      proof (cases "k < nxt")
        case True
        then have "tile_taken act log k" using D(9) k by blast
        then show ?thesis using i(2) unfolding tile_taken_def by (metis fun_upd_other job_pc.distinct(1) option.inject)
      next
        case False
        then show ?thesis using k unfolding tile_taken_def by (metis fun_upd_same linorder_not_less)
      qed
    qed
  qed (use D(1,2,5) in \<open>simp_all\<close>)
qed

lemma tiles_ok_tile:
  assumes t: "tiles_ok p act nxt m log" and a: "act i = Some (JTile k e)"
  shows "tiles_ok p (act(i := Some (if k + 1 < e \<and> k + 1 < m then JTile (k + 1) e else JTake))) nxt m (log @ [(i, k)])"
    (is "tiles_ok p ?act nxt m ?log")
proof -
  note D = tiles_okD [OF t]
  have ik: "i < p" "e = k div 4 * 4 + 4" "k < m" "e \<le> nxt" using D(6) [OF a] by auto
  have k: "k < nxt" using ik dividend_less_div_times [of 4 k] by simp
  have new: "(j, l) \<in> set log \<Longrightarrow> l \<noteq> k" for j l using D(7) [OF a] by blast
  have same: "(k + 1) div 4 = k div 4" if "k + 1 < e" using that ik(2) by presburger
  have act: "?act j = Some (JTile l d) \<Longrightarrow> (j = i \<and> l = k + 1 \<and> d = e \<and> k + 1 < e \<and> k + 1 < m) \<or> (j \<noteq> i \<and> act j = Some (JTile l d))" for j l d
    by (auto split: if_splits)
  show ?thesis
    unfolding tiles_ok_def
  proof (intro conjI)
    show "distinct (map snd ?log)" using D(2) new [of _ k] by auto
    show "\<forall>i k. (i, k) \<in> set ?log \<longrightarrow> i < p \<and> k < nxt \<and> k < m" using D(3) ik k by auto
    show "\<forall>i' k' j l. (i', k') \<in> set ?log \<and> (j, l) \<in> set ?log \<and> k' div 4 = l div 4 \<longrightarrow> i' = j"
      using D(4) D(7) [OF a] by (auto dest: sym)
    show "\<forall>i. sorted (map snd (filter (\<lambda>wk. fst wk = i) ?log))"
      using D(5) D(7) [OF a] by (auto simp: sorted_append less_imp_le)
    show "\<forall>j k' e'. ?act j = Some (JTile k' e') \<longrightarrow> j < p \<and> e' = k' div 4 * 4 + 4 \<and> k' < m \<and> e' \<le> nxt \<and>
        (\<forall>i' l. (i', l) \<in> set ?log \<longrightarrow> (l div 4 = k' div 4 \<longrightarrow> i' = j) \<and> (i' = j \<longrightarrow> l < k'))"
    proof (intro allI impI)
      fix j k' e' assume "?act j = Some (JTile k' e')"
      from act [OF this] show "j < p \<and> e' = k' div 4 * 4 + 4 \<and> k' < m \<and> e' \<le> nxt \<and>
        (\<forall>i' l. (i', l) \<in> set ?log \<longrightarrow> (l div 4 = k' div 4 \<longrightarrow> i' = j) \<and> (i' = j \<longrightarrow> l < k'))"
      proof (elim disjE conjE)
        assume *: "j = i" "k' = k + 1" "e' = e" "k + 1 < e" "k + 1 < m"
        have "(i', l) \<in> set log \<Longrightarrow> (l div 4 = k div 4 \<longrightarrow> i' = i) \<and> (i' = i \<longrightarrow> l < k + 1)" for i' l
          using D(7) [OF a, of i' l] by auto
        then show ?thesis using * ik same by auto
      next
        assume *: "j \<noteq> i" "act j = Some (JTile k' e')"
        have "k div 4 \<noteq> k' div 4" using D(8) [OF a *(2)] *(1) by blast
        then show ?thesis using D(6,7) [OF *(2)] *(1) by auto
      qed
    qed
    show "\<forall>i' j k e l d. ?act i' = Some (JTile k e) \<and> ?act j = Some (JTile l d) \<and> k div 4 = l div 4 \<longrightarrow> i' = j"
    proof (intro allI impI, elim conjE)
      fix i' j k' e' l d assume *: "?act i' = Some (JTile k' e')" "?act j = Some (JTile l d)" "k' div 4 = l div 4"
      show "i' = j" using act [OF *(1)] act [OF *(2)] *(3) D(8) a same by metis
    qed
    show "\<forall>l. l < nxt \<and> l < m \<longrightarrow> tile_taken ?act ?log l"
    proof (intro allI impI)
      fix l assume l: "l < nxt \<and> l < m"
      then consider "l \<in> snd ` set log" | j l' d where "act j = Some (JTile l' d)" "l' \<le> l" "l < d" using D(9) unfolding tile_taken_def by blast
      then show "tile_taken ?act ?log l"
      proof cases
        case 1
        then show ?thesis by (auto simp: tile_taken_def)
      next
        case 2
        then show ?thesis using a l unfolding tile_taken_def by (cases "j = i"; cases "l = k") (auto simp: fun_upd_def)
      qed
    qed
  qed (use D(1) in simp)
qed

lemma tiles_ok_skip:
  assumes t: "tiles_ok p act nxt m log" and n: "m \<le> nxt"
  shows "tiles_ok p act (nxt + 4) m log"
proof -
  note D = tiles_okD [OF t]
  show ?thesis
    unfolding tiles_ok_def
  proof (intro conjI)
    show "\<forall>i k. (i, k) \<in> set log \<longrightarrow> i < p \<and> k < nxt + 4 \<and> k < m" using D(3) trans_less_add1 by blast
    show "\<forall>i k j l. (i, k) \<in> set log \<and> (j, l) \<in> set log \<and> k div 4 = l div 4 \<longrightarrow> i = j" using D(4) by blast
    show "\<forall>i k e. act i = Some (JTile k e) \<longrightarrow> i < p \<and> e = k div 4 * 4 + 4 \<and> k < m \<and> e \<le> nxt + 4 \<and>
        (\<forall>j l. (j, l) \<in> set log \<longrightarrow> (l div 4 = k div 4 \<longrightarrow> j = i) \<and> (j = i \<longrightarrow> l < k))"
      using D(6,7) trans_le_add1 by blast
    show "\<forall>i j k e l d. act i = Some (JTile k e) \<and> act j = Some (JTile l d) \<and> k div 4 = l div 4 \<longrightarrow> i = j"
      using D(8) by blast
    show "\<forall>k. k < nxt + 4 \<and> k < m \<longrightarrow> tile_taken act log k" using D(9) n less_le_trans by blast
  qed (use D(1,2,5) in \<open>simp_all\<close>)
qed

section \<open>The invariant of the pool\<close>

definition act_of :: "pool \<Rightarrow> nat \<Rightarrow> job_pc option" where
  "act_of s i =
     (case i of
        0 \<Rightarrow> (case wp_main s of MJob pc \<Rightarrow> Some pc | _ \<Rightarrow> None)
      | Suc w \<Rightarrow> (if w < length (wp_workers s) then case wp_workers s ! w of WJob pc \<Rightarrow> Some pc | _ \<Rightarrow> None else None))"

text \<open>The workers that still owe the current call a decrement.\<close>

definition busy :: "pool \<Rightarrow> nat set" where
  "busy s = {w. w < length (wp_workers s) \<and>
     (wp_seen s ! w \<noteq> wp_generation s \<or> (\<exists>pc. wp_workers s ! w = WJob pc) \<or> wp_workers s ! w = WDone)}"

definition running :: "main_pc \<Rightarrow> bool" where
  "running m \<longleftrightarrow> m = MNotify \<or> m = MWait \<or> m = MSleep \<or> (\<exists>pc. m = MJob pc)"

definition past_job :: "pool \<Rightarrow> bool" where
  "past_job s \<longleftrightarrow> (wp_main s \<noteq> MNotify \<and> (\<forall>pc. wp_main s \<noteq> MJob pc)) \<or> WDone \<in> set (wp_workers s)"

definition pool_ok :: "nat \<Rightarrow> pool \<Rightarrow> bool" where
  "pool_ok n s \<longleftrightarrow>
     length (wp_workers s) = n \<and> length (wp_seen s) = n \<and> n < 2 ^ 32 \<and>
     (wp_quit s \<longleftrightarrow> wp_main s = MQuitNotify \<or> wp_main s = MJoin \<or> wp_main s = MEnd) \<and>
     wp_pending s = of_nat (card (busy s)) \<and>
     (\<not> running (wp_main s) \<longrightarrow> busy s = {}) \<and>
     (wp_main s = MSleep \<longrightarrow> busy s \<noteq> {}) \<and>
     (\<forall>w < n. wp_seen s ! w \<noteq> wp_generation s \<longrightarrow>
        wp_workers s ! w = WCheck \<or> wp_workers s ! w = WSleep \<and> wp_main s = MNotify) \<and>
     (\<forall>w < n. wp_workers s ! w = WExit \<longrightarrow> wp_quit s) \<and>
     (\<forall>w < n. wp_workers s ! w = WSleep \<and> wp_quit s \<longrightarrow> wp_main s = MQuitNotify) \<and>
     (wp_main s = MEnd \<longrightarrow> (\<forall>w < n. wp_workers s ! w = WExit)) \<and>
     (past_job s \<longrightarrow> wp_total s \<le> wp_next s) \<and>
     tiles_ok (Suc n) (act_of s) (wp_next s) (wp_total s) (wp_log s)"

lemma act_of_worker: "w < length (wp_workers s) \<Longrightarrow>
    act_of (set_worker w pc s) = (act_of s)(Suc w := (case pc of WJob j \<Rightarrow> Some j | _ \<Rightarrow> None))"
  by (auto simp: act_of_def set_worker_def fun_eq_iff split: nat.splits)

lemma act_of_main: "act_of (s\<lparr>wp_main := m\<rparr>) = (act_of s)(0 := (case m of MJob j \<Rightarrow> Some j | _ \<Rightarrow> None))"
  by (auto simp: act_of_def fun_eq_iff split: nat.splits)

lemma act_of_simps [simp]:
  "act_of (s\<lparr>wp_pending := a\<rparr>) = act_of s" "act_of (s\<lparr>wp_seen := b\<rparr>) = act_of s" "act_of (s\<lparr>wp_next := c\<rparr>) = act_of s"
  "act_of (s\<lparr>wp_log := d\<rparr>) = act_of s" "act_of (s\<lparr>wp_generation := e\<rparr>) = act_of s" "act_of (s\<lparr>wp_total := f\<rparr>) = act_of s"
  "act_of (s\<lparr>wp_quit := g\<rparr>) = act_of s" "act_of (notify_start s) = act_of s"
  by (auto simp: act_of_def notify_start_def fun_eq_iff split: nat.splits)

lemma finite_busy [simp]: "finite (busy s)"
  by (simp add: busy_def)

lemma card_busy: "pool_ok n s \<Longrightarrow> card (busy s) \<le> n"
  using card_mono [of "{..<n}" "busy s"] by (auto simp: pool_ok_def busy_def)

lemma pending_zero: "pool_ok n s \<Longrightarrow> wp_pending s = 0 \<longleftrightarrow> busy s = {}"
proof -
  assume s: "pool_ok n s"
  then have "card (busy s) < 2 ^ 32" using card_busy [OF s] by (simp add: pool_ok_def)
  then have "(of_nat (card (busy s)) :: u32) = 0 \<longleftrightarrow> card (busy s) = 0"
    by (auto simp: word_of_nat_eq_0_iff dest: nat_dvd_not_less)
  then show ?thesis using s by (simp add: pool_ok_def)
qed

lemma job_step_frame:
  assumes "job_step i pc s = (pc', t)"
  shows "t = s\<lparr>wp_next := wp_next t, wp_log := wp_log t\<rparr>" "wp_next s \<le> wp_next t"
  using assms by (auto simp: job_step_def Let_def split: job_pc.splits)

lemma job_step_tiles:
  assumes "job_step i pc s = (pc', t)" "tiles_ok p (act_of s) (wp_next s) (wp_total s) (wp_log s)" "act_of s i = Some pc" "i < p"
  shows "tiles_ok p ((act_of s)(i := pc')) (wp_next t) (wp_total s) (wp_log t)" "pc' = None \<Longrightarrow> wp_total s \<le> wp_next t"
proof -
  have "tiles_ok p ((act_of s)(i := pc')) (wp_next t) (wp_total s) (wp_log t) \<and> (pc' = None \<longrightarrow> wp_total s \<le> wp_next t)"
  proof (cases pc)
    case JTake
    show ?thesis
    proof (cases "wp_next s < wp_total s")
      case True
      then have "pc' = Some (JTile (wp_next s) (wp_next s + 4))" "t = s\<lparr>wp_next := wp_next s + 4\<rparr>"
        using assms(1) by (auto simp: job_step_def JTake Let_def)
      then show ?thesis using tiles_ok_take [OF assms(2,4)] assms(3) True JTake by simp
    next
      case False
      then have "pc' = None" "t = s\<lparr>wp_next := wp_next s + 4\<rparr>" using assms(1) by (auto simp: job_step_def JTake Let_def)
      moreover have "tiles_ok p (act_of s) (wp_next s + 4) (wp_total s) (wp_log s)"
        using tiles_ok_skip [OF assms(2)] False by simp
      then have "tiles_ok p ((act_of s)(i := None)) (wp_next s + 4) (wp_total s) (wp_log s)"
        by (rule tiles_ok_cong) (use assms(3) JTake in auto)
      ultimately show ?thesis using False by simp
    qed
  next
    case (JTile k e)
    have "pc' = Some (if k + 1 < e \<and> k + 1 < wp_total s then JTile (k + 1) e else JTake)" "t = s\<lparr>wp_log := wp_log s @ [(i, k)]\<rparr>"
      using assms(1) by (auto simp: job_step_def JTile Let_def)
    then show ?thesis using tiles_ok_tile [OF assms(2), of i k e] assms(3) JTile by simp
  qed
  then show "tiles_ok p ((act_of s)(i := pc')) (wp_next t) (wp_total s) (wp_log t)" "pc' = None \<Longrightarrow> wp_total s \<le> wp_next t"
    by simp_all
qed

lemma pool_ok_init: "n < 2 ^ 32 \<Longrightarrow> pool_ok n (wp_init n)"
proof -
  have "act_of (wp_init n) = (\<lambda>i. None)" by (auto simp: act_of_def wp_init_def split: nat.splits)
  moreover have "busy (wp_init n) = {}" by (auto simp: busy_def wp_init_def)
  ultimately show "n < 2 ^ 32 \<Longrightarrow> pool_ok n (wp_init n)"
    unfolding pool_ok_def by (auto simp: wp_init_def past_job_def tiles_ok_start)
qed

lemma pool_okD:
  assumes "pool_ok n s"
  shows "length (wp_workers s) = n" "length (wp_seen s) = n" "n < 2 ^ 32"
    "wp_quit s \<longleftrightarrow> wp_main s = MQuitNotify \<or> wp_main s = MJoin \<or> wp_main s = MEnd"
    "wp_pending s = of_nat (card (busy s))"
    "\<not> running (wp_main s) \<Longrightarrow> busy s = {}"
    "wp_main s = MSleep \<Longrightarrow> busy s \<noteq> {}"
    "w < n \<Longrightarrow> wp_seen s ! w \<noteq> wp_generation s \<Longrightarrow> wp_workers s ! w = WCheck \<or> wp_workers s ! w = WSleep \<and> wp_main s = MNotify"
    "w < n \<Longrightarrow> wp_workers s ! w = WExit \<Longrightarrow> wp_quit s"
    "w < n \<Longrightarrow> wp_workers s ! w = WSleep \<Longrightarrow> wp_quit s \<Longrightarrow> wp_main s = MQuitNotify"
    "wp_main s = MEnd \<Longrightarrow> w < n \<Longrightarrow> wp_workers s ! w = WExit"
    "past_job s \<Longrightarrow> wp_total s \<le> wp_next s"
    "tiles_ok (Suc n) (act_of s) (wp_next s) (wp_total s) (wp_log s)"
  using assms unfolding pool_ok_def by blast+

lemma pool_ok_call: "pool_ok n s \<Longrightarrow> run_all_call m s = Some t \<Longrightarrow> pool_ok n t"
proof -
  assume s: "pool_ok n s" and t: "run_all_call m s = Some t"
  note D = pool_okD [OF s]
  have m: "wp_main s = MIdle" and t: "t = s\<lparr>wp_pending := of_nat (length (wp_workers s)), wp_generation := wp_generation s + 1,
       wp_main := MNotify, wp_next := 0, wp_total := m, wp_log := []\<rparr>"
    using t by (auto simp: run_all_call_def split: if_splits)
  have b: "busy s = {}" using D(6) m by (simp add: running_def)
  then have w: "wp_seen s ! w = wp_generation s \<and> wp_workers s ! w \<noteq> WDone \<and> (\<forall>pc. wp_workers s ! w \<noteq> WJob pc)" if "w < n" for w
    using that D(1) by (auto simp: busy_def)
  then have w': "wp_workers s ! w = WCheck \<or> wp_workers s ! w = WSleep" if "w < n" for w
    using that D(4,9) m by (cases "wp_workers s ! w") auto
  have d: "WDone \<notin> set (wp_workers s)" using w D(1) by (auto simp: in_set_conv_nth)
  have "busy t = {..<n}" using w D(1) by (auto simp: busy_def t)
  moreover have "act_of t = (\<lambda>i. None)" using w' D(1) by (fastforce simp: act_of_def t split: nat.splits)
  ultimately show ?thesis
    using D w' m d unfolding pool_ok_def by (auto simp: t running_def past_job_def tiles_ok_start)
qed

lemma busy_set_worker: "w < length (wp_workers s) \<Longrightarrow> wp_seen s ! w = wp_generation s \<Longrightarrow>
    busy (set_worker w pc s) = (if pc = WDone \<or> (\<exists>j. pc = WJob j) then insert w (busy s) else busy s - {w})"
  by (auto simp: busy_def set_worker_def nth_list_update)

lemma busy_stale: "w < length (wp_workers s) \<Longrightarrow> wp_seen s ! w \<noteq> wp_generation s \<Longrightarrow> busy (set_worker w pc s) = busy s"
  by (auto simp: busy_def set_worker_def nth_list_update)

lemma set_worker_simps [simp]:
  "wp_workers (set_worker w pc s) = (wp_workers s)[w := pc]" "wp_seen (set_worker w pc s) = wp_seen s"
  "wp_generation (set_worker w pc s) = wp_generation s" "wp_pending (set_worker w pc s) = wp_pending s"
  "wp_quit (set_worker w pc s) = wp_quit s" "wp_main (set_worker w pc s) = wp_main s" "wp_next (set_worker w pc s) = wp_next s"
  "wp_total (set_worker w pc s) = wp_total s" "wp_log (set_worker w pc s) = wp_log s"
  by (simp_all add: set_worker_def)

lemma busy_simps [simp]:
  "busy (s\<lparr>wp_pending := a\<rparr>) = busy s" "busy (s\<lparr>wp_main := m\<rparr>) = busy s" "busy (s\<lparr>wp_next := c\<rparr>) = busy s"
  "busy (s\<lparr>wp_log := d\<rparr>) = busy s" "busy (s\<lparr>wp_quit := g\<rparr>) = busy s"
  by (simp_all add: busy_def)

lemma busy_notify [simp]: "busy (notify_start s) = busy s"
  by (auto simp: busy_def notify_start_def split: if_splits)

lemma set_update_mem: "x \<in> set (xs[i := y]) \<Longrightarrow> x = y \<or> x \<in> set xs"
  using set_update_subset_insert [of xs i y] by auto

text \<open>What a step of one worker has to keep.\<close>

lemma pool_ok_workerI:
  assumes s: "pool_ok n s" and w: "w < n"
    and ws: "wp_workers t = (wp_workers s)[w := pc]" and seen: "length (wp_seen t) = n" "\<And>v. v \<noteq> w \<Longrightarrow> wp_seen t ! v = wp_seen s ! v"
    and g: "wp_generation t = wp_generation s" and q: "wp_quit t = wp_quit s"
    and m: "wp_main t = wp_main s \<or> wp_main s = MSleep \<and> wp_main t = MWait" and e: "wp_main s \<noteq> MEnd"
    and p: "wp_pending t = of_nat (card (busy t))" and b: "\<not> running (wp_main s) \<Longrightarrow> busy t = {}" "wp_main t = MSleep \<Longrightarrow> busy t \<noteq> {}"
    and pc: "wp_seen t ! w \<noteq> wp_generation s \<Longrightarrow> pc = WCheck" "pc = WExit \<Longrightarrow> wp_quit s" "pc = WSleep \<Longrightarrow> \<not> wp_quit s"
    and j: "past_job t \<Longrightarrow> wp_total t \<le> wp_next t" and ok: "tiles_ok (Suc n) (act_of t) (wp_next t) (wp_total t) (wp_log t)"
  shows "pool_ok n t"
proof -
  note D = pool_okD [OF s]
  have r: "running (wp_main t) = running (wp_main s)" "(wp_main t = MQuitNotify) = (wp_main s = MQuitNotify)"
    "(wp_main t = MJoin) = (wp_main s = MJoin)" "wp_main t \<noteq> MEnd" "(wp_main t = MNotify) = (wp_main s = MNotify)"
    using m e unfolding running_def by (elim disjE conjE; simp)+
  have v: "wp_workers t ! v = (if v = w then pc else wp_workers s ! v)" if "v < n" for v
    using ws w that D(1) by (simp add: nth_list_update)
  show ?thesis
    unfolding pool_ok_def
  proof (intro conjI)
    show "wp_quit t = (wp_main t = MQuitNotify \<or> wp_main t = MJoin \<or> wp_main t = MEnd)" using D(4) q r e by simp
    show "\<forall>v<n. wp_seen t ! v \<noteq> wp_generation t \<longrightarrow> wp_workers t ! v = WCheck \<or> wp_workers t ! v = WSleep \<and> wp_main t = MNotify"
      using D(8) pc(1) seen(2) r g v by simp
    show "\<forall>v<n. wp_workers t ! v = WExit \<longrightarrow> wp_quit t" using D(9) pc(2) q v by auto
    show "\<forall>v<n. wp_workers t ! v = WSleep \<and> wp_quit t \<longrightarrow> wp_main t = MQuitNotify" using D(10) pc(3) q v r by auto
  qed (use D(1,3) ws seen p b j ok r in simp_all)
qed

lemma pool_ok_sleep:
  assumes s: "pool_ok n s" and w: "w < n" "wp_workers s ! w = WCheck" "\<not> wp_quit s" "wp_generation s = wp_seen s ! w"
  shows "pool_ok n (set_worker w WSleep s)"
proof -
  note D = pool_okD [OF s]
  have b: "busy (set_worker w WSleep s) = busy s" using w D(1) by (simp add: busy_set_worker) (auto simp: busy_def)
  have a: "act_of (set_worker w WSleep s) = act_of s" using w D(1) by (auto simp: act_of_worker act_of_def fun_eq_iff)
  have j: "past_job (set_worker w WSleep s) \<Longrightarrow> past_job s" by (auto simp: past_job_def dest: set_update_mem)
  have "wp_main s \<noteq> MEnd" using D(4) w by simp
  then show ?thesis using w D j by (intro pool_ok_workerI [OF s w(1), of _ WSleep]) (simp_all add: a b)
qed

lemma pool_ok_wake:
  assumes s: "pool_ok n s" and w: "w < n" "wp_workers s ! w = WSleep"
  shows "pool_ok n (set_worker w WCheck s)"
proof -
  note D = pool_okD [OF s]
  have b: "busy (set_worker w WCheck s) = busy s"
    using w D(1) by (cases "wp_seen s ! w = wp_generation s") (auto simp: busy_set_worker busy_stale, auto simp: busy_def)
  have a: "act_of (set_worker w WCheck s) = act_of s" using w D(1) by (auto simp: act_of_worker act_of_def fun_eq_iff)
  have j: "past_job (set_worker w WCheck s) \<Longrightarrow> past_job s" by (auto simp: past_job_def dest: set_update_mem)
  have "wp_main s \<noteq> MEnd" using D(11) w by auto
  then show ?thesis using w D(1-7,12,13) j by (intro pool_ok_workerI [OF s w(1), of _ WCheck]) (simp_all add: a b)
qed

lemma pool_ok_exit:
  assumes s: "pool_ok n s" and w: "w < n" "wp_workers s ! w = WCheck" "wp_quit s"
  shows "pool_ok n (set_worker w WExit s)"
proof -
  note D = pool_okD [OF s]
  have b0: "busy s = {}" using D(4,6) w(3) by (auto simp: running_def)
  then have seen: "wp_seen s ! w = wp_generation s" using w D(1) by (auto simp: busy_def)
  then have b: "busy (set_worker w WExit s) = busy s" using w D(1) b0 by (simp add: busy_set_worker)
  have a: "act_of (set_worker w WExit s) = act_of s" using w D(1) by (auto simp: act_of_worker act_of_def fun_eq_iff)
  have j: "past_job (set_worker w WExit s) \<Longrightarrow> past_job s" by (auto simp: past_job_def dest: set_update_mem)
  have "wp_main s \<noteq> MEnd" using D(11) w by auto
  then show ?thesis using w seen D(1-7,12,13) j by (intro pool_ok_workerI [OF s w(1), of _ WExit]) (simp_all add: a b)
qed

lemma pool_ok_start_job:
  assumes s: "pool_ok n s" and w: "w < n" "wp_workers s ! w = WCheck" "wp_generation s \<noteq> wp_seen s ! w"
  shows "pool_ok n (set_worker w (WJob JTake) (s\<lparr>wp_seen := (wp_seen s)[w := wp_generation s]\<rparr>))" (is "pool_ok n ?t")
proof -
  note D = pool_okD [OF s]
  have b: "busy ?t = busy s" using w D(1,2) by (auto simp: busy_def set_worker_def nth_list_update)
  have ok: "tiles_ok (Suc n) (act_of ?t) (wp_next s) (wp_total s) (wp_log s)"
    by (rule tiles_ok_cong [OF D(13)]) (use w D(1) in \<open>auto simp: act_of_worker act_of_def split: if_splits\<close>)
  have j: "past_job ?t \<Longrightarrow> past_job s" by (auto simp: past_job_def dest: set_update_mem)
  have "wp_main s \<noteq> MEnd" using D(11) w by auto
  then show ?thesis using w D(1-7,12) ok j by (intro pool_ok_workerI [OF s w(1), of _ "WJob JTake"]) (simp_all add: b)
qed

lemma pool_ok_job:
  assumes s: "pool_ok n s" and w: "w < n" "wp_workers s ! w = WJob pc" and j: "job_step (w + 1) pc s = (pc', t)"
  shows "pool_ok n (set_worker w (case pc' of None \<Rightarrow> WDone | Some pc \<Rightarrow> WJob pc) t)" (is "pool_ok n (set_worker w ?pc t)")
proof -
  note D = pool_okD [OF s]
  obtain x l where t: "t = s\<lparr>wp_next := x, wp_log := l\<rparr>" and x: "wp_next s \<le> x" using job_step_frame [OF j] by auto
  have seen: "wp_seen s ! w = wp_generation s" using D(8) w by fastforce
  have wb: "w \<in> busy s" using w D(1) by (auto simp: busy_def)
  then have b: "busy (set_worker w ?pc t) = busy s"
    using busy_set_worker [of w t ?pc] seen w D(1) by (auto simp: t split: option.splits)
  have act: "act_of s (Suc w) = Some pc" using w D(1) by (simp add: act_of_def)
  have tl: "tiles_ok (Suc n) ((act_of s)(Suc w := pc')) x (wp_total s) l" "pc' = None \<Longrightarrow> wp_total s \<le> x"
    using job_step_tiles [OF j [unfolded Suc_eq_plus1 [symmetric]] D(13) act] w by (simp_all add: t)
  have a: "act_of (set_worker w ?pc t) = (act_of s)(Suc w := pc')"
    using w D(1) by (simp add: t act_of_worker split: option.splits)
  have pj: "wp_total s \<le> x" if "past_job (set_worker w ?pc t)"
  proof -
    have "past_job s \<or> pc' = None" using that by (auto simp: past_job_def t dest!: set_update_mem split: option.splits)
    then show ?thesis using D(12) x tl(2) by auto
  qed
  have "wp_main s \<noteq> MEnd" using D(11) w by auto
  then show ?thesis
    using w D(1-7) pj seen tl(1) wb
    by (intro pool_ok_workerI [OF s w(1), of _ ?pc]) (simp_all add: a b, auto simp: t split: option.splits)
qed

lemma pool_ok_done:
  assumes s: "pool_ok n s" and w: "w < n" "wp_workers s ! w = WDone"
    and t: "t = (let s = s\<lparr>wp_pending := wp_pending s - 1\<rparr>
      in if wp_pending s = 0 \<and> wp_main s = MSleep then s\<lparr>wp_main := MWait\<rparr> else s)"
  shows "pool_ok n (set_worker w WCheck t)" (is "pool_ok n ?t")
proof -
  note D = pool_okD [OF s]
  have seen: "wp_seen s ! w = wp_generation s" using D(8) w by fastforce
  have w': "w \<in> busy s" using w D(1) by (auto simp: busy_def)
  have same: "wp_workers t = wp_workers s" "wp_seen t = wp_seen s" "wp_generation t = wp_generation s" "wp_quit t = wp_quit s"
    "wp_next t = wp_next s" "wp_total t = wp_total s" "wp_log t = wp_log s" "wp_pending t = wp_pending s - 1"
    "wp_main t = (if wp_pending t = 0 \<and> wp_main s = MSleep then MWait else wp_main s)"
    by (simp_all add: t Let_def)
  then have "busy t = busy s" by (simp add: busy_def)
  then have b: "busy ?t = busy s - {w}" using busy_set_worker [of w t WCheck] w D(1) seen same by simp
  have c: "card (busy s) = Suc (card (busy s - {w}))" using w' by (metis card.remove finite_busy)
  then have p: "wp_pending ?t = of_nat (card (busy ?t))" using D(5) b same by simp
  have "card (busy ?t) < 2 ^ 32" using c b card_busy [OF s] D(3) by simp
  then have z: "wp_pending ?t = 0 \<longleftrightarrow> busy ?t = {}"
    unfolding p by (auto simp: word_of_nat_eq_0_iff dest: nat_dvd_not_less)
  have "act_of t = act_of s" by (simp add: t Let_def) (auto simp: act_of_main act_of_def fun_eq_iff)
  then have a: "act_of ?t = act_of s" using w D(1) same(1) by (auto simp: act_of_worker) (auto simp: act_of_def fun_eq_iff)
  have j: "past_job s" using w D(1) by (auto simp: past_job_def in_set_conv_nth)
  have e: "wp_main s \<noteq> MEnd" using D(11) w by auto
  have r: "running (wp_main s)" using D(6) w' by auto
  have "wp_main ?t = MSleep \<Longrightarrow> busy ?t \<noteq> {}" using z same by (auto split: if_splits)
  then show ?thesis
    using w D(1-3,12,13) same(1-7) seen e r j p
    by (intro pool_ok_workerI [OF s w(1), of _ WCheck]) (simp_all add: a same(9))
qed

lemma pool_ok_worker: "pool_ok n s \<Longrightarrow> w < n \<Longrightarrow> worker_step w s = Some t \<Longrightarrow> pool_ok n t"
  using pool_ok_done [OF _ _ _ refl, of n s w, unfolded Let_def]
  by (cases "wp_workers s ! w")
    (auto simp: worker_step_def Let_def pool_ok_sleep pool_ok_exit pool_ok_start_job dest: pool_ok_job split: if_splits prod.splits)


lemma pool_ok_main:
  assumes s: "pool_ok n s" and t: "main_step s = Some t"
  shows "pool_ok n t"
proof (cases "wp_main s")
  case MNotify
  note D = pool_okD [OF s]
  have t': "t = (notify_start s)\<lparr>wp_main := MJob JTake\<rparr>" using t by (simp add: main_step_def MNotify)
  have w: "wp_workers t ! v = (if wp_workers s ! v = WSleep then WCheck else wp_workers s ! v)" if "v < n" for v
    using that D(1) by (simp add: t' notify_start_def)
  have "tiles_ok (Suc n) (act_of t) (wp_next s) (wp_total s) (wp_log s)"
    by (rule tiles_ok_cong [OF D(13)]) (auto simp: t' act_of_main, simp_all add: act_of_def MNotify split: nat.splits)
  moreover have "past_job t \<Longrightarrow> past_job s" by (auto simp: past_job_def t' notify_start_def split: if_splits)
  moreover have "busy t = busy s" by (simp add: t')
  ultimately show ?thesis
    using D MNotify w unfolding pool_ok_def by (auto simp: t' notify_start_def running_def simp del: nth_map)
next
  case (MJob pc)
  note D = pool_okD [OF s]
  obtain pc' u where j: "job_step 0 pc s = (pc', u)" by (cases "job_step 0 pc s")
  obtain x l where u: "u = s\<lparr>wp_next := x, wp_log := l\<rparr>" and x: "wp_next s \<le> x" using job_step_frame [OF j] by auto
  let ?m = "case pc' of None \<Rightarrow> MWait | Some pc \<Rightarrow> MJob pc"
  have t': "t = u\<lparr>wp_main := ?m\<rparr>" using t j by (simp add: main_step_def MJob)
  have tl: "tiles_ok (Suc n) ((act_of s)(0 := pc')) x (wp_total s) l" "pc' = None \<Longrightarrow> wp_total s \<le> x"
    using job_step_tiles [OF j D(13)] MJob by (simp_all add: u act_of_def)
  have "act_of t = (act_of s)(0 := pc')" by (simp add: t' u act_of_main split: option.splits)
  moreover have "past_job t \<Longrightarrow> wp_total s \<le> x"
  proof -
    assume "past_job t"
    then have "past_job s \<or> pc' = None" by (auto simp: past_job_def t' u split: option.splits)
    then show ?thesis using D(12) x tl(2) by auto
  qed
  ultimately show ?thesis
    using D MJob tl(1) unfolding pool_ok_def by (cases pc') (auto simp: t' u running_def)
next
  case MWait
  note D = pool_okD [OF s]
  have t': "t = s\<lparr>wp_main := (if wp_pending s = 0 then MIdle else MSleep)\<rparr>" using t by (simp add: main_step_def MWait)
  have "act_of t = act_of s" by (auto simp: t' act_of_main) (auto simp: act_of_def MWait fun_eq_iff)
  moreover have "past_job s" by (simp add: past_job_def MWait)
  ultimately show ?thesis
    using D MWait pending_zero [OF s] unfolding pool_ok_def by (auto simp: t' running_def)
next
  case MQuitNotify
  note D = pool_okD [OF s]
  have t': "t = (notify_start s)\<lparr>wp_main := MJoin\<rparr>" using t by (simp add: main_step_def MQuitNotify)
  have w: "wp_workers t ! v = (if wp_workers s ! v = WSleep then WCheck else wp_workers s ! v)" if "v < n" for v
    using that D(1) by (simp add: t' notify_start_def)
  have "act_of t = act_of s" by (auto simp: t' act_of_main) (auto simp: act_of_def MQuitNotify fun_eq_iff)
  moreover have "past_job s" by (simp add: past_job_def MQuitNotify)
  moreover have "busy t = {}" using D(6) MQuitNotify by (simp add: t' running_def)
  ultimately show ?thesis
    using D MQuitNotify w unfolding pool_ok_def by (auto simp: t' notify_start_def running_def simp del: nth_map)
next
  case MJoin
  note D = pool_okD [OF s]
  have t': "t = s\<lparr>wp_main := MEnd\<rparr>" "\<forall>v < n. wp_workers s ! v = WExit"
    using t D(1) by (auto simp: main_step_def MJoin list_all_length split: if_splits)
  have "act_of t = act_of s" by (auto simp: t' act_of_main) (auto simp: act_of_def MJoin fun_eq_iff)
  moreover have "past_job s" by (simp add: past_job_def MJoin)
  ultimately show ?thesis
    using D MJoin t'(2) unfolding pool_ok_def by (auto simp: t'(1) running_def)
qed (use t in \<open>simp_all add: main_step_def\<close>)

lemma pool_ok_quit: "pool_ok n s \<Longrightarrow> quit_call s = Some t \<Longrightarrow> pool_ok n t"
proof -
  assume s: "pool_ok n s" and t: "quit_call s = Some t"
  note D = pool_okD [OF s]
  have m: "wp_main s = MIdle" and t': "t = s\<lparr>wp_quit := True, wp_main := MQuitNotify\<rparr>"
    using t by (auto simp: quit_call_def split: if_splits)
  have "act_of t = act_of s" by (auto simp: t' act_of_main) (auto simp: act_of_def m fun_eq_iff)
  moreover have "past_job s" by (simp add: past_job_def m)
  ultimately show ?thesis using D m unfolding pool_ok_def by (auto simp: t' running_def)
qed

lemma pool_ok_wake_main: "pool_ok n s \<Longrightarrow> wp_main s = MSleep \<Longrightarrow> pool_ok n (s\<lparr>wp_main := MWait\<rparr>)"
proof -
  assume s: "pool_ok n s" and m: "wp_main s = MSleep"
  note D = pool_okD [OF s]
  have "act_of (s\<lparr>wp_main := MWait\<rparr>) = act_of s" by (auto simp: act_of_main) (auto simp: act_of_def m fun_eq_iff)
  moreover have "past_job s" by (simp add: past_job_def m)
  ultimately show ?thesis using D m unfolding pool_ok_def by (auto simp: running_def)
qed

lemma pool_ok_event: "pool_ok n s \<Longrightarrow> pool_event e s = Some t \<Longrightarrow> pool_ok n t"
  by (cases e) (auto dest: pool_ok_main pool_ok_worker pool_ok_call pool_ok_quit pool_ok_wake pool_ok_wake_main pool_okD(1) split: if_splits)

lemma pool_ok_reach: "pool_reach n s \<Longrightarrow> n < 2 ^ 32 \<Longrightarrow> pool_ok n s"
  by (induction rule: pool_reach.induct) (auto intro: pool_ok_init pool_ok_event)


section \<open>Progress\<close>

text \<open>
  The work left: tiles not taken, tiles not encoded, and how far each thread is from rest. Every step of
  a thread uses some of it up; only calls and wakes nobody asked for add to it.
\<close>

definition worker_rank :: "pool \<Rightarrow> nat \<Rightarrow> nat" where
  "worker_rank s w =
     (if wp_seen s ! w \<noteq> wp_generation s then 5
      else case wp_workers s ! w of WJob pc \<Rightarrow> 4 | WDone \<Rightarrow> 3 | WCheck \<Rightarrow> 1 | WSleep \<Rightarrow> (if wp_quit s then 1 else 0) | WExit \<Rightarrow> 0)"

definition main_rank :: "nat \<Rightarrow> main_pc \<Rightarrow> nat" where
  "main_rank n m = (case m of MNotify \<Rightarrow> n + 4 | MJob pc \<Rightarrow> 3 | MWait \<Rightarrow> 2 | MSleep \<Rightarrow> 1 | MIdle \<Rightarrow> 0 | MQuitNotify \<Rightarrow> 2 | MJoin \<Rightarrow> 1 | MEnd \<Rightarrow> 0)"

definition pool_work :: "pool \<Rightarrow> nat" where
  "pool_work s = (wp_total s - wp_next s) + (wp_total s - length (wp_log s)) + (\<Sum>w < length (wp_workers s). worker_rank s w) + main_rank (length (wp_workers s)) (wp_main s)"

definition thread_step :: "pool \<Rightarrow> pool \<Rightarrow> bool" where
  "thread_step s t \<longleftrightarrow> pool_event Owner_Moves s = Some t \<or> (\<exists>w. pool_event (Worker_Moves w) s = Some t)"

lemma log_length:
  assumes "tiles_ok p act nxt m log" "act i = Some (JTile k e)"
  shows "length log < m"
proof -
  note D = tiles_okD [OF assms(1)]
  have "set (map snd log) \<subseteq> {..<m} - {k}" using D(3) D(7) [OF assms(2)] by fastforce
  then have "length (map snd log) \<le> card ({..<m} - {k})" using D(2) by (metis card_mono distinct_card finite_Diff finite_lessThan)
  moreover have "k < m" using D(6) [OF assms(2)] by simp
  ultimately show ?thesis by simp
qed

lemma job_step_work:
  assumes "job_step i pc s = (pc', t)" "tiles_ok p (act_of s) (wp_next s) (wp_total s) (wp_log s)" "act_of s i = Some pc"
  shows "(wp_total s - wp_next t) + (wp_total s - length (wp_log t)) + (if pc' = None then 0 else 1)
    \<le> (wp_total s - wp_next s) + (wp_total s - length (wp_log s))"
proof (cases pc)
  case JTake
  then show ?thesis using assms(1) by (auto simp: job_step_def Let_def split: if_splits)
next
  case (JTile k e)
  then have "length (wp_log s) < wp_total s" using log_length [OF assms(2), of i k e] assms(3) by simp
  then show ?thesis using assms(1) by (auto simp: job_step_def JTile Let_def split: if_splits)
qed

lemma rank_update:
  assumes "w < length (wp_workers s)" "length (wp_workers t) = length (wp_workers s)" "\<And>v. v \<noteq> w \<Longrightarrow> worker_rank t v = worker_rank s v"
  shows "(\<Sum>v < length (wp_workers t). worker_rank t v) + worker_rank s w = (\<Sum>v < length (wp_workers s). worker_rank s v) + worker_rank t w"
proof -
  have "(\<Sum>v < length (wp_workers s). worker_rank u v) = worker_rank u w + (\<Sum>v \<in> {..<length (wp_workers s)} - {w}. worker_rank u v)" for u
    using assms(1) by (intro sum.remove) simp_all
  moreover have "(\<Sum>v \<in> {..<length (wp_workers s)} - {w}. worker_rank t v) = (\<Sum>v \<in> {..<length (wp_workers s)} - {w}. worker_rank s v)"
    using assms(3) by (intro sum.cong) simp_all
  ultimately show ?thesis using assms(2) by simp
qed

lemma worker_step_work:
  assumes s: "pool_ok n s" and w: "w < n" and t: "worker_step w s = Some t"
  shows "pool_work t < pool_work s"
proof -
  note D = pool_okD [OF s]
  have l: "w < length (wp_workers s)" "w < length (wp_seen s)" using w D(1,2) by simp_all
  show ?thesis
  proof (cases "wp_workers s ! w")
    case WCheck
    have seen: "wp_quit s \<Longrightarrow> wp_seen s ! w = wp_generation s"
      using D(4,6) l by (fastforce simp: running_def busy_def)
    consider (sleep) "\<not> wp_quit s" "wp_generation s = wp_seen s ! w" "t = set_worker w WSleep s"
      | (exit) "wp_quit s" "t = set_worker w WExit s"
      | (job) "\<not> wp_quit s" "wp_generation s \<noteq> wp_seen s ! w" "t = set_worker w (WJob JTake) (s\<lparr>wp_seen := (wp_seen s)[w := wp_generation s]\<rparr>)"
      using t WCheck by (auto simp: worker_step_def split: if_splits)
    then have r: "worker_rank t w < worker_rank s w \<and> (\<forall>v. v \<noteq> w \<longrightarrow> worker_rank t v = worker_rank s v) \<and>
        length (wp_workers t) = length (wp_workers s) \<and> wp_total t = wp_total s \<and> wp_next t = wp_next s \<and>
        wp_log t = wp_log s \<and> wp_main t = wp_main s"
      using WCheck l seen by cases (simp_all add: worker_rank_def)
    then show ?thesis using rank_update [OF l(1), of t] by (simp add: pool_work_def)
  next
    case (WJob pc)
    obtain pc' u where j: "job_step (Suc w) pc s = (pc', u)" by (cases "job_step (Suc w) pc s")
    have t': "t = set_worker w (case pc' of None \<Rightarrow> WDone | Some pc \<Rightarrow> WJob pc) u" using t j by (simp add: worker_step_def WJob)
    obtain x l where u: "u = s\<lparr>wp_next := x, wp_log := l\<rparr>" using job_step_frame(1) [OF j] by metis
    then have u': "wp_workers u = wp_workers s" "wp_seen u = wp_seen s" "wp_generation u = wp_generation s" "wp_quit u = wp_quit s"
      "wp_main u = wp_main s" "wp_total u = wp_total s"
      by (simp_all add: u)
    have "act_of s (Suc w) = Some pc" using l by (simp add: act_of_def WJob)
    note k = job_step_work [OF j D(13) this]
    have seen: "wp_seen s ! w = wp_generation s" using D(8) [OF w] WJob by auto
    have "worker_rank s w = 4" "worker_rank t w = (if pc' = None then 3 else 4)"
      using l seen by (simp_all add: worker_rank_def WJob t' u' split: option.splits)
    moreover have "worker_rank t v = worker_rank s v" if "v \<noteq> w" for v using that by (simp add: worker_rank_def t' u')
    moreover have "length (wp_workers t) = length (wp_workers s)" by (simp add: t' u')
    moreover have "wp_total t = wp_total s" "wp_next t = wp_next u" "wp_log t = wp_log u" "wp_main t = wp_main s" by (simp_all add: t' u')
    ultimately show ?thesis using rank_update [OF l(1), of t] k unfolding pool_work_def by (auto split: if_splits)
  next
    case WDone
    have seen: "wp_seen s ! w = wp_generation s" using D(8) [OF w] WDone by auto
    have t': "wp_workers t = (wp_workers s)[w := WCheck]" "wp_seen t = wp_seen s" "wp_generation t = wp_generation s" "wp_quit t = wp_quit s"
      "wp_next t = wp_next s" "wp_total t = wp_total s" "wp_log t = wp_log s" "wp_main t = wp_main s \<or> wp_main s = MSleep \<and> wp_main t = MWait"
      using t by (cases "wp_pending s = 1 \<and> wp_main s = MSleep"; auto simp: worker_step_def WDone Let_def)+
    then have "worker_rank s w = 3" "worker_rank t w = 1" "\<And>v. v \<noteq> w \<Longrightarrow> worker_rank t v = worker_rank s v"
      using l seen by (simp_all add: worker_rank_def WDone)
    moreover have "main_rank n (wp_main t) \<le> main_rank n (wp_main s) + 1" using t'(8) by (auto simp: main_rank_def)
    ultimately show ?thesis using rank_update [OF l(1), of t] t'(1-7) D(1) by (simp add: pool_work_def)
  qed (use t in \<open>simp_all add: worker_step_def\<close>)
qed

lemma main_step_work:
  assumes s: "pool_ok n s" and t: "main_step s = Some t"
  shows "pool_work t < pool_work s"
proof -
  note D = pool_okD [OF s]
  have notify: "(\<Sum>w < n. worker_rank (notify_start s) w) \<le> (\<Sum>w < n. worker_rank s w) + n"
  proof -
    have "(\<Sum>w < n. worker_rank (notify_start s) w) \<le> (\<Sum>w < n. worker_rank s w + 1)"
      using D(1) by (intro sum_mono) (auto simp: worker_rank_def notify_start_def)
    also have "\<dots> = (\<Sum>w < n. worker_rank s w) + n" by (simp only: sum.distrib) simp
    finally show ?thesis .
  qed
  have quit: "(\<Sum>w < n. worker_rank (notify_start s) w) = (\<Sum>w < n. worker_rank s w)" if "wp_quit s"
    using D(1) that by (intro sum.cong) (auto simp: worker_rank_def notify_start_def)
  have rank_main: "worker_rank (u\<lparr>wp_main := m\<rparr>) = worker_rank u" for u m by (simp add: worker_rank_def fun_eq_iff)
  show ?thesis
  proof (cases "wp_main s")
    case MNotify
    then have t': "t = (notify_start s)\<lparr>wp_main := MJob JTake\<rparr>" using t by (simp add: main_step_def)
    have same: "length (wp_workers t) = n" "wp_total t = wp_total s" "wp_next t = wp_next s" "wp_log t = wp_log s"
      using D(1) by (simp_all add: t' notify_start_def)
    show ?thesis using notify D(1) MNotify unfolding pool_work_def same by (simp add: t' rank_main main_rank_def)
  next
    case MQuitNotify
    then have t': "t = (notify_start s)\<lparr>wp_main := MJoin\<rparr>" using t by (simp add: main_step_def)
    have same: "length (wp_workers t) = n" "wp_total t = wp_total s" "wp_next t = wp_next s" "wp_log t = wp_log s"
      using D(1) by (simp_all add: t' notify_start_def)
    show ?thesis using quit D(1,4) MQuitNotify unfolding pool_work_def same by (simp add: t' rank_main main_rank_def)
  next
    case (MJob pc)
    obtain pc' u where j: "job_step 0 pc s = (pc', u)" by (cases "job_step 0 pc s")
    have t': "t = u\<lparr>wp_main := (case pc' of None \<Rightarrow> MWait | Some pc \<Rightarrow> MJob pc)\<rparr>" using t j by (simp add: main_step_def MJob)
    obtain x l where u: "u = s\<lparr>wp_next := x, wp_log := l\<rparr>" using job_step_frame(1) [OF j] by metis
    then have u': "wp_workers u = wp_workers s" "wp_seen u = wp_seen s" "wp_generation u = wp_generation s" "wp_quit u = wp_quit s"
      "wp_total u = wp_total s"
      by (simp_all add: u)
    then have "worker_rank u = worker_rank s" by (simp add: worker_rank_def fun_eq_iff)
    moreover have "act_of s 0 = Some pc" by (simp add: act_of_def MJob)
    note k = job_step_work [OF j D(13) this]
    ultimately show ?thesis
      using k unfolding pool_work_def by (cases pc') (simp_all add: t' u' rank_main main_rank_def MJob)
  qed (use t in \<open>auto simp: main_step_def pool_work_def main_rank_def rank_main split: if_splits\<close>)
qed

text \<open>Nothing is stuck: unless the owner is outside a call, some thread can move.\<close>

lemma pool_progress:
  assumes s: "pool_ok n s" and m: "wp_main s \<noteq> MIdle" "wp_main s \<noteq> MEnd"
  shows "\<exists>t. thread_step s t"
proof -
  note D = pool_okD [OF s]
  have move: "\<exists>t. thread_step s t" if w: "w < n" "wp_workers s ! w \<noteq> WSleep" "wp_workers s ! w \<noteq> WExit" for w
  proof -
    have "\<exists>t. worker_step w s = Some t"
      using w by (cases "wp_workers s ! w") (auto simp: worker_step_def Let_def split: prod.splits)
    then show ?thesis using w(1) D(1) by (auto simp: thread_step_def)
  qed
  consider "wp_main s = MSleep" | "wp_main s = MJoin" | "\<exists>t. main_step s = Some t"
    using m by (cases "wp_main s") (auto simp: main_step_def split: prod.splits)
  then show ?thesis
  proof cases
    case 1
    then obtain w where w: "w \<in> busy s" using D(7) by blast
    then have "wp_workers s ! w \<noteq> WSleep" "wp_workers s ! w \<noteq> WExit" "w < n"
      using D(1,4) D(8,9) [of w] 1 by (auto simp: busy_def)
    then show ?thesis using move by blast
  next
    case 2
    show ?thesis
    proof (cases "\<exists>w < n. wp_workers s ! w \<noteq> WExit")
      case True
      then obtain w where w: "w < n" "wp_workers s ! w \<noteq> WExit" by blast
      then have "wp_workers s ! w \<noteq> WSleep" using D(10) [of w] D(4) 2 by auto
      then show ?thesis using move w by blast
    next
      case False
      then show ?thesis using 2 D(1) by (auto simp: thread_step_def main_step_def list_all_length)
    qed
  qed (auto simp: thread_step_def)
qed

lemma thread_step_work: "pool_ok n s \<Longrightarrow> thread_step s t \<Longrightarrow> pool_ok n t \<and> pool_work t < pool_work s"
  unfolding thread_step_def
  by (auto split: if_splits dest: main_step_work worker_step_work pool_ok_main pool_ok_worker pool_okD(1))


section \<open>What the pool promises\<close>

text \<open>A run of events, for examples.\<close>

fun pool_run :: "pool_act list \<Rightarrow> pool \<Rightarrow> pool option" where
  "pool_run [] s = Some s"
| "pool_run (e # es) s = (case pool_event e s of None \<Rightarrow> None | Some t \<Rightarrow> pool_run es t)"

lemma pool_run_reach: "pool_reach n s \<Longrightarrow> pool_run es s = Some t \<Longrightarrow> pool_reach n t"
  by (induction es arbitrary: s) (auto split: option.splits intro: pool_reach.event)

definition demo_run :: "pool_act list" where
  "demo_run = [Run_All 1, Owner_Moves, Owner_Moves, Owner_Moves, Owner_Moves, Owner_Moves,
     Worker_Moves 0, Worker_Moves 0, Worker_Moves 0, Owner_Moves]"

text \<open>C15:
  when \<open>run_all\<close> has returned (and before the first call) no worker is still inside the job, whose closure
  lives on the caller's stack, the count of pending workers is back at zero, and the tiles were encoded
  along one of the schedules the encoder is verified for: every tile once, every chunk by one thread.
\<close>

theorem run_all_waits_for_all:
  assumes "n < 2 ^ 32" "pool_reach n s" "wp_main s = MIdle"
  shows "schedule (Suc n) (wp_total s) (wp_log s) \<and> wp_pending s = 0 \<and>
    (\<forall>w < n. wp_workers s ! w = WCheck \<or> wp_workers s ! w = WSleep)"
proof -
  have s: "pool_ok n s" using pool_ok_reach assms by blast
  note D = pool_okD [OF s]
  have b: "busy s = {}" using D(6) assms(3) by (simp add: running_def)
  have w: "wp_workers s ! w = WCheck \<or> wp_workers s ! w = WSleep" if "w < n" for w
    using b that D(1,4) D(9) [of w] assms(3) by (cases "wp_workers s ! w") (auto simp: busy_def)
  then have "act_of s i \<noteq> Some (JTile k e)" for i k e
    using D(1) assms(3) by (fastforce simp: act_of_def split: nat.splits if_splits)
  moreover have "past_job s" using assms(3) by (simp add: past_job_def)
  ultimately show ?thesis using tiles_ok_done [OF D(13) D(12)] w pending_zero [OF s] b by simp
qed

theorem run_all_waits_for_all_witness:
  "\<exists>s. pool_run demo_run (wp_init 1) = Some s \<and> wp_main s = MIdle \<and> wp_log s = [(0, 0)] \<and> schedule 2 1 (wp_log s) \<and>
     wp_pending s = 0"
proof -
  have "case pool_run demo_run (wp_init 1) of None \<Rightarrow> False | Some s \<Rightarrow> wp_main s = MIdle \<and> wp_log s = [(0, 0)] \<and> wp_total s = 1"
    unfolding demo_run_def by code_simp
  then obtain s where s: "pool_run demo_run (wp_init 1) = Some s" "wp_main s = MIdle" "wp_log s = [(0, 0)]" "wp_total s = 1"
    by (auto split: option.splits)
  have r: "pool_reach 1 s" using pool_run_reach [OF pool_reach.start s(1)] .
  have "(1 :: nat) < 2 ^ 32" "(2 :: nat) = Suc 1" by simp_all
  with run_all_waits_for_all [OF _ r s(2)] show ?thesis using s by metis
qed

text \<open>C16:
  \<open>run_all\<close> and the destructor return: in every reachable state the threads can make only as many steps as
  \<open>pool_work\<close> says, and they come to rest only when the call has returned (no lost wake-up, no deadlock).
\<close>

theorem pool_calls_return:
  assumes "n < 2 ^ 32" "pool_reach n s" "(thread_step ^^ k) s t"
  shows "k \<le> pool_work s \<and> ((\<nexists>u. thread_step t u) \<longrightarrow> wp_main t = (if wp_quit t then MEnd else MIdle))"
proof -
  have "pool_ok n s" using pool_ok_reach assms by blast
  then have t: "pool_ok n t \<and> k + pool_work t \<le> pool_work s" using assms(3)
  proof (induction k arbitrary: t)
    case (Suc k)
    then obtain u where "(thread_step ^^ k) s u" "thread_step u t" by auto
    then show ?case using Suc thread_step_work [of n u t] by fastforce
  qed simp
  have "wp_main t = MIdle \<or> wp_main t = MEnd" if "\<nexists>u. thread_step t u" using that t pool_progress by blast
  then have "wp_main t = (if wp_quit t then MEnd else MIdle)" if "\<nexists>u. thread_step t u" using that t pool_okD(4) [of n t] by auto
  then show ?thesis using t by simp
qed

lemma owner_run: "pool_run (replicate k Owner_Moves) s = Some t \<Longrightarrow> (thread_step ^^ k) s t"
proof (induction k arbitrary: s)
  case (Suc k)
  then obtain u where "pool_event Owner_Moves s = Some u" "pool_run (replicate k Owner_Moves) u = Some t"
    by (auto split: option.splits)
  then have "thread_step s u" "(thread_step ^^ k) u t" using Suc.IH unfolding thread_step_def by blast+
  then show ?case by (rule relpowp_Suc_I2)
qed simp

theorem pool_calls_return_witness:
  "\<exists>s t. pool_run [Run_All 0] (wp_init 0) = Some s \<and> (thread_step ^^ 3) s t \<and> 3 \<le> pool_work s \<and> wp_main t = MIdle"
proof -
  have "case pool_run [Run_All 0] (wp_init 0) of None \<Rightarrow> False
    | Some s \<Rightarrow> (case pool_run (replicate 3 Owner_Moves) s of None \<Rightarrow> False
        | Some t \<Rightarrow> main_step t = None \<and> \<not> wp_quit t \<and> wp_workers t = [])"
    by code_simp
  then obtain s t where s: "pool_run [Run_All 0] (wp_init 0) = Some s" "pool_run (replicate 3 Owner_Moves) s = Some t"
    and t: "main_step t = None" "\<not> wp_quit t" "wp_workers t = []"
    by (auto split: option.splits)
  have "\<nexists>u. thread_step t u" using t by (simp add: thread_step_def)
  with pool_calls_return [OF _ pool_run_reach [OF pool_reach.start s(1)] owner_run [OF s(2)]] show ?thesis
    using s(1) owner_run [OF s(2)] t(2) by auto
qed

end
