(* ===== verification/Keymap.thy ===== *)
theory Keymap
  imports Prelude
begin

text \<open>
  \<open>host/keymap.cpp\<close>: USB HID keyboard usages, which the viewer sends, to the key codes of each system.
\<close>

section \<open>The tables\<close>

type_synonym key_pair = "u16 \<times> int"

definition k_mac :: "key_pair list" where
  "k_mac = [(4, 0x00), (5, 0x0b), (6, 0x08), (7, 0x02), (8, 0x0e), (9, 0x03), (10, 0x05), (11, 0x04), (12, 0x22),
    (13, 0x26), (14, 0x28), (15, 0x25), (16, 0x2e), (17, 0x2d), (18, 0x1f), (19, 0x23), (20, 0x0c),
    (21, 0x0f), (22, 0x01), (23, 0x11), (24, 0x20), (25, 0x09), (26, 0x0d), (27, 0x07), (28, 0x10),
    (29, 0x06), (30, 0x12), (31, 0x13), (32, 0x14), (33, 0x15), (34, 0x17), (35, 0x16), (36, 0x1a),
    (37, 0x1c), (38, 0x19), (39, 0x1d), (40, 0x24), (41, 0x35), (42, 0x33), (43, 0x30), (44, 0x31),
    (45, 0x1b), (46, 0x18), (47, 0x21), (48, 0x1e), (49, 0x2a), (50, 0x2a), (51, 0x29), (52, 0x27),
    (53, 0x32), (54, 0x2b), (55, 0x2f), (56, 0x2c), (57, 0x39), (58, 0x7a), (59, 0x78), (60, 0x63),
    (61, 0x76), (62, 0x60), (63, 0x61), (64, 0x62), (65, 0x64), (66, 0x65), (67, 0x6d), (68, 0x67),
    (69, 0x6f), (70, 0x69), (71, 0x6b), (72, 0x71), (73, 0x72), (74, 0x73), (75, 0x74), (76, 0x75),
    (77, 0x77), (78, 0x79), (79, 0x7c), (80, 0x7b), (81, 0x7d), (82, 0x7e), (83, 0x47), (84, 0x4b),
    (85, 0x43), (86, 0x4e), (87, 0x45), (88, 0x4c), (89, 0x53), (90, 0x54), (91, 0x55), (92, 0x56),
    (93, 0x57), (94, 0x58), (95, 0x59), (96, 0x5b), (97, 0x5c), (98, 0x52), (99, 0x41), (100, 0x0a),
    (101, 0x6e), (103, 0x51), (104, 0x69), (105, 0x6b), (106, 0x71), (107, 0x6a), (108, 0x40), (109, 0x4f),
    (110, 0x50), (111, 0x5a), (127, 0x4a), (128, 0x48), (129, 0x49), (224, 0x3b), (225, 0x38), (226, 0x3a),
    (227, 0x37), (228, 0x3e), (229, 0x3c), (230, 0x3d), (231, 0x36)]"

definition k_win :: "key_pair list" where
  "k_win = [(4, 0x1e), (5, 0x30), (6, 0x2e), (7, 0x20), (8, 0x12), (9, 0x21), (10, 0x22), (11, 0x23), (12, 0x17),
    (13, 0x24), (14, 0x25), (15, 0x26), (16, 0x32), (17, 0x31), (18, 0x18), (19, 0x19), (20, 0x10),
    (21, 0x13), (22, 0x1f), (23, 0x14), (24, 0x16), (25, 0x2f), (26, 0x11), (27, 0x2d), (28, 0x15),
    (29, 0x2c), (30, 0x02), (31, 0x03), (32, 0x04), (33, 0x05), (34, 0x06), (35, 0x07), (36, 0x08),
    (37, 0x09), (38, 0x0a), (39, 0x0b), (40, 0x1c), (41, 0x01), (42, 0x0e), (43, 0x0f), (44, 0x39),
    (45, 0x0c), (46, 0x0d), (47, 0x1a), (48, 0x1b), (49, 0x2b), (50, 0x2b), (51, 0x27), (52, 0x28),
    (53, 0x29), (54, 0x33), (55, 0x34), (56, 0x35), (57, 0x3a), (58, 0x3b), (59, 0x3c), (60, 0x3d),
    (61, 0x3e), (62, 0x3f), (63, 0x40), (64, 0x41), (65, 0x42), (66, 0x43), (67, 0x44), (68, 0x57),
    (69, 0x58), (70, 0x137), (71, 0x46), (73, 0x152), (74, 0x147), (75, 0x149), (76, 0x153), (77, 0x14f),
    (78, 0x151), (79, 0x14d), (80, 0x14b), (81, 0x150), (82, 0x148), (83, 0x45), (84, 0x135), (85, 0x37),
    (86, 0x4a), (87, 0x4e), (88, 0x11c), (89, 0x4f), (90, 0x50), (91, 0x51), (92, 0x4b), (93, 0x4c),
    (94, 0x4d), (95, 0x47), (96, 0x48), (97, 0x49), (98, 0x52), (99, 0x53), (100, 0x56), (101, 0x15d),
    (104, 0x64), (105, 0x65), (106, 0x66), (107, 0x67), (108, 0x68), (109, 0x69), (110, 0x6a), (111, 0x6b),
    (112, 0x6c), (113, 0x6d), (114, 0x6e), (115, 0x76), (127, 0x120), (128, 0x130), (129, 0x12e),
    (224, 0x1d), (225, 0x2a), (226, 0x38), (227, 0x15b), (228, 0x11d), (229, 0x36), (230, 0x138),
    (231, 0x15c)]"

definition k_evdev :: "key_pair list" where
  "k_evdev = [(4, 30), (5, 48), (6, 46), (7, 32), (8, 18), (9, 33), (10, 34), (11, 35), (12, 23), (13, 36), (14, 37),
    (15, 38), (16, 50), (17, 49), (18, 24), (19, 25), (20, 16), (21, 19), (22, 31), (23, 20), (24, 22),
    (25, 47), (26, 17), (27, 45), (28, 21), (29, 44), (30, 2), (31, 3), (32, 4), (33, 5), (34, 6), (35, 7),
    (36, 8), (37, 9), (38, 10), (39, 11), (40, 28), (41, 1), (42, 14), (43, 15), (44, 57), (45, 12),
    (46, 13), (47, 26), (48, 27), (49, 43), (50, 43), (51, 39), (52, 40), (53, 41), (54, 51), (55, 52),
    (56, 53), (57, 58), (58, 59), (59, 60), (60, 61), (61, 62), (62, 63), (63, 64), (64, 65), (65, 66),
    (66, 67), (67, 68), (68, 87), (69, 88), (70, 99), (71, 70), (72, 119), (73, 110), (74, 102), (75, 104),
    (76, 111), (77, 107), (78, 109), (79, 106), (80, 105), (81, 108), (82, 103), (83, 69), (84, 98),
    (85, 55), (86, 74), (87, 78), (88, 96), (89, 79), (90, 80), (91, 81), (92, 75), (93, 76), (94, 77),
    (95, 71), (96, 72), (97, 73), (98, 82), (99, 83), (100, 86), (101, 127), (103, 117), (104, 183),
    (105, 184), (106, 185), (107, 186), (108, 187), (109, 188), (110, 189), (111, 190), (112, 191),
    (113, 192), (114, 193), (115, 194), (127, 113), (128, 115), (129, 114), (224, 29), (225, 42),
    (226, 56), (227, 125), (228, 97), (229, 54), (230, 100), (231, 126)]"

section \<open>Lookup\<close>

text \<open>The first pair with the usage, or -1.\<close>

fun lookup_key :: "key_pair list \<Rightarrow> u16 \<Rightarrow> int" where
  "lookup_key [] hid = - 1"
| "lookup_key ((h, code) # t) hid = (if h = hid then code else lookup_key t hid)"

definition hid_to_mac_keycode :: "u16 \<Rightarrow> int" where
  "hid_to_mac_keycode hid = lookup_key k_mac hid"

definition hid_to_win_scancode :: "u16 \<Rightarrow> int" where
  "hid_to_win_scancode hid = lookup_key k_win hid"

definition hid_to_evdev :: "u16 \<Rightarrow> int" where
  "hid_to_evdev hid = lookup_key k_evdev hid"

lemma lookup_key_map_of: "lookup_key t hid = (case map_of t hid of None \<Rightarrow> - 1 | Some c \<Rightarrow> c)"
  by (induction t) auto

lemma lookup_key_entry: "distinct (map fst t) \<Longrightarrow> (h, c) \<in> set t \<Longrightarrow> lookup_key t h = c"
  by (simp add: lookup_key_map_of)

lemma lookup_key_range: "lookup_key t hid = - 1 \<or> (hid, lookup_key t hid) \<in> set t"
  by (auto simp: lookup_key_map_of dest: map_of_SomeD split: option.splits)

text \<open>No entry hides another, and two usages share a code only where the keyboards have one key for both.\<close>

fun increasing :: "u16 list \<Rightarrow> bool" where
  "increasing (x # y # zs) \<longleftrightarrow> x < y \<and> increasing (y # zs)"
| "increasing _ \<longleftrightarrow> True"

lemma increasing_distinct: "increasing xs \<Longrightarrow> distinct xs"
proof -
  have "increasing xs \<Longrightarrow> sorted_wrt (<) xs" by (induction xs rule: increasing.induct) fastforce+
  then show "increasing xs \<Longrightarrow> distinct xs" by (auto simp: strict_sorted_iff)
qed

lemma tables_distinct: "distinct (map fst k_mac)" "distinct (map fst k_win)" "distinct (map fst k_evdev)"
  by (rule increasing_distinct, code_simp)+

lemma hid_entries:
  "(h, c) \<in> set k_mac \<Longrightarrow> hid_to_mac_keycode h = c" "(h, c) \<in> set k_win \<Longrightarrow> hid_to_win_scancode h = c"
  "(h, c) \<in> set k_evdev \<Longrightarrow> hid_to_evdev h = c"
  by (simp_all add: hid_to_mac_keycode_def hid_to_win_scancode_def hid_to_evdev_def lookup_key_entry tables_distinct)

lemma table_codes:
  "list_all (\<lambda>p. 0 \<le> snd p \<and> snd p < 128) k_mac" "list_all (\<lambda>p. 0 \<le> snd p \<and> snd p < 512) k_win"
  "list_all (\<lambda>p. 0 < snd p \<and> snd p + 8 < 256) k_evdev"
  by code_simp+

text \<open>The X server's key code, eight more than evdev's, fits its byte; the extended bit is the only one above a scan code.\<close>

lemma evdev_fits_x11: "hid_to_evdev hid = - 1 \<or> 8 < hid_to_evdev hid + 8 \<and> hid_to_evdev hid + 8 < 256"
  using lookup_key_range [of k_evdev hid] table_codes(3) by (auto simp: hid_to_evdev_def list_all_iff)

lemma win_scancode_fits: "hid_to_win_scancode hid = - 1 \<or> 0 \<le> hid_to_win_scancode hid \<and> hid_to_win_scancode hid < 512"
  using lookup_key_range [of k_win hid] table_codes(2) by (auto simp: hid_to_win_scancode_def list_all_iff)

text \<open>Left and right modifiers, which a viewer holds and releases separately, stay apart.\<close>

lemma modifiers_apart:
  "distinct (map hid_to_mac_keycode [224, 225, 226, 227, 228, 229, 230, 231])"
  "distinct (map hid_to_win_scancode [224, 225, 226, 227, 228, 229, 230, 231])"
  "distinct (map hid_to_evdev [224, 225, 226, 227, 228, 229, 230, 231])"
  by code_simp+

end
