(* ===== verification/Cxx.thy ===== *)
theory Cxx
  imports Prelude
begin

text \<open>
  The parts of the C and C++ standard libraries the host, the relay and the viewer use on strings:
  searching, \<open>substr\<close>, \<open>std::to_string\<close>, \<open>atoi\<close>, whitespace tokens, and the header terminator search
  that three of the programs write out. A \<open>std::string\<close> is its byte list, \<open>npos\<close> is \<open>None\<close>.
\<close>

definition CRLF :: bytes where
  "CRLF = [13, 10]"

definition find_if :: "(u8 \<Rightarrow> bool) \<Rightarrow> bytes \<Rightarrow> nat option" where
  "find_if P s = (let n = length (takeWhile (\<lambda>b. \<not> P b) s) in if n < length s then Some n else None)"

definition find_char :: "u8 \<Rightarrow> bytes \<Rightarrow> nat option" where
  "find_char ch s = find_if (\<lambda>b. b = ch) s"

definition find_first_of :: "bytes \<Rightarrow> bytes \<Rightarrow> nat option" where
  "find_first_of cs s = find_if (\<lambda>b. b \<in> set cs) s"

definition find_last_of :: "bytes \<Rightarrow> bytes \<Rightarrow> nat option" where
  "find_last_of cs s = map_option (\<lambda>n. length s - 1 - n) (find_if (\<lambda>b. b \<in> set cs) (rev s))"

text \<open>The first occurrence of a string in another (\<open>find\<close>, \<open>strstr\<close>).\<close>

primrec find_str :: "bytes \<Rightarrow> bytes \<Rightarrow> nat option" where
  "find_str pat [] = (if pat = [] then Some 0 else None)"
| "find_str pat (b # s) =
     (if take (length pat) (b # s) = pat then Some 0 else map_option Suc (find_str pat s))"

text \<open>\<open>s.substr(0, n)\<close> with \<open>npos\<close> for the whole string.\<close>

definition before :: "nat option \<Rightarrow> bytes \<Rightarrow> bytes" where
  "before n s = (case n of None \<Rightarrow> s | Some k \<Rightarrow> take k s)"

definition starts_with :: "bytes \<Rightarrow> bytes \<Rightarrow> bool" where
  "starts_with pre s \<longleftrightarrow> take (length pre) s = pre"

definition ends_with :: "bytes \<Rightarrow> bytes \<Rightarrow> bool" where
  "ends_with suf s \<longleftrightarrow> length suf \<le> length s \<and> drop (length s - length suf) s = suf"

text \<open>\<open>isspace\<close> in the C locale, and the tokens \<open>>>\<close> reads from a string stream.\<close>

definition is_space :: "u8 \<Rightarrow> bool" where
  "is_space b \<longleftrightarrow> b = 32 \<or> (9 \<le> b \<and> b \<le> 13)"

definition read_token :: "bytes \<Rightarrow> bytes \<times> bytes" where
  "read_token s = (let t = dropWhile is_space s
     in (takeWhile (\<lambda>b. \<not> is_space b) t, dropWhile (\<lambda>b. \<not> is_space b) t))"

text \<open>\<open>std::to_string\<close> and \<open>atoi\<close>.\<close>

function dec_digits :: "nat \<Rightarrow> bytes" where
  "dec_digits n = (if n < 10 then [48 + of_nat n] else dec_digits (n div 10) @ [48 + of_nat (n mod 10)])"
  by pat_completeness auto
termination by (relation "measure (\<lambda>n. n)") auto

declare dec_digits.simps [simp del]

definition std_to_string :: "int \<Rightarrow> bytes" where
  "std_to_string n = (if n < 0 then 45 # dec_digits (nat (- n)) else dec_digits (nat n))"

definition is_digit :: "u8 \<Rightarrow> bool" where
  "is_digit b \<longleftrightarrow> 48 \<le> b \<and> b \<le> 57"

definition dec_value :: "bytes \<Rightarrow> int" where
  "dec_value ds = foldl (\<lambda>n b. 10 * n + int (unat (b - 48))) 0 ds"

text \<open>\<open>atoi\<close> and \<open>atoll\<close> on texts whose value fits (otherwise their behaviour is undefined).\<close>

definition c_atoi :: "bytes \<Rightarrow> int" where
  "c_atoi s = (let t = dropWhile is_space (c_str s);
       u = (case t of b # r \<Rightarrow> if b = 45 \<or> b = 43 then r else t | [] \<Rightarrow> []);
       v = dec_value (takeWhile is_digit u)
     in if t \<noteq> [] \<and> hd t = 45 then - v else v)"

text \<open>The search for the blank line that ends an HTTP header.\<close>

definition find_blank_line :: "bytes \<Rightarrow> nat option" where
  "find_blank_line s = find_str (CRLF @ CRLF) s"

section \<open>Facts\<close>

lemma find_if_Some:
  assumes "find_if P s = Some n"
  shows "n < length s" "P (s ! n)" "\<And>k. k < n \<Longrightarrow> \<not> P (s ! k)"
proof -
  have n: "n = length (takeWhile (\<lambda>b. \<not> P b) s)" "n < length s"
    using assms by (auto simp: find_if_def Let_def split: if_splits)
  then show "n < length s" by simp
  show "P (s ! n)" using nth_length_takeWhile [of "\<lambda>b. \<not> P b" s] n by simp
  show "\<not> P (s ! k)" if "k < n" for k
    using that n(1) by (metis nth_mem set_takeWhileD takeWhile_nth)
qed

lemma find_if_None: "find_if P s = None \<longleftrightarrow> (\<forall>b\<in>set s. \<not> P b)"
proof -
  have "find_if P s = None \<longleftrightarrow> length (takeWhile (\<lambda>b. \<not> P b) s) = length s"
    using length_takeWhile_le [of "\<lambda>b. \<not> P b" s] by (auto simp: find_if_def Let_def)
  also have "\<dots> \<longleftrightarrow> takeWhile (\<lambda>b. \<not> P b) s = s"
    by (metis append_Nil2 append_eq_conv_conj length_takeWhile_le takeWhile_eq_take take_all)
  finally show ?thesis by (simp add: takeWhile_eq_all_conv)
qed

lemma before_find_if: "before (find_if P s) s = takeWhile (\<lambda>b. \<not> P b) s"
proof (cases "find_if P s")
  case None
  then have "takeWhile (\<lambda>b. \<not> P b) s = s" by (simp add: find_if_None takeWhile_eq_all_conv)
  then show ?thesis by (simp only: before_def None option.case)
next
  case (Some n)
  then have "n = length (takeWhile (\<lambda>b. \<not> P b) s)" by (auto simp: find_if_def Let_def split: if_splits)
  then show ?thesis using Some by (simp add: before_def takeWhile_eq_take flip: takeWhile_eq_take)
qed

lemma find_str_Some: "find_str pat s = Some n \<Longrightarrow> take (length pat) (drop n s) = pat \<and> n \<le> length s"
  by (induction s arbitrary: n) (auto split: if_splits)

lemma find_str_None: "find_str pat s = None \<Longrightarrow> take (length pat) (drop n s) \<noteq> pat \<or> length s < n"
proof (induction s arbitrary: n)
  case (Cons b s)
  then show ?case by (cases n) (auto split: if_splits)
qed (auto split: if_splits)

lemma find_str_append: "find_str pat (p @ pat @ q) \<noteq> None"
  using find_str_None [of pat "p @ pat @ q" "length p"] by (cases "find_str pat (p @ pat @ q)") auto

lemma find_str_first: "pat \<noteq> [] \<Longrightarrow> hd pat \<notin> set s \<Longrightarrow> find_str pat (s @ pat @ t) = Some (length s)"
proof (induction s)
  case Nil
  then show ?case by (cases pat) auto
next
  case (Cons b s)
  have "take (length pat) (b # s @ pat @ t) \<noteq> pat"
  proof
    assume e: "take (length pat) (b # s @ pat @ t) = pat"
    obtain c p where "pat = c # p" using Cons.prems(1) by (cases pat) auto
    with e Cons.prems(2) show False by simp
  qed
  with Cons show ?case by simp
qed

lemma find_str_skip: "pat \<noteq> [] \<Longrightarrow> hd pat \<notin> set s \<Longrightarrow> find_str pat (s @ t) = map_option (\<lambda>n. length s + n) (find_str pat t)"
proof (induction s)
  case (Cons b s)
  have "take (length pat) (b # s @ t) \<noteq> pat"
  proof
    assume e: "take (length pat) (b # s @ t) = pat"
    obtain c p where "pat = c # p" using Cons.prems(1) by (cases pat) auto
    with e Cons.prems(2) show False by simp
  qed
  with Cons show ?case by (simp add: option.map_comp comp_def)
qed (cases "find_str pat t"; simp)

lemma dec_digits_digit: "b \<in> set (dec_digits n) \<Longrightarrow> is_digit b"
proof (induction n rule: dec_digits.induct)
  case (1 n)
  have d: "is_digit (48 + of_nat k)" if "k < 10" for k
  proof -
    have "k \<in> {0, 1, 2, 3, 4, 5, 6, 7, 8, 9}" using that by auto
    then show ?thesis by (auto simp: is_digit_def)
  qed
  show ?case
  proof (cases "n < 10")
    case True
    with "1.prems" d show ?thesis by (subst (asm) dec_digits.simps) simp
  next
    case False
    with "1.prems" have "b \<in> set (dec_digits (n div 10)) \<or> b = 48 + of_nat (n mod 10)"
      by (subst (asm) dec_digits.simps) auto
    with "1.IH" [OF False] d [of "n mod 10"] show ?thesis by auto
  qed
qed

lemma dec_digits_nonempty: "dec_digits n \<noteq> []"
  by (subst dec_digits.simps) simp

lemma dec_value_snoc: "dec_value (ds @ [d]) = 10 * dec_value ds + int (unat (d - 48))"
  by (simp add: dec_value_def)

lemma dec_value_digits: "dec_value (dec_digits n) = int n"
proof (induction n rule: dec_digits.induct)
  case (1 n)
  have d: "int (unat ((48 + of_nat k) - 48 :: u8)) = int k" if "k < 10" for k
  proof -
    have "(48 + of_nat k) - 48 = (of_nat k :: u8)" by simp
    then show ?thesis using that by simp
  qed
  show ?case
  proof (cases "n < 10")
    case True
    then have "dec_digits n = [48 + of_nat n]" by (subst dec_digits.simps) simp
    then show ?thesis using d [OF True] by (simp only: dec_value_def foldl.simps)
  next
    case False
    then have "dec_digits n = dec_digits (n div 10) @ [48 + of_nat (n mod 10)]"
      by (subst dec_digits.simps) simp
    then have "dec_value (dec_digits n) = 10 * int (n div 10) + int (n mod 10)"
      using "1.IH" [OF False] d [of "n mod 10"] by (simp add: dec_value_snoc)
    moreover have "int n = int (10 * (n div 10) + n mod 10)" by simp
    ultimately show ?thesis by (simp only: of_nat_add of_nat_mult of_nat_numeral)
  qed
qed

lemma digit_not_special: "is_digit b \<Longrightarrow> b \<noteq> 0 \<and> \<not> is_space b \<and> b \<noteq> 45 \<and> b \<noteq> 43 \<and> b \<noteq> 9 \<and> b \<noteq> 10 \<and> b \<noteq> 13 \<and> b \<noteq> 92"
  unfolding is_digit_def is_space_def word_le_nat_alt by (auto simp: word_less_nat_alt)

lemma c_atoi_to_string: "c_atoi (std_to_string n) = n"
proof -
  have a: "takeWhile is_digit (dec_digits k) = dec_digits k" for k
    using dec_digits_digit by (auto simp: takeWhile_eq_all_conv)
  have z: "c_str (dec_digits k) = dec_digits k" "c_str (45 # dec_digits k) = 45 # dec_digits k" for k
    using dec_digits_digit [of 0] digit_not_special [of 0] by (auto intro!: c_str_id)
  show ?thesis
  proof (cases "n < 0")
    case True
    then have "std_to_string n = 45 # dec_digits (nat (- n))" by (simp add: std_to_string_def)
    then show ?thesis using True by (simp add: c_atoi_def Let_def z a dec_value_digits is_space_def)
  next
    case False
    obtain d ds where d: "dec_digits (nat n) = d # ds" using dec_digits_nonempty by (cases "dec_digits (nat n)") auto
    then have "is_digit d" using dec_digits_digit [of d "nat n"] by simp
    note d' = digit_not_special [OF this]
    have "std_to_string n = d # ds" using False d by (simp add: std_to_string_def)
    then show ?thesis
      using False z(1) [of "nat n"] a [of "nat n"] dec_value_digits [of "nat n"] d'
      by (simp add: c_atoi_def Let_def d)
  qed
qed

lemma std_to_string_chars: "b \<in> set (std_to_string n) \<Longrightarrow> is_digit b \<or> b = 45"
  by (auto simp: std_to_string_def dest: dec_digits_digit split: if_splits)

end
