(* ===== verification/Relay.thy ===== *)
theory Relay
  imports Rd_Ws Cxx
begin

text \<open>
  The internet relay, \<open>relay/relay.cpp\<close>: connections, hosts that own an ID, tickets of waiting viewers,
  the HTTP front end, message forwarding and the timers. A \<open>Conn *\<close> is a number; \<open>rl_conns\<close> is
  \<open>g_conns\<close> in its order, and \<open>rl_conn\<close> gives the object behind a number, so a pointer dangles when
  its number is not in \<open>rl_conns\<close>. What the operating system does (data received, bytes accepted,
  files, random bytes, the clock) is an argument or a component of the state.
\<close>

section \<open>State\<close>

datatype rkind = Http | HostCtl | HostData | Viewer

record rconn =
  rc_ip :: bytes
  rc_kind :: rkind
  rc_in :: rd_buf
  rc_out :: rd_buf
  rc_out_off :: nat
  rc_ws :: rd_ws_reader
  rc_created_us :: u64
  rc_last_rx_us :: u64
  rc_last_ping_us :: u64
  rc_close_after_flush :: bool
  rc_dead :: bool
  rc_id :: bytes
  rc_ticket :: bytes
  rc_peer :: "nat option"
  rc_pending :: "bytes list"
  rc_pending_bytes :: nat

record host_entry =
  he_key :: bytes
  he_ctl :: "nat option"

record relay =
  rl_conns :: "nat list"
  rl_conn :: "nat \<Rightarrow> rconn"
  rl_hosts :: "bytes \<Rightarrow> host_entry option"
  rl_tickets :: "bytes \<Rightarrow> nat option"
  rl_fresh :: nat
  rl_web_root :: bytes
  rl_files :: "bytes \<Rightarrow> bytes option"
  rl_random :: "nat \<Rightarrow> u8"
  rl_stack :: "nat \<Rightarrow> u8"
  rl_overread :: bool

text \<open>
  \<open>rl_stack\<close> is what lies behind a local array on the stack, and \<open>rl_overread\<close> records that the code
  has read it.
\<close>

abbreviation (input) kSecond :: u64 where "kSecond \<equiv> 1000000"
abbreviation (input) kMaxMessage :: nat where "kMaxMessage \<equiv> 67108864"
abbreviation (input) kBackpressure :: nat where "kBackpressure \<equiv> 8388608"
abbreviation (input) kMaxConns :: nat where "kMaxConns \<equiv> 4000"
abbreviation (input) kMaxConnsPerIp :: nat where "kMaxConnsPerIp \<equiv> 60"

definition upd :: "nat \<Rightarrow> (rconn \<Rightarrow> rconn) \<Rightarrow> relay \<Rightarrow> relay" where
  "upd i f s = s\<lparr>rl_conn := (rl_conn s)(i := f (rl_conn s i))\<rparr>"

definition relay_conn :: "bytes \<Rightarrow> u64 \<Rightarrow> rconn" where
  "relay_conn addr now =
     \<lparr>rc_ip = addr, rc_kind = Http, rc_in = rd_buf_init, rc_out = rd_buf_init, rc_out_off = 0,
      rc_ws = rd_ws_reader_init \<lparr>wr_assembly = rd_buf_init, wr_opcode = -1, wr_max_message = 0,
        wr_expect_masked = False, wr_ctrl = replicate 125 0\<rparr> kMaxMessage True,
      rc_created_us = now, rc_last_rx_us = now, rc_last_ping_us = now, rc_close_after_flush = False,
      rc_dead = False, rc_id = [], rc_ticket = [], rc_peer = None, rc_pending = [], rc_pending_bytes = 0\<rparr>"

definition pending_out :: "rconn \<Rightarrow> nat" where
  "pending_out c = rb_len (rc_out c) - rc_out_off c"

section \<open>Request parsing\<close>

text \<open>The loop over the \<open>&\<close>-separated pairs of a query string.\<close>

function query_loop :: "bytes \<Rightarrow> bytes \<Rightarrow> bytes" where
  "query_loop qs name =
     (let amp = find_char 38 qs; kv = before amp qs; eq = find_char 61 kv
      in if eq \<noteq> None \<and> before eq kv = name then drop (Suc (the eq)) kv
         else case amp of None \<Rightarrow> [] | Some a \<Rightarrow> query_loop (drop (Suc a) qs) name)"
  by pat_completeness auto
termination
  by (relation "measure (\<lambda>(qs, name). length qs)")
    (auto simp: find_char_def dest!: sym [of _ "find_if _ _"] dest: find_if_Some(1))

declare query_loop.simps [simp del]

definition query_param :: "bytes \<Rightarrow> bytes \<Rightarrow> bytes" where
  "query_param target name =
     (case find_char 63 target of None \<Rightarrow> [] | Some q \<Rightarrow> query_loop (drop (Suc q) target) name)"

definition valid_id :: "bytes \<Rightarrow> bool" where
  "valid_id s \<longleftrightarrow> length s = 9 \<and> list_all (\<lambda>c. 48 \<le> c \<and> c \<le> 57) s"

definition valid_hex :: "bytes \<Rightarrow> nat \<Rightarrow> bool" where
  "valid_hex s n \<longleftrightarrow> length s = n \<and> list_all (\<lambda>c. 48 \<le> c \<and> c \<le> 57 \<or> 97 \<le> c \<and> c \<le> 102) s"

definition random_hex :: "nat \<Rightarrow> relay \<Rightarrow> bytes \<times> relay" where
  "random_hex n s =
     (let r = map (rl_random s) [0..<n]; hex = bytes_of ''0123456789abcdef''
      in (concat (map (\<lambda>b. [hex ! unat (drop_bit 4 b), hex ! unat (b AND 15)]) r),
          s\<lparr>rl_random := \<lambda>k. rl_random s (k + n)\<rparr>))"

section \<open>Responses\<close>

text \<open>The text \<open>snprintf\<close> forms for a response header.\<close>

definition response_header :: "int \<Rightarrow> bytes \<Rightarrow> bytes \<Rightarrow> bytes \<Rightarrow> bytes \<Rightarrow> bytes" where
  "response_header code status type body extra =
     bytes_of ''HTTP/1.1 '' @ std_to_string code @ bytes_of '' '' @ status @ CRLF @
     bytes_of ''Server: TetherDesk-Relay'' @ CRLF @
     bytes_of ''Content-Type: '' @ type @ CRLF @
     bytes_of ''Content-Length: '' @ std_to_string (int (length body)) @ CRLF @
     (if find_str (bytes_of ''Cache-Control'') extra \<noteq> None then [] else bytes_of ''Cache-Control: no-cache'' @ CRLF) @
     bytes_of ''X-Content-Type-Options: nosniff'' @ CRLF @ extra @ bytes_of ''Connection: close'' @ CRLF @ CRLF"

text \<open>
  \<open>snprintf\<close> keeps at most 767 characters and a NUL in \<open>hdr[768]\<close> but returns the length of the whole
  text, and \<open>rd_buf_put\<close> then copies that many bytes from \<open>hdr\<close>.
\<close>

definition http_response ::
  "alloc \<Rightarrow> nat \<Rightarrow> int \<Rightarrow> bytes \<Rightarrow> bytes \<Rightarrow> bytes \<Rightarrow> bytes \<Rightarrow> relay \<Rightarrow> relay" where
  "http_response al i code status type body extra s =
     (let text = response_header code status type body extra; n = length text;
          hdr = (if n < 768 then text @ [0] else take 767 text @ [0]);
          mem = (if n \<le> length hdr then take n hdr else hdr @ map (rl_stack s) [0..<n - length hdr]);
          s = s\<lparr>rl_overread := rl_overread s \<or> 768 < n\<rparr>
      in upd i (\<lambda>c. c\<lparr>rc_out := rd_buf_put al (rd_buf_put al (rc_out c) mem) body,
           rc_close_after_flush := True\<rparr>) s)"

definition ws_send :: "alloc \<Rightarrow> nat \<Rightarrow> nat \<Rightarrow> bytes \<Rightarrow> relay \<Rightarrow> relay" where
  "ws_send al i opcode p s =
     (if rc_dead (rl_conn s i) then s
      else upd i (\<lambda>c. c\<lparr>rc_out := rd_ws_write_frame al [] (rc_out c) opcode p False\<rparr>) s)"

definition ws_close :: "alloc \<Rightarrow> nat \<Rightarrow> u16 \<Rightarrow> bytes \<Rightarrow> relay \<Rightarrow> relay" where
  "ws_close al i code reason s =
     (let n = (if length reason < 126 then length reason else 126);
          buf = [ucast (drop_bit 8 code), ucast code] @ take n reason
      in upd i (\<lambda>c. c\<lparr>rc_close_after_flush := True\<rparr>) (ws_send al i RD_WS_CLOSE buf s))"

text \<open>The part of \<open>kill_conn\<close> that tells the peer.\<close>

definition leave_peer :: "alloc \<Rightarrow> nat \<Rightarrow> relay \<Rightarrow> relay" where
  "leave_peer al i s =
     (case rc_peer (rl_conn s i) of
        None \<Rightarrow> s
      | Some p \<Rightarrow>
          (let s = upd p (\<lambda>c. c\<lparr>rc_peer := None\<rparr>) s;
               s = ws_close al p 1001 (bytes_of ''peer disconnected'') s
           in upd i (\<lambda>c. c\<lparr>rc_peer := None\<rparr>) s))"

definition kill_conn :: "alloc \<Rightarrow> nat \<Rightarrow> relay \<Rightarrow> relay" where
  "kill_conn al i s =
     (if rc_dead (rl_conn s i) then s
      else
        let s = leave_peer al i (upd i (\<lambda>c. c\<lparr>rc_dead := True\<rparr>) s);
            c = rl_conn s i;
            s = (if rc_kind c = Viewer \<and> rc_ticket c \<noteq> []
                 then s\<lparr>rl_tickets := (rl_tickets s)(rc_ticket c := None)\<rparr> else s)
        in if rc_kind c = HostCtl
           then case rl_hosts s (rc_id c) of
                  None \<Rightarrow> s
                | Some h \<Rightarrow> if he_ctl h = Some i
                    then s\<lparr>rl_hosts := (rl_hosts s)(rc_id c := Some (h\<lparr>he_ctl := None\<rparr>))\<rparr> else s
           else s)"

definition mime_type :: "bytes \<Rightarrow> bytes" where
  "mime_type path =
     (if ends_with (bytes_of ''.html'') path then bytes_of ''text/html; charset=utf-8''
      else if ends_with (bytes_of ''.js'') path then bytes_of ''text/javascript''
      else if ends_with (bytes_of ''.wasm'') path then bytes_of ''application/wasm''
      else if ends_with (bytes_of ''.css'') path then bytes_of ''text/css''
      else if ends_with (bytes_of ''.png'') path then bytes_of ''image/png''
      else if ends_with (bytes_of ''.webp'') path then bytes_of ''image/webp''
      else if ends_with (bytes_of ''.ico'') path then bytes_of ''image/x-icon''
      else if ends_with (bytes_of ''.svg'') path then bytes_of ''image/svg+xml''
      else bytes_of ''application/octet-stream'')"

text \<open>The path a request target names, with the aliases of the site's pages.\<close>

definition static_path :: "bytes \<Rightarrow> bytes" where
  "static_path target =
     (let path = before (find_first_of [63, 35] target) target;
          path = (if path = bytes_of ''/'' \<or> path = [] then bytes_of ''/home.html'' else path);
          path = (if path = bytes_of ''/app'' then bytes_of ''/index.html'' else path)
      in if path = bytes_of ''/get'' then bytes_of ''/get.html'' else path)"

definition serve_static :: "alloc \<Rightarrow> nat \<Rightarrow> bytes \<Rightarrow> relay \<Rightarrow> relay" where
  "serve_static al i target s =
     (let path = static_path target
      in if find_str (bytes_of ''..'') path \<noteq> None \<or> find_char 92 path \<noteq> None \<or> find_char 37 path \<noteq> None
         then http_response al i 400 (bytes_of ''Bad Request'') (bytes_of ''text/plain'') (bytes_of ''bad path'' @ [10]) [] s
         else case rl_files s (c_str (rl_web_root s @ path)) of
           None \<Rightarrow> http_response al i 404 (bytes_of ''Not Found'') (bytes_of ''text/plain'')
                    (bytes_of ''not found'' @ [10]) [] s
         | Some body \<Rightarrow>
             (let extra = bytes_of ''Strict-Transport-Security: max-age=31536000'' @ CRLF;
                  extra = extra @ (if starts_with (bytes_of ''/assets/'') path
                    then bytes_of ''Cache-Control: public, max-age=86400'' @ CRLF else []);
                  extra = extra @ (if starts_with (bytes_of ''/download/'') path
                    then bytes_of ''Content-Disposition: attachment; filename='' @ [34] @ drop 10 path @ [34] @ CRLF else [])
              in http_response al i 200 (bytes_of ''OK'') (mime_type path) body (c_str extra) s))"

definition accept_upgrade :: "alloc \<Rightarrow> nat \<Rightarrow> bytes \<Rightarrow> relay \<Rightarrow> relay" where
  "accept_upgrade al i key s =
     upd i (\<lambda>c. c\<lparr>rc_out := rd_buf_put al (rc_out c)
       (bytes_of ''HTTP/1.1 101 Switching Protocols'' @ CRLF @ bytes_of ''Upgrade: websocket'' @ CRLF @
        bytes_of ''Connection: Upgrade'' @ CRLF @ bytes_of ''Sec-WebSocket-Accept: '' @ rd_ws_accept_key key @
        CRLF @ CRLF)\<rparr>) s"

section \<open>Messages\<close>

definition handle_ws_message :: "alloc \<Rightarrow> nat \<Rightarrow> nat \<Rightarrow> bytes \<Rightarrow> relay \<Rightarrow> relay" where
  "handle_ws_message al i opcode p s =
     (if opcode = RD_WS_PING then ws_send al i RD_WS_PONG p s
      else if opcode = RD_WS_PONG then s
      else if opcode = RD_WS_CLOSE then
        (let s = ws_send al i RD_WS_CLOSE (take (min (length p) 2) p) s;
             s = upd i (\<lambda>c. c\<lparr>rc_close_after_flush := True\<rparr>) s
         in case rc_peer (rl_conn s i) of
              None \<Rightarrow> s
            | Some q \<Rightarrow> upd i (\<lambda>c. c\<lparr>rc_peer := None\<rparr>)
                (upd q (\<lambda>c. c\<lparr>rc_peer := None\<rparr>) (ws_close al q 1000 (bytes_of ''peer closed'') s)))
      else
        let c = rl_conn s i in
        if rc_kind c = HostCtl then s
        else case rc_peer c of
          Some q \<Rightarrow> ws_send al q opcode p s
        | None \<Rightarrow>
            if rc_kind c = Viewer \<and> rc_ticket c \<noteq> [] then
              (if rc_pending_bytes c + length p > 4194304 then kill_conn al i s
               else upd i (\<lambda>c. c\<lparr>rc_pending := rc_pending c @ [p],
                      rc_pending_bytes := rc_pending_bytes c + length p\<rparr>) s)
            else s)"


lemma upd_simps [simp]:
  "rl_conn (upd i f s) j = (if j = i then f (rl_conn s i) else rl_conn s j)"
  "rl_conns (upd i f s) = rl_conns s" "rl_hosts (upd i f s) = rl_hosts s"
  "rl_tickets (upd i f s) = rl_tickets s" "rl_fresh (upd i f s) = rl_fresh s"
  "rl_web_root (upd i f s) = rl_web_root s" "rl_files (upd i f s) = rl_files s"
  by (simp_all add: upd_def)

lemma ws_send_keeps_in [simp]: "rc_in (rl_conn (ws_send al i opc p s) j) = rc_in (rl_conn s j)"
  by (simp add: ws_send_def)

lemma ws_close_keeps_in [simp]: "rc_in (rl_conn (ws_close al i code reason s) j) = rc_in (rl_conn s j)"
  by (simp add: ws_close_def Let_def)

lemma kill_conn_keeps_in [simp]: "rc_in (rl_conn (kill_conn al i s) j) = rc_in (rl_conn s j)"
  by (auto simp: kill_conn_def leave_peer_def Let_def split: option.splits)

lemma handle_ws_message_keeps_in [simp]: "rc_in (rl_conn (handle_ws_message al i opc p s) j) = rc_in (rl_conn s j)"
  by (auto simp: handle_ws_message_def Let_def split: option.splits)

text \<open>
  The loops over the messages that have arrived; the result says whether the last call of
  \<open>rd_ws_next\<close> failed. \<open>stop\<close> is the loop's own condition.
\<close>

function ws_drain :: "alloc \<Rightarrow> nat \<Rightarrow> (rconn \<Rightarrow> bool) \<Rightarrow> relay \<Rightarrow> bool \<times> relay" where
  "ws_drain al i stop s =
     (let c = rl_conn s i
      in if rc_dead c \<or> stop c then (False, s)
         else case rd_ws_next al (rc_ws c) (rc_in c) of (res, r, b) \<Rightarrow>
           (let s = upd i (\<lambda>c. c\<lparr>rc_ws := r, rc_in := b\<rparr>) s
            in case res of
                 WsMsg opcode p \<Rightarrow> ws_drain al i stop (handle_ws_message al i opcode p s)
               | WsMore \<Rightarrow> (False, s)
               | WsError \<Rightarrow> (True, s)))"
  by pat_completeness auto
termination
  by (relation "measure (\<lambda>(al, i, stop, s). rb_len (rc_in (rl_conn s i)))")
    (auto dest!: sym [of "(_, _, _)" "rd_ws_next _ _ _"] dest: rd_ws_next_consumes)

declare ws_drain.simps [simp del]

section \<open>Requests\<close>

text \<open>The client address a hosting proxy reports.\<close>

definition forwarded_ip :: "bytes \<Rightarrow> bytes option" where
  "forwarded_ip headers =
     (let fwd = (case rd_http_header headers (bytes_of ''Fly-Client-IP'') 256 of Some v \<Rightarrow> Some v
           | None \<Rightarrow> (case rd_http_header headers (bytes_of ''True-Client-IP'') 256 of Some v \<Rightarrow> Some v
           | None \<Rightarrow> rd_http_header headers (bytes_of ''X-Forwarded-For'') 256))
      in case fwd of None \<Rightarrow> None
         | Some v \<Rightarrow> (let ip = dropWhile (\<lambda>b. b = 32) (before (find_char 44 v) v)
             in if ip \<noteq> [] \<and> length ip < 64 then Some ip else None))"

definition plain_error :: "alloc \<Rightarrow> nat \<Rightarrow> int \<Rightarrow> string \<Rightarrow> string \<Rightarrow> relay \<Rightarrow> relay" where
  "plain_error al i code status body s =
     http_response al i code (bytes_of status) (bytes_of ''text/plain'') (bytes_of body @ [10]) [] s"

definition upgrade_host :: "alloc \<Rightarrow> nat \<Rightarrow> bytes \<Rightarrow> bytes \<Rightarrow> relay \<Rightarrow> bool \<times> relay" where
  "upgrade_host al i target key s =
     (let rid = query_param target (bytes_of ''id''); hkey = query_param target (bytes_of ''key'')
      in if \<not> valid_id rid \<or> \<not> valid_hex hkey 32 then (False, plain_error al i 400 ''Bad Request'' ''bad id'' s)
         else
           let h = (case rl_hosts s rid of None \<Rightarrow> \<lparr>he_key = [], he_ctl = None\<rparr> | Some h \<Rightarrow> h);
               s = s\<lparr>rl_hosts := (rl_hosts s)(rid := Some h)\<rparr>
           in if he_ctl h \<noteq> None \<and> he_key h \<noteq> hkey then (False, plain_error al i 409 ''Conflict'' ''id in use'' s)
              else
                let s = (case he_ctl h of None \<Rightarrow> s
                      | Some old \<Rightarrow> kill_conn al old (ws_close al old 1001 (bytes_of ''replaced'')
                          (s\<lparr>rl_hosts := (rl_hosts s)(rid := Some (h\<lparr>he_ctl := None\<rparr>))\<rparr>)));
                    s = s\<lparr>rl_hosts := (rl_hosts s)(rid := Some \<lparr>he_key = hkey, he_ctl = Some i\<rparr>)\<rparr>;
                    s = upd i (\<lambda>c. c\<lparr>rc_kind := HostCtl, rc_id := rid\<rparr>) s
                in (True, accept_upgrade al i key s))"

definition upgrade_data :: "alloc \<Rightarrow> nat \<Rightarrow> bytes \<Rightarrow> bytes \<Rightarrow> relay \<Rightarrow> bool \<times> relay" where
  "upgrade_data al i target key s =
     (let rid = query_param target (bytes_of ''id''); hkey = query_param target (bytes_of ''key'');
          t = query_param target (bytes_of ''ticket'')
      in case (rl_hosts s rid, rl_tickets s t) of
           (Some h, Some v) \<Rightarrow>
             if he_key h \<noteq> hkey \<or> rc_id (rl_conn s v) \<noteq> rid
             then (False, plain_error al i 403 ''Forbidden'' ''bad ticket'' s)
             else
               let s = s\<lparr>rl_tickets := (rl_tickets s)(t := None)\<rparr>;
                   s = upd v (\<lambda>c. c\<lparr>rc_ticket := []\<rparr>) s;
                   s = upd i (\<lambda>c. c\<lparr>rc_kind := HostData, rc_id := rid\<rparr>) s;
                   s = accept_upgrade al i key s;
                   s = upd i (\<lambda>c. c\<lparr>rc_peer := Some v\<rparr>) s;
                   s = upd v (\<lambda>c. c\<lparr>rc_peer := Some i\<rparr>) s;
                   s = fold (\<lambda>m s. ws_send al i RD_WS_BINARY m s) (rc_pending (rl_conn s v)) s
               in (True, upd v (\<lambda>c. c\<lparr>rc_pending := [], rc_pending_bytes := 0\<rparr>) s)
         | _ \<Rightarrow> (False, plain_error al i 403 ''Forbidden'' ''bad ticket'' s))"

definition upgrade_viewer :: "alloc \<Rightarrow> nat \<Rightarrow> bytes \<Rightarrow> bytes \<Rightarrow> relay \<Rightarrow> bool \<times> relay" where
  "upgrade_viewer al i path key s =
     (let rid = drop 3 path;
          s = upd i (\<lambda>c. c\<lparr>rc_kind := Viewer, rc_id := rid\<rparr>) s;
          s = accept_upgrade al i key s
      in case (if valid_id rid then Option.bind (rl_hosts s rid) he_ctl else None) of
           None \<Rightarrow> (False, ws_close al i 4404 (bytes_of ''offline'') s)
         | Some ctl \<Rightarrow>
             (case random_hex 16 s of (t, s) \<Rightarrow>
               (let s = upd i (\<lambda>c. c\<lparr>rc_ticket := t\<rparr>) s;
                    s = s\<lparr>rl_tickets := (rl_tickets s)(t := Some i)\<rparr>
                in (True, ws_send al ctl RD_WS_TEXT
                     (bytes_of ''open '' @ t @ bytes_of '' '' @ rc_ip (rl_conn s i)) s))))"

text \<open>The header has arrived: \<open>e\<close> is the offset of its terminator.\<close>

definition handle_request :: "alloc \<Rightarrow> nat \<Rightarrow> bytes \<Rightarrow> relay \<Rightarrow> relay" where
  "handle_request al i req s =
     (let eol = the (find_str CRLF req);
          (method, rest) = read_token (take eol req);
          (target, _) = read_token rest;
          headers = drop (eol + 2) req;
          s = (case forwarded_ip headers of None \<Rightarrow> s | Some ip \<Rightarrow> upd i (\<lambda>c. c\<lparr>rc_ip := ip\<rparr>) s);
          upgrade = map tolower (case rd_http_header headers (bytes_of ''Upgrade'') 64 of None \<Rightarrow> [] | Some v \<Rightarrow> v);
          key = (if find_str (bytes_of ''websocket'') upgrade \<noteq> None
                 then rd_http_header headers (bytes_of ''Sec-WebSocket-Key'') 128 else None);
          path = before (find_char 63 target) target
      in case key of
           None \<Rightarrow>
             if method \<noteq> bytes_of ''GET'' \<and> method \<noteq> bytes_of ''HEAD''
             then plain_error al i 405 ''Method Not Allowed'' ''no'' s
             else if path = bytes_of ''/healthz'' then plain_error al i 200 ''OK'' ''ok'' s
             else serve_static al i target s
         | Some key \<Rightarrow>
             (case (if path = bytes_of ''/host'' then upgrade_host al i target key s
                    else if path = bytes_of ''/data'' then upgrade_data al i target key s
                    else if starts_with (bytes_of ''/v/'') path then upgrade_viewer al i path key s
                    else (False, plain_error al i 404 ''Not Found'' ''not found'' s)) of
                (upgraded, s) \<Rightarrow> if upgraded then snd (ws_drain al i (\<lambda>c. False) s) else s))"

definition handle_http :: "alloc \<Rightarrow> nat \<Rightarrow> relay \<Rightarrow> relay" where
  "handle_http al i s =
     (let d = rb_data (rc_in (rl_conn s i));
          e = (case find_blank_line d of None \<Rightarrow> 0 | Some k \<Rightarrow> k)
      in if e = 0 then
           (if length d > 16384 then plain_error al i 431 ''Request Header Fields Too Large'' ''too large'' s else s)
         else handle_request al i (take (e + 2) d)
                (upd i (\<lambda>c. c\<lparr>rc_in := rd_buf_consume (rc_in c) (e + 4)\<rparr>) s))"

section \<open>Sockets and the main loop\<close>

text \<open>What \<open>rd_net_recv\<close> returns, call after call; nothing more to read when the list ends.\<close>

datatype rx = RxData bytes | RxBlock | RxClosed

fun recv_loop :: "alloc \<Rightarrow> nat \<Rightarrow> u64 \<Rightarrow> nat \<Rightarrow> rx list \<Rightarrow> relay \<Rightarrow> bool \<times> relay" where
  "recv_loop al i now (Suc n) (RxData d # rs) s =
     recv_loop al i now n rs (upd i (\<lambda>c. c\<lparr>rc_in := rd_buf_put al (rc_in c) d, rc_last_rx_us := now\<rparr>) s)"
| "recv_loop al i now (Suc n) (RxClosed # rs) s = (True, s)"
| "recv_loop al i now n rs s = (False, s)"

definition read_conn :: "alloc \<Rightarrow> nat \<Rightarrow> u64 \<Rightarrow> rx list \<Rightarrow> relay \<Rightarrow> relay" where
  "read_conn al i now rs s =
     (case recv_loop al i now 64 rs s of (closed, s) \<Rightarrow>
        if rc_kind (rl_conn s i) = Http then
          (if closed then kill_conn al i s else handle_http al i s)
        else case ws_drain al i rc_close_after_flush s of (failed, s) \<Rightarrow>
          if failed \<or> closed then kill_conn al i s else s)"

text \<open>
  The loop of \<open>flush\<close>: \<open>tx\<close> is what \<open>rd_net_send\<close> returns, call after call, \<open>None\<close> for an error. The
  result says whether a call failed.
\<close>

fun send_loop :: "nat option list \<Rightarrow> rconn \<Rightarrow> bool \<times> rconn" where
  "send_loop (t # ts) c =
     (if pending_out c = 0 then (False, c)
      else case t of None \<Rightarrow> (True, c)
        | Some n \<Rightarrow> if n = 0 then (False, c)
            else send_loop ts (c\<lparr>rc_out_off := rc_out_off c + min n (pending_out c)\<rparr>))"
| "send_loop [] c = (False, c)"

definition flush :: "alloc \<Rightarrow> nat \<Rightarrow> nat option list \<Rightarrow> relay \<Rightarrow> relay" where
  "flush al i tx s =
     (case send_loop tx (rl_conn s i) of (failed, c) \<Rightarrow>
       (let s = upd i (\<lambda>_. c) s
        in if failed then kill_conn al i s
           else if pending_out c = 0 then
             (let s = upd i (\<lambda>c. c\<lparr>rc_out := rd_buf_clear (rc_out c), rc_out_off := 0\<rparr>) s
              in if rc_close_after_flush c then kill_conn al i s else s)
           else if rc_out_off c > 1048576 \<and> rc_out_off c > rb_len (rc_out c) div 2
             then upd i (\<lambda>c. c\<lparr>rc_out := rd_buf_consume (rc_out c) (rc_out_off c), rc_out_off := 0\<rparr>) s
           else s))"

definition poll_in :: "relay \<Rightarrow> nat \<Rightarrow> bool" where
  "poll_in s i = (case rc_peer (rl_conn s i) of
     None \<Rightarrow> True | Some p \<Rightarrow> \<not> pending_out (rl_conn s p) > kBackpressure)"

definition poll_out :: "relay \<Rightarrow> nat \<Rightarrow> bool" where
  "poll_out s i \<longleftrightarrow> pending_out (rl_conn s i) \<noteq> 0"

definition accept_conn :: "bytes \<Rightarrow> u64 \<Rightarrow> relay \<Rightarrow> relay" where
  "accept_conn addr now s =
     (let same_ip = length (filter (\<lambda>j. rc_ip (rl_conn s j) = addr) (rl_conns s))
      in if length (rl_conns s) \<ge> kMaxConns \<or> same_ip \<ge> kMaxConnsPerIp then s
         else s\<lparr>rl_conn := (rl_conn s)(rl_fresh s := relay_conn addr now),
                rl_conns := rl_conns s @ [rl_fresh s], rl_fresh := Suc (rl_fresh s)\<rparr>)"

definition timer_conn :: "alloc \<Rightarrow> u64 \<Rightarrow> nat option list \<Rightarrow> nat \<Rightarrow> relay \<Rightarrow> relay" where
  "timer_conn al now tx i s =
     (let c = rl_conn s i
      in if rc_dead c then s
         else
           let s = (if rc_kind c = Http \<and> now - rc_created_us c > 15 * kSecond then kill_conn al i s
                else if rc_kind c = Viewer \<and> rc_peer c = None \<and> rc_ticket c \<noteq> [] \<and> now - rc_created_us c > 20 * kSecond
                then ws_close al i 4408 (bytes_of ''host did not answer'') s
                else if rc_kind c \<noteq> Http \<and> now - rc_last_rx_us c > 90 * kSecond then kill_conn al i s
                else if rc_kind c \<noteq> Http \<and> now - rc_last_ping_us c > 20 * kSecond
                then ws_send al i RD_WS_PING (bytes_of ''td'') (upd i (\<lambda>c. c\<lparr>rc_last_ping_us := now\<rparr>) s)
                else s)
           in if rc_dead (rl_conn s i) then s else flush al i tx s)"

definition reap :: "relay \<Rightarrow> relay" where
  "reap s = s\<lparr>rl_conns := filter (\<lambda>j. \<not> rc_dead (rl_conn s j)) (rl_conns s)\<rparr>"

text \<open>One round of the loop of \<open>main\<close>; the arguments are what the operating system reports.\<close>

record round =
  rd_now :: u64
  rd_readable :: "nat \<Rightarrow> bool"
  rd_hangup :: "nat \<Rightarrow> bool"
  rd_writable :: "nat \<Rightarrow> bool"
  rd_rx :: "nat \<Rightarrow> rx list"
  rd_tx :: "nat \<Rightarrow> nat option list"
  rd_tx2 :: "nat \<Rightarrow> nat option list"
  rd_accepted :: "bytes list"

definition serve_conn :: "alloc \<Rightarrow> round \<Rightarrow> relay \<Rightarrow> nat \<Rightarrow> relay \<Rightarrow> relay" where
  "serve_conn al e polled i s =
     (let s = (if \<not> rc_dead (rl_conn s i) \<and> (poll_in polled i \<and> rd_readable e i \<or> rd_hangup e i)
               then read_conn al i (rd_now e) (rd_rx e i) s else s)
      in if \<not> rc_dead (rl_conn s i) \<and> poll_out polled i \<and> rd_writable e i then flush al i (rd_tx e i) s else s)"

definition relay_round :: "alloc \<Rightarrow> round \<Rightarrow> relay \<Rightarrow> relay" where
  "relay_round al e s =
     (let s1 = fold (serve_conn al e s) (rl_conns s) s;
          s2 = fold (\<lambda>a s. accept_conn a (rd_now e) s) (rd_accepted e) s1;
          s3 = fold (\<lambda>i s. timer_conn al (rd_now e) (rd_tx2 e i) i s) (rl_conns s2) s2
      in reap s3)"

definition relay_start :: "bytes \<Rightarrow> (bytes \<Rightarrow> bytes option) \<Rightarrow> (nat \<Rightarrow> u8) \<Rightarrow> (nat \<Rightarrow> u8) \<Rightarrow> relay" where
  "relay_start root files rnd stk =
     \<lparr>rl_conns = [], rl_conn = (\<lambda>_. relay_conn [] 0), rl_hosts = (\<lambda>_. None), rl_tickets = (\<lambda>_. None),
      rl_fresh = 0, rl_web_root = root, rl_files = files, rl_random = rnd, rl_stack = stk, rl_overread = False\<rparr>"

end
