(* ===== verification/Relay_Links.thy ===== *)
theory Relay_Links
  imports Relay
begin

text \<open>
  The relay's pointers: what each operation of \<^theory_text>\<open>Relay\<close> does to the links between connections, and
  the invariant that every peer, ticket and control channel leads to a live connection of the right
  kind, through every round of the main loop.
\<close>


section \<open>What the operations do to the links between connections\<close>

text \<open>
  Most operations only touch buffers and timestamps: they leave the relay's link structure, the
  fields below, as it is.
\<close>

definition same_links :: "relay \<Rightarrow> relay \<Rightarrow> bool" where
  "same_links s t \<longleftrightarrow> rl_conns t = rl_conns s \<and> rl_hosts t = rl_hosts s \<and> rl_tickets t = rl_tickets s \<and>
     rl_fresh t = rl_fresh s \<and>
     (\<forall>j. rc_kind (rl_conn t j) = rc_kind (rl_conn s j) \<and> rc_id (rl_conn t j) = rc_id (rl_conn s j) \<and>
        rc_ticket (rl_conn t j) = rc_ticket (rl_conn s j) \<and> rc_peer (rl_conn t j) = rc_peer (rl_conn s j) \<and>
        rc_dead (rl_conn t j) = rc_dead (rl_conn s j))"

named_theorems links \<open>operations that keep the links\<close>

lemma same_links_refl [links]: "same_links s s"
  by (simp add: same_links_def)

lemma same_links_trans: "same_links s t \<Longrightarrow> same_links t u \<Longrightarrow> same_links s u"
  by (simp add: same_links_def)

lemma same_links_upd [links]:
  assumes "\<And>c. rc_kind (f c) = rc_kind c" "\<And>c. rc_id (f c) = rc_id c" "\<And>c. rc_ticket (f c) = rc_ticket c"
    "\<And>c. rc_peer (f c) = rc_peer c" "\<And>c. rc_dead (f c) = rc_dead c"
  shows "same_links s (upd i f s)"
  using assms by (simp add: same_links_def)

lemma ws_send_links [simp]:
  "rl_conns (ws_send al i opc p s) = rl_conns s" "rl_hosts (ws_send al i opc p s) = rl_hosts s"
  "rl_tickets (ws_send al i opc p s) = rl_tickets s" "rl_fresh (ws_send al i opc p s) = rl_fresh s"
  "rc_kind (rl_conn (ws_send al i opc p s) j) = rc_kind (rl_conn s j)"
  "rc_id (rl_conn (ws_send al i opc p s) j) = rc_id (rl_conn s j)"
  "rc_ticket (rl_conn (ws_send al i opc p s) j) = rc_ticket (rl_conn s j)"
  "rc_peer (rl_conn (ws_send al i opc p s) j) = rc_peer (rl_conn s j)"
  "rc_dead (rl_conn (ws_send al i opc p s) j) = rc_dead (rl_conn s j)"
  by (simp_all add: ws_send_def)

lemma ws_close_links [simp]:
  "rl_conns (ws_close al i code reason s) = rl_conns s" "rl_hosts (ws_close al i code reason s) = rl_hosts s"
  "rl_tickets (ws_close al i code reason s) = rl_tickets s" "rl_fresh (ws_close al i code reason s) = rl_fresh s"
  "rc_kind (rl_conn (ws_close al i code reason s) j) = rc_kind (rl_conn s j)"
  "rc_id (rl_conn (ws_close al i code reason s) j) = rc_id (rl_conn s j)"
  "rc_ticket (rl_conn (ws_close al i code reason s) j) = rc_ticket (rl_conn s j)"
  "rc_peer (rl_conn (ws_close al i code reason s) j) = rc_peer (rl_conn s j)"
  "rc_dead (rl_conn (ws_close al i code reason s) j) = rc_dead (rl_conn s j)"
  by (simp_all add: ws_close_def Let_def)

lemma same_links_ws_send [links]: "same_links s (ws_send al i opc p s)"
  by (simp add: same_links_def)

lemma same_links_ws_close [links]: "same_links s (ws_close al i code reason s)"
  by (simp add: same_links_def)

lemma same_links_http_response [links]: "same_links s (http_response al i code status type body extra s)"
  by (simp add: http_response_def same_links_def Let_def upd_def)

lemma same_links_plain_error [links]: "same_links s (plain_error al i code status body s)"
  by (simp add: plain_error_def links)

lemma same_links_serve_static [links]: "same_links s (serve_static al i target s)"
  by (simp add: serve_static_def Let_def links split: option.split)

lemma same_links_accept_upgrade [links]: "same_links s (accept_upgrade al i key s)"
  by (simp add: accept_upgrade_def same_links_def)

lemma same_links_random_hex [links]: "random_hex n s = (t, s') \<Longrightarrow> same_links s s'"
  by (auto simp: random_hex_def Let_def same_links_def)

lemma same_links_fold_ws_send [links]: "same_links s (fold (\<lambda>m s. ws_send al i opc m s) ms s)"
  by (induction ms arbitrary: s) (auto intro: links same_links_trans)

lemma same_links_recv_loop [links]: "recv_loop al i now n rs s = (closed, s') \<Longrightarrow> same_links s s'"
proof (induction al i now n rs s rule: recv_loop.induct)
  case (1 al i now n d rs s)
  have "same_links s (upd i (\<lambda>c. c\<lparr>rc_in := rd_buf_put al (rc_in c) d, rc_last_rx_us := now\<rparr>) s)"
    by (rule links) simp_all
  with "1.IH" "1.prems" show ?case by (auto intro: same_links_trans)
qed (auto intro: links)

lemma send_loop_keeps:
  "send_loop tx c = (failed, c') \<Longrightarrow> \<exists>n. c' = c\<lparr>rc_out_off := n\<rparr> \<and> (rc_out_off c \<le> rb_len (rc_out c) \<longrightarrow> n \<le> rb_len (rc_out c))"
proof (induction tx c rule: send_loop.induct)
  case (1 t ts c)
  show ?case
  proof (cases "pending_out c = 0 \<or> t = None \<or> t = Some 0")
    case True
    then have "c' = c" using "1.prems" by (auto split: if_splits option.splits)
    then show ?thesis by (intro exI [of _ "rc_out_off c"]) simp
  next
    case False
    then obtain n where n: "t = Some n" "n \<noteq> 0" "pending_out c \<noteq> 0" by auto
    let ?c = "c\<lparr>rc_out_off := rc_out_off c + min n (pending_out c)\<rparr>"
    have "send_loop ts ?c = (failed, c')" using "1.prems" n by simp
    from "1.IH" [OF n(3) n(1) n(2) this] obtain k where
      "c' = ?c\<lparr>rc_out_off := k\<rparr>" "rc_out_off ?c \<le> rb_len (rc_out ?c) \<longrightarrow> k \<le> rb_len (rc_out ?c)" by blast
    then show ?thesis by (intro exI [of _ k]) (auto simp: pending_out_def)
  qed
next
  case (2 c)
  then show ?case by (intro exI [of _ "rc_out_off c"]) simp
qed

lemma leave_peer_links [simp]:
  "rl_conns (leave_peer al i s) = rl_conns s" "rl_fresh (leave_peer al i s) = rl_fresh s"
  "rl_tickets (leave_peer al i s) = rl_tickets s" "rl_hosts (leave_peer al i s) = rl_hosts s"
  "rc_kind (rl_conn (leave_peer al i s) j) = rc_kind (rl_conn s j)"
  "rc_id (rl_conn (leave_peer al i s) j) = rc_id (rl_conn s j)"
  "rc_ticket (rl_conn (leave_peer al i s) j) = rc_ticket (rl_conn s j)"
  "rc_dead (rl_conn (leave_peer al i s) j) = rc_dead (rl_conn s j)"
  "rc_peer (rl_conn (leave_peer al i s) j) =
     (if j = i \<or> rc_peer (rl_conn s i) = Some j then None else rc_peer (rl_conn s j))"
  by (simp_all add: leave_peer_def Let_def split: option.split)

lemma kill_conn_links [simp]:
  "rl_conns (kill_conn al i s) = rl_conns s"
  "rl_fresh (kill_conn al i s) = rl_fresh s"
  "rc_kind (rl_conn (kill_conn al i s) j) = rc_kind (rl_conn s j)"
  "rc_id (rl_conn (kill_conn al i s) j) = rc_id (rl_conn s j)"
  "rc_ticket (rl_conn (kill_conn al i s) j) = rc_ticket (rl_conn s j)"
  "rc_dead (rl_conn (kill_conn al i s) j) \<longleftrightarrow> j = i \<or> rc_dead (rl_conn s j)"
  "rc_peer (rl_conn (kill_conn al i s) j) = (if \<not> rc_dead (rl_conn s i) \<and> (j = i \<or> rc_peer (rl_conn s i) = Some j)
     then None else rc_peer (rl_conn s j))"
  "rl_tickets (kill_conn al i s) = (if \<not> rc_dead (rl_conn s i) \<and> rc_kind (rl_conn s i) = Viewer \<and>
       rc_ticket (rl_conn s i) \<noteq> [] then (rl_tickets s)(rc_ticket (rl_conn s i) := None) else rl_tickets s)"
  "rl_hosts (kill_conn al i s) = (if \<not> rc_dead (rl_conn s i) \<and> rc_kind (rl_conn s i) = HostCtl
     then (case rl_hosts s (rc_id (rl_conn s i)) of None \<Rightarrow> rl_hosts s
       | Some h \<Rightarrow> if he_ctl h = Some i then (rl_hosts s)(rc_id (rl_conn s i) := Some (h\<lparr>he_ctl := None\<rparr>)) else rl_hosts s)
     else rl_hosts s)"
  by (simp_all add: kill_conn_def Let_def if_distrib [of rl_conn] option.case_distrib [of rl_conn] split: option.split)

lemma hangup_links:
  "rl_conns (handle_ws_message al i RD_WS_CLOSE p s) = rl_conns s"
  "rl_fresh (handle_ws_message al i RD_WS_CLOSE p s) = rl_fresh s"
  "rl_hosts (handle_ws_message al i RD_WS_CLOSE p s) = rl_hosts s"
  "rl_tickets (handle_ws_message al i RD_WS_CLOSE p s) = rl_tickets s"
  "rc_kind (rl_conn (handle_ws_message al i RD_WS_CLOSE p s) j) = rc_kind (rl_conn s j)"
  "rc_id (rl_conn (handle_ws_message al i RD_WS_CLOSE p s) j) = rc_id (rl_conn s j)"
  "rc_ticket (rl_conn (handle_ws_message al i RD_WS_CLOSE p s) j) = rc_ticket (rl_conn s j)"
  "rc_dead (rl_conn (handle_ws_message al i RD_WS_CLOSE p s) j) = rc_dead (rl_conn s j)"
  "rc_peer (rl_conn (handle_ws_message al i RD_WS_CLOSE p s) j) =
     (if j = i \<or> rc_peer (rl_conn s i) = Some j then None else rc_peer (rl_conn s j))"
  by (simp_all add: handle_ws_message_def Let_def split: option.split)

section \<open>The invariant\<close>

text \<open>
  Pointers are valid and lead back: a peer is another live connection whose peer is this one, the two
  are a viewer and a host of the same ID; a ticket leads to the live viewer that waits with it and is
  not paired yet; the control channel of an ID is a live host connection of that ID.
\<close>

definition paired :: "rconn \<Rightarrow> rconn \<Rightarrow> bool" where
  "paired c d \<longleftrightarrow> rc_id c = rc_id d \<and> \<not> rc_dead c \<and>
     (rc_kind c = Viewer \<and> rc_kind d = HostData \<or> rc_kind c = HostData \<and> rc_kind d = Viewer)"

definition peers_ok :: "relay \<Rightarrow> bool" where
  "peers_ok s \<longleftrightarrow> (\<forall>i\<in>set (rl_conns s). \<forall>p. rc_peer (rl_conn s i) = Some p \<longrightarrow>
     p \<in> set (rl_conns s) \<and> rc_peer (rl_conn s p) = Some i \<and> paired (rl_conn s i) (rl_conn s p))"

definition http_ok :: "relay \<Rightarrow> bool" where
  "http_ok s \<longleftrightarrow> (\<forall>i\<in>set (rl_conns s). rc_kind (rl_conn s i) = Http \<longrightarrow>
     rc_peer (rl_conn s i) = None \<and> rc_ticket (rl_conn s i) = [])"

definition tickets_ok :: "relay \<Rightarrow> bool" where
  "tickets_ok s \<longleftrightarrow> (\<forall>t v. rl_tickets s t = Some v \<longrightarrow> v \<in> set (rl_conns s) \<and> \<not> rc_dead (rl_conn s v) \<and>
     rc_kind (rl_conn s v) = Viewer \<and> rc_ticket (rl_conn s v) = t \<and> t \<noteq> [] \<and> rc_peer (rl_conn s v) = None)"

definition hosts_ok :: "relay \<Rightarrow> bool" where
  "hosts_ok s \<longleftrightarrow> (\<forall>k h c. rl_hosts s k = Some h \<longrightarrow> he_ctl h = Some c \<longrightarrow> c \<in> set (rl_conns s) \<and>
     \<not> rc_dead (rl_conn s c) \<and> rc_kind (rl_conn s c) = HostCtl \<and> rc_id (rl_conn s c) = k)"

definition conns_ok :: "relay \<Rightarrow> bool" where
  "conns_ok s \<longleftrightarrow> distinct (rl_conns s) \<and> (\<forall>i\<in>set (rl_conns s). i < rl_fresh s)"

definition links_ok :: "relay \<Rightarrow> bool" where
  "links_ok s \<longleftrightarrow> conns_ok s \<and> peers_ok s \<and> http_ok s \<and> tickets_ok s \<and> hosts_ok s"

lemma links_ok_same:
  assumes "same_links s t" "links_ok s"
  shows "links_ok t"
proof -
  have e: "rl_conns t = rl_conns s" "rl_hosts t = rl_hosts s" "rl_tickets t = rl_tickets s" "rl_fresh t = rl_fresh s"
    "rc_kind (rl_conn t j) = rc_kind (rl_conn s j)" "rc_id (rl_conn t j) = rc_id (rl_conn s j)"
    "rc_ticket (rl_conn t j) = rc_ticket (rl_conn s j)" "rc_peer (rl_conn t j) = rc_peer (rl_conn s j)"
    "rc_dead (rl_conn t j) = rc_dead (rl_conn s j)" for j
    using assms(1) by (simp_all add: same_links_def)
  show ?thesis
    using assms(2)
    unfolding links_ok_def conns_ok_def peers_ok_def http_ok_def tickets_ok_def hosts_ok_def paired_def e .
qed

lemma peersD: "peers_ok s \<Longrightarrow> i \<in> set (rl_conns s) \<Longrightarrow> rc_peer (rl_conn s i) = Some p \<Longrightarrow>
    p \<in> set (rl_conns s) \<and> rc_peer (rl_conn s p) = Some i \<and> paired (rl_conn s i) (rl_conn s p)"
  unfolding peers_ok_def by blast

lemma hostsD: "hosts_ok s \<Longrightarrow> rl_hosts s k = Some h \<Longrightarrow> he_ctl h = Some c \<Longrightarrow> c \<in> set (rl_conns s) \<and>
    \<not> rc_dead (rl_conn s c) \<and> rc_kind (rl_conn s c) = HostCtl \<and> rc_id (rl_conn s c) = k"
  unfolding hosts_ok_def by blast

lemma ticketsD: "tickets_ok s \<Longrightarrow> rl_tickets s t = Some v \<Longrightarrow> v \<in> set (rl_conns s) \<and> \<not> rc_dead (rl_conn s v) \<and>
    rc_kind (rl_conn s v) = Viewer \<and> rc_ticket (rl_conn s v) = t \<and> t \<noteq> [] \<and> rc_peer (rl_conn s v) = None"
  unfolding tickets_ok_def by blast

text \<open>Taking a pair apart keeps the other pairs.\<close>

lemma peers_ok_unpair:
  assumes "peers_ok s" "i \<in> set (rl_conns s)" "rl_conns t = rl_conns s"
    "\<And>j. rc_peer (rl_conn t j) = (if j = i \<or> rc_peer (rl_conn s i) = Some j then None else rc_peer (rl_conn s j))"
    "\<And>j. rc_id (rl_conn t j) = rc_id (rl_conn s j)" "\<And>j. rc_kind (rl_conn t j) = rc_kind (rl_conn s j)"
    "\<And>j. rc_dead (rl_conn t j) \<Longrightarrow> j = i \<or> rc_dead (rl_conn s j)"
  shows "peers_ok t"
  unfolding peers_ok_def
proof (intro ballI allI impI)
  fix j p assume j: "j \<in> set (rl_conns t)" and p: "rc_peer (rl_conn t j) = Some p"
  then have n: "j \<noteq> i" "rc_peer (rl_conn s i) \<noteq> Some j" "rc_peer (rl_conn s j) = Some p"
    using assms(4) [of j] by (auto split: if_splits)
  have q: "p \<in> set (rl_conns s)" "rc_peer (rl_conn s p) = Some j" "paired (rl_conn s j) (rl_conn s p)"
    using peersD [OF assms(1) _ n(3)] j assms(3) by auto
  have "p \<noteq> i" "rc_peer (rl_conn s i) \<noteq> Some p"
    using q(2) n(1,2) peersD [OF assms(1,2), of p] by auto
  then have "rc_peer (rl_conn t p) = Some j" using q(2) assms(4) by simp
  moreover have "paired (rl_conn t j) (rl_conn t p)"
    using q(3) assms(5,6) assms(7) [of j] n(1) by (auto simp: paired_def)
  ultimately show "p \<in> set (rl_conns t) \<and> rc_peer (rl_conn t p) = Some j \<and> paired (rl_conn t j) (rl_conn t p)"
    using q(1) assms(3) by simp
qed

lemma links_ok_kill:
  assumes "links_ok s" "i \<in> set (rl_conns s)"
  shows "links_ok (kill_conn al i s)"
proof (cases "rc_dead (rl_conn s i)")
  case True
  then show ?thesis using assms by (simp add: kill_conn_def)
next
  case False
  have s: "conns_ok s" "peers_ok s" "http_ok s" "tickets_ok s" "hosts_ok s"
    using assms(1) by (simp_all add: links_ok_def)
  show ?thesis
    unfolding links_ok_def
  proof (intro conjI)
    show "conns_ok (kill_conn al i s)" using s(1) by (simp add: conns_ok_def)
    show "peers_ok (kill_conn al i s)"
      by (rule peers_ok_unpair [OF s(2) assms(2)]) (simp_all add: False)
    show "http_ok (kill_conn al i s)" using s(3) by (simp add: http_ok_def)
    show "tickets_ok (kill_conn al i s)"
      unfolding tickets_ok_def
    proof (intro allI impI)
      fix t v assume t: "rl_tickets (kill_conn al i s) t = Some v"
      then have "rl_tickets s t = Some v" by (simp split: if_splits)
      note v = ticketsD [OF s(4) this]
      then have "v \<noteq> i" using t False by (auto split: if_splits)
      with v show "v \<in> set (rl_conns (kill_conn al i s)) \<and> \<not> rc_dead (rl_conn (kill_conn al i s) v) \<and>
          rc_kind (rl_conn (kill_conn al i s) v) = Viewer \<and> rc_ticket (rl_conn (kill_conn al i s) v) = t \<and> t \<noteq> [] \<and>
          rc_peer (rl_conn (kill_conn al i s) v) = None" by simp
    qed
    show "hosts_ok (kill_conn al i s)"
      unfolding hosts_ok_def
    proof (intro allI impI)
      fix k h c assume h: "rl_hosts (kill_conn al i s) k = Some h" and c: "he_ctl h = Some c"
      then have "rl_hosts s k = Some h" by (auto split: if_splits option.splits)
      note v = hostsD [OF s(5) this c]
      have "c \<noteq> i" using v h c False by (auto split: if_splits option.splits)
      with v show "c \<in> set (rl_conns (kill_conn al i s)) \<and> \<not> rc_dead (rl_conn (kill_conn al i s) c) \<and>
          rc_kind (rl_conn (kill_conn al i s) c) = HostCtl \<and> rc_id (rl_conn (kill_conn al i s) c) = k" by simp
    qed
  qed
qed

section \<open>Every operation keeps the invariant\<close>

text \<open>An operation on a connection of the relay: it keeps the list of connections and the invariant.\<close>

definition keeps :: "relay \<Rightarrow> relay \<Rightarrow> bool" where
  "keeps s t \<longleftrightarrow> rl_conns t = rl_conns s \<and> (links_ok s \<longrightarrow> links_ok t)"

lemma keeps_refl: "keeps s s"
  by (simp add: keeps_def)

lemma keeps_trans: "keeps s t \<Longrightarrow> keeps t u \<Longrightarrow> keeps s u"
  by (simp add: keeps_def)

lemma keeps_same: "same_links s t \<Longrightarrow> keeps s t"
  using links_ok_same [of s t] by (simp add: keeps_def same_links_def)

lemma keeps_kill: "i \<in> set (rl_conns s) \<Longrightarrow> keeps s (kill_conn al i s)"
  by (simp add: keeps_def links_ok_kill)

lemma tickets_okI:
  assumes "\<And>x w. rl_tickets s x = Some w \<Longrightarrow> w \<in> set (rl_conns s) \<and> \<not> rc_dead (rl_conn s w) \<and>
    rc_kind (rl_conn s w) = Viewer \<and> rc_ticket (rl_conn s w) = x \<and> x \<noteq> [] \<and> rc_peer (rl_conn s w) = None"
  shows "tickets_ok s"
  using assms unfolding tickets_ok_def by blast

lemma hosts_okI:
  assumes "\<And>x h c. rl_hosts s x = Some h \<Longrightarrow> he_ctl h = Some c \<Longrightarrow> c \<in> set (rl_conns s) \<and>
    \<not> rc_dead (rl_conn s c) \<and> rc_kind (rl_conn s c) = HostCtl \<and> rc_id (rl_conn s c) = x"
  shows "hosts_ok s"
  using assms unfolding hosts_ok_def by blast

lemma links_ok_hangup:
  assumes "links_ok s" "i \<in> set (rl_conns s)"
  shows "links_ok (handle_ws_message al i RD_WS_CLOSE p s)"
proof -
  have s: "conns_ok s" "peers_ok s" "http_ok s" "tickets_ok s" "hosts_ok s"
    using assms(1) by (simp_all add: links_ok_def)
  let ?t = "handle_ws_message al i RD_WS_CLOSE p s"
  note h = hangup_links [of al i p s]
  show ?thesis
    unfolding links_ok_def
  proof (intro conjI)
    show "conns_ok ?t" using s(1) by (simp add: conns_ok_def h)
    show "peers_ok ?t" by (rule peers_ok_unpair [OF s(2) assms(2)]) (simp_all add: h)
    show "http_ok ?t" using s(3) by (simp add: http_ok_def h)
    show "tickets_ok ?t"
      unfolding tickets_ok_def h using ticketsD [OF s(4)] by (auto split: if_splits)
    show "hosts_ok ?t" using s(5) unfolding hosts_ok_def h .
  qed
qed

lemma keeps_message:
  assumes "i \<in> set (rl_conns s)"
  shows "keeps s (handle_ws_message al i opcode p s)"
proof -
  consider "opcode = RD_WS_CLOSE" | "opcode \<noteq> RD_WS_CLOSE" "opcode = RD_WS_PING \<or> opcode = RD_WS_PONG"
    | "opcode \<noteq> RD_WS_CLOSE" "opcode \<noteq> RD_WS_PING" "opcode \<noteq> RD_WS_PONG" by blast
  then show ?thesis
  proof cases
    case 1
    then show ?thesis using links_ok_hangup [OF _ assms] by (simp add: keeps_def hangup_links(1))
  next
    case 2
    then show ?thesis by (auto simp: handle_ws_message_def intro: keeps_same links)
  next
    case 3
    have "keeps s (upd i (\<lambda>c. c\<lparr>rc_pending := rc_pending c @ [p], rc_pending_bytes := rc_pending_bytes c + length p\<rparr>) s)"
      by (intro keeps_same links) simp_all
    with 3 show ?thesis
      by (auto simp: handle_ws_message_def Let_def intro: keeps_refl keeps_kill [OF assms] keeps_same links
          split: option.split)
  qed
qed

lemma keeps_drain:
  "i \<in> set (rl_conns s) \<Longrightarrow> ws_drain al i stop s = (b, t) \<Longrightarrow> keeps s t"
proof (induction al i stop s arbitrary: b t rule: ws_drain.induct)
  case (1 al i stop s)
  show ?case
  proof (cases "rc_dead (rl_conn s i) \<or> stop (rl_conn s i)")
    case True
    with "1.prems"(2) show ?thesis by (subst (asm) ws_drain.simps) (simp add: Let_def keeps_refl)
  next
    case False
    obtain res r c where n: "rd_ws_next al (rc_ws (rl_conn s i)) (rc_in (rl_conn s i)) = (res, r, c)"
      using prod_cases3 by blast
    let ?u = "upd i (\<lambda>d. d\<lparr>rc_ws := r, rc_in := c\<rparr>) s"
    have u: "keeps s ?u" by (intro keeps_same links) simp_all
    show ?thesis
    proof (cases res)
      case (WsMsg opcode p)
      have "ws_drain al i stop (handle_ws_message al i opcode p ?u) = (b, t)"
        using "1.prems"(2) False n WsMsg by (subst (asm) ws_drain.simps) (simp add: Let_def)
      moreover have m: "keeps ?u (handle_ws_message al i opcode p ?u)"
        using "1.prems"(1) by (intro keeps_message) simp
      ultimately have "keeps (handle_ws_message al i opcode p ?u) t"
        using "1.IH" [OF refl False n [symmetric] refl refl WsMsg] "1.prems"(1)
        by (simp add: keeps_def)
      with u m show ?thesis by (blast intro: keeps_trans)
    next
      case WsMore
      with "1.prems"(2) False n u show ?thesis by (subst (asm) ws_drain.simps) (simp add: Let_def)
    next
      case WsError
      with "1.prems"(2) False n u show ?thesis by (subst (asm) ws_drain.simps) (simp add: Let_def)
    qed
  qed
qed


text \<open>What an HTTP connection becomes.\<close>

lemma not_a_peer:
  assumes "peers_ok s" "rc_peer (rl_conn s i) = None" "j \<in> set (rl_conns s)"
  shows "rc_peer (rl_conn s j) \<noteq> Some i"
  using peersD [OF assms(1,3), of i] assms(2) by auto

lemma peers_ok_lonely:
  assumes "peers_ok s" "rc_peer (rl_conn s i) = None" "rl_conns t = rl_conns s"
    "\<And>j. rc_peer (rl_conn t j) = rc_peer (rl_conn s j)"
    "\<And>j. j \<noteq> i \<Longrightarrow> rl_conn t j = rl_conn s j"
  shows "peers_ok t"
  unfolding peers_ok_def assms(3)
proof (intro ballI allI impI)
  fix j p assume j: "j \<in> set (rl_conns s)" and p: "rc_peer (rl_conn t j) = Some p"
  then have p: "rc_peer (rl_conn s j) = Some p" using assms(4) by simp
  note q = peersD [OF assms(1) j p]
  have "j \<noteq> i" "p \<noteq> i" using p assms(2) not_a_peer [OF assms(1,2) j] by auto
  then show "p \<in> set (rl_conns s) \<and> rc_peer (rl_conn t p) = Some j \<and> paired (rl_conn t j) (rl_conn t p)"
    using q assms(5) by simp
qed

definition fresh_http :: "relay \<Rightarrow> nat \<Rightarrow> bool" where
  "fresh_http s i \<longleftrightarrow> i \<in> set (rl_conns s) \<and> rc_kind (rl_conn s i) = Http \<and> \<not> rc_dead (rl_conn s i)"

lemma links_ok_become_host:
  assumes "links_ok s" "fresh_http s i"
  shows "links_ok (upd i (\<lambda>c. c\<lparr>rc_kind := HostCtl, rc_id := rid\<rparr>)
    (s\<lparr>rl_hosts := (rl_hosts s)(rid := Some \<lparr>he_key = k, he_ctl = Some i\<rparr>)\<rparr>))" (is "links_ok ?t")
proof -
  have s: "conns_ok s" "peers_ok s" "http_ok s" "tickets_ok s" "hosts_ok s"
    using assms(1) by (simp_all add: links_ok_def)
  have i: "i \<in> set (rl_conns s)" "rc_kind (rl_conn s i) = Http" "\<not> rc_dead (rl_conn s i)"
    "rc_peer (rl_conn s i) = None" "rc_ticket (rl_conn s i) = []"
    using assms(2) s(3) by (auto simp: fresh_http_def http_ok_def)
  show ?thesis
    unfolding links_ok_def
  proof (intro conjI)
    show "conns_ok ?t" using s(1) by (simp add: conns_ok_def)
    show "peers_ok ?t" by (rule peers_ok_lonely [OF s(2) i(4)]) simp_all
    show "http_ok ?t" using s(3) by (simp add: http_ok_def)
    show "tickets_ok ?t"
    proof (rule tickets_okI)
      fix x w assume "rl_tickets ?t x = Some w"
      then show "w \<in> set (rl_conns ?t) \<and> \<not> rc_dead (rl_conn ?t w) \<and> rc_kind (rl_conn ?t w) = Viewer \<and>
          rc_ticket (rl_conn ?t w) = x \<and> x \<noteq> [] \<and> rc_peer (rl_conn ?t w) = None"
        using ticketsD [OF s(4), of x w] i by (auto split: if_splits)
    qed
    show "hosts_ok ?t"
    proof (rule hosts_okI)
      fix x h c assume "rl_hosts ?t x = Some h" "he_ctl h = Some c"
      then show "c \<in> set (rl_conns ?t) \<and> \<not> rc_dead (rl_conn ?t c) \<and> rc_kind (rl_conn ?t c) = HostCtl \<and> rc_id (rl_conn ?t c) = x"
        using hostsD [OF s(5), of x h c] i by (auto split: if_splits)
    qed
  qed
qed

lemma links_ok_become_viewer:
  assumes "links_ok s" "fresh_http s i"
  shows "links_ok (upd i (\<lambda>c. c\<lparr>rc_kind := Viewer, rc_id := rid\<rparr>) s)" (is "links_ok ?t")
proof -
  have s: "conns_ok s" "peers_ok s" "http_ok s" "tickets_ok s" "hosts_ok s"
    using assms(1) by (simp_all add: links_ok_def)
  have i: "i \<in> set (rl_conns s)" "rc_kind (rl_conn s i) = Http" "rc_peer (rl_conn s i) = None"
    using assms(2) s(3) by (auto simp: fresh_http_def http_ok_def)
  show ?thesis
    unfolding links_ok_def
  proof (intro conjI)
    show "conns_ok ?t" using s(1) by (simp add: conns_ok_def)
    show "peers_ok ?t" by (rule peers_ok_lonely [OF s(2) i(3)]) simp_all
    show "http_ok ?t" using s(3) by (simp add: http_ok_def)
    show "tickets_ok ?t"
    proof (rule tickets_okI)
      fix x w assume "rl_tickets ?t x = Some w"
      then show "w \<in> set (rl_conns ?t) \<and> \<not> rc_dead (rl_conn ?t w) \<and> rc_kind (rl_conn ?t w) = Viewer \<and>
          rc_ticket (rl_conn ?t w) = x \<and> x \<noteq> [] \<and> rc_peer (rl_conn ?t w) = None"
        using ticketsD [OF s(4), of x w] i by (auto split: if_splits)
    qed
    show "hosts_ok ?t"
    proof (rule hosts_okI)
      fix x h c assume "rl_hosts ?t x = Some h" "he_ctl h = Some c"
      then show "c \<in> set (rl_conns ?t) \<and> \<not> rc_dead (rl_conn ?t c) \<and> rc_kind (rl_conn ?t c) = HostCtl \<and> rc_id (rl_conn ?t c) = x"
        using hostsD [OF s(5), of x h c] i by (auto split: if_splits)
    qed
  qed
qed

lemma links_ok_ticket:
  assumes "links_ok s" "i \<in> set (rl_conns s)" "rc_kind (rl_conn s i) = Viewer" "\<not> rc_dead (rl_conn s i)"
    "rc_peer (rl_conn s i) = None" "rc_ticket (rl_conn s i) = []" "t \<noteq> []"
  shows "links_ok ((upd i (\<lambda>c. c\<lparr>rc_ticket := t\<rparr>) s)\<lparr>rl_tickets := (rl_tickets s)(t := Some i)\<rparr>)" (is "links_ok ?t")
proof -
  have s: "conns_ok s" "peers_ok s" "http_ok s" "tickets_ok s" "hosts_ok s"
    using assms(1) by (simp_all add: links_ok_def)
  show ?thesis
    unfolding links_ok_def
  proof (intro conjI)
    show "conns_ok ?t" using s(1) by (simp add: conns_ok_def)
    show "peers_ok ?t" by (rule peers_ok_lonely [OF s(2) assms(5)]) simp_all
    show "http_ok ?t" using s(3) assms(3) by (auto simp: http_ok_def)
    show "tickets_ok ?t"
    proof (rule tickets_okI)
      fix x w assume "rl_tickets ?t x = Some w"
      then show "w \<in> set (rl_conns ?t) \<and> \<not> rc_dead (rl_conn ?t w) \<and> rc_kind (rl_conn ?t w) = Viewer \<and>
          rc_ticket (rl_conn ?t w) = x \<and> x \<noteq> [] \<and> rc_peer (rl_conn ?t w) = None"
        using ticketsD [OF s(4), of x w] assms by (auto split: if_splits)
    qed
    show "hosts_ok ?t"
    proof (rule hosts_okI)
      fix x h c assume "rl_hosts ?t x = Some h" "he_ctl h = Some c"
      then show "c \<in> set (rl_conns ?t) \<and> \<not> rc_dead (rl_conn ?t c) \<and> rc_kind (rl_conn ?t c) = HostCtl \<and> rc_id (rl_conn ?t c) = x"
        using hostsD [OF s(5), of x h c] assms(3) by (auto split: if_splits)
    qed
  qed
qed

lemma links_ok_pair:
  assumes "links_ok s" "fresh_http s i" "rl_tickets s t = Some v" "rc_id (rl_conn s v) = rid"
  shows "links_ok (upd v (\<lambda>c. c\<lparr>rc_ticket := [], rc_peer := Some i\<rparr>)
    (upd i (\<lambda>c. c\<lparr>rc_kind := HostData, rc_id := rid, rc_peer := Some v\<rparr>)
      (s\<lparr>rl_tickets := (rl_tickets s)(t := None)\<rparr>)))" (is "links_ok ?t")
proof -
  have s: "conns_ok s" "peers_ok s" "http_ok s" "tickets_ok s" "hosts_ok s"
    using assms(1) by (simp_all add: links_ok_def)
  have i: "i \<in> set (rl_conns s)" "rc_kind (rl_conn s i) = Http" "\<not> rc_dead (rl_conn s i)" "rc_peer (rl_conn s i) = None"
    using assms(2) s(3) by (auto simp: fresh_http_def http_ok_def)
  note v = ticketsD [OF s(4) assms(3)]
  have ne: "v \<noteq> i" using v i(2) by auto
  show ?thesis
    unfolding links_ok_def
  proof (intro conjI)
    show "conns_ok ?t" using s(1) by (simp add: conns_ok_def)
    show "peers_ok ?t"
      unfolding peers_ok_def
    proof (intro ballI allI impI)
      fix j p assume j: "j \<in> set (rl_conns ?t)" and p: "rc_peer (rl_conn ?t j) = Some p"
      consider "j = v" | "j = i" | "j \<noteq> v" "j \<noteq> i" by blast
      then show "p \<in> set (rl_conns ?t) \<and> rc_peer (rl_conn ?t p) = Some j \<and> paired (rl_conn ?t j) (rl_conn ?t p)"
      proof cases
        case 3
        then have q: "rc_peer (rl_conn s j) = Some p" using p by simp
        have "p \<noteq> v" "p \<noteq> i"
          using q not_a_peer [OF s(2) i(4), of j] not_a_peer [OF s(2), of v j] v j by auto
        with 3 peersD [OF s(2) _ q] j show ?thesis by simp
      qed (use p ne i v assms(4) in \<open>auto simp: paired_def\<close>)
    qed
    show "http_ok ?t" using s(3) v by (auto simp: http_ok_def)
    show "tickets_ok ?t"
    proof (rule tickets_okI)
      fix x w assume "rl_tickets ?t x = Some w"
      then show "w \<in> set (rl_conns ?t) \<and> \<not> rc_dead (rl_conn ?t w) \<and> rc_kind (rl_conn ?t w) = Viewer \<and>
          rc_ticket (rl_conn ?t w) = x \<and> x \<noteq> [] \<and> rc_peer (rl_conn ?t w) = None"
        using ticketsD [OF s(4), of x w] v i by (auto split: if_splits)
    qed
    show "hosts_ok ?t"
    proof (rule hosts_okI)
      fix x h c assume "rl_hosts ?t x = Some h" "he_ctl h = Some c"
      then show "c \<in> set (rl_conns ?t) \<and> \<not> rc_dead (rl_conn ?t c) \<and> rc_kind (rl_conn ?t c) = HostCtl \<and> rc_id (rl_conn ?t c) = x"
        using hostsD [OF s(5), of x h c] v i by (auto split: if_splits)
    qed
  qed
qed

lemma accept_upgrade_links [simp]:
  "rl_conns (accept_upgrade al i key s) = rl_conns s" "rl_hosts (accept_upgrade al i key s) = rl_hosts s"
  "rl_tickets (accept_upgrade al i key s) = rl_tickets s" "rl_fresh (accept_upgrade al i key s) = rl_fresh s"
  "rc_kind (rl_conn (accept_upgrade al i key s) j) = rc_kind (rl_conn s j)"
  "rc_id (rl_conn (accept_upgrade al i key s) j) = rc_id (rl_conn s j)"
  "rc_ticket (rl_conn (accept_upgrade al i key s) j) = rc_ticket (rl_conn s j)"
  "rc_peer (rl_conn (accept_upgrade al i key s) j) = rc_peer (rl_conn s j)"
  "rc_dead (rl_conn (accept_upgrade al i key s) j) = rc_dead (rl_conn s j)"
  by (simp_all add: accept_upgrade_def)

lemma fresh_http_same: "same_links s t \<Longrightarrow> fresh_http s i \<Longrightarrow> fresh_http t i"
  by (simp add: same_links_def fresh_http_def)

lemma links_ok_hosts:
  assumes "links_ok s" "hosts_ok (s\<lparr>rl_hosts := H\<rparr>)"
  shows "links_ok (s\<lparr>rl_hosts := H\<rparr>)"
proof -
  have e: "rl_conns (s\<lparr>rl_hosts := H\<rparr>) = rl_conns s" "rl_conn (s\<lparr>rl_hosts := H\<rparr>) = rl_conn s"
    "rl_tickets (s\<lparr>rl_hosts := H\<rparr>) = rl_tickets s" "rl_fresh (s\<lparr>rl_hosts := H\<rparr>) = rl_fresh s"
    by simp_all
  have "conns_ok (s\<lparr>rl_hosts := H\<rparr>) = conns_ok s" "peers_ok (s\<lparr>rl_hosts := H\<rparr>) = peers_ok s"
    "http_ok (s\<lparr>rl_hosts := H\<rparr>) = http_ok s" "tickets_ok (s\<lparr>rl_hosts := H\<rparr>) = tickets_ok s"
    unfolding conns_ok_def peers_ok_def http_ok_def tickets_ok_def e by (rule refl)+
  with assms show ?thesis unfolding links_ok_def by blast
qed

lemma keeps_upgrade_host:
  assumes "fresh_http s i" "upgrade_host al i target key s = (b, t)"
  shows "keeps s t"
  unfolding keeps_def
proof (intro conjI impI)
  let ?rid = "query_param target (bytes_of ''id'')" and ?key = "query_param target (bytes_of ''key'')"
  let ?h = "case rl_hosts s ?rid of None \<Rightarrow> \<lparr>he_key = [], he_ctl = None\<rparr> | Some h \<Rightarrow> h"
  let ?s1 = "s\<lparr>rl_hosts := (rl_hosts s)(?rid := Some ?h)\<rparr>"
  have err: "rl_conns (plain_error al i code st body u) = rl_conns u" for code st body u
    using same_links_plain_error [of u al i code st body] by (simp add: same_links_def)
  show "rl_conns t = rl_conns s"
    using assms(2) by (auto simp: upgrade_host_def Let_def err split: if_splits option.splits)
  assume ok: "links_ok s"
  have h1: "hosts_ok ?s1"
  proof (rule hosts_okI)
    fix x h c assume "rl_hosts ?s1 x = Some h" "he_ctl h = Some c"
    then have "rl_hosts s x = Some h" by (auto split: if_splits option.splits)
    with hostsD [of s x h c] \<open>he_ctl h = Some c\<close> ok
    show "c \<in> set (rl_conns ?s1) \<and> \<not> rc_dead (rl_conn ?s1 c) \<and> rc_kind (rl_conn ?s1 c) = HostCtl \<and> rc_id (rl_conn ?s1 c) = x"
      by (simp add: links_ok_def)
  qed
  have ok1: "links_ok ?s1"
    by (rule links_ok_hosts [OF ok h1])
  have f1: "fresh_http ?s1 i" using assms(1) by (simp add: fresh_http_def)
  consider (bad) "\<not> valid_id ?rid \<or> \<not> valid_hex ?key 32"
    | (used) "valid_id ?rid" "valid_hex ?key 32" "he_ctl ?h \<noteq> None" "he_key ?h \<noteq> ?key"
    | (new) "valid_id ?rid" "valid_hex ?key 32" "he_ctl ?h = None"
    | (old) c where "valid_id ?rid" "valid_hex ?key 32" "he_ctl ?h = Some c" "he_key ?h = ?key" by blast
  then show "links_ok t"
  proof cases
    case bad
    then have "t = plain_error al i 400 ''Bad Request'' ''bad id'' s"
      using assms(2) by (simp add: upgrade_host_def Let_def)
    then show ?thesis using ok links_ok_same same_links_plain_error by blast
  next
    case used
    then have "t = plain_error al i 409 ''Conflict'' ''id in use'' ?s1"
      using assms(2) by (simp add: upgrade_host_def Let_def)
    then show ?thesis using ok1 links_ok_same same_links_plain_error by blast
  next
    case new
    then have "t = accept_upgrade al i key (upd i (\<lambda>c. c\<lparr>rc_kind := HostCtl, rc_id := ?rid\<rparr>)
        (?s1\<lparr>rl_hosts := (rl_hosts ?s1)(?rid := Some \<lparr>he_key = ?key, he_ctl = Some i\<rparr>)\<rparr>))"
      using assms(2) by (simp add: upgrade_host_def Let_def)
    then show ?thesis
      using links_ok_become_host [OF ok1 f1] links_ok_same same_links_accept_upgrade by blast
  next
    case (old c)
    let ?s2 = "ws_close al c 1001 (bytes_of ''replaced'')
        (?s1\<lparr>rl_hosts := (rl_hosts ?s1)(?rid := Some (?h\<lparr>he_ctl := None\<rparr>))\<rparr>)"
    have "rl_hosts ?s1 ?rid = Some ?h" by simp
    note c = hostsD [OF h1 this old(3)]
    have "hosts_ok (?s1\<lparr>rl_hosts := (rl_hosts ?s1)(?rid := Some (?h\<lparr>he_ctl := None\<rparr>))\<rparr>)" (is "hosts_ok ?t")
    proof (rule hosts_okI)
      fix x h d assume "rl_hosts ?t x = Some h" and d: "he_ctl h = Some d"
      then have "rl_hosts ?s1 x = Some h" by (auto split: if_splits)
      from hostsD [OF h1 this d]
      show "d \<in> set (rl_conns ?t) \<and> \<not> rc_dead (rl_conn ?t d) \<and> rc_kind (rl_conn ?t d) = HostCtl \<and> rc_id (rl_conn ?t d) = x"
        by simp
    qed
    then have "links_ok ?t" by (rule links_ok_hosts [OF ok1])
    then have "links_ok ?s2" using links_ok_same same_links_ws_close by blast
    then have ok3: "links_ok (kill_conn al c ?s2)" using c by (intro links_ok_kill) simp_all
    have "c \<noteq> i" using c f1 by (auto simp: fresh_http_def)
    then have f3: "fresh_http (kill_conn al c ?s2) i" using f1 by (simp add: fresh_http_def)
    have "t = accept_upgrade al i key (upd i (\<lambda>c. c\<lparr>rc_kind := HostCtl, rc_id := ?rid\<rparr>)
        ((kill_conn al c ?s2)\<lparr>rl_hosts := (rl_hosts (kill_conn al c ?s2))(?rid := Some \<lparr>he_key = ?key, he_ctl = Some i\<rparr>)\<rparr>))"
      using assms(2) old by (simp add: upgrade_host_def Let_def)
    then show ?thesis
      using links_ok_become_host [OF ok3 f3] links_ok_same same_links_accept_upgrade by blast
  qed
qed

lemma fold_ws_send_links [simp]:
  "rl_conns (fold (\<lambda>m s. ws_send al i opc m s) ms s) = rl_conns s"
  "rl_hosts (fold (\<lambda>m s. ws_send al i opc m s) ms s) = rl_hosts s"
  "rl_tickets (fold (\<lambda>m s. ws_send al i opc m s) ms s) = rl_tickets s"
  "rl_fresh (fold (\<lambda>m s. ws_send al i opc m s) ms s) = rl_fresh s"
  "rc_kind (rl_conn (fold (\<lambda>m s. ws_send al i opc m s) ms s) j) = rc_kind (rl_conn s j)"
  "rc_id (rl_conn (fold (\<lambda>m s. ws_send al i opc m s) ms s) j) = rc_id (rl_conn s j)"
  "rc_ticket (rl_conn (fold (\<lambda>m s. ws_send al i opc m s) ms s) j) = rc_ticket (rl_conn s j)"
  "rc_peer (rl_conn (fold (\<lambda>m s. ws_send al i opc m s) ms s) j) = rc_peer (rl_conn s j)"
  "rc_dead (rl_conn (fold (\<lambda>m s. ws_send al i opc m s) ms s) j) = rc_dead (rl_conn s j)"
  using same_links_fold_ws_send [of s al i opc ms] by (simp_all add: same_links_def)

lemma keeps_upgrade_data:
  assumes "fresh_http s i" "upgrade_data al i target key s = (b, t)"
  shows "keeps s t"
proof -
  let ?rid = "query_param target (bytes_of ''id'')" and ?key = "query_param target (bytes_of ''key'')"
  let ?t = "query_param target (bytes_of ''ticket'')"
  show ?thesis
  proof (cases "\<exists>h v. rl_hosts s ?rid = Some h \<and> rl_tickets s ?t = Some v \<and> he_key h = ?key \<and> rc_id (rl_conn s v) = ?rid")
    case False
    then have "t = plain_error al i 403 ''Forbidden'' ''bad ticket'' s"
      using assms(2) by (auto simp: upgrade_data_def Let_def split: option.splits if_splits)
    then show ?thesis by (auto intro: keeps_same links)
  next
    case True
    then obtain h v where v: "rl_hosts s ?rid = Some h" "rl_tickets s ?t = Some v" "he_key h = ?key"
      "rc_id (rl_conn s v) = ?rid" by blast
    let ?u = "upd v (\<lambda>c. c\<lparr>rc_ticket := [], rc_peer := Some i\<rparr>)
      (upd i (\<lambda>c. c\<lparr>rc_kind := HostData, rc_id := ?rid, rc_peer := Some v\<rparr>)
        (s\<lparr>rl_tickets := (rl_tickets s)(?t := None)\<rparr>))"
    have "same_links ?u t" if "links_ok s"
    proof -
      have ne: "v \<noteq> i"
        using ticketsD [OF _ v(2)] that assms(1) by (auto simp: links_ok_def fresh_http_def)
      then show ?thesis
        using assms(2) v unfolding same_links_def by (auto simp: upgrade_data_def Let_def)
    qed
    moreover have "links_ok ?u" if "links_ok s" using links_ok_pair [OF that assms(1) v(2,4)] .
    moreover have "rl_conns t = rl_conns s"
      using assms(2) v by (auto simp: upgrade_data_def Let_def)
    ultimately show ?thesis using links_ok_same unfolding keeps_def by blast
  qed
qed

lemma random_hex_nonempty: "random_hex 16 s = (t, s') \<Longrightarrow> t \<noteq> []"
  by (auto simp: random_hex_def Let_def upt_rec)

lemma keeps_upgrade_viewer:
  assumes "fresh_http s i" "upgrade_viewer al i path key s = (b, t)"
  shows "keeps s t"
proof -
  let ?rid = "drop 3 path"
  let ?u = "accept_upgrade al i key (upd i (\<lambda>c. c\<lparr>rc_kind := Viewer, rc_id := ?rid\<rparr>) s)"
  have u: "keeps s ?u"
    using links_ok_become_viewer [OF _ assms(1)] links_ok_same [OF same_links_accept_upgrade]
    by (simp add: keeps_def)
  show ?thesis
  proof (cases "if valid_id ?rid then Option.bind (rl_hosts ?u ?rid) he_ctl else None")
    case None
    then have "t = ws_close al i 4404 (bytes_of ''offline'') ?u"
      using assms(2) by (simp add: upgrade_viewer_def Let_def)
    then show ?thesis using u keeps_trans keeps_same same_links_ws_close by blast
  next
    case (Some ctl)
    obtain tk s' where r: "random_hex 16 ?u = (tk, s')" by fastforce
    let ?w = "(upd i (\<lambda>c. c\<lparr>rc_ticket := tk\<rparr>) s')\<lparr>rl_tickets := (rl_tickets s')(tk := Some i)\<rparr>"
    have t: "t = ws_send al ctl RD_WS_TEXT (bytes_of ''open '' @ tk @ bytes_of '' '' @ rc_ip (rl_conn ?w i)) ?w"
      using assms(2) unfolding upgrade_viewer_def Let_def Some option.case r prod.case by simp
    have s': "same_links ?u s'" by (rule same_links_random_hex [OF r])
    have "links_ok ?w" if "links_ok s"
    proof -
      have ok: "links_ok s'" using u that links_ok_same [OF s'] by (simp add: keeps_def)
      have "http_ok s" using that by (simp add: links_ok_def)
      then have "rc_peer (rl_conn s i) = None" "rc_ticket (rl_conn s i) = []"
        using assms(1) by (auto simp: http_ok_def fresh_http_def)
      then show ?thesis
        using assms(1) s' random_hex_nonempty [OF r]
        by (intro links_ok_ticket [OF ok]) (simp_all add: same_links_def fresh_http_def)
    qed
    then have "keeps s ?w" using s' by (simp add: keeps_def same_links_def)
    then show ?thesis unfolding t using keeps_trans keeps_same same_links_ws_send by blast
  qed
qed

lemma keeps_handle_request:
  assumes "fresh_http s i"
  shows "keeps s (handle_request al i req s)"
proof -
  define eol where "eol = the (find_str CRLF req)"
  obtain mth rest where m: "read_token (take eol req) = (mth, rest)" by fastforce
  obtain target rest' where tg: "read_token rest = (target, rest')" by fastforce
  define headers where "headers = drop (eol + 2) req"
  define s1 where "s1 = (case forwarded_ip headers of None \<Rightarrow> s | Some ip \<Rightarrow> upd i (\<lambda>c. c\<lparr>rc_ip := ip\<rparr>) s)"
  have sl: "same_links s s1"
    by (auto simp: s1_def links split: option.split intro: links)
  note f1 = fresh_http_same [OF sl assms]
  define key where "key = (if find_str (bytes_of ''websocket'') (map tolower (case rd_http_header headers (bytes_of ''Upgrade'') 64 of None \<Rightarrow> [] | Some v \<Rightarrow> v)) \<noteq> None
                 then rd_http_header headers (bytes_of ''Sec-WebSocket-Key'') 128 else None)"
  define path where "path = before (find_char 63 target) target"
  show ?thesis
  proof (cases key)
    case None
    then have "handle_request al i req s =
        (if mth \<noteq> bytes_of ''GET'' \<and> mth \<noteq> bytes_of ''HEAD''
         then plain_error al i 405 ''Method Not Allowed'' ''no'' s1
         else if path = bytes_of ''/healthz'' then plain_error al i 200 ''OK'' ''ok'' s1
         else serve_static al i target s1)"
      unfolding handle_request_def Let_def eol_def [symmetric] m tg prod.case headers_def [symmetric]
        s1_def [symmetric] key_def [symmetric] path_def [symmetric] by simp
    moreover have "same_links s1 \<dots>" by (simp add: links)
    ultimately show ?thesis using keeps_same same_links_trans [OF sl] by simp
  next
    case (Some k)
    obtain b u where bu: "(if path = bytes_of ''/host'' then upgrade_host al i target k s1
                    else if path = bytes_of ''/data'' then upgrade_data al i target k s1
                    else if starts_with (bytes_of ''/v/'') path then upgrade_viewer al i path k s1
                    else (False, plain_error al i 404 ''Not Found'' ''not found'' s1)) = (b, u)" by fastforce
    have ku: "keeps s1 u"
      using bu keeps_upgrade_host [OF f1] keeps_upgrade_data [OF f1] keeps_upgrade_viewer [OF f1]
        keeps_same [OF same_links_plain_error] by (auto split: if_splits)
    have eq: "handle_request al i req s = (if b then snd (ws_drain al i (\<lambda>c. False) u) else u)"
      unfolding handle_request_def Let_def eol_def [symmetric] m tg prod.case headers_def [symmetric]
        s1_def [symmetric] key_def [symmetric] path_def [symmetric] Some option.case bu ..
    have "i \<in> set (rl_conns u)" using ku f1 by (simp add: keeps_def fresh_http_def)
    then have "keeps u (snd (ws_drain al i (\<lambda>c. False) u))"
      by (intro keeps_drain [where b = "fst (ws_drain al i (\<lambda>c. False) u)"]) simp_all
    then show ?thesis unfolding eq using keeps_trans [OF keeps_trans [OF keeps_same [OF sl] ku]] keeps_refl by simp
  qed
qed

lemma keeps_handle_http:
  assumes "fresh_http s i"
  shows "keeps s (handle_http al i s)"
proof -
  define d where "d = rb_data (rc_in (rl_conn s i))"
  define e where "e = (case find_blank_line d of None \<Rightarrow> 0 | Some k \<Rightarrow> k)"
  let ?u = "upd i (\<lambda>c. c\<lparr>rc_in := rd_buf_consume (rc_in c) (e + 4)\<rparr>) s"
  have u: "same_links s ?u" by (rule links) simp_all
  have "handle_http al i s = (if e = 0 then
      (if length d > 16384 then plain_error al i 431 ''Request Header Fields Too Large'' ''too large'' s else s)
      else handle_request al i (take (e + 2) d) ?u)"
    unfolding handle_http_def Let_def d_def [symmetric] e_def [symmetric] ..
  moreover have "keeps ?u (handle_request al i (take (e + 2) d) ?u)"
    by (rule keeps_handle_request [OF fresh_http_same [OF u assms]])
  ultimately show ?thesis
    using keeps_trans [OF keeps_same [OF u]] keeps_same [OF same_links_plain_error] keeps_refl by simp
qed

lemma keeps_read_conn:
  assumes "i \<in> set (rl_conns s)" "\<not> rc_dead (rl_conn s i)"
  shows "keeps s (read_conn al i now rs s)"
proof -
  obtain closed u where r: "recv_loop al i now 64 rs s = (closed, u)" by fastforce
  have su: "same_links s u" by (rule same_links_recv_loop [OF r])
  then have i: "i \<in> set (rl_conns u)" "\<not> rc_dead (rl_conn u i)" using assms by (simp_all add: same_links_def)
  have "keeps u (read_conn al i now rs s)"
  proof (cases "rc_kind (rl_conn u i) = Http")
    case True
    then have "fresh_http u i" using i by (simp add: fresh_http_def)
    with True show ?thesis
      by (auto simp: read_conn_def r intro: keeps_kill [OF i(1)] keeps_handle_http)
  next
    case False
    obtain failed w where d: "ws_drain al i rc_close_after_flush u = (failed, w)" by fastforce
    have w: "keeps u w" by (rule keeps_drain [OF i(1) d])
    then have "i \<in> set (rl_conns w)" using i(1) by (simp add: keeps_def)
    with False w show ?thesis
      by (auto simp: read_conn_def r d intro: keeps_trans [OF w keeps_kill])
  qed
  then show ?thesis by (rule keeps_trans [OF keeps_same [OF su]])
qed

lemma keeps_flush:
  assumes "i \<in> set (rl_conns s)"
  shows "keeps s (flush al i tx s)"
proof -
  obtain failed c where f: "send_loop tx (rl_conn s i) = (failed, c)" by fastforce
  obtain n where c: "c = (rl_conn s i)\<lparr>rc_out_off := n\<rparr>" using send_loop_keeps [OF f] by blast
  let ?u = "upd i (\<lambda>_. c) s"
  have u: "same_links s ?u" by (simp add: same_links_def c)
  have i: "i \<in> set (rl_conns ?u)" using assms by simp
  have 1: "same_links ?u (upd i (\<lambda>c. c\<lparr>rc_out := rd_buf_clear (rc_out c), rc_out_off := 0\<rparr>) ?u)"
    "same_links ?u (upd i (\<lambda>c. c\<lparr>rc_out := rd_buf_consume (rc_out c) (rc_out_off c), rc_out_off := 0\<rparr>) ?u)"
    by (rule links; simp)+
  have "keeps ?u (flush al i tx s)"
    unfolding flush_def f prod.case Let_def
    using keeps_kill [OF i] keeps_same [OF 1(1)] keeps_same [OF 1(2)] keeps_refl
      keeps_trans [OF keeps_same [OF 1(1)] keeps_kill [of i]] i
    by auto
  then show ?thesis by (rule keeps_trans [OF keeps_same [OF u]])
qed

lemma keeps_serve_conn:
  assumes "i \<in> set (rl_conns s)"
  shows "keeps s (serve_conn al e polled i s)"
proof -
  define u where "u = (if \<not> rc_dead (rl_conn s i) \<and> (poll_in polled i \<and> rd_readable e i \<or> rd_hangup e i)
               then read_conn al i (rd_now e) (rd_rx e i) s else s)"
  have u: "keeps s u" using keeps_read_conn [OF assms] keeps_refl by (simp add: u_def)
  then have i: "i \<in> set (rl_conns u)" using assms by (simp add: keeps_def)
  show ?thesis
    unfolding serve_conn_def Let_def u_def [symmetric]
    using u keeps_trans [OF u keeps_flush [OF i]] by simp
qed

lemma if_cases: "P x \<Longrightarrow> P y \<Longrightarrow> P (if b then x else y)"
  by simp

lemma keeps_timer_conn:
  assumes "i \<in> set (rl_conns s)"
  shows "keeps s (timer_conn al now tx i s)"
proof -
  let ?ping = "upd i (\<lambda>c. c\<lparr>rc_last_ping_us := now\<rparr>) s"
  have p: "same_links s ?ping" by (rule links) simp_all
  have fl: "keeps s (if rc_dead (rl_conn u i) then u else flush al i tx u)" if "keeps s u" for u
    using that keeps_trans [OF that keeps_flush, of i] assms by (simp add: keeps_def)
  define c u where "c = rl_conn s i" and "u = (if rc_kind c = Http \<and> now - rc_created_us c > 15 * kSecond then kill_conn al i s
                else if rc_kind c = Viewer \<and> rc_peer c = None \<and> rc_ticket c \<noteq> [] \<and> now - rc_created_us c > 20 * kSecond
                then ws_close al i 4408 (bytes_of ''host did not answer'') s
                else if rc_kind c \<noteq> Http \<and> now - rc_last_rx_us c > 90 * kSecond then kill_conn al i s
                else if rc_kind c \<noteq> Http \<and> now - rc_last_ping_us c > 20 * kSecond
                then ws_send al i RD_WS_PING (bytes_of ''td'') ?ping else s)"
  have "keeps s u"
    unfolding u_def
    by (intro if_cases [of "keeps s"] keeps_kill [OF assms] keeps_same [OF same_links_ws_close]
        keeps_same [OF same_links_trans [OF p same_links_ws_send]] keeps_refl)
  note fl [OF this]
  then show ?thesis
    unfolding timer_conn_def Let_def c_def [symmetric] u_def [symmetric] by (simp add: keeps_refl)
qed

lemma keeps_fold:
  assumes "\<And>i s. i \<in> set xs \<Longrightarrow> i \<in> set (rl_conns s) \<Longrightarrow> keeps s (f i s)"
  shows "set xs \<subseteq> set (rl_conns s) \<Longrightarrow> keeps s (fold f xs s)"
  using assms
proof (induction xs arbitrary: s)
  case Nil
  then show ?case by (simp add: keeps_refl)
next
  case (Cons x xs)
  have 1: "keeps s (f x s)" using Cons.prems by simp
  then have "set xs \<subseteq> set (rl_conns (f x s))" using Cons.prems(1) by (simp add: keeps_def)
  then have "keeps (f x s) (fold f xs (f x s))" using Cons.IH Cons.prems(2) by simp
  with 1 show ?case by (simp add: keeps_trans)
qed

lemma links_ok_accept:
  assumes "links_ok s"
  shows "links_ok (accept_conn addr now s)"
proof (cases "length (rl_conns s) \<ge> kMaxConns \<or>
    length (filter (\<lambda>j. rc_ip (rl_conn s j) = addr) (rl_conns s)) \<ge> kMaxConnsPerIp")
  case True
  then show ?thesis using assms by (auto simp: accept_conn_def Let_def)
next
  case False
  let ?n = "rl_fresh s"
  define t where "t = accept_conn addr now s"
  have t: "rl_conns t = rl_conns s @ [?n]" "rl_fresh t = Suc ?n" "rl_hosts t = rl_hosts s" "rl_tickets t = rl_tickets s"
    "rl_conn t = (rl_conn s)(?n := relay_conn addr now)"
    using False by (simp_all add: t_def accept_conn_def Let_def)
  have s: "conns_ok s" "peers_ok s" "http_ok s" "tickets_ok s" "hosts_ok s"
    using assms by (simp_all add: links_ok_def)
  have new: "?n \<notin> set (rl_conns s)" using s(1) by (auto simp: conns_ok_def)
  have n: "rc_peer (rl_conn t ?n) = None" "rc_ticket (rl_conn t ?n) = []" "rc_kind (rl_conn t ?n) = Http"
    by (simp_all add: t relay_conn_def)
  have old: "rl_conn t j = rl_conn s j" if "j \<in> set (rl_conns s)" for j using that new by (auto simp: t)
  have "links_ok t"
    unfolding links_ok_def
  proof (intro conjI)
    show "conns_ok t" using s(1) new by (auto simp: conns_ok_def t)
    show "peers_ok t"
      unfolding peers_ok_def
    proof (intro ballI allI impI)
      fix j p assume j: "j \<in> set (rl_conns t)" and p: "rc_peer (rl_conn t j) = Some p"
      then have "j \<in> set (rl_conns s)" using n(1) by (auto simp: t(1))
      with peersD [OF s(2) this] p old show "p \<in> set (rl_conns t) \<and> rc_peer (rl_conn t p) = Some j \<and> paired (rl_conn t j) (rl_conn t p)"
        by (auto simp: t(1))
    qed
    show "http_ok t" using s(3) n old by (auto simp: http_ok_def t(1))
    show "tickets_ok t"
    proof (rule tickets_okI)
      fix x w assume "rl_tickets t x = Some w"
      with ticketsD [OF s(4), of x w] old [of w] show "w \<in> set (rl_conns t) \<and> \<not> rc_dead (rl_conn t w) \<and>
        rc_kind (rl_conn t w) = Viewer \<and> rc_ticket (rl_conn t w) = x \<and> x \<noteq> [] \<and> rc_peer (rl_conn t w) = None"
        by (simp add: t(1,4))
    qed
    show "hosts_ok t"
    proof (rule hosts_okI)
      fix x h c assume "rl_hosts t x = Some h" "he_ctl h = Some c"
      with hostsD [OF s(5), of x h c] old [of c] show "c \<in> set (rl_conns t) \<and> \<not> rc_dead (rl_conn t c) \<and>
        rc_kind (rl_conn t c) = HostCtl \<and> rc_id (rl_conn t c) = x"
        by (simp add: t(1,3))
    qed
  qed
  then show ?thesis by (simp add: t_def)
qed

lemma links_ok_accepts: "links_ok s \<Longrightarrow> links_ok (fold (\<lambda>a s. accept_conn a now s) xs s)"
  by (induction xs arbitrary: s) (simp_all add: links_ok_accept)

lemma links_ok_reap:
  assumes "links_ok s"
  shows "links_ok (reap s)"
proof -
  have s: "conns_ok s" "peers_ok s" "http_ok s" "tickets_ok s" "hosts_ok s"
    using assms by (simp_all add: links_ok_def)
  have r: "rl_conn (reap s) = rl_conn s" "rl_tickets (reap s) = rl_tickets s" "rl_hosts (reap s) = rl_hosts s"
    "set (rl_conns (reap s)) = {j \<in> set (rl_conns s). \<not> rc_dead (rl_conn s j)}" "rl_fresh (reap s) = rl_fresh s"
    by (auto simp: reap_def)
  show ?thesis
    unfolding links_ok_def
  proof (intro conjI)
    show "conns_ok (reap s)" using s(1) by (auto simp: conns_ok_def reap_def)
    show "peers_ok (reap s)"
      unfolding peers_ok_def r
    proof (intro ballI allI impI)
      fix j p assume j: "j \<in> {j \<in> set (rl_conns s). \<not> rc_dead (rl_conn s j)}" and p: "rc_peer (rl_conn s j) = Some p"
      then have q: "p \<in> set (rl_conns s)" "rc_peer (rl_conn s p) = Some j" "paired (rl_conn s j) (rl_conn s p)"
        using peersD [OF s(2) _ p] by auto
      then have "\<not> rc_dead (rl_conn s p)" using peersD [OF s(2) q(1,2)] by (simp add: paired_def)
      with q show "p \<in> {j \<in> set (rl_conns s). \<not> rc_dead (rl_conn s j)} \<and> rc_peer (rl_conn s p) = Some j \<and> paired (rl_conn s j) (rl_conn s p)"
        by simp
    qed
    show "http_ok (reap s)" using s(3) unfolding http_ok_def r by blast
    show "tickets_ok (reap s)" using s(4) unfolding tickets_ok_def r by blast
    show "hosts_ok (reap s)" using s(5) unfolding hosts_ok_def r by blast
  qed
qed

lemma links_ok_round: "links_ok s \<Longrightarrow> links_ok (relay_round al e s)"
proof -
  assume s: "links_ok s"
  define s1 where "s1 = fold (serve_conn al e s) (rl_conns s) s"
  define s2 where "s2 = fold (\<lambda>a s. accept_conn a (rd_now e) s) (rd_accepted e) s1"
  define s3 where "s3 = fold (\<lambda>i s. timer_conn al (rd_now e) (rd_tx2 e i) i s) (rl_conns s2) s2"
  have "keeps s s1" unfolding s1_def by (rule keeps_fold) (simp_all add: keeps_serve_conn)
  then have "links_ok s1" using s by (simp add: keeps_def)
  then have "links_ok s2" unfolding s2_def by (rule links_ok_accepts)
  moreover have "keeps s2 s3" unfolding s3_def by (rule keeps_fold) (simp_all add: keeps_timer_conn)
  ultimately have "links_ok (reap s3)" by (simp add: keeps_def links_ok_reap)
  then show ?thesis by (simp add: relay_round_def Let_def s1_def s2_def s3_def)
qed

lemma links_ok_start: "links_ok (relay_start root files rnd stk)"
  by (simp add: relay_start_def links_ok_def conns_ok_def peers_ok_def http_ok_def tickets_ok_def hosts_ok_def)

lemma links_ok_rounds: "links_ok s \<Longrightarrow> links_ok (fold (relay_round al) es s)"
  by (induction es arbitrary: s) (simp_all add: links_ok_round)

lemma round_not_dead: "i \<in> set (rl_conns (relay_round al e s)) \<Longrightarrow> \<not> rc_dead (rl_conn (relay_round al e s) i)"
  by (auto simp: relay_round_def Let_def reap_def)

lemma rounds_not_dead:
  assumes "i \<in> set (rl_conns (fold (relay_round al) es (relay_start root files rnd stk)))"
  shows "\<not> rc_dead (rl_conn (fold (relay_round al) es (relay_start root files rnd stk)) i)"
proof (cases es rule: rev_cases)
  case Nil
  then show ?thesis using assms by (simp add: relay_start_def)
next
  case (snoc es' e)
  then show ?thesis using assms round_not_dead by simp
qed

section \<open>Properties\<close>

text \<open>C9: Through any number of rounds of the main loop, whatever arrives and whatever the sockets
accept, the relay holds no dangling pointer: a connection's peer is a live connection that points
back, and the two are a viewer and a host channel of the same ID; a ticket leads to a live, unpaired
viewer that holds this ticket; the control channel of an ID is a live host connection of that ID; and
no connection killed in a round survives it.\<close>
theorem relay_pointers_valid:
  "let s = fold (relay_round al) es (relay_start root files rnd stk) in
     (\<forall>i\<in>set (rl_conns s). \<not> rc_dead (rl_conn s i) \<and>
        (\<forall>p. rc_peer (rl_conn s i) = Some p \<longrightarrow> p \<in> set (rl_conns s) \<and> rc_peer (rl_conn s p) = Some i \<and>
           rc_id (rl_conn s p) = rc_id (rl_conn s i) \<and>
           {rc_kind (rl_conn s i), rc_kind (rl_conn s p)} = {Viewer, HostData})) \<and>
     (\<forall>t v. rl_tickets s t = Some v \<longrightarrow> v \<in> set (rl_conns s) \<and> rc_kind (rl_conn s v) = Viewer \<and>
        rc_ticket (rl_conn s v) = t \<and> rc_peer (rl_conn s v) = None) \<and>
     (\<forall>k h c. rl_hosts s k = Some h \<longrightarrow> he_ctl h = Some c \<longrightarrow> c \<in> set (rl_conns s) \<and>
        rc_kind (rl_conn s c) = HostCtl \<and> rc_id (rl_conn s c) = k)"
proof -
  define s where "s = fold (relay_round al) es (relay_start root files rnd stk)"
  have "links_ok s" unfolding s_def by (rule links_ok_rounds [OF links_ok_start])
  then have ok: "peers_ok s" "tickets_ok s" "hosts_ok s" by (simp_all add: links_ok_def)
  have "\<not> rc_dead (rl_conn s i)" if "i \<in> set (rl_conns s)" for i
    using that rounds_not_dead unfolding s_def by blast
  moreover have "p \<in> set (rl_conns s) \<and> rc_peer (rl_conn s p) = Some i \<and> rc_id (rl_conn s p) = rc_id (rl_conn s i) \<and>
      {rc_kind (rl_conn s i), rc_kind (rl_conn s p)} = {Viewer, HostData}"
    if "i \<in> set (rl_conns s)" "rc_peer (rl_conn s i) = Some p" for i p
    using peersD [OF ok(1) that] by (auto simp: paired_def)
  ultimately show ?thesis
    unfolding s_def [symmetric] Let_def using ticketsD [OF ok(2)] hostsD [OF ok(3)] by blast
qed

lemma relay_conn_simps [simp]:
  "rc_kind (relay_conn a now) = Http" "rc_dead (relay_conn a now) = False" "rc_created_us (relay_conn a now) = now"
  "rc_out (relay_conn a now) = rd_buf_init" "rc_out_off (relay_conn a now) = 0"
  "rc_close_after_flush (relay_conn a now) = False" "rc_peer (relay_conn a now) = None"
  by (simp_all add: relay_conn_def)

lemma timer_conn_new:
  "rl_conn s i = relay_conn a now \<Longrightarrow> \<not> rc_dead (rl_conn (timer_conn al now [] i s) i)"
  by (simp add: timer_conn_def flush_def pending_out_def Let_def rd_buf_init_def)

definition one_client :: round where
  "one_client = \<lparr>rd_now = 5, rd_readable = (\<lambda>_. True), rd_hangup = (\<lambda>_. False), rd_writable = (\<lambda>_. True),
     rd_rx = (\<lambda>_. []), rd_tx = (\<lambda>_. []), rd_tx2 = (\<lambda>_. []), rd_accepted = [[49]]\<rparr>"

theorem relay_pointers_valid_witness:
  "let s = fold (relay_round (\<lambda>_. True)) [one_client] (relay_start [] (\<lambda>_. None) (\<lambda>_. 0) (\<lambda>_. 0)) in
     rl_conns s = [0] \<and> \<not> rc_dead (rl_conn s 0)"
proof -
  let ?s = "fold (relay_round (\<lambda>_. True)) [one_client] (relay_start [] (\<lambda>_. None) (\<lambda>_. 0) (\<lambda>_. 0))"
  define u where "u = accept_conn [49] 5 (relay_start [] (\<lambda>_. None) (\<lambda>_. 0) (\<lambda>_. 0))"
  have u: "rl_conns u = [0]" "rl_conn u 0 = relay_conn [49] 5"
    by (simp_all add: u_def accept_conn_def relay_start_def)
  have "rl_conns ?s = [0]"
    using timer_conn_new [OF u(2)] keeps_timer_conn [of 0 u "\<lambda>_. True" 5 "[]"] u
    by (simp add: relay_round_def one_client_def relay_start_def [of "[]"] reap_def keeps_def Let_def
        flip: u_def [unfolded relay_start_def])
  with relay_pointers_valid [of "\<lambda>_. True" "[one_client]" "[]" "\<lambda>_. None" "\<lambda>_. 0" "\<lambda>_. 0"]
  show ?thesis unfolding Let_def by simp
qed

lemma fold_ws_send_data:
  assumes "no_oom al" "\<not> rc_dead (rl_conn s i)"
  shows "rb_data (rc_out (rl_conn (fold (\<lambda>m s. ws_send al i RD_WS_BINARY m s) ms s) i)) =
    rb_data (rc_out (rl_conn s i)) @ concat (map (\<lambda>m. frame_bytes None (True, RD_WS_BINARY, m)) ms)"
  using assms(2)
proof (induction ms arbitrary: s)
  case (Cons m ms)
  let ?t = "ws_send al i RD_WS_BINARY m s"
  have "\<not> rc_dead (rl_conn ?t i)" using Cons.prems by simp
  moreover have "rb_data (rc_out (rl_conn ?t i)) = rb_data (rc_out (rl_conn s i)) @ frame_bytes None (True, RD_WS_BINARY, m)"
    using Cons.prems assms(1) by (simp add: ws_send_def rd_ws_write_frame_data frame_bytes_def)
  ultimately show ?case using Cons.IH [of ?t] by simp
qed simp

lemma fold_ws_send_other: "j \<noteq> i \<Longrightarrow> rl_conn (fold (\<lambda>m s. ws_send al i opc m s) ms s) j = rl_conn s j"
  by (induction ms arbitrary: s) (simp_all add: ws_send_def)

text \<open>C23: Nothing a viewer sends is lost or reordered, and nothing reaches anyone else: before the host
answers, a data message is kept behind the earlier ones (or the viewer is cut off at 4 MiB); when the
host redeems the ticket, its channel gets the upgrade response and then one frame per kept message,
in order; from then on each message of either side is written as one frame to the peer, which has
the same ID, and no other connection changes.\<close>
theorem relay_forwards_in_order:
  assumes "links_ok s" and "no_oom al"
  shows "(opcode \<notin> {RD_WS_CLOSE, RD_WS_PING, RD_WS_PONG} \<longrightarrow> i \<in> set (rl_conns s) \<longrightarrow> rc_peer (rl_conn s i) = Some p \<longrightarrow>
      handle_ws_message al i opcode d s =
        upd p (\<lambda>c. c\<lparr>rc_out := rd_ws_write_frame al [] (rc_out c) opcode d False\<rparr>) s \<and>
      rc_id (rl_conn s p) = rc_id (rl_conn s i)) \<and>
    (opcode \<notin> {RD_WS_CLOSE, RD_WS_PING, RD_WS_PONG} \<longrightarrow> rl_tickets s t = Some i \<longrightarrow>
      rc_pending_bytes (rl_conn s i) + length d \<le> 4194304 \<longrightarrow>
      rc_pending (rl_conn (handle_ws_message al i opcode d s) i) = rc_pending (rl_conn s i) @ [d]) \<and>
    (fresh_http s h \<longrightarrow> upgrade_data al h target key s = (True, u) \<longrightarrow>
      (\<exists>v r. rl_tickets s (query_param target (bytes_of ''ticket'')) = Some v \<and>
         rc_peer (rl_conn u h) = Some v \<and> rc_peer (rl_conn u v) = Some h \<and> rc_pending (rl_conn u v) = [] \<and>
         rb_data (rc_out (rl_conn (accept_upgrade al h key s) h)) = rb_data (rc_out (rl_conn s h)) @ r \<and>
         rb_data (rc_out (rl_conn u h)) = rb_data (rc_out (rl_conn s h)) @ r @
           concat (map (\<lambda>m. frame_bytes None (True, RD_WS_BINARY, m)) (rc_pending (rl_conn s v)))))"
proof (intro conjI impI)
  assume a: "opcode \<notin> {RD_WS_CLOSE, RD_WS_PING, RD_WS_PONG}" "i \<in> set (rl_conns s)" "rc_peer (rl_conn s i) = Some p"
  have ok: "peers_ok s" using assms(1) by (simp add: links_ok_def)
  note p = peersD [OF ok a(2,3)]
  have "\<not> rc_dead (rl_conn s p)" using peersD [OF ok, of p i] p by (simp add: paired_def)
  with a p show "handle_ws_message al i opcode d s =
      upd p (\<lambda>c. c\<lparr>rc_out := rd_ws_write_frame al [] (rc_out c) opcode d False\<rparr>) s"
    "rc_id (rl_conn s p) = rc_id (rl_conn s i)"
    by (auto simp: handle_ws_message_def ws_send_def paired_def)
next
  assume a: "opcode \<notin> {RD_WS_CLOSE, RD_WS_PING, RD_WS_PONG}" "rl_tickets s t = Some i"
    "rc_pending_bytes (rl_conn s i) + length d \<le> 4194304"
  have "tickets_ok s" using assms(1) by (simp add: links_ok_def)
  from ticketsD [OF this a(2)] a
  show "rc_pending (rl_conn (handle_ws_message al i opcode d s) i) = rc_pending (rl_conn s i) @ [d]"
    by (simp add: handle_ws_message_def Let_def)
next
  assume a: "fresh_http s h" "upgrade_data al h target key s = (True, u)"
  let ?t = "query_param target (bytes_of ''ticket'')" and ?rid = "query_param target (bytes_of ''id'')"
  obtain e v where v: "rl_hosts s ?rid = Some e" "rl_tickets s ?t = Some v" "he_key e = query_param target (bytes_of ''key'')"
    "rc_id (rl_conn s v) = ?rid"
    using a(2) by (auto simp: upgrade_data_def Let_def split: option.splits if_splits)
  have "tickets_ok s" using assms(1) by (simp add: links_ok_def)
  from ticketsD [OF this v(2)] a(1) have ne: "v \<noteq> h" by (auto simp: fresh_http_def)
  define w where "w = upd v (\<lambda>c. c\<lparr>rc_peer := Some h\<rparr>) (upd h (\<lambda>c. c\<lparr>rc_peer := Some v\<rparr>) (accept_upgrade al h key
      (upd h (\<lambda>c. c\<lparr>rc_kind := HostData, rc_id := ?rid\<rparr>) (upd v (\<lambda>c. c\<lparr>rc_ticket := []\<rparr>)
        (s\<lparr>rl_tickets := (rl_tickets s)(?t := None)\<rparr>)))))"
  have u: "u = upd v (\<lambda>c. c\<lparr>rc_pending := [], rc_pending_bytes := 0\<rparr>)
      (fold (\<lambda>m s. ws_send al h RD_WS_BINARY m s) (rc_pending (rl_conn w v)) w)"
    using a(2) v by (simp add: upgrade_data_def Let_def w_def)
  have w: "rc_pending (rl_conn w v) = rc_pending (rl_conn s v)" "\<not> rc_dead (rl_conn w h)" "rc_peer (rl_conn w h) = Some v"
    "rc_peer (rl_conn w v) = Some h" "rc_out (rl_conn w h) = rc_out (rl_conn (accept_upgrade al h key s) h)"
    using ne a(1) by (simp_all add: w_def accept_upgrade_def fresh_http_def)
  obtain r where r: "rb_data (rc_out (rl_conn (accept_upgrade al h key s) h)) = rb_data (rc_out (rl_conn s h)) @ r"
    using assms(2) by (simp add: accept_upgrade_def rd_buf_put_data)
  have "rb_data (rc_out (rl_conn u h)) = rb_data (rc_out (rl_conn s h)) @ r @
           concat (map (\<lambda>m. frame_bytes None (True, RD_WS_BINARY, m)) (rc_pending (rl_conn s v)))"
    using ne fold_ws_send_data [OF assms(2) w(2)] by (simp add: u w r)
  moreover have "rc_peer (rl_conn u h) = Some v" "rc_peer (rl_conn u v) = Some h" "rc_pending (rl_conn u v) = []"
    using ne w by (simp_all add: u)
  ultimately show "\<exists>v r. rl_tickets s ?t = Some v \<and>
         rc_peer (rl_conn u h) = Some v \<and> rc_peer (rl_conn u v) = Some h \<and> rc_pending (rl_conn u v) = [] \<and>
         rb_data (rc_out (rl_conn (accept_upgrade al h key s) h)) = rb_data (rc_out (rl_conn s h)) @ r \<and>
         rb_data (rc_out (rl_conn u h)) = rb_data (rc_out (rl_conn s h)) @ r @
           concat (map (\<lambda>m. frame_bytes None (True, RD_WS_BINARY, m)) (rc_pending (rl_conn s v)))"
    using v(2) r by blast
qed

definition waiting_relay :: relay where
  "waiting_relay = (relay_start [] (\<lambda>_. None) (\<lambda>_. 0) (\<lambda>_. 0))
     \<lparr>rl_conns := [0, 1],
      rl_conn := (\<lambda>j. if j = 0 then (relay_conn [49] 0)\<lparr>rc_kind := Viewer, rc_id := [57], rc_ticket := [97]\<rparr> else relay_conn [50] 0),
      rl_tickets := (\<lambda>t. if t = [97] then Some 0 else None), rl_fresh := 2\<rparr>"

theorem relay_forwards_in_order_witness:
  "rc_pending (rl_conn (handle_ws_message (\<lambda>_. True) 0 RD_WS_BINARY [1, 2] waiting_relay) 0) = [[1, 2]]"
proof -
  have "links_ok waiting_relay"
    by (auto simp: waiting_relay_def links_ok_def conns_ok_def peers_ok_def http_ok_def tickets_ok_def hosts_ok_def
        relay_start_def relay_conn_def)
  from relay_forwards_in_order [OF this, of "\<lambda>_. True" RD_WS_BINARY 0 0 "[1, 2]" "[97]" 0 "[]" "[]" waiting_relay]
  show ?thesis by (simp add: waiting_relay_def relay_conn_def)
qed

lemma find_str_dotdot_None: "list_all (\<lambda>b. b \<noteq> 46) s \<Longrightarrow> find_str [46, 46] s = None"
  by (induction s) auto

lemma find_str_dots:
  "list_all (\<lambda>b. b \<noteq> 46) name \<Longrightarrow> find_str [46, 46] (concat (replicate n [46, 47]) @ name) = None"
  by (induction n) (simp_all add: find_str_dotdot_None)

definition dotted_download :: "bytes \<Rightarrow> bytes" where
  "dotted_download name = bytes_of ''/download/'' @ concat (replicate 400 (bytes_of ''./'')) @ name"

lemma dotted_download_path:
  assumes "list_all (\<lambda>b. b \<notin> {0, 35, 37, 46, 63, 92}) name"
  shows "static_path (dotted_download name) = dotted_download name"
    "find_str (bytes_of ''..'') (dotted_download name) = None"
    "find_char 92 (dotted_download name) = None" "find_char 37 (dotted_download name) = None"
    "0 \<notin> set (dotted_download name)" "starts_with (bytes_of ''/download/'') (dotted_download name)"
    "\<not> starts_with (bytes_of ''/assets/'') (dotted_download name)"
    "drop 10 (dotted_download name) = concat (replicate 400 (bytes_of ''./'')) @ name"
proof -
  have nm: "b \<in> set name \<Longrightarrow> b \<notin> {0, 35, 37, 46, 63, 92}" for b
    using assms by (auto simp: list_all_iff)
  have d: "dotted_download name = [47, 100, 111, 119, 110, 108, 111, 97, 100, 47] @ concat (replicate 400 [46, 47]) @ name"
    by (simp add: dotted_download_def bytes_of_def)
  have ch: "b \<in> set (dotted_download name) \<Longrightarrow> b \<in> {47, 100, 111, 119, 110, 108, 97, 46} \<or> b \<notin> {0, 35, 37, 46, 63, 92}" for b
    using nm [of b] unfolding d by auto
  have nf: "find_if P (dotted_download name) = None"
    if "\<And>b. P b \<Longrightarrow> b \<in> {0, 35, 37, 63, 92}" for P
    unfolding find_if_None using that ch by fastforce
  have l: "length (dotted_download name) \<ge> 810" by (simp add: d length_concat sum_list_replicate)
  have ne: "dotted_download name \<noteq> w" if "length w < 810" for w using l that by auto
  show "static_path (dotted_download name) = dotted_download name"
  proof -
    have "find_first_of [63, 35] (dotted_download name) = None"
      unfolding find_first_of_def by (rule nf) auto
    then show ?thesis
      using ne [of "bytes_of ''/''"] ne [of "[]"] ne [of "bytes_of ''/app''"] ne [of "bytes_of ''/get''"]
      by (simp add: static_path_def before_def Let_def)
  qed
  have "list_all (\<lambda>b. b \<noteq> 46) name" using nm by (auto simp: list_all_iff)
  from find_str_dots [OF this, of 400] show "find_str (bytes_of ''..'') (dotted_download name) = None"
    unfolding d by (simp add: bytes_of_def)
  show "find_char 92 (dotted_download name) = None" "find_char 37 (dotted_download name) = None"
    unfolding find_char_def by (rule nf, simp)+
  show "0 \<notin> set (dotted_download name)" using ch [of 0] by auto
  show "starts_with (bytes_of ''/download/'') (dotted_download name)" "\<not> starts_with (bytes_of ''/assets/'') (dotted_download name)"
    "drop 10 (dotted_download name) = concat (replicate 400 (bytes_of ''./'')) @ name"
    by (simp_all add: d starts_with_def bytes_of_def)
qed

lemma http_response_overread [simp]:
  "rl_overread (http_response al i code status type body extra s) \<longleftrightarrow>
     rl_overread s \<or> 768 < length (response_header code status type body extra)"
  by (simp add: http_response_def Let_def upd_def)



end
