(* ===== verification/Server.thy ===== *)
theory Server
  imports Rd_Secure Rd_X25519 Rd_Ws Cxx Encoder "HOL-Library.AList"
begin

text \<open>
  The host server, \<open>host/server.cpp\<close>: its connections and their session state, authentication and
  lockout, the HTTP front end, session messages, pacing and adaptive quality, uploads, the operator
  console and the relay link. A \<open>Conn &\<close> is a number, as in \<^theory_text>\<open>Relay\<close>. The platform (screen, input,
  clipboard) is the interface \<open>host/platform.h\<close>, a component of the state whose operations record
  what they were asked to do; the file system, the random generator and the clock are components too.
\<close>

section \<open>Constants and text helpers\<close>

abbreviation (input) kSecond :: u64 where "kSecond \<equiv> 1000000"
abbreviation (input) kMaxPendingOut :: nat where "kMaxPendingOut \<equiv> 8388608"
abbreviation (input) kMaxFramesInFlight :: u32 where "kMaxFramesInFlight \<equiv> 2"
abbreviation (input) RD_PROTO_VERSION :: u16 where "RD_PROTO_VERSION \<equiv> 2"
abbreviation (input) RD_MAX_CLIENT_MSG :: nat where "RD_MAX_CLIENT_MSG \<equiv> 2097152"
abbreviation (input) RD_MAX_CLIPBOARD :: nat where "RD_MAX_CLIPBOARD \<equiv> 1048576"
abbreviation (input) RD_MAX_FILE_SIZE :: u64 where "RD_MAX_FILE_SIZE \<equiv> 4294967296"

text \<open>The message types of \<open>common/rd_proto.h\<close>.\<close>

datatype c_type = RD_C_HELLO | RD_C_AUTH | RD_C_FRAME_ACK | RD_C_POINTER | RD_C_KEY | RD_C_CLIPBOARD
  | RD_C_SETTINGS | RD_C_CHAT | RD_C_PING | RD_C_FILE_BEGIN | RD_C_FILE_CHUNK | RD_C_FILE_END | RD_C_REFRESH

definition c_type_of :: "u8 \<Rightarrow> c_type option" where
  "c_type_of t = map_of (zip [1..<14] [RD_C_HELLO, RD_C_AUTH, RD_C_FRAME_ACK, RD_C_POINTER, RD_C_KEY, RD_C_CLIPBOARD,
     RD_C_SETTINGS, RD_C_CHAT, RD_C_PING, RD_C_FILE_BEGIN, RD_C_FILE_CHUNK, RD_C_FILE_END, RD_C_REFRESH]) (unat t)"

datatype s_type = RD_S_HELLO | RD_S_AUTH_RESULT | RD_S_DISPLAY_INFO | RD_S_FRAME | RD_S_CLIPBOARD | RD_S_CHAT
  | RD_S_PONG | RD_S_VIEWERS | RD_S_NOTICE | RD_S_FILE_RESULT

primrec s_code :: "s_type \<Rightarrow> u8" where
  "s_code RD_S_HELLO = 64" | "s_code RD_S_AUTH_RESULT = 65" | "s_code RD_S_DISPLAY_INFO = 66"
| "s_code RD_S_FRAME = 67" | "s_code RD_S_CLIPBOARD = 68" | "s_code RD_S_CHAT = 69" | "s_code RD_S_PONG = 70"
| "s_code RD_S_VIEWERS = 71" | "s_code RD_S_NOTICE = 72" | "s_code RD_S_FILE_RESULT = 73"

text \<open>The loop of \<open>clean_text\<close>.\<close>

fun clean_loop :: "bytes \<Rightarrow> nat \<Rightarrow> bytes \<Rightarrow> bytes" where
  "clean_loop out max_len [] = out"
| "clean_loop out max_len (ch # s) =
     (if length out \<ge> max_len then out
      else clean_loop (if ch \<ge> 32 \<and> ch \<noteq> 127 then out @ [ch] else out) max_len s)"

definition clean_text :: "bytes \<Rightarrow> nat \<Rightarrow> bytes" where
  "clean_text s max_len = clean_loop [] max_len s"

text \<open>The directories \<open>make_dirs\<close> creates, in order.\<close>

definition make_dirs :: "bytes \<Rightarrow> bytes list" where
  "make_dirs path = filter (\<lambda>cur. cur \<noteq> [] \<and> cur \<noteq> [126])
     (map (\<lambda>i. take i path)
       (filter (\<lambda>i. i = length path \<or> path ! i = 47 \<or> path ! i = 92) [0..<Suc (length path)]))"

definition mime_type :: "bytes \<Rightarrow> bytes" where
  "mime_type path =
     (if ends_with (bytes_of ''.html'') path then bytes_of ''text/html; charset=utf-8''
      else if ends_with (bytes_of ''.js'') path then bytes_of ''text/javascript''
      else if ends_with (bytes_of ''.wasm'') path then bytes_of ''application/wasm''
      else if ends_with (bytes_of ''.css'') path then bytes_of ''text/css''
      else if ends_with (bytes_of ''.svg'') path then bytes_of ''image/svg+xml''
      else if ends_with (bytes_of ''.png'') path then bytes_of ''image/png''
      else if ends_with (bytes_of ''.ico'') path then bytes_of ''image/x-icon''
      else if ends_with (bytes_of ''.json'') path then bytes_of ''application/json''
      else bytes_of ''application/octet-stream'')"

section \<open>State\<close>

record config =
  cfg_password :: bytes
  cfg_view_only :: bool
  cfg_allow_files :: bool
  cfg_max_viewers :: int
  cfg_max_fps :: int
  cfg_web_root :: bytes
  cfg_downloads_dir :: bytes
  cfg_host_name :: bytes
  cfg_static_priv :: bytes
  cfg_static_pub :: bytes
  cfg_relay_host :: bytes
  cfg_relay_port :: int
  cfg_relay_id :: bytes
  cfg_relay_key :: bytes

record upload =
  up_size :: u64
  up_received :: u64
  up_path :: bytes

datatype state = Http | RelayUpgrade | RelayCtl | Hello | Auth | Active | Closing

record conn =
  c_addr :: bytes
  c_state :: state
  c_in :: rd_buf
  c_out :: rd_buf
  c_out_off :: nat
  c_ws :: rd_ws_reader
  c_created_us :: u64
  c_last_rx_us :: u64
  c_last_ping_us :: u64
  c_close_after_flush :: bool
  c_dead :: bool
  c_client_ws :: bool
  c_relay_ctl :: bool
  c_tcp_pending :: bool
  c_tls :: bool
  c_tls_handshaking :: bool
  c_ws_accept :: bytes
  c_id :: u32
  c_name :: bytes
  c_nonce :: bytes
  c_transcript :: bytes
  c_ch :: rd_channel
  c_view_only :: bool
  c_sent_input :: bool
  c_quality_setting :: int
  c_quality :: int
  c_eff_fps :: int
  c_tile_q :: bytes
  c_lossy_tiles :: nat
  c_last_change_us :: u64
  c_fps :: int
  c_frame_id :: u32
  c_acked :: u32
  c_last_seq :: u64
  c_need_full :: bool
  c_last_frame_us :: u64
  c_shadow :: bytes
  c_shadow_w :: int
  c_shadow_h :: int
  c_stalls :: int
  c_sends :: int
  c_clean_windows :: int
  c_adapt_window_us :: u64
  c_bytes_sent :: u64
  c_uploads :: "(u32 \<times> upload) list"

record failures =
  f_count :: int
  f_until_us :: u64

record display_info =
  d_name :: bytes
  d_width :: int
  d_height :: int

text \<open>What the input injector was asked to do.\<close>

datatype input_event = Pointer int int u8 int int | Key u16 bool | ReleaseAll

text \<open>
  The platform: \<open>pl_can_start\<close> says which displays the capturer can start on, \<open>pl_set_count\<close> is the
  change count the clipboard reports after \<open>set_text\<close>.
\<close>

record platform =
  pl_os_name :: bytes
  pl_displays :: "display_info list"
  pl_current :: int
  pl_can_start :: "int \<Rightarrow> bool"
  pl_hires_supported :: bool
  pl_hires :: bool
  pl_latest :: "frame option"
  pl_clip_text :: "bytes option"
  pl_clip_count :: u64
  pl_set_count :: "u64 \<Rightarrow> u64"
  pl_input :: "input_event list"

text \<open>
  \<open>sv_fs\<close> maps the paths of regular files to their contents, \<open>sv_can_create\<close> says where a file can be
  created and \<open>sv_disk_free\<close> how many bytes can still be written; \<open>sv_random_ok\<close> is false when
  the system's random generator fails. \<open>sv_can_connect\<close> says whether a connection to the relay can
  be started, and \<open>sv_junk\<close> is the value an uninitialised local \<open>int\<close> holds.
\<close>

record server =
  sv_cfg :: config
  sv_plat :: platform
  sv_conns :: "nat list"
  sv_conn :: "nat \<Rightarrow> conn"
  sv_fresh :: nat
  sv_next_id :: u32
  sv_clip_count :: u64
  sv_last_clip :: bytes
  sv_displays :: "display_info list"
  sv_next_clip_poll_us :: u64
  sv_console_buf :: bytes
  sv_failures :: "bytes \<Rightarrow> failures option"
  sv_recent_failures :: "u64 list"
  sv_relay_ctl :: "nat option"
  sv_relay_next_us :: u64
  sv_relay_backoff_us :: u64
  sv_relay_online :: bool
  sv_stop :: bool
  sv_now :: u64
  sv_random :: "nat \<Rightarrow> u8"
  sv_random_ok :: bool
  sv_fs :: "bytes \<Rightarrow> bytes option"
  sv_can_create :: "bytes \<Rightarrow> bool"
  sv_disk_free :: nat
  sv_dirs :: "bytes list"
  sv_can_connect :: bool
  sv_junk :: int

definition on_conn :: "nat \<Rightarrow> (conn \<Rightarrow> conn) \<Rightarrow> server \<Rightarrow> server" where
  "on_conn i f s = s\<lparr>sv_conn := (sv_conn s)(i := f (sv_conn s i))\<rparr>"

definition on_plat :: "(platform \<Rightarrow> platform) \<Rightarrow> server \<Rightarrow> server" where
  "on_plat f s = s\<lparr>sv_plat := f (sv_plat s)\<rparr>"

definition no_channel :: rd_channel where
  "no_channel = \<lparr>send_key = replicate 32 0, recv_key = replicate 32 0, send_ctr = 0, recv_ctr = 0, ch_active = False\<rparr>"

definition new_conn :: "bytes \<Rightarrow> u64 \<Rightarrow> conn" where
  "new_conn addr now =
     \<lparr>c_addr = addr, c_state = Http, c_in = rd_buf_init, c_out = rd_buf_init, c_out_off = 0,
      c_ws = rd_ws_reader_init \<lparr>wr_assembly = rd_buf_init, wr_opcode = -1, wr_max_message = 0,
        wr_expect_masked = False, wr_ctrl = replicate 125 0\<rparr> 0 True,
      c_created_us = now, c_last_rx_us = now, c_last_ping_us = 0, c_close_after_flush = False, c_dead = False,
      c_client_ws = False, c_relay_ctl = False, c_tcp_pending = False, c_tls = False, c_tls_handshaking = False,
      c_ws_accept = [], c_id = 0, c_name = [], c_nonce = replicate 16 0, c_transcript = replicate 32 0,
      c_ch = no_channel, c_view_only = False, c_sent_input = False, c_quality_setting = 255, c_quality = 0,
      c_eff_fps = 30, c_tile_q = [], c_lossy_tiles = 0, c_last_change_us = 0, c_fps = 30, c_frame_id = 0,
      c_acked = 0, c_last_seq = 0, c_need_full = True, c_last_frame_us = 0, c_shadow = [], c_shadow_w = 0,
      c_shadow_h = 0, c_stalls = 0, c_sends = 0, c_clean_windows = 0, c_adapt_window_us = 0, c_bytes_sent = 0,
      c_uploads = []\<rparr>"

text \<open>\<open>out.len - out_off\<close> is a \<open>size_t\<close> subtraction.\<close>

definition conn_pending :: "conn \<Rightarrow> u64" where
  "conn_pending c = of_nat (rb_len (c_out c)) - of_nat (c_out_off c)"

text \<open>\<open>rd_random\<close>: the bytes, or \<open>None\<close> when the generator fails.\<close>

definition draw :: "nat \<Rightarrow> server \<Rightarrow> bytes option \<times> server" where
  "draw n s =
     (if sv_random_ok s then (Some (map (sv_random s) [0..<n]), s\<lparr>sv_random := \<lambda>k. sv_random s (k + n)\<rparr>)
      else (None, s))"

section \<open>Sending\<close>

definition close_conn :: "nat \<Rightarrow> server \<Rightarrow> server" where
  "close_conn i s = (if c_dead (sv_conn s i) then s else on_conn i (\<lambda>c. c\<lparr>c_dead := True\<rparr>) s)"

definition ws_frame_to :: "alloc \<Rightarrow> nat \<Rightarrow> nat \<Rightarrow> bytes \<Rightarrow> server \<Rightarrow> server" where
  "ws_frame_to al i opcode p s =
     (if c_dead (sv_conn s i) then s
      else let msk = c_client_ws (sv_conn s i);
               (key, s) = (if msk then draw 4 s else (None, s))
           in on_conn i (\<lambda>c. c\<lparr>c_out := rd_ws_write_frame al (case key of None \<Rightarrow> replicate 4 0 | Some k \<Rightarrow> k)
                (c_out c) opcode p msk\<rparr>) s)"

definition send_msg :: "alloc \<Rightarrow> nat \<Rightarrow> rd_buf \<Rightarrow> server \<Rightarrow> server" where
  "send_msg al i msg s =
     (let c = sv_conn s i
      in if c_dead c then s
         else if \<not> ch_active (c_ch c) then ws_frame_to al i RD_WS_BINARY (rb_data msg) s
         else if c_client_ws c then
           (case rd_channel_seal al (c_ch c) (rb_data msg) rd_buf_init of (ch, sealed) \<Rightarrow>
              ws_frame_to al i RD_WS_BINARY (rb_data sealed) (on_conn i (\<lambda>c. c\<lparr>c_ch := ch\<rparr>) s))
         else
           (case rd_channel_seal al (c_ch c) (rb_data msg)
                   (rd_ws_write_header al (c_out c) RD_WS_BINARY (rb_len msg + 16)) of
              (ch, out) \<Rightarrow> on_conn i (\<lambda>c. c\<lparr>c_ch := ch, c_out := out\<rparr>) s))"

definition is_active :: "server \<Rightarrow> nat \<Rightarrow> bool" where
  "is_active s j \<longleftrightarrow> c_state (sv_conn s j) = Active \<and> \<not> c_dead (sv_conn s j)"

definition broadcast :: "alloc \<Rightarrow> rd_buf \<Rightarrow> nat option \<Rightarrow> bool \<Rightarrow> server \<Rightarrow> server" where
  "broadcast al msg except control_only s =
     fold (\<lambda>j s. if Some j \<noteq> except \<and> is_active s j \<and> \<not> (control_only \<and> c_view_only (sv_conn s j))
        then send_msg al j msg s else s) (sv_conns s) s"

definition start_msg :: "alloc \<Rightarrow> s_type \<Rightarrow> rd_buf" where
  "start_msg al t = rd_buf_put_u8 al rd_buf_init (s_code t)"

definition notice :: "alloc \<Rightarrow> bytes \<Rightarrow> nat option \<Rightarrow> server \<Rightarrow> server" where
  "notice al txt except s = broadcast al (rd_buf_put_str al (start_msg al RD_S_NOTICE) (Some txt)) except False s"

definition active_conns :: "server \<Rightarrow> nat list" where
  "active_conns s = filter (is_active s) (sv_conns s)"

definition broadcast_viewers :: "alloc \<Rightarrow> server \<Rightarrow> server" where
  "broadcast_viewers al s =
     (let active = active_conns s;
          msg = rd_buf_put_u8 al (start_msg al RD_S_VIEWERS) (of_nat (min (length active) 255));
          msg = fold (\<lambda>j m. rd_buf_put_u8 al (rd_buf_put_str al (rd_buf_put_str al m (Some (c_name (sv_conn s j))))
                  (Some (c_addr (sv_conn s j)))) (if c_view_only (sv_conn s j) then 1 else 0)) active msg
      in broadcast al msg None False s)"

definition send_display_info :: "alloc \<Rightarrow> nat \<Rightarrow> server \<Rightarrow> server" where
  "send_display_info al i s =
     (let pl = sv_plat s; cur = pl_current pl;
          (w, h) = (case pl_latest pl of Some f \<Rightarrow> (fr_width f, fr_height f)
             | None \<Rightarrow> if 0 \<le> cur \<and> cur < int (length (sv_displays s))
                 then (d_width (sv_displays s ! nat cur), d_height (sv_displays s ! nat cur)) else (0, 0));
          msg = start_msg al RD_S_DISPLAY_INFO;
          msg = rd_buf_put_u16 al msg (of_int w);
          msg = rd_buf_put_u16 al msg (of_int h);
          msg = rd_buf_put_u8 al msg (of_int cur);
          msg = rd_buf_put_u8 al msg (of_nat (min (length (sv_displays s)) 255));
          msg = fold (\<lambda>d m. rd_buf_put_u16 al (rd_buf_put_u16 al (rd_buf_put_str al m (Some (d_name d)))
                  (of_int (d_width d))) (of_int (d_height d))) (take 255 (sv_displays s)) msg;
          flags = (if pl_hires_supported pl then 1 else 0) OR (if pl_hires pl then 2 else 0)
      in send_msg al i (rd_buf_put_u8 al msg flags) s)"

section \<open>Brute-force protection\<close>

text \<open>The result: not locked out, or locked out for so many more seconds.\<close>

definition locked_out :: "bytes \<Rightarrow> server \<Rightarrow> int option \<times> server" where
  "locked_out addr s =
     (let now = sv_now s;
          recent = filter (\<lambda>t. \<not> now - t > 60 * kSecond) (sv_recent_failures s);
          s = s\<lparr>sv_recent_failures := recent\<rparr>
      in if length recent \<ge> 30 then (Some (uint ((hd recent + 60 * kSecond - now) div kSecond) + 1), s)
         else case sv_failures s addr of
           None \<Rightarrow> (None, s)
         | Some f \<Rightarrow> if f_until_us f \<le> now then (None, s)
             else (Some (uint ((f_until_us f - now) div kSecond) + 1), s))"

definition lockout_secs :: "int \<Rightarrow> u64" where
  "lockout_secs n = (let k = push_bit (nat (min (n - 5) 5)) 30 in if 900 < k then 900 else k)"

definition record_auth_failure :: "bytes \<Rightarrow> server \<Rightarrow> server" where
  "record_auth_failure addr s =
     (let f = (case sv_failures s addr of None \<Rightarrow> \<lparr>f_count = 0, f_until_us = 0\<rparr> | Some f \<Rightarrow> f);
          f = f\<lparr>f_count := f_count f + 1\<rparr>;
          f = (if f_count f \<ge> 5 then f\<lparr>f_until_us := sv_now s + lockout_secs (f_count f) * kSecond\<rparr> else f)
      in s\<lparr>sv_recent_failures := sv_recent_failures s @ [sv_now s], sv_failures := (sv_failures s)(addr := Some f)\<rparr>)"

section \<open>Handshake\<close>

definition auth_result :: "alloc \<Rightarrow> u8 \<Rightarrow> u8 \<Rightarrow> bytes \<Rightarrow> rd_buf" where
  "auth_result al ok vo txt =
     rd_buf_put_str al (rd_buf_put_u8 al (rd_buf_put_u8 al (start_msg al RD_S_AUTH_RESULT) ok) vo) (Some txt)"

definition handle_hello :: "alloc \<Rightarrow> nat \<Rightarrow> u8 \<Rightarrow> rd_reader \<Rightarrow> server \<Rightarrow> server" where
  "handle_hello al i type r s =
     (if c_type_of type \<noteq> Some RD_C_HELLO then close_conn i s
      else
        let (version, r) = rd_get_u16 r;
            (name, _, r) = rd_get_str r 256;
            (ce, r) = rd_get_bytes r 32;
            nm = clean_text (c_str name) 32;
            s = on_conn i (\<lambda>c. c\<lparr>c_name := (if nm = [] then bytes_of ''Viewer'' else nm)\<rparr>) s
        in case (if version = RD_PROTO_VERSION then ce else None) of
             None \<Rightarrow> on_conn i (\<lambda>c. c\<lparr>c_close_after_flush := True\<rparr>)
               (send_msg al i (auth_result al 0 0 (bytes_of ''Incompatible viewer version - please update TetherDesk'')) s)
           | Some ce \<Rightarrow>
               (let (nonce, s) = draw 16 s;
                    s = on_conn i (\<lambda>c. c\<lparr>c_nonce := (case nonce of None \<Rightarrow> c_nonce c | Some n \<Rightarrow> n)\<rparr>) s;
                    (rnd, s) = draw 32 s
                in case rd_x25519_keypair rnd of
                     None \<Rightarrow> close_conn i s
                   | Some (se_priv, se) \<Rightarrow>
                       (case (rd_x25519 se_priv ce, rd_x25519 (cfg_static_priv (sv_cfg s)) ce) of
                          (Some dh1, Some dh2) \<Rightarrow>
                            (let cfg = sv_cfg s; nonce = c_nonce (sv_conn s i);
                                 th = rd_hs_transcript ce (cfg_static_pub cfg) se nonce;
                                 s = on_conn i (\<lambda>c. c\<lparr>c_transcript := th\<rparr>) s;
                                 msg = start_msg al RD_S_HELLO;
                                 msg = rd_buf_put_u16 al msg RD_PROTO_VERSION;
                                 msg = rd_buf_put_u8 al msg 2;
                                 msg = rd_buf_put al msg nonce;
                                 msg = rd_buf_put_str al msg (Some (cfg_host_name cfg));
                                 msg = rd_buf_put_str al msg (Some (pl_os_name (sv_plat s)));
                                 msg = rd_buf_put al msg (cfg_static_pub cfg);
                                 msg = rd_buf_put al msg se;
                                 s = send_msg al i msg s
                             in on_conn i (\<lambda>c. c\<lparr>c_ch := rd_hs_keys dh1 dh2 th True, c_state := Auth\<rparr>) s)
                        | _ \<Rightarrow> close_conn i s)))"

definition on_authenticated :: "alloc \<Rightarrow> nat \<Rightarrow> server \<Rightarrow> server" where
  "on_authenticated al i s =
     (let cfg = sv_cfg s;
          s = on_conn i (\<lambda>c. c\<lparr>c_state := Active, c_id := sv_next_id s, c_view_only := cfg_view_only cfg,
                c_fps := cfg_max_fps cfg, c_eff_fps := cfg_max_fps cfg, c_need_full := True,
                c_adapt_window_us := sv_now s\<rparr>) (s\<lparr>sv_next_id := sv_next_id s + 1\<rparr>);
          vo = c_view_only (sv_conn s i);
          s = send_msg al i (auth_result al 1 (if vo then 1 else 0)
                (if vo then bytes_of ''Connected (view only)'' else bytes_of ''Connected'')) s;
          s = send_display_info al i s;
          s = broadcast_viewers al s
      in notice al (c_name (sv_conn s i) @ bytes_of '' connected'') (Some i) s)"

definition auth_fail :: "alloc \<Rightarrow> nat \<Rightarrow> bytes \<Rightarrow> server \<Rightarrow> server" where
  "auth_fail al i why s =
     on_conn i (\<lambda>c. c\<lparr>c_state := Closing, c_close_after_flush := True\<rparr>) (send_msg al i (auth_result al 0 0 why) s)"

definition handle_auth :: "alloc \<Rightarrow> nat \<Rightarrow> u8 \<Rightarrow> rd_reader \<Rightarrow> server \<Rightarrow> server" where
  "handle_auth al i type r s =
     (if c_type_of type \<noteq> Some RD_C_AUTH then close_conn i s
      else
        let (mac, r) = rd_get_bytes r 32;
            addr = c_addr (sv_conn s i);
            (wait_s, s) = locked_out addr s
        in case wait_s of
             Some w \<Rightarrow> auth_fail al i (bytes_of ''Too many failed attempts - try again in '' @ std_to_string w @ bytes_of '' s'') s
           | None \<Rightarrow>
               (let expected = rd_hs_auth_mac (cfg_password (sv_cfg s)) (c_transcript (sv_conn s i))
                in if (case mac of None \<Rightarrow> True | Some m \<Rightarrow> \<not> rd_ct_equal m expected 32)
                   then auth_fail al i (bytes_of ''Wrong password'') (record_auth_failure addr s)
                   else if int (length (active_conns s)) \<ge> cfg_max_viewers (sv_cfg s)
                   then auth_fail al i (bytes_of ''Host is full ('' @ std_to_string (cfg_max_viewers (sv_cfg s)) @ bytes_of '' viewers)'') s
                   else on_authenticated al i (s\<lparr>sv_failures := (sv_failures s)(addr := None)\<rparr>)))"

end
