(* ===== verification/Server_Session.thy ===== *)
theory Server_Session
  imports Server
begin

text \<open>
  The live session of \<open>host/server.cpp\<close>: file uploads, display switching, the messages of an
  authenticated viewer, frame pacing, adaptive quality and the clipboard poll.
\<close>

section \<open>Uploads\<close>

definition unsafe_chars :: bytes where
  "unsafe_chars = [60, 62, 58, 34, 124, 63, 42]"

definition safe_name :: "bytes \<Rightarrow> bytes" where
  "safe_name raw =
     (let name = (case find_last_of [47, 92] raw of None \<Rightarrow> raw | Some slash \<Rightarrow> drop (slash + 1) raw);
          safe = filter (\<lambda>ch. ch \<ge> 32 \<and> ch \<notin> set unsafe_chars) name;
          safe = dropWhile (\<lambda>ch. ch = 46 \<or> ch = 32) safe;
          safe = (if safe = [] then bytes_of ''upload.bin'' else safe)
      in if length safe > 120 then drop (length safe - 120) safe else safe)"

definition split_ext :: "bytes \<Rightarrow> bytes \<times> bytes" where
  "split_ext safe = (case find_last_of [46] safe of None \<Rightarrow> (safe, [])
     | Some dot \<Rightarrow> if dot > 0 then (take dot safe, drop dot safe) else (safe, []))"

definition numbered_path :: "bytes \<Rightarrow> bytes \<Rightarrow> nat \<Rightarrow> bytes" where
  "numbered_path dir safe i = (case split_ext safe of (base, ext) \<Rightarrow>
     dir @ [47] @ base @ bytes_of '' ('' @ std_to_string (int i) @ bytes_of '')'' @ ext)"

text \<open>The loop that looks for a name not taken; \<open>path\<close> is the candidate before attempt \<open>i\<close>.\<close>

function free_path :: "(bytes \<Rightarrow> bool) \<Rightarrow> bytes \<Rightarrow> bytes \<Rightarrow> nat \<Rightarrow> bytes \<Rightarrow> bytes" where
  "free_path file_exists dir safe i path =
     (if file_exists path \<and> i < 1000 then free_path file_exists dir safe (i + 1) (numbered_path dir safe i) else path)"
  by pat_completeness auto
termination by (relation "measure (\<lambda>(e, dir, safe, i, path). 1000 - i)") auto

declare free_path.simps [simp del]

definition upload_path :: "(bytes \<Rightarrow> bool) \<Rightarrow> bytes \<Rightarrow> bytes \<Rightarrow> bytes" where
  "upload_path file_exists dir safe = free_path file_exists dir safe 1 (dir @ [47] @ safe)"

definition file_result :: "alloc \<Rightarrow> nat \<Rightarrow> u32 \<Rightarrow> u8 \<Rightarrow> bytes \<Rightarrow> server \<Rightarrow> server" where
  "file_result al i fid ok txt s =
     send_msg al i (rd_buf_put_str al (rd_buf_put_u8 al (rd_buf_put_u32 al (start_msg al RD_S_FILE_RESULT) fid) ok) (Some txt)) s"

definition begin_upload :: "alloc \<Rightarrow> nat \<Rightarrow> u32 \<Rightarrow> u64 \<Rightarrow> bytes \<Rightarrow> server \<Rightarrow> server" where
  "begin_upload al i fid fsize raw_name s =
     (let c = sv_conn s i; cfg = sv_cfg s
      in if \<not> cfg_allow_files cfg then file_result al i fid 0 (bytes_of ''File transfer is disabled on this host'') s
         else if c_view_only c then file_result al i fid 0 (bytes_of ''View-only viewers can't send files'') s
         else if fsize > RD_MAX_FILE_SIZE then file_result al i fid 0 (bytes_of ''File too large'') s
         else if length (c_uploads c) \<ge> 4 \<or> map_of (c_uploads c) fid \<noteq> None
         then file_result al i fid 0 (bytes_of ''Too many transfers at once'') s
         else
           let safe = safe_name raw_name;
               s = s\<lparr>sv_dirs := sv_dirs s @ make_dirs (cfg_downloads_dir cfg)\<rparr>;
               path = upload_path (\<lambda>p. sv_fs s p \<noteq> None) (cfg_downloads_dir cfg) safe
           in if \<not> sv_can_create s path then file_result al i fid 0 (bytes_of ''Host could not create the file'') s
              else on_conn i (\<lambda>c. c\<lparr>c_uploads := AList.update fid \<lparr>up_size = fsize, up_received = 0, up_path = path\<rparr> (c_uploads c)\<rparr>)
                     (s\<lparr>sv_fs := (sv_fs s)(path := Some [])\<rparr>))"

definition finish_upload :: "alloc \<Rightarrow> nat \<Rightarrow> u32 \<Rightarrow> bool \<Rightarrow> bytes \<Rightarrow> server \<Rightarrow> server" where
  "finish_upload al i fid ok txt s =
     (case map_of (c_uploads (sv_conn s i)) fid of
        None \<Rightarrow> s
      | Some u \<Rightarrow>
          (let s = (if ok then s else s\<lparr>sv_fs := (sv_fs s)(up_path u := None)\<rparr>);
               s = on_conn i (\<lambda>c. c\<lparr>c_uploads := AList.delete fid (c_uploads c)\<rparr>) s
           in file_result al i fid (if ok then 1 else 0) txt s))"

text \<open>\<open>fwrite\<close>: what fits on the disk is written; the result says whether everything was.\<close>

definition fwrite :: "bytes \<Rightarrow> bytes \<Rightarrow> server \<Rightarrow> bool \<times> server" where
  "fwrite path d s =
     (let n = min (length d) (sv_disk_free s)
      in (n = length d, s\<lparr>sv_fs := (sv_fs s)(path := map_option (\<lambda>old. old @ take n d) (sv_fs s path)),
            sv_disk_free := sv_disk_free s - n\<rparr>))"

definition file_chunk :: "alloc \<Rightarrow> nat \<Rightarrow> rd_reader \<Rightarrow> server \<Rightarrow> server" where
  "file_chunk al i r s =
     (let (fid, r) = rd_get_u32 r
      in case (if rr_err r then None else map_of (c_uploads (sv_conn s i)) fid) of
           None \<Rightarrow> s
         | Some u \<Rightarrow>
             (let n = rd_remaining r; (d, r) = rd_get_bytes r n; d = (case d of None \<Rightarrow> [] | Some d \<Rightarrow> d)
              in if up_received u + of_nat n > up_size u
                 then finish_upload al i fid False (bytes_of ''File is larger than announced'') s
                 else
                   let (ok, s) = (if n = 0 then (True, s) else fwrite (up_path u) d s)
                   in if \<not> ok then finish_upload al i fid False (bytes_of ''Host disk write failed'') s
                      else on_conn i (\<lambda>c. c\<lparr>c_uploads :=
                             AList.update fid (u\<lparr>up_received := up_received u + of_nat n\<rparr>) (c_uploads c)\<rparr>) s))"

definition file_end :: "alloc \<Rightarrow> nat \<Rightarrow> rd_reader \<Rightarrow> server \<Rightarrow> server" where
  "file_end al i r s =
     (let (fid, r) = rd_get_u32 r
      in case (if rr_err r then None else map_of (c_uploads (sv_conn s i)) fid) of
           None \<Rightarrow> s
         | Some u \<Rightarrow> if up_received u \<noteq> up_size u then finish_upload al i fid False (bytes_of ''Transfer incomplete'') s
             else finish_upload al i fid True (bytes_of ''Saved to '' @ up_path u) s)"

section \<open>Displays\<close>

definition cap_start :: "int \<Rightarrow> server \<Rightarrow> bool \<times> server" where
  "cap_start d s = (if pl_can_start (sv_plat s) d then (True, on_plat (\<lambda>p. p\<lparr>pl_current := d\<rparr>) s) else (False, s))"

definition switch_display :: "alloc \<Rightarrow> int \<Rightarrow> server \<Rightarrow> server" where
  "switch_display al index s =
     (if index < 0 \<or> index \<ge> int (length (sv_displays s)) then s
      else
        let old = pl_current (sv_plat s); (ok, s) = cap_start index s
        in if \<not> ok then snd (cap_start old (notice al (bytes_of ''Could not switch display: '') None s))
           else
             let s = s\<lparr>sv_displays := pl_displays (sv_plat s)\<rparr>;
                 s = fold (\<lambda>j s. if is_active s j
                       then on_conn j (\<lambda>c. c\<lparr>c_need_full := True, c_shadow_w := 0, c_shadow_h := 0\<rparr>) s else s) (sv_conns s) s
             in notice al (bytes_of ''Now showing '' @ d_name (sv_displays s ! nat index)) None s)"

section \<open>Messages of a viewer\<close>

definition on_frame_ack :: "rd_reader \<Rightarrow> conn \<Rightarrow> conn" where
  "on_frame_ack r c =
     (let (fid, _) = rd_get_u32 r
      in if sint (fid - c_acked c) > 0 \<and> sint (fid - c_frame_id c) \<le> 0 then c\<lparr>c_acked := fid\<rparr> else c)"

definition apply_settings :: "int \<Rightarrow> int \<Rightarrow> int \<Rightarrow> conn \<Rightarrow> conn" where
  "apply_settings max_fps q fps c =
     (let qs = (if q \<le> 3 \<or> q = 255 then q else 255);
          c = c\<lparr>c_quality_setting := qs\<rparr>;
          c = (if qs \<noteq> 255 then c\<lparr>c_quality := qs\<rparr> else c);
          f = max 1 (min max_fps fps)
      in c\<lparr>c_fps := f, c_eff_fps := f\<rparr>)"

definition on_settings :: "alloc \<Rightarrow> nat \<Rightarrow> rd_reader \<Rightarrow> server \<Rightarrow> server" where
  "on_settings al i r s =
     (let (q, r) = rd_get_u8 r; (fps, r) = rd_get_u8 r; (disp, r) = rd_get_u8 r
      in if rr_err r then s
         else
           let res = (if rd_remaining r \<noteq> 0 then uint (fst (rd_get_u8 r)) else 255);
               s = on_conn i (apply_settings (cfg_max_fps (sv_cfg s)) (uint q) (uint fps)) s;
               vo = c_view_only (sv_conn s i);
               s = (if res \<noteq> 255 \<and> \<not> vo \<and> pl_hires_supported (sv_plat s) \<and> (res = 0) \<noteq> pl_hires (sv_plat s)
                    then let s = on_plat (\<lambda>p. p\<lparr>pl_hires := (res = 0)\<rparr>) s;
                             s = switch_display al (pl_current (sv_plat s)) s
                         in notice al (if res = 0 then bytes_of ''Sharp (full resolution) screen''
                              else bytes_of ''Fast (half resolution) screen'') None s
                    else s)
           in if uint disp \<noteq> pl_current (sv_plat s)
              then if \<not> c_view_only (sv_conn s i) then switch_display al (uint disp) s
                   else send_msg al i (rd_buf_put_str al (start_msg al RD_S_NOTICE)
                          (Some (bytes_of ''View-only viewers can't switch displays''))) s
              else s)"

definition inject :: "nat \<Rightarrow> input_event \<Rightarrow> server \<Rightarrow> server" where
  "inject i e s = on_conn i (\<lambda>c. c\<lparr>c_sent_input := True\<rparr>) (on_plat (\<lambda>p. p\<lparr>pl_input := pl_input p @ [e]\<rparr>) s)"

definition on_pointer :: "nat \<Rightarrow> rd_reader \<Rightarrow> server \<Rightarrow> server" where
  "on_pointer i r s =
     (let (x, r) = rd_get_u16 r; (y, r) = rd_get_u16 r; (buttons, r) = rd_get_u8 r;
          (wx, r) = rd_get_i16 r; (wy, r) = rd_get_i16 r; c = sv_conn s i
      in if rr_err r \<or> c_view_only c \<or> c_shadow_w c = 0 then s
         else inject i (Pointer (min (uint x) (c_shadow_w c - 1)) (min (uint y) (c_shadow_h c - 1)) buttons wx wy) s)"

definition on_key :: "nat \<Rightarrow> rd_reader \<Rightarrow> server \<Rightarrow> server" where
  "on_key i r s =
     (let (hid, r) = rd_get_u16 r; (down, r) = rd_get_u8 r
      in if rr_err r \<or> c_view_only (sv_conn s i) \<or> hid \<ge> 256 then s else inject i (Key hid (down \<noteq> 0)) s)"

definition on_clipboard :: "alloc \<Rightarrow> nat \<Rightarrow> rd_reader \<Rightarrow> server \<Rightarrow> server" where
  "on_clipboard al i r s =
     (let (p, len, r) = rd_get_blob r
      in if rr_err r \<or> c_view_only (sv_conn s i) \<or> unat len > RD_MAX_CLIPBOARD then s
         else
           let txt = (case p of None \<Rightarrow> [] | Some p \<Rightarrow> p)
           in if txt = sv_last_clip s then s
              else
                let s = on_plat (\<lambda>p. p\<lparr>pl_clip_text := Some txt, pl_clip_count := pl_set_count p (pl_clip_count p)\<rparr>) s;
                    s = s\<lparr>sv_last_clip := txt, sv_clip_count := pl_clip_count (sv_plat s)\<rparr>
                in broadcast al (rd_buf_put_blob al (start_msg al RD_S_CLIPBOARD) txt) (Some i) True s)"

definition on_chat :: "alloc \<Rightarrow> nat \<Rightarrow> rd_reader \<Rightarrow> server \<Rightarrow> server" where
  "on_chat al i r s =
     (let (txt, _, r) = rd_get_str r 4096; t = clean_text (c_str txt) 1000
      in if rr_err r \<or> t = [] then s
         else broadcast al (rd_buf_put_str al (rd_buf_put_str al (start_msg al RD_S_CHAT)
                (Some (c_name (sv_conn s i)))) (Some t)) (Some i) False s)"

definition handle_session_message :: "alloc \<Rightarrow> nat \<Rightarrow> u8 \<Rightarrow> rd_reader \<Rightarrow> server \<Rightarrow> server" where
  "handle_session_message al i type r s =
     (case c_type_of type of
        Some RD_C_FRAME_ACK \<Rightarrow> on_conn i (on_frame_ack r) s
      | Some RD_C_REFRESH \<Rightarrow> on_conn i (\<lambda>c. c\<lparr>c_need_full := True\<rparr>) s
      | Some RD_C_SETTINGS \<Rightarrow> on_settings al i r s
      | Some RD_C_POINTER \<Rightarrow> on_pointer i r s
      | Some RD_C_KEY \<Rightarrow> on_key i r s
      | Some RD_C_CLIPBOARD \<Rightarrow> on_clipboard al i r s
      | Some RD_C_CHAT \<Rightarrow> on_chat al i r s
      | Some RD_C_PING \<Rightarrow> send_msg al i (rd_buf_put_u64 al (start_msg al RD_S_PONG) (fst (rd_get_u64 r))) s
      | Some RD_C_FILE_BEGIN \<Rightarrow>
          (let (fid, r) = rd_get_u32 r; (fsize, r) = rd_get_u64 r; (name, _, r) = rd_get_str r 1024
           in if rr_err r then s else begin_upload al i fid fsize (c_str name) s)
      | Some RD_C_FILE_CHUNK \<Rightarrow> file_chunk al i r s
      | Some RD_C_FILE_END \<Rightarrow> file_end al i r s
      | _ \<Rightarrow> s)"

text \<open>A message of any state: opened first when the channel is up.\<close>

definition handle_plain :: "alloc \<Rightarrow> nat \<Rightarrow> bytes \<Rightarrow> server \<Rightarrow> server" where
  "handle_plain al i p s =
     (let (type, r) = rd_get_u8 (rd_reader_init p)
      in case c_state (sv_conn s i) of
           Hello \<Rightarrow> handle_hello al i type r s
         | Auth \<Rightarrow> handle_auth al i type r s
         | Active \<Rightarrow> handle_session_message al i type r s
         | _ \<Rightarrow> s)"

definition handle_message :: "alloc \<Rightarrow> nat \<Rightarrow> bytes \<Rightarrow> server \<Rightarrow> server" where
  "handle_message al i p s =
     (if ch_active (c_ch (sv_conn s i)) then
        (case rd_channel_open (c_ch (sv_conn s i)) p of
           (None, _) \<Rightarrow> close_conn i s
         | (Some m, ch) \<Rightarrow> handle_plain al i m (on_conn i (\<lambda>c. c\<lparr>c_ch := ch\<rparr>) s))
      else handle_plain al i p s)"

section \<open>Screen\<close>

text \<open>A new frame size: the shadow starts over and the viewer is told.\<close>

definition resize_shadow :: "alloc \<Rightarrow> nat \<Rightarrow> frame \<Rightarrow> server \<Rightarrow> server" where
  "resize_shadow al i f s =
     (let c = sv_conn s i
      in if fr_width f \<noteq> c_shadow_w c \<or> fr_height f \<noteq> c_shadow_h c
         then send_display_info al i (on_conn i (\<lambda>c. c\<lparr>c_shadow := replicate (nat (fr_width f) * nat (fr_height f) * 4) 0,
                c_shadow_w := fr_width f, c_shadow_h := fr_height f, c_tile_q := [], c_lossy_tiles := 0,
                c_need_full := True\<rparr>) s)
         else s)"

definition frame_changed :: "frame \<Rightarrow> conn \<Rightarrow> bool" where
  "frame_changed f c \<longleftrightarrow> fr_seq f \<noteq> c_last_seq c"

definition wants_refine :: "conn \<Rightarrow> bool" where
  "wants_refine c \<longleftrightarrow> c_quality_setting c = 255 \<and> c_lossy_tiles c > 0"

definition settled :: "u64 \<Rightarrow> conn \<Rightarrow> bool" where
  "settled now c \<longleftrightarrow> now - c_last_change_us c > 250000"

text \<open>The frame message, sent when any tile was encoded.\<close>

definition send_frame ::
  "alloc \<Rightarrow> (nat \<times> nat) list \<Rightarrow> rd_buf list \<Rightarrow> nat \<Rightarrow> frame \<Rightarrow> u64 \<Rightarrow> server \<Rightarrow> server" where
  "send_frame al sched bufs i f now s =
     (let c = sv_conn s i; changed = frame_changed f c; refine = wants_refine c;
          msg = rd_buf_put_u32 al (start_msg al RD_S_FRAME) (c_frame_id c + 1);
          msg = rd_buf_put_u8 al msg (if c_need_full c then 1 else 0);
          count_at = rb_len msg;
          msg = rd_buf_put_u16 al msg 0;
          budget = (if \<not> refine then 0 else if settled now c then 400 else 12)
      in case encode al sched bufs f (c_shadow c) (c_need_full c) (c_quality c) msg (Some (c_tile_q c)) budget of
           None \<Rightarrow> s
         | Some e \<Rightarrow>
             (let tq = the (en_tile_q e);
                  s = on_conn i (\<lambda>c. c\<lparr>c_shadow := en_shadow e, c_tile_q := tq, c_last_seq := fr_seq f, c_need_full := False,
                        c_lossy_tiles := length (filter (\<lambda>q. q \<noteq> 0) tq)\<rparr>) s
              in if es_tiles (en_stats e) = 0 then s
                 else
                   let msg = rd_buf_patch_u16 (en_out e) count_at (of_nat (es_tiles (en_stats e)));
                       s = on_conn i (\<lambda>c. c\<lparr>c_frame_id := c_frame_id c + 1, c_last_frame_us := now,
                             c_sends := (if changed then c_sends c + 1 else c_sends c)\<rparr>) s
                   in send_msg al i msg s))"

text \<open>Pacing: nothing new, too soon, or too much in flight; otherwise the frame is sent.\<close>

definition maybe_send_frame ::
  "alloc \<Rightarrow> (nat \<times> nat) list \<Rightarrow> rd_buf list \<Rightarrow> nat \<Rightarrow> frame option \<Rightarrow> u64 \<Rightarrow> server \<Rightarrow> server" where
  "maybe_send_frame al sched bufs i fp now s =
     (case fp of
        None \<Rightarrow> s
      | Some f \<Rightarrow>
          (let s = resize_shadow al i f s;
               changed = frame_changed f (sv_conn s i);
               s = (if changed then on_conn i (\<lambda>c. c\<lparr>c_last_change_us := now\<rparr>) s else s);
               c = sv_conn s i;
               fps = max 1 (min (c_fps c) (c_eff_fps c))
           in if \<not> changed \<and> \<not> c_need_full c \<and> \<not> (wants_refine c \<and> settled now c) then s
              else if now - c_last_frame_us c < kSecond div word_of_int fps then s
              else if c_frame_id c - c_acked c \<ge> kMaxFramesInFlight \<or> conn_pending c > of_nat kMaxPendingOut
              then (if conn_pending c > 0 \<and> changed then on_conn i (\<lambda>c. c\<lparr>c_stalls := c_stalls c + 1\<rparr>) s else s)
              else send_frame al sched bufs i f now s))"

definition congested :: "conn \<Rightarrow> bool" where
  "congested c \<longleftrightarrow> c_stalls c > 2 \<and> c_stalls c * 2 > c_sends c"

definition adapt_quality :: "u64 \<Rightarrow> conn \<Rightarrow> conn" where
  "adapt_quality now c =
     (if now - c_adapt_window_us c < kSecond then c
      else
        let c = (if congested c then
                   (let c = c\<lparr>c_clean_windows := 0\<rparr>
                    in if c_eff_fps c > 10 then c\<lparr>c_eff_fps := max 10 (c_eff_fps c div 2)\<rparr>
                       else if c_quality_setting c = 255 \<and> c_quality c < 2 then c\<lparr>c_quality := c_quality c + 1\<rparr> else c)
                 else if c_stalls c = 0 then
                   (let c = c\<lparr>c_clean_windows := c_clean_windows c + 1\<rparr>
                    in if c_clean_windows c \<ge> 2 then
                         (let c = c\<lparr>c_clean_windows := 0\<rparr>
                          in if c_quality_setting c = 255 \<and> c_quality c > 0 then c\<lparr>c_quality := c_quality c - 1\<rparr>
                             else if c_eff_fps c < c_fps c then c\<lparr>c_eff_fps := min (c_fps c) (c_eff_fps c * 2)\<rparr> else c)
                       else c)
                 else c\<lparr>c_clean_windows := 0\<rparr>)
        in c\<lparr>c_stalls := 0, c_sends := 0, c_adapt_window_us := now\<rparr>)"

text \<open>\<open>scheds\<close> gives each viewer's encoder run.\<close>

definition pump_frames :: "alloc \<Rightarrow> (nat \<Rightarrow> (nat \<times> nat) list) \<Rightarrow> rd_buf list \<Rightarrow> server \<Rightarrow> server" where
  "pump_frames al scheds bufs s =
     (let f = pl_latest (sv_plat s); now = sv_now s
      in fold (\<lambda>j s. if c_dead (sv_conn s j) \<or> c_state (sv_conn s j) \<noteq> Active then s
           else on_conn j (adapt_quality now) (maybe_send_frame al (scheds j) bufs j f now s)) (sv_conns s) s)"

definition poll_clipboard :: "alloc \<Rightarrow> server \<Rightarrow> server" where
  "poll_clipboard al s =
     (let now = sv_now s
      in if now < sv_next_clip_poll_us s then s
         else
           let s = s\<lparr>sv_next_clip_poll_us := now + 400000\<rparr>; cc = pl_clip_count (sv_plat s)
           in if cc = sv_clip_count s then s
              else
                let s = s\<lparr>sv_clip_count := cc\<rparr>
                in case pl_clip_text (sv_plat s) of
                     None \<Rightarrow> s
                   | Some txt \<Rightarrow>
                       if txt = sv_last_clip s \<or> length txt > RD_MAX_CLIPBOARD then s
                       else broadcast al (rd_buf_put_blob al (start_msg al RD_S_CLIPBOARD) txt) None True
                              (s\<lparr>sv_last_clip := txt\<rparr>))"

end
