(* ===== verification/Server_Net.thy ===== *)
theory Server_Net
  imports Server_Session
begin

text \<open>
  The network side of \<open>host/server.cpp\<close>: the HTTP front end, WebSocket messages, the link to the
  relay, sockets, the operator console, and one round of the main loop.
\<close>

section \<open>HTTP\<close>

definition response_header :: "int \<Rightarrow> bytes \<Rightarrow> bytes \<Rightarrow> bytes \<Rightarrow> bytes" where
  "response_header code status type body =
     bytes_of ''HTTP/1.1 '' @ std_to_string code @ bytes_of '' '' @ status @ CRLF @
     bytes_of ''Server: TetherDesk'' @ CRLF @
     bytes_of ''Content-Type: '' @ type @ CRLF @
     bytes_of ''Content-Length: '' @ std_to_string (int (length body)) @ CRLF @
     bytes_of ''Cache-Control: no-cache'' @ CRLF @
     bytes_of ''X-Content-Type-Options: nosniff'' @ CRLF @ bytes_of ''Connection: close'' @ CRLF @ CRLF"

text \<open>Every header the server forms fits its 512-byte array, see \<open>response_header_fits\<close>.\<close>

definition http_response :: "alloc \<Rightarrow> nat \<Rightarrow> int \<Rightarrow> bytes \<Rightarrow> bytes \<Rightarrow> bytes \<Rightarrow> server \<Rightarrow> server" where
  "http_response al i code status type body s =
     on_conn i (\<lambda>c. c\<lparr>c_out := rd_buf_put al (rd_buf_put al (c_out c) (response_header code status type body)) body,
       c_close_after_flush := True\<rparr>) s"

definition plain_response :: "alloc \<Rightarrow> nat \<Rightarrow> int \<Rightarrow> string \<Rightarrow> string \<Rightarrow> server \<Rightarrow> server" where
  "plain_response al i code status body s =
     http_response al i code (bytes_of status) (bytes_of ''text/plain'') (bytes_of body @ [10]) s"

definition kFallbackPage :: bytes where
  "kFallbackPage =
     bytes_of ''<!doctype html><meta charset=utf-8><title>TetherDesk</title>'' @
     bytes_of ''<body style='' @ [34] @ bytes_of ''font:16px system-ui;max-width:640px;margin:60px auto;padding:0 16px'' @ [34, 62] @
     bytes_of ''<h1>TetherDesk host is running</h1>'' @
     bytes_of ''<p>The web viewer has not been built, so there is nothing to serve here yet.</p>'' @
     bytes_of ''<p>Build it with <code>./build.sh web</code> (needs Emscripten), or connect with the native '' @
     bytes_of ''<code>tetherdesk</code> viewer.</p></body>''"

definition serve_file :: "alloc \<Rightarrow> nat \<Rightarrow> bytes \<Rightarrow> server \<Rightarrow> server" where
  "serve_file al i target s =
     (let path = before (find_first_of [63, 35] target) target;
          path = (if path = [] \<or> path = bytes_of ''/'' then bytes_of ''/index.html'' else path)
      in if path ! 0 \<noteq> 47 \<or> find_str (bytes_of ''..'') path \<noteq> None \<or> find_char 92 path \<noteq> None \<or> find_char 37 path \<noteq> None
         then plain_response al i 400 ''Bad Request'' ''bad path'' s
         else case (if cfg_web_root (sv_cfg s) = [] then None else sv_fs s (c_str (cfg_web_root (sv_cfg s) @ path))) of
           Some body \<Rightarrow> http_response al i 200 (bytes_of ''OK'') (mime_type path) body s
         | None \<Rightarrow> if path = bytes_of ''/index.html''
             then http_response al i 200 (bytes_of ''OK'') (bytes_of ''text/html; charset=utf-8'') kFallbackPage s
             else plain_response al i 404 ''Not Found'' ''not found'' s)"

text \<open>A HEAD request: everything behind the first header in the queue is dropped.\<close>

definition drop_body :: "conn \<Rightarrow> conn" where
  "drop_body c = (case find_blank_line (c_str (rb_data (c_out c))) of
     None \<Rightarrow> c | Some k \<Rightarrow> c\<lparr>c_out := (c_out c)\<lparr>rb_data := take (k + 4) (rb_data (c_out c))\<rparr>\<rparr>)"

text \<open>What a request asks for.\<close>

datatype http_request = BadUpgrade | Upgrade bytes | BadMethod | GetFile bytes bool

definition parse_request :: "bytes \<Rightarrow> http_request" where
  "parse_request req =
     (let eol = the (find_str CRLF req);
          (method, rest) = read_token (take eol req);
          (target, _) = read_token rest;
          headers = drop (eol + 2) req;
          upgrade = map tolower (case rd_http_header headers (bytes_of ''Upgrade'') 64 of None \<Rightarrow> [] | Some v \<Rightarrow> v)
      in if find_str (bytes_of ''websocket'') upgrade \<noteq> None
         then case (if method = bytes_of ''GET'' then rd_http_header headers (bytes_of ''Sec-WebSocket-Key'') 128 else None) of
                None \<Rightarrow> BadUpgrade
              | Some key \<Rightarrow> if rd_http_header headers (bytes_of ''Sec-WebSocket-Version'') 16 = Some (bytes_of ''13'')
                  then Upgrade key else BadUpgrade
         else if method \<noteq> bytes_of ''GET'' \<and> method \<noteq> bytes_of ''HEAD'' then BadMethod
         else GetFile target (method = bytes_of ''HEAD''))"

section \<open>WebSocket messages\<close>

text \<open>The request that opens a connection through the relay.\<close>

definition relay_request :: "config \<Rightarrow> bool \<Rightarrow> bytes \<Rightarrow> bytes \<Rightarrow> bytes" where
  "relay_request cfg control ticket key =
     (let path = (if control then bytes_of ''/host?id='' @ cfg_relay_id cfg @ bytes_of ''&key='' @ cfg_relay_key cfg
            else bytes_of ''/data?id='' @ cfg_relay_id cfg @ bytes_of ''&key='' @ cfg_relay_key cfg @ bytes_of ''&ticket='' @ ticket)
      in bytes_of ''GET '' @ path @ bytes_of '' HTTP/1.1'' @ CRLF @ bytes_of ''Host: '' @ cfg_relay_host cfg @
         CRLF @ bytes_of ''Upgrade: websocket'' @ CRLF @ bytes_of ''Connection: Upgrade'' @ CRLF @
         bytes_of ''Sec-WebSocket-Key: '' @ key @ CRLF @ bytes_of ''Sec-WebSocket-Version: 13'' @ CRLF @
         bytes_of ''User-Agent: TetherDesk-Host'' @ CRLF @ CRLF)"

definition back_off :: "server \<Rightarrow> server" where
  "back_off s = s\<lparr>sv_relay_next_us := sv_now s + sv_relay_backoff_us s,
     sv_relay_backoff_us := (let b = sv_relay_backoff_us s * 2 in if 30 * kSecond < b then 30 * kSecond else b)\<rparr>"

definition open_relay_conn :: "alloc \<Rightarrow> bool \<Rightarrow> bytes \<Rightarrow> bytes \<Rightarrow> server \<Rightarrow> server" where
  "open_relay_conn al control ticket viewer_ip s =
     (if \<not> sv_can_connect s then (if control then back_off s else s)
      else
        let addr = (if control then bytes_of ''relay''
              else (if viewer_ip = [] then bytes_of ''relay'' else viewer_ip) @ bytes_of '' (via relay)'');
            (raw, s) = draw 16 s;
            key = rd_base64 (case raw of None \<Rightarrow> replicate 16 0 | Some r \<Rightarrow> r);
            c = new_conn addr (sv_now s);
            c = c\<lparr>c_last_ping_us := sv_now s, c_client_ws := True, c_relay_ctl := control, c_tcp_pending := True,
                  c_state := RelayUpgrade, c_ws := (c_ws c)\<lparr>wr_expect_masked := False, wr_max_message := RD_MAX_CLIENT_MSG\<rparr>,
                  c_ws_accept := rd_ws_accept_key key,
                  c_out := rd_buf_put al (c_out c) (relay_request (sv_cfg s) control ticket key)\<rparr>;
            j = sv_fresh s
        in s\<lparr>sv_conn := (sv_conn s)(j := c), sv_conns := sv_conns s @ [j], sv_fresh := Suc j,
             sv_relay_ctl := (if control then Some j else sv_relay_ctl s)\<rparr>)"

text \<open>The command \<open>open TICKET VIEWER_IP\<close> of the relay.\<close>

definition relay_command :: "alloc \<Rightarrow> nat \<Rightarrow> bytes \<Rightarrow> server \<Rightarrow> server" where
  "relay_command al i p s =
     (if c_state (sv_conn s i) = RelayCtl \<and> 5 < length p \<and> length p < 256 \<and> take 5 p = bytes_of ''open ''
      then
        let cmd = drop 5 p; sp = find_char 32 cmd;
            ticket = before sp cmd; ip = (case sp of None \<Rightarrow> [] | Some k \<Rightarrow> drop (k + 1) cmd);
            relayed = length (filter (\<lambda>j. c_client_ws (sv_conn s j) \<and> \<not> c_relay_ctl (sv_conn s j) \<and> \<not> c_dead (sv_conn s j))
              (sv_conns s))
        in if int relayed < cfg_max_viewers (sv_cfg s) * 2 then open_relay_conn al False ticket ip s else s
      else s)"

text \<open>
  The loop of \<open>handle_ws_messages\<close>, with the return code of the last \<open>rd_ws_next\<close>: \<open>None\<close> when it was
  never called, so that \<open>rc\<close> is not initialised. The fuel is the number of bytes there are; every
  message takes at least two of them.
\<close>

primrec ws_messages_loop :: "alloc \<Rightarrow> nat \<Rightarrow> nat \<Rightarrow> int option \<Rightarrow> server \<Rightarrow> int option \<times> server" where
  "ws_messages_loop al i 0 rc s = (rc, s)"
| "ws_messages_loop al i (Suc n) rc s =
     (let c = sv_conn s i
      in if c_dead c \<or> c_state c = Closing then (rc, s)
         else case rd_ws_next al (c_ws c) (c_in c) of (res, r, b) \<Rightarrow>
           (let s = on_conn i (\<lambda>c. c\<lparr>c_ws := r, c_in := b\<rparr>) s
            in case res of
                 WsMore \<Rightarrow> (Some 0, s)
               | WsError \<Rightarrow> (Some (-1), s)
               | WsMsg opcode p \<Rightarrow>
                   if opcode = RD_WS_CLOSE then
                     (Some 1, on_conn i (\<lambda>c. c\<lparr>c_state := Closing, c_close_after_flush := True\<rparr>)
                       (ws_frame_to al i RD_WS_CLOSE (take (min (length p) 2) p) s))
                   else ws_messages_loop al i n (Some 1)
                     (if opcode = RD_WS_BINARY then handle_message al i p s
                      else if opcode = RD_WS_PING then ws_frame_to al i RD_WS_PONG p s
                      else if opcode = RD_WS_TEXT then relay_command al i p s
                      else s)))"

definition handle_ws_messages :: "alloc \<Rightarrow> nat \<Rightarrow> server \<Rightarrow> server" where
  "handle_ws_messages al i s =
     (case ws_messages_loop al i (Suc (rb_len (c_in (sv_conn s i)))) None s of
        (rc, s) \<Rightarrow> if (case rc of None \<Rightarrow> sv_junk s | Some v \<Rightarrow> v) < 0 then close_conn i s else s)"

definition accept_upgrade :: "alloc \<Rightarrow> nat \<Rightarrow> bytes \<Rightarrow> server \<Rightarrow> server" where
  "accept_upgrade al i key s =
     (let s = on_conn i (\<lambda>c. c\<lparr>c_out := rd_buf_put al (c_out c)
            (bytes_of ''HTTP/1.1 101 Switching Protocols'' @ CRLF @ bytes_of ''Upgrade: websocket'' @ CRLF @
             bytes_of ''Connection: Upgrade'' @ CRLF @ bytes_of ''Sec-WebSocket-Accept: '' @ rd_ws_accept_key key @ CRLF @ CRLF),
            c_state := Hello, c_ws := (c_ws c)\<lparr>wr_max_message := RD_MAX_CLIENT_MSG\<rparr>\<rparr>) s
      in if rb_len (c_in (sv_conn s i)) \<noteq> 0 then handle_ws_messages al i s else s)"

definition handle_http :: "alloc \<Rightarrow> nat \<Rightarrow> server \<Rightarrow> server" where
  "handle_http al i s =
     (let d = rb_data (c_in (sv_conn s i))
      in case find_blank_line d of
           None \<Rightarrow> if length d > 16384 then plain_response al i 431 ''Request Header Fields Too Large'' ''too large'' s else s
         | Some e \<Rightarrow>
             (let s = on_conn i (\<lambda>c. c\<lparr>c_in := rd_buf_consume (c_in c) (e + 4)\<rparr>) s
              in case parse_request (take (e + 2) d) of
                   BadUpgrade \<Rightarrow> plain_response al i 400 ''Bad Request'' ''bad websocket handshake'' s
                 | Upgrade key \<Rightarrow> accept_upgrade al i key s
                 | BadMethod \<Rightarrow> plain_response al i 405 ''Method Not Allowed'' ''method not allowed'' s
                 | GetFile target head \<Rightarrow>
                     (let s = serve_file al i target s in if head then on_conn i drop_body s else s)))"

definition finish_relay_upgrade :: "alloc \<Rightarrow> nat \<Rightarrow> server \<Rightarrow> server" where
  "finish_relay_upgrade al i s =
     (let d = rb_data (c_in (sv_conn s i));
          e = (case find_blank_line d of None \<Rightarrow> 0 | Some k \<Rightarrow> k)
      in if e = 0 then (if length d > 16384 then close_conn i s else s)
         else
           let resp = take (e + 2) d;
               s = on_conn i (\<lambda>c. c\<lparr>c_in := rd_buf_consume (c_in c) (e + 4)\<rparr>) s;
               headers = drop (the (find_str CRLF resp) + 2) resp
           in if take 12 resp \<noteq> bytes_of ''HTTP/1.1 101'' \<or>
                 rd_http_header headers (bytes_of ''Sec-WebSocket-Accept'') 64 \<noteq> Some (c_ws_accept (sv_conn s i))
              then close_conn i s
              else
                let s = (if c_relay_ctl (sv_conn s i)
                      then (on_conn i (\<lambda>c. c\<lparr>c_state := RelayCtl\<rparr>) s)\<lparr>sv_relay_online := True, sv_relay_backoff_us := 2 * kSecond\<rparr>
                      else on_conn i (\<lambda>c. c\<lparr>c_state := Hello\<rparr>) s)
                in if rb_len (c_in (sv_conn s i)) \<noteq> 0 then handle_ws_messages al i s else s)"

section \<open>Sockets\<close>

text \<open>What receiving returns, call after call; data is at most 65536 bytes and not empty.\<close>

datatype rx = RxData bytes | RxBlock | RxClosed

text \<open>The result: the connection was closed, or so many bytes arrived.\<close>

fun recv_loop :: "alloc \<Rightarrow> nat \<Rightarrow> nat \<Rightarrow> rx list \<Rightarrow> server \<Rightarrow> nat option \<times> server" where
  "recv_loop al i n (r # rs) s =
     (if n < 4194304 then
        (case r of
           RxClosed \<Rightarrow> (None, close_conn i s)
         | RxBlock \<Rightarrow> (Some n, s)
         | RxData d \<Rightarrow> recv_loop al i (n + length d) rs (on_conn i (\<lambda>c. c\<lparr>c_in := rd_buf_put al (c_in c) d\<rparr>) s))
      else (Some n, s))"
| "recv_loop al i n [] s = (Some n, s)"

definition read_conn :: "alloc \<Rightarrow> nat \<Rightarrow> rx list \<Rightarrow> server \<Rightarrow> server" where
  "read_conn al i rs s =
     (case recv_loop al i 0 rs s of (got, s) \<Rightarrow>
       (if got = None \<or> got = Some 0 then s
        else
          let s = on_conn i (\<lambda>c. c\<lparr>c_last_rx_us := sv_now s\<rparr>) s
          in case c_state (sv_conn s i) of
               Http \<Rightarrow> handle_http al i s
             | RelayUpgrade \<Rightarrow> finish_relay_upgrade al i s
             | _ \<Rightarrow> handle_ws_messages al i s))"

text \<open>\<open>tx\<close>: how many bytes the socket takes, call after call, \<open>None\<close> for an error.\<close>

fun send_loop :: "nat option list \<Rightarrow> conn \<Rightarrow> bool \<times> conn" where
  "send_loop (t # ts) c =
     (if conn_pending c = 0 then (False, c)
      else case t of None \<Rightarrow> (True, c)
        | Some n \<Rightarrow> if n = 0 then (False, c)
            else let k = min n (unat (conn_pending c))
                 in send_loop ts (c\<lparr>c_out_off := c_out_off c + k, c_bytes_sent := c_bytes_sent c + of_nat k\<rparr>))"
| "send_loop [] c = (False, c)"

definition flush_conn :: "nat option list \<Rightarrow> conn \<Rightarrow> conn" where
  "flush_conn tx c =
     (if c_tcp_pending c \<or> c_tls_handshaking c then c
      else case send_loop tx c of (failed, c) \<Rightarrow>
        if failed then c\<lparr>c_dead := True\<rparr>
        else if conn_pending c = 0 then
          (let c = c\<lparr>c_out := rd_buf_clear (c_out c), c_out_off := 0\<rparr>
           in if c_close_after_flush c then c\<lparr>c_dead := True\<rparr> else c)
        else if c_out_off c > 1048576 \<and> c_out_off c > rb_len (c_out c) div 2
        then c\<lparr>c_out := rd_buf_consume (c_out c) (c_out_off c), c_out_off := 0\<rparr> else c)"

definition flush :: "nat \<Rightarrow> nat option list \<Rightarrow> server \<Rightarrow> server" where
  "flush i tx s = on_conn i (flush_conn tx) s"

definition accept_conn :: "bytes \<Rightarrow> server \<Rightarrow> server" where
  "accept_conn addr s =
     (if int (length (sv_conns s)) \<ge> cfg_max_viewers (sv_cfg s) * 2 + 16 then s
      else s\<lparr>sv_conn := (sv_conn s)(sv_fresh s := new_conn addr (sv_now s)), sv_conns := sv_conns s @ [sv_fresh s],
             sv_fresh := Suc (sv_fresh s)\<rparr>)"

definition maintain_relay :: "alloc \<Rightarrow> server \<Rightarrow> server" where
  "maintain_relay al s =
     (if cfg_relay_host (sv_cfg s) = [] \<or> sv_relay_ctl s \<noteq> None \<or> sv_now s < sv_relay_next_us s then s
      else open_relay_conn al True [] [] s)"

section \<open>Console\<close>

definition find_viewer :: "bytes \<Rightarrow> server \<Rightarrow> nat option" where
  "find_viewer name s =
     find (\<lambda>j. is_active s j \<and> (c_name (sv_conn s j) = name \<or> std_to_string (uint (c_id (sv_conn s j))) = name)) (sv_conns s)"

definition kick :: "alloc \<Rightarrow> nat \<Rightarrow> server \<Rightarrow> server" where
  "kick al i s =
     on_conn i (\<lambda>c. c\<lparr>c_close_after_flush := True, c_state := Closing\<rparr>)
       (send_msg al i (rd_buf_put_str al (start_msg al RD_S_NOTICE) (Some (bytes_of ''The host disconnected you''))) s)"

definition toggle_view_only :: "alloc \<Rightarrow> nat \<Rightarrow> server \<Rightarrow> server" where
  "toggle_view_only al i s =
     (let s = on_conn i (\<lambda>c. c\<lparr>c_view_only := \<not> c_view_only c\<rparr>) s; c = sv_conn s i; vo = c_view_only c;
          s = (if vo \<and> c_sent_input c then on_plat (\<lambda>p. p\<lparr>pl_input := pl_input p @ [ReleaseAll]\<rparr>) s else s);
          s = send_msg al i (auth_result al 1 (if vo then 1 else 0)
                (if vo then bytes_of ''The host made you view-only'' else bytes_of ''The host gave you control'')) s
      in broadcast_viewers al s)"

text \<open>What the console prints (\<open>/help\<close>, \<open>/list\<close>, errors) is left out.\<close>

definition handle_console_line :: "alloc \<Rightarrow> bytes \<Rightarrow> server \<Rightarrow> server" where
  "handle_console_line al raw s =
     (let line = clean_text raw 1000
      in if line = [] then s
         else
           let sp = find_char 32 line; cmd = before sp line;
               arg = (case sp of None \<Rightarrow> [] | Some k \<Rightarrow> drop (k + 1) line)
           in if cmd = bytes_of ''/help'' \<or> cmd = bytes_of ''/list'' then s
              else if cmd = bytes_of ''/kick'' \<or> cmd = bytes_of ''/viewonly'' then
                (case find_viewer arg s of None \<Rightarrow> s
                   | Some j \<Rightarrow> if cmd = bytes_of ''/kick'' then kick al j s else toggle_view_only al j s)
              else if cmd = bytes_of ''/password'' then
                (if length arg < 4 then s else s\<lparr>sv_cfg := (sv_cfg s)\<lparr>cfg_password := arg\<rparr>\<rparr>)
              else if cmd = bytes_of ''/quit'' then s\<lparr>sv_stop := True\<rparr>
              else if cmd ! 0 = 47 then s
              else broadcast al (rd_buf_put_str al (rd_buf_put_str al (start_msg al RD_S_CHAT)
                     (Some (bytes_of ''Host''))) (Some line)) None False s)"

text \<open>Complete lines are taken out of what was typed.\<close>

function console_input :: "alloc \<Rightarrow> bytes \<Rightarrow> server \<Rightarrow> server" where
  "console_input al buf s =
     (case find_char 10 buf of
        None \<Rightarrow> s\<lparr>sv_console_buf := buf\<rparr>
      | Some nl \<Rightarrow> console_input al (drop (nl + 1) buf) (handle_console_line al (take nl buf) s))"
  by pat_completeness auto
termination
  by (relation "measure (\<lambda>(al, buf, s). length buf)") (auto simp: find_char_def dest: find_if_Some(1))

declare console_input.simps [simp del]

section \<open>The main loop\<close>

text \<open>
  What the system reports in one round: the clock, console input, per connection the readiness, the
  result of a pending connect, whether TLS can be set up and the result of a handshake step, and the
  results of receiving and of every flush.
\<close>

record round =
  rn_now :: u64
  rn_console :: bytes
  rn_in :: "nat \<Rightarrow> bool"
  rn_out :: "nat \<Rightarrow> bool"
  rn_err :: "nat \<Rightarrow> bool"
  rn_connect_error :: "nat \<Rightarrow> int"
  rn_tls_ok :: "nat \<Rightarrow> bool"
  rn_handshake :: "nat \<Rightarrow> int"
  rn_rx :: "nat \<Rightarrow> rx list"
  rn_tx_connect :: "nat \<Rightarrow> nat option list"
  rn_tx_tls :: "nat \<Rightarrow> nat option list"
  rn_tx :: "nat \<Rightarrow> nat option list"
  rn_tx2 :: "nat \<Rightarrow> nat option list"
  rn_accepted :: "bytes list"
  rn_sched :: "nat \<Rightarrow> (nat \<times> nat) list"
  rn_bufs :: "rd_buf list"

text \<open>A connect in progress: \<open>True\<close> when the rest of the connection's turn is skipped.\<close>

definition finish_connect :: "round \<Rightarrow> nat \<Rightarrow> server \<Rightarrow> bool \<times> server" where
  "finish_connect e i s =
     (if \<not> c_tcp_pending (sv_conn s i) then (False, s)
      else if \<not> (rn_out e i \<or> rn_err e i) then (True, s)
      else if rn_connect_error e i \<noteq> 0 then (True, close_conn i s)
      else
        let s = on_conn i (\<lambda>c. c\<lparr>c_tcp_pending := False\<rparr>) s
        in if cfg_relay_port (sv_cfg s) = 443
           then if \<not> rn_tls_ok e i then (True, close_conn i s)
                else (False, flush i (rn_tx_connect e i) (on_conn i (\<lambda>c. c\<lparr>c_tls := True, c_tls_handshaking := True\<rparr>) s))
           else (False, flush i (rn_tx_connect e i) s))"

definition finish_tls :: "round \<Rightarrow> nat \<Rightarrow> server \<Rightarrow> bool \<times> server" where
  "finish_tls e i s =
     (if \<not> c_tls_handshaking (sv_conn s i) then (False, s)
      else if rn_handshake e i < 0 then (True, close_conn i s)
      else if rn_handshake e i > 0 then (True, s)
      else (False, flush i (rn_tx_tls e i) (on_conn i (\<lambda>c. c\<lparr>c_tls_handshaking := False\<rparr>) s)))"

definition serve_conn :: "alloc \<Rightarrow> round \<Rightarrow> nat \<Rightarrow> server \<Rightarrow> server" where
  "serve_conn al e i s =
     (case finish_connect e i s of (skip, s) \<Rightarrow>
        if skip then s
        else case finish_tls e i s of (skip, s) \<Rightarrow>
          if skip then s
          else
            let s = (if rn_in e i \<or> rn_err e i then read_conn al i (rn_rx e i) s else s)
            in if rn_out e i \<and> \<not> c_dead (sv_conn s i) then flush i (rn_tx e i) s else s)"

definition timer_conn :: "alloc \<Rightarrow> nat \<Rightarrow> server \<Rightarrow> server" where
  "timer_conn al i s =
     (let c = sv_conn s i; now = sv_now s
      in if c_dead c then s
         else if c_state c = RelayCtl then
           (if now - c_last_rx_us c > 70 * kSecond then close_conn i s
            else if now - c_last_ping_us c > 25 * kSecond
            then ws_frame_to al i RD_WS_PING (bytes_of ''td'') (on_conn i (\<lambda>c. c\<lparr>c_last_ping_us := now\<rparr>) s)
            else s)
         else if c_state c \<noteq> Active \<and> now - c_created_us c > 120 * kSecond then close_conn i s
         else if c_state c = Active \<and> now - c_last_rx_us c > 45 * kSecond then close_conn i s
         else s)"

text \<open>A dead connection: its unfinished uploads are removed, held keys released, the relay link retried.\<close>

definition bury :: "nat \<Rightarrow> server \<Rightarrow> server" where
  "bury i s =
     (if \<not> c_dead (sv_conn s i) then s
      else
        let c = sv_conn s i;
            s = s\<lparr>sv_fs := fold (\<lambda>u fs. fs(up_path (snd u) := None)) (c_uploads c) (sv_fs s)\<rparr>;
            s = (if c_sent_input c then on_plat (\<lambda>p. p\<lparr>pl_input := pl_input p @ [ReleaseAll]\<rparr>) s else s)
        in if sv_relay_ctl s = Some i then back_off (s\<lparr>sv_relay_ctl := None, sv_relay_online := False\<rparr>) else s)"

definition left_names :: "server \<Rightarrow> bytes list" where
  "left_names s = map (\<lambda>i. c_name (sv_conn s i))
     (filter (\<lambda>i. c_dead (sv_conn s i) \<and> (c_state (sv_conn s i) = Active \<or> c_state (sv_conn s i) = Closing) \<and>
        c_name (sv_conn s i) \<noteq> []) (sv_conns s))"

definition reap :: "alloc \<Rightarrow> server \<Rightarrow> server" where
  "reap al s =
     (let left = left_names s;
          s = fold bury (sv_conns s) s;
          s = s\<lparr>sv_conns := filter (\<lambda>i. \<not> c_dead (sv_conn s i)) (sv_conns s)\<rparr>
      in if left = [] then s
         else fold (\<lambda>n s. notice al (n @ bytes_of '' disconnected'') None s) left (broadcast_viewers al s))"

definition server_round :: "alloc \<Rightarrow> round \<Rightarrow> server \<Rightarrow> server" where
  "server_round al e s =
     (let s = s\<lparr>sv_now := rn_now e\<rparr>; polled = sv_conns s;
          s = (if rn_console e = [] then s else console_input al (sv_console_buf s @ rn_console e) s);
          s = fold (serve_conn al e) polled s;
          s = fold accept_conn (rn_accepted e) s;
          s = fold (timer_conn al) (sv_conns s) s;
          s = pump_frames al (rn_sched e) (rn_bufs e) s;
          s = poll_clipboard al s;
          s = fold (\<lambda>i s. if c_dead (sv_conn s i) then s else flush i (rn_tx2 e i) s) (sv_conns s) s
      in maintain_relay al (reap al s))"

end
