(* ===== verification/Server_Inv.thy ===== *)
theory Server_Inv
  imports Server_Net
begin

text \<open>
  The host server's invariant: the limits it promises (viewers, frames in flight, frame rates and
  quality, uploads) hold through every message, every console command and every round of its loop.
\<close>


section \<open>Quiet operations\<close>

text \<open>
  Sending only queues bytes: it changes the queues and channels of connections and the position in
  the random stream, and nothing else of the server.
\<close>

definition blank :: "conn \<Rightarrow> conn" where
  "blank c = c\<lparr>c_out := rd_buf_init, c_ch := (c_ch c)\<lparr>send_ctr := 0\<rparr>\<rparr>"

definition quiet :: "server \<Rightarrow> server \<Rightarrow> bool" where
  "quiet s t \<longleftrightarrow> t\<lparr>sv_conn := sv_conn s, sv_random := sv_random s\<rparr> = s \<and>
     (\<forall>j. blank (sv_conn t j) = blank (sv_conn s j))"

named_theorems quiet_intros \<open>operations that only send\<close>

lemma quiet_refl [quiet_intros]: "quiet s s"
  by (simp add: quiet_def)

lemma quiet_trans:
  assumes "quiet s t" "quiet t u"
  shows "quiet s u"
proof -
  have "u\<lparr>sv_conn := sv_conn s, sv_random := sv_random s\<rparr> =
      (u\<lparr>sv_conn := sv_conn t, sv_random := sv_random t\<rparr>)\<lparr>sv_conn := sv_conn s, sv_random := sv_random s\<rparr>"
    by simp
  also have "\<dots> = s" using assms by (simp only: quiet_def)
  finally show ?thesis using assms by (simp add: quiet_def)
qed

lemma on_conn_simps [simp]:
  "sv_conn (on_conn i f s) j = (if j = i then f (sv_conn s i) else sv_conn s j)"
  "sv_conns (on_conn i f s) = sv_conns s" "sv_cfg (on_conn i f s) = sv_cfg s" "sv_fresh (on_conn i f s) = sv_fresh s"
  "sv_plat (on_conn i f s) = sv_plat s" "sv_failures (on_conn i f s) = sv_failures s"
  "sv_recent_failures (on_conn i f s) = sv_recent_failures s" "sv_fs (on_conn i f s) = sv_fs s"
  "sv_now (on_conn i f s) = sv_now s" "sv_displays (on_conn i f s) = sv_displays s"
  "sv_junk (on_conn i f s) = sv_junk s"
  by (simp_all add: on_conn_def)

lemma quiet_fields:
  assumes "quiet s t"
  shows "sv_cfg t = sv_cfg s" "sv_plat t = sv_plat s" "sv_conns t = sv_conns s" "sv_fresh t = sv_fresh s"
    "sv_failures t = sv_failures s" "sv_recent_failures t = sv_recent_failures s" "sv_fs t = sv_fs s"
    "sv_now t = sv_now s" "sv_displays t = sv_displays s" "sv_junk t = sv_junk s" "sv_next_id t = sv_next_id s"
    "sv_disk_free t = sv_disk_free s" "sv_can_create t = sv_can_create s"
proof -
  have e: "t\<lparr>sv_conn := sv_conn s, sv_random := sv_random s\<rparr> = s" using assms by (simp add: quiet_def)
  show "sv_cfg t = sv_cfg s" "sv_plat t = sv_plat s" "sv_conns t = sv_conns s" "sv_fresh t = sv_fresh s"
    "sv_failures t = sv_failures s" "sv_recent_failures t = sv_recent_failures s" "sv_fs t = sv_fs s"
    "sv_now t = sv_now s" "sv_displays t = sv_displays s" "sv_junk t = sv_junk s" "sv_next_id t = sv_next_id s"
    "sv_disk_free t = sv_disk_free s" "sv_can_create t = sv_can_create s"
    using arg_cong [OF e, of sv_cfg] arg_cong [OF e, of sv_plat] arg_cong [OF e, of sv_conns] arg_cong [OF e, of sv_fresh] arg_cong [OF e, of sv_failures] arg_cong [OF e, of sv_recent_failures] arg_cong [OF e, of sv_fs] arg_cong [OF e, of sv_now] arg_cong [OF e, of sv_displays] arg_cong [OF e, of sv_junk] arg_cong [OF e, of sv_next_id] arg_cong [OF e, of sv_disk_free] arg_cong [OF e, of sv_can_create]
    by simp_all
qed

lemma quiet_conn:
  assumes "quiet s t"
  shows "c_state (sv_conn t j) = c_state (sv_conn s j)" "c_dead (sv_conn t j) = c_dead (sv_conn s j)"
    "c_view_only (sv_conn t j) = c_view_only (sv_conn s j)" "c_uploads (sv_conn t j) = c_uploads (sv_conn s j)"
    "c_name (sv_conn t j) = c_name (sv_conn s j)" "c_addr (sv_conn t j) = c_addr (sv_conn s j)"
    "c_transcript (sv_conn t j) = c_transcript (sv_conn s j)" "c_in (sv_conn t j) = c_in (sv_conn s j)"
    "c_frame_id (sv_conn t j) = c_frame_id (sv_conn s j)" "c_acked (sv_conn t j) = c_acked (sv_conn s j)"
    "c_quality (sv_conn t j) = c_quality (sv_conn s j)" "c_eff_fps (sv_conn t j) = c_eff_fps (sv_conn s j)"
    "c_fps (sv_conn t j) = c_fps (sv_conn s j)" "c_close_after_flush (sv_conn t j) = c_close_after_flush (sv_conn s j)"
    "c_last_seq (sv_conn t j) = c_last_seq (sv_conn s j)"
    "ch_active (c_ch (sv_conn t j)) = ch_active (c_ch (sv_conn s j))" "c_need_full (sv_conn t j) = c_need_full (sv_conn s j)"
proof -
  have e: "blank (sv_conn t j) = blank (sv_conn s j)" using assms by (simp add: quiet_def)
  show "c_state (sv_conn t j) = c_state (sv_conn s j)" "c_dead (sv_conn t j) = c_dead (sv_conn s j)"
    "c_view_only (sv_conn t j) = c_view_only (sv_conn s j)" "c_uploads (sv_conn t j) = c_uploads (sv_conn s j)"
    "c_name (sv_conn t j) = c_name (sv_conn s j)" "c_addr (sv_conn t j) = c_addr (sv_conn s j)"
    "c_transcript (sv_conn t j) = c_transcript (sv_conn s j)" "c_in (sv_conn t j) = c_in (sv_conn s j)"
    "c_frame_id (sv_conn t j) = c_frame_id (sv_conn s j)" "c_acked (sv_conn t j) = c_acked (sv_conn s j)"
    "c_quality (sv_conn t j) = c_quality (sv_conn s j)" "c_eff_fps (sv_conn t j) = c_eff_fps (sv_conn s j)"
    "c_fps (sv_conn t j) = c_fps (sv_conn s j)" "c_close_after_flush (sv_conn t j) = c_close_after_flush (sv_conn s j)"
    "c_last_seq (sv_conn t j) = c_last_seq (sv_conn s j)"
    "ch_active (c_ch (sv_conn t j)) = ch_active (c_ch (sv_conn s j))" "c_need_full (sv_conn t j) = c_need_full (sv_conn s j)"
    using arg_cong [OF e, of c_state] arg_cong [OF e, of c_dead] arg_cong [OF e, of c_view_only] arg_cong [OF e, of c_uploads] arg_cong [OF e, of c_name] arg_cong [OF e, of c_addr] arg_cong [OF e, of c_transcript] arg_cong [OF e, of c_in] arg_cong [OF e, of c_frame_id] arg_cong [OF e, of c_acked] arg_cong [OF e, of c_quality] arg_cong [OF e, of c_eff_fps] arg_cong [OF e, of c_fps] arg_cong [OF e, of c_close_after_flush] arg_cong [OF e, of c_last_seq] arg_cong [OF e, of c_need_full]
      arg_cong [OF e, of "\<lambda>c. ch_active (c_ch c)"]
    by (simp_all add: blank_def)
qed

lemma quiet_on_conn:
  "(\<And>c. blank (f c) = blank c) \<Longrightarrow> quiet s (on_conn i f s)"
  by (simp add: quiet_def on_conn_def)

lemma quiet_draw [quiet_intros]: "draw n s = (k, t) \<Longrightarrow> quiet s t"
  by (auto simp: draw_def quiet_def split: if_splits)

lemma quiet_ws_frame_to [quiet_intros]: "quiet s (ws_frame_to al i opc p s)"
proof (cases "c_dead (sv_conn s i) \<or> \<not> c_client_ws (sv_conn s i)")
  case True
  then show ?thesis
    by (auto simp: ws_frame_to_def Let_def quiet_refl blank_def intro!: quiet_on_conn)
next
  case False
  obtain k t where d: "draw 4 s = (k, t)" by fastforce
  have "quiet t (on_conn i (\<lambda>c. c\<lparr>c_out := rd_ws_write_frame al (case k of None \<Rightarrow> replicate 4 0 | Some k \<Rightarrow> k)
      (c_out c) opc p True\<rparr>) t)"
    by (rule quiet_on_conn) (simp add: blank_def)
  from quiet_trans [OF quiet_draw [OF d] this] show ?thesis
    using False by (simp add: ws_frame_to_def Let_def d)
qed

lemma quiet_send_msg [quiet_intros]: "quiet s (send_msg al i msg s)"
proof -
  let ?c = "sv_conn s i"
  have 1: "quiet s (on_conn i (\<lambda>c. c\<lparr>c_ch := ch\<rparr>) s)" "quiet s (on_conn i (\<lambda>c. c\<lparr>c_ch := ch, c_out := o'\<rparr>) s)"
    if "rd_channel_seal al (c_ch ?c) m b = (ch, x)" for ch o' m b x
  proof -
    have "ch\<lparr>send_ctr := 0\<rparr> = (c_ch ?c)\<lparr>send_ctr := 0\<rparr>" using that by (auto simp: rd_channel_seal_def Let_def)
    then show "quiet s (on_conn i (\<lambda>c. c\<lparr>c_ch := ch\<rparr>) s)" "quiet s (on_conn i (\<lambda>c. c\<lparr>c_ch := ch, c_out := o'\<rparr>) s)"
      by (auto simp: quiet_def on_conn_def blank_def)
  qed
  show ?thesis
    using 1(2) quiet_trans [OF 1(1) quiet_ws_frame_to]
    by (auto simp: send_msg_def Let_def quiet_refl quiet_ws_frame_to split: prod.split)
qed

lemma quiet_fold: "(\<And>x s. quiet s (f x s)) \<Longrightarrow> quiet s (fold f xs s)"
  by (induction xs arbitrary: s) (auto intro: quiet_refl quiet_trans)

lemma quiet_broadcast [quiet_intros]: "quiet s (broadcast al msg ex co s)"
  unfolding broadcast_def by (rule quiet_fold) (simp add: quiet_intros)

lemma quiet_notice [quiet_intros]: "quiet s (notice al txt ex s)"
  by (simp add: notice_def quiet_intros)

lemma quiet_broadcast_viewers [quiet_intros]: "quiet s (broadcast_viewers al s)"
  by (simp add: broadcast_viewers_def quiet_intros Let_def)

lemma quiet_send_display_info [quiet_intros]: "quiet s (send_display_info al i s)"
  by (simp add: send_display_info_def quiet_intros Let_def split: prod.split)

lemma quiet_file_result [quiet_intros]: "quiet s (file_result al i fid ok txt s)"
  by (simp add: file_result_def quiet_intros)

lemma is_active_quiet: "quiet s t \<Longrightarrow> is_active t = is_active s"
  by (simp add: is_active_def quiet_conn fun_eq_iff)

section \<open>The server's invariant\<close>

text \<open>
  Per connection: at most two frames are unacknowledged, quality and frame rates are in range, and at
  most four uploads are open, none past its announced size. For the server: connections are distinct
  and at most \<open>max_viewers\<close> are active.
\<close>

definition flow_ok :: "conn \<Rightarrow> bool" where
  "flow_ok c \<longleftrightarrow> unat (c_frame_id c - c_acked c) \<le> 2"

definition rate_ok :: "int \<Rightarrow> conn \<Rightarrow> bool" where
  "rate_ok mf c \<longleftrightarrow> 0 \<le> c_quality c \<and> c_quality c \<le> 3 \<and>
     (c_state c = Active \<longrightarrow> 1 \<le> c_eff_fps c \<and> c_eff_fps c \<le> c_fps c \<and> c_fps c \<le> mf)"

definition uploads_ok :: "conn \<Rightarrow> bool" where
  "uploads_ok c \<longleftrightarrow> length (c_uploads c) \<le> 4 \<and> distinct (map fst (c_uploads c)) \<and>
     (\<forall>(k, u)\<in>set (c_uploads c). up_received u \<le> up_size u \<and> up_size u \<le> RD_MAX_FILE_SIZE)"

definition keyed :: "conn \<Rightarrow> bool" where
  "keyed c \<longleftrightarrow> (c_state c = Auth \<or> c_state c = Active \<longrightarrow> ch_active (c_ch c))"

definition conn_ok :: "int \<Rightarrow> conn \<Rightarrow> bool" where
  "conn_ok mf c \<longleftrightarrow> flow_ok c \<and> rate_ok mf c \<and> uploads_ok c \<and> keyed c"

definition server_ok :: "server \<Rightarrow> bool" where
  "server_ok s \<longleftrightarrow> 1 \<le> cfg_max_fps (sv_cfg s) \<and> distinct (sv_conns s) \<and> (\<forall>j\<in>set (sv_conns s). j < sv_fresh s) \<and>
     (\<forall>j. conn_ok (cfg_max_fps (sv_cfg s)) (sv_conn s j)) \<and>
     int (length (active_conns s)) \<le> max 0 (cfg_max_viewers (sv_cfg s))"

lemma conn_ok_quiet: "quiet s t \<Longrightarrow> conn_ok mf (sv_conn t j) = conn_ok mf (sv_conn s j)"
  by (simp add: conn_ok_def flow_ok_def rate_ok_def uploads_ok_def keyed_def quiet_conn)

lemma server_ok_quiet: "quiet s t \<Longrightarrow> server_ok t = server_ok s"
  by (simp add: server_ok_def quiet_fields conn_ok_quiet active_conns_def is_active_quiet)

section \<open>Every operation keeps the invariant\<close>

lemma length_filter_mono: "(\<And>x. x \<in> set xs \<Longrightarrow> P x \<Longrightarrow> Q x) \<Longrightarrow> length (filter P xs) \<le> length (filter Q xs)"
  by (induction xs) auto

lemma length_filter_one_more:
  assumes "distinct xs"
  shows "length (filter (\<lambda>x. P x \<or> x = i) xs) \<le> length (filter P xs) + 1"
proof -
  have "length (filter (\<lambda>x. x = i) xs) \<le> 1"
    using assms by (induction xs) (auto simp: filter_empty_conv)
  moreover have "length (filter (\<lambda>x. P x \<or> Q x) xs) \<le> length (filter P xs) + length (filter Q xs)" for Q
    by (induction xs) auto
  ultimately show ?thesis by (meson add_left_mono order_trans)
qed

lemma server_ok_cong:
  "sv_cfg t = sv_cfg s \<Longrightarrow> sv_conns t = sv_conns s \<Longrightarrow> sv_conn t = sv_conn s \<Longrightarrow> sv_fresh t = sv_fresh s \<Longrightarrow>
     server_ok t = server_ok s"
  by (simp add: server_ok_def active_conns_def is_active_def cong: filter_cong)

lemma server_okD: "server_ok s \<Longrightarrow> conn_ok (cfg_max_fps (sv_cfg s)) (sv_conn s j)"
  by (simp add: server_ok_def)

text \<open>A change of one connection that does not activate it.\<close>

lemma server_ok_on_conn:
  assumes "server_ok s" "conn_ok (cfg_max_fps (sv_cfg s)) (f (sv_conn s i))"
    "c_state (f (sv_conn s i)) = Active \<Longrightarrow> \<not> c_dead (f (sv_conn s i)) \<Longrightarrow> is_active s i"
  shows "server_ok (on_conn i f s)"
proof -
  have "length (active_conns (on_conn i f s)) \<le> length (active_conns s)"
    unfolding active_conns_def on_conn_simps
    by (rule length_filter_mono) (use assms(3) in \<open>auto simp: is_active_def split: if_splits\<close>)
  then show ?thesis using assms(1,2) by (simp add: server_ok_def)
qed

lemma server_ok_cong_conn:
  assumes "server_ok s"
    "\<And>c. c_state (f c) = c_state c" "\<And>c. c_dead (f c) = c_dead c" "\<And>c. c_frame_id (f c) = c_frame_id c"
    "\<And>c. c_acked (f c) = c_acked c" "\<And>c. c_quality (f c) = c_quality c" "\<And>c. c_eff_fps (f c) = c_eff_fps c"
    "\<And>c. c_fps (f c) = c_fps c" "\<And>c. c_uploads (f c) = c_uploads c"
    "\<And>c. ch_active (c_ch (f c)) = ch_active (c_ch c)"
  shows "server_ok (on_conn i f s)"
  using assms server_okD [OF assms(1), of i]
  by (intro server_ok_on_conn) (simp_all add: conn_ok_def flow_ok_def rate_ok_def uploads_ok_def keyed_def is_active_def)

lemma conn_ok_leave:
  assumes "conn_ok mf c" "c_state d \<notin> {Auth, Active}" "c_frame_id d = c_frame_id c" "c_acked d = c_acked c"
    "c_quality d = c_quality c" "c_uploads d = c_uploads c"
  shows "conn_ok mf d"
  using assms by (simp add: conn_ok_def flow_ok_def rate_ok_def uploads_ok_def keyed_def)

lemma server_ok_leave:
  assumes "server_ok s" "\<And>c. c_state (f c) \<notin> {Auth, Active}" "\<And>c. c_frame_id (f c) = c_frame_id c" "\<And>c. c_acked (f c) = c_acked c"
    "\<And>c. c_quality (f c) = c_quality c" "\<And>c. c_uploads (f c) = c_uploads c"
  shows "server_ok (on_conn i f s)"
  using assms by (intro server_ok_on_conn conn_ok_leave [OF server_okD [OF assms(1)]]) simp_all

lemma server_ok_close_conn: "server_ok s \<Longrightarrow> server_ok (close_conn i s)"
  using server_okD [of s i]
  by (auto simp: close_conn_def conn_ok_def flow_ok_def rate_ok_def uploads_ok_def keyed_def intro!: server_ok_on_conn)

lemma server_ok_draw: "draw n s = (k, t) \<Longrightarrow> server_ok s \<Longrightarrow> server_ok t"
  using server_ok_quiet [OF quiet_draw] by blast

lemma server_ok_send: "server_ok s \<Longrightarrow> server_ok (send_msg al i msg s)"
  "server_ok s \<Longrightarrow> server_ok (ws_frame_to al i opc p s)" "server_ok s \<Longrightarrow> server_ok (broadcast al msg ex co s)"
  "server_ok s \<Longrightarrow> server_ok (notice al txt ex s)" "server_ok s \<Longrightarrow> server_ok (broadcast_viewers al s)"
  "server_ok s \<Longrightarrow> server_ok (send_display_info al i s)" "server_ok s \<Longrightarrow> server_ok (file_result al i fid ok txt s)"
  by (simp_all add: server_ok_quiet [OF quiet_send_msg] server_ok_quiet [OF quiet_ws_frame_to]
      server_ok_quiet [OF quiet_broadcast] server_ok_quiet [OF quiet_notice] server_ok_quiet [OF quiet_broadcast_viewers]
      server_ok_quiet [OF quiet_send_display_info] server_ok_quiet [OF quiet_file_result])

lemma server_ok_hello:
  assumes "server_ok s" "c_state (sv_conn s i) = Hello"
  shows "server_ok (handle_hello al i type r s)"
proof (cases "c_type_of type = Some RD_C_HELLO")
  case False
  then show ?thesis using assms(1) by (simp add: handle_hello_def server_ok_close_conn)
next
  case True
  obtain version r1 where g1: "rd_get_u16 r = (version, r1)" by fastforce
  obtain name x r2 where g2: "rd_get_str r1 256 = (name, x, r2)" using prod_cases3 by blast
  obtain ce r3 where g3: "rd_get_bytes r2 32 = (ce, r3)" by fastforce
  define s1 where "s1 = on_conn i (\<lambda>c. c\<lparr>c_name := (if clean_text (c_str name) 32 = [] then bytes_of ''Viewer''
      else clean_text (c_str name) 32)\<rparr>) s"
  have s1: "server_ok s1" unfolding s1_def by (rule server_ok_cong_conn [OF assms(1)]) simp_all
  show ?thesis
  proof (cases "if version = RD_PROTO_VERSION then ce else None")
    case None
    have "server_ok (on_conn i (\<lambda>c. c\<lparr>c_close_after_flush := True\<rparr>) u)" if "server_ok u" for u
      by (rule server_ok_cong_conn [OF that]) simp_all
    with None True s1 show ?thesis
      by (simp add: handle_hello_def g1 g2 g3 s1_def [symmetric] server_ok_send Let_def)
  next
    case (Some ce')
    obtain nonce s2 where d1: "draw 16 s1 = (nonce, s2)" by fastforce
    define s3 where "s3 = on_conn i (\<lambda>c. c\<lparr>c_nonce := (case nonce of None \<Rightarrow> c_nonce c | Some n \<Rightarrow> n)\<rparr>) s2"
    obtain rnd s4 where d2: "draw 32 s3 = (rnd, s4)" by fastforce
    have s2: "server_ok s2" by (rule server_ok_draw [OF d1 s1])
    have s3: "server_ok s3" unfolding s3_def by (rule server_ok_cong_conn [OF s2]) simp_all
    have s4: "server_ok s4" by (rule server_ok_draw [OF d2 s3])
    have 1: "server_ok (on_conn i (\<lambda>c. c\<lparr>c_transcript := th\<rparr>) s4)" for th
      by (rule server_ok_cong_conn [OF s4]) simp_all
    have 2: "server_ok (on_conn i (\<lambda>c. c\<lparr>c_ch := rd_hs_keys a b h True, c_state := Auth\<rparr>) u)" if "server_ok u" for u a b h
      using server_okD [OF that, of i] by (intro server_ok_on_conn [OF that])
        (simp_all add: conn_ok_def flow_ok_def rate_ok_def uploads_ok_def keyed_def rd_hs_keys_def Let_def)
    show ?thesis
      unfolding handle_hello_def Let_def g1 g2 g3 prod.case s1_def [symmetric] Some option.case d1 s3_def [symmetric] d2
      using True server_ok_close_conn [OF s4]
      by (auto simp: 1 server_ok_send intro!: 2 split: option.split prod.split)
  qed
qed

lemma server_ok_auth_fail: "server_ok s \<Longrightarrow> server_ok (auth_fail al i why s)"
  unfolding auth_fail_def by (rule server_ok_leave) (simp_all add: server_ok_send)

lemma server_ok_activate:
  assumes ok: "server_ok s" "c_state (sv_conn s i) = Auth" and lt: "int (length (active_conns s)) < cfg_max_viewers (sv_cfg s)"
  shows "server_ok (on_conn i (\<lambda>c. c\<lparr>c_state := Active, c_id := n, c_view_only := vo, c_fps := cfg_max_fps (sv_cfg s),
    c_eff_fps := cfg_max_fps (sv_cfg s), c_need_full := True, c_adapt_window_us := t\<rparr>) s)" (is "server_ok ?t")
proof -
  have "length (active_conns ?t) \<le> length (filter (\<lambda>j. is_active s j \<or> j = i) (sv_conns s))"
    unfolding active_conns_def on_conn_simps by (rule length_filter_mono) (auto simp: is_active_def)
  also have "\<dots> \<le> length (active_conns s) + 1"
    unfolding active_conns_def using ok by (intro length_filter_one_more) (simp add: server_ok_def)
  finally have "int (length (active_conns ?t)) \<le> max 0 (cfg_max_viewers (sv_cfg s))" using lt by linarith
  then show ?thesis
    using ok by (auto simp: server_ok_def conn_ok_def flow_ok_def rate_ok_def uploads_ok_def keyed_def)
qed

lemma server_ok_on_authenticated:
  assumes "server_ok s" "c_state (sv_conn s i) = Auth" "int (length (active_conns s)) < cfg_max_viewers (sv_cfg s)"
  shows "server_ok (on_authenticated al i s)"
proof -
  let ?s = "s\<lparr>sv_next_id := sv_next_id s + 1\<rparr>"
  have "server_ok ?s = server_ok s" by (rule server_ok_cong) simp_all
  moreover have "active_conns ?s = active_conns s" by (simp add: active_conns_def is_active_def cong: filter_cong)
  ultimately have "server_ok (on_conn i (\<lambda>c. c\<lparr>c_state := Active, c_id := sv_next_id s, c_view_only := cfg_view_only (sv_cfg s),
      c_fps := cfg_max_fps (sv_cfg s), c_eff_fps := cfg_max_fps (sv_cfg s), c_need_full := True, c_adapt_window_us := sv_now s\<rparr>) ?s)"
    using server_ok_activate [of ?s] assms by simp
  then show ?thesis by (simp add: on_authenticated_def Let_def server_ok_send)
qed

lemma locked_out_frame:
  assumes "locked_out addr s = (w, t)"
  shows "sv_cfg t = sv_cfg s" "sv_conns t = sv_conns s" "sv_conn t = sv_conn s" "sv_fresh t = sv_fresh s"
    "sv_failures t = sv_failures s" "sv_plat t = sv_plat s"
  using assms by (auto simp: locked_out_def Let_def split: if_splits option.splits)

lemma server_ok_auth:
  assumes "server_ok s" "c_state (sv_conn s i) = Auth"
  shows "server_ok (handle_auth al i type r s)"
proof -
  obtain mac r' where g: "rd_get_bytes r 32 = (mac, r')" by fastforce
  obtain w t where l: "locked_out (c_addr (sv_conn s i)) s = (w, t)" by fastforce
  note f = locked_out_frame [OF l]
  have t: "server_ok t" using assms server_ok_cong [OF f(1-4)] by simp
  let ?t = "t\<lparr>sv_failures := (sv_failures t)(c_addr (sv_conn s i) := None)\<rparr>"
  have t': "server_ok ?t" "active_conns ?t = active_conns t" "sv_cfg ?t = sv_cfg t"
    using t server_ok_cong [of ?t t] by (simp_all add: active_conns_def is_active_def cong: filter_cong)
  have t'': "server_ok (record_auth_failure a t)" for a
    using t server_ok_cong [of "record_auth_failure a t" t] by (simp add: record_auth_failure_def Let_def)
  show ?thesis
    using assms f(3) t t' t'' server_ok_on_authenticated [of ?t i al]
    by (auto simp: handle_auth_def g l Let_def server_ok_close_conn server_ok_auth_fail split: option.split)
qed

subsection \<open>The session\<close>

named_theorems keeps_ok \<open>operations that keep the invariant\<close>

declare server_ok_send [keeps_ok] server_ok_close_conn [keeps_ok]

lemma server_ok_outside [keeps_ok]:
  "server_ok s \<Longrightarrow> server_ok (s\<lparr>sv_fs := fs\<rparr>)" "server_ok s \<Longrightarrow> server_ok (s\<lparr>sv_dirs := ds\<rparr>)"
  "server_ok s \<Longrightarrow> server_ok (s\<lparr>sv_disk_free := n\<rparr>)" "server_ok s \<Longrightarrow> server_ok (on_plat g s)"
  "server_ok s \<Longrightarrow> server_ok (s\<lparr>sv_displays := dl\<rparr>)" "server_ok s \<Longrightarrow> server_ok (s\<lparr>sv_last_clip := b\<rparr>)"
  "server_ok s \<Longrightarrow> server_ok (s\<lparr>sv_clip_count := k\<rparr>)" "server_ok s \<Longrightarrow> server_ok (s\<lparr>sv_next_clip_poll_us := t\<rparr>)"
  "server_ok s \<Longrightarrow> server_ok (s\<lparr>sv_relay_next_us := t\<rparr>)" "server_ok s \<Longrightarrow> server_ok (s\<lparr>sv_relay_backoff_us := t\<rparr>)"
  "server_ok s \<Longrightarrow> server_ok (s\<lparr>sv_relay_online := ol\<rparr>)" "server_ok s \<Longrightarrow> server_ok (s\<lparr>sv_relay_ctl := rc\<rparr>)"
  "server_ok s \<Longrightarrow> server_ok (s\<lparr>sv_stop := ol\<rparr>)" "server_ok s \<Longrightarrow> server_ok (s\<lparr>sv_now := t\<rparr>)"
  "server_ok s \<Longrightarrow> server_ok (s\<lparr>sv_console_buf := b\<rparr>)"
  by (erule server_ok_cong [THEN iffD2, rotated 4], simp_all add: on_plat_def)+

lemma server_ok_fold: "(\<And>x s. server_ok s \<Longrightarrow> server_ok (f x s)) \<Longrightarrow> server_ok s \<Longrightarrow> server_ok (fold f xs s)"
  by (induction xs arbitrary: s) auto

text \<open>Uploads: what is open stays bounded.\<close>

lemma set_update_delete:
  "set (AList.update k v al) \<subseteq> insert (k, v) (set al)" "set (AList.delete k al) \<subseteq> set al"
  by (induction al) (auto simp: AList.delete_eq)

lemma uploads_ok_update:
  assumes "uploads_ok c" "up_received u \<le> up_size u" "up_size u \<le> RD_MAX_FILE_SIZE"
    "length (c_uploads c) < 4 \<or> map_of (c_uploads c) fid \<noteq> None"
  shows "uploads_ok (c\<lparr>c_uploads := AList.update fid u (c_uploads c)\<rparr>)"
proof -
  have "length (AList.update fid u al) = (if fid \<in> fst ` set al then length al else Suc (length al))" for al
    by (induction al) auto
  moreover have "fid \<in> fst ` set (c_uploads c)" if "map_of (c_uploads c) fid \<noteq> None"
    using that by (simp add: map_of_eq_None_iff)
  ultimately show ?thesis
    using assms set_update_delete(1) [of fid u "c_uploads c"]
    by (auto simp: uploads_ok_def distinct_update split: if_splits)
qed

lemma uploads_ok_delete:
  assumes "uploads_ok c"
  shows "uploads_ok (c\<lparr>c_uploads := AList.delete fid (c_uploads c)\<rparr>)"
proof -
  have "length (AList.delete fid (c_uploads c)) \<le> length (c_uploads c)" by (rule length_delete_le)
  then show ?thesis
    using assms set_update_delete(2) [of fid "c_uploads c"] by (auto simp: uploads_ok_def distinct_delete)
qed

lemma server_ok_uploads:
  assumes "server_ok s" "uploads_ok (sv_conn s i\<lparr>c_uploads := g (c_uploads (sv_conn s i))\<rparr>)"
  shows "server_ok (on_conn i (\<lambda>c. c\<lparr>c_uploads := g (c_uploads c)\<rparr>) s)"
  using assms server_okD [OF assms(1), of i]
  by (intro server_ok_on_conn) (simp_all add: conn_ok_def flow_ok_def rate_ok_def keyed_def is_active_def)

lemma server_uploads_ok: "server_ok s \<Longrightarrow> uploads_ok (sv_conn s i)"
  using server_okD [of s i] by (simp add: conn_ok_def)

lemma server_ok_finish_upload [keeps_ok]: "server_ok s \<Longrightarrow> server_ok (finish_upload al i fid ok txt s)"
  unfolding finish_upload_def Let_def
  by (auto intro!: keeps_ok server_ok_uploads uploads_ok_delete intro: server_uploads_ok split: option.split)

lemma server_ok_begin_upload [keeps_ok]: "server_ok s \<Longrightarrow> server_ok (begin_upload al i fid fsize raw s)"
  unfolding begin_upload_def Let_def
  by (auto intro!: keeps_ok server_ok_uploads uploads_ok_update intro: server_uploads_ok)

lemma server_ok_fwrite: "fwrite p d s = (ok, t) \<Longrightarrow> server_ok s \<Longrightarrow> server_ok t \<and> sv_conn t = sv_conn s"
  by (auto simp: fwrite_def Let_def intro: keeps_ok)

lemma upload_bounded:
  assumes "server_ok s" "map_of (c_uploads (sv_conn s i)) fid = Some u"
  shows "up_size u \<le> RD_MAX_FILE_SIZE"
  using server_uploads_ok [OF assms(1), of i] map_of_SomeD [OF assms(2)] by (auto simp: uploads_ok_def)

lemma server_ok_file_chunk [keeps_ok]:
  assumes ok: "server_ok s"
  shows "server_ok (file_chunk al i r s)"
proof (cases "if rr_err (snd (rd_get_u32 r)) then None else map_of (c_uploads (sv_conn s i)) (fst (rd_get_u32 r))")
  case None
  then show ?thesis using ok by (auto simp: file_chunk_def split: prod.splits if_splits)
next
  case (Some u)
  obtain fid r1 where g: "rd_get_u32 r = (fid, r1)" by fastforce
  obtain dd r2 where g2: "rd_get_bytes r1 (rd_remaining r1) = (dd, r2)" by fastforce
  let ?n = "rd_remaining r1" and ?d = "case dd of None \<Rightarrow> [] | Some d \<Rightarrow> d"
  have u: "map_of (c_uploads (sv_conn s i)) fid = Some u" "\<not> rr_err r1" using Some g by (simp_all split: if_splits)
  have store: "server_ok (on_conn i (\<lambda>c. c\<lparr>c_uploads := AList.update fid (u\<lparr>up_received := k\<rparr>) (c_uploads c)\<rparr>) t)"
    if "server_ok t" "sv_conn t = sv_conn s" "\<not> up_size u < k" for t k
    using that u upload_bounded [OF ok u(1)] server_uploads_ok [OF ok, of i]
    by (intro server_ok_uploads uploads_ok_update) auto
  obtain w t where f: "(if ?n = 0 then (True, s) else fwrite (up_path u) ?d s) = (w, t)" by fastforce
  have "server_ok t" "sv_conn t = sv_conn s" using server_ok_fwrite ok f by (metis prod.inject)+
  then show ?thesis
    using u ok store by (simp only: file_chunk_def g g2 f Let_def prod.case option.case if_False simp_thms
          keeps_ok split: if_split) simp
qed

lemma server_ok_file_end [keeps_ok]: "server_ok s \<Longrightarrow> server_ok (file_end al i r s)"
  by (simp add: file_end_def Let_def keeps_ok split: prod.split option.split)

text \<open>Settings and displays.\<close>

lemma server_ok_cap_start: "server_ok s \<Longrightarrow> server_ok (snd (cap_start d s))"
  by (simp add: cap_start_def keeps_ok)

lemma server_ok_need_full [keeps_ok]:
  "server_ok s \<Longrightarrow> server_ok (on_conn i (\<lambda>c. c\<lparr>c_need_full := b\<rparr>) s)"
  "server_ok s \<Longrightarrow> server_ok (on_conn i (\<lambda>c. c\<lparr>c_need_full := b, c_shadow_w := w, c_shadow_h := h\<rparr>) s)"
  "server_ok s \<Longrightarrow> server_ok (on_conn i (\<lambda>c. c\<lparr>c_sent_input := b\<rparr>) s)"
  "server_ok s \<Longrightarrow> server_ok (on_conn i (\<lambda>c. c\<lparr>c_view_only := \<not> c_view_only c\<rparr>) s)"
  "server_ok s \<Longrightarrow> server_ok (on_conn i (\<lambda>c. c\<lparr>c_last_change_us := t\<rparr>) s)"
  "server_ok s \<Longrightarrow> server_ok (on_conn i (\<lambda>c. c\<lparr>c_stalls := c_stalls c + 1\<rparr>) s)"
  "server_ok s \<Longrightarrow> server_ok (on_conn i (\<lambda>c. c\<lparr>c_ws := wr, c_in := bf\<rparr>) s)"
  "server_ok s \<Longrightarrow> server_ok (on_conn i (\<lambda>c. c\<lparr>c_in := rd_buf_consume (c_in c) k\<rparr>) s)"
  "server_ok s \<Longrightarrow> server_ok (on_conn i (\<lambda>c. c\<lparr>c_in := rd_buf_put al (c_in c) d\<rparr>) s)"
  "server_ok s \<Longrightarrow> server_ok (on_conn i (\<lambda>c. c\<lparr>c_last_rx_us := t\<rparr>) s)"
  "server_ok s \<Longrightarrow> server_ok (on_conn i (\<lambda>c. c\<lparr>c_last_ping_us := t\<rparr>) s)"
  "server_ok s \<Longrightarrow> server_ok (on_conn i (\<lambda>c. c\<lparr>c_tcp_pending := b\<rparr>) s)"
  "server_ok s \<Longrightarrow> server_ok (on_conn i (\<lambda>c. c\<lparr>c_tls := b, c_tls_handshaking := b'\<rparr>) s)"
  "server_ok s \<Longrightarrow> server_ok (on_conn i (\<lambda>c. c\<lparr>c_tls_handshaking := b\<rparr>) s)"
  by (erule server_ok_cong_conn, simp_all)+

lemma server_ok_switch_display [keeps_ok]: "server_ok s \<Longrightarrow> server_ok (switch_display al k s)"
  using server_ok_cap_start [of s k]
  by (auto simp: switch_display_def Let_def split: prod.split
      intro!: keeps_ok server_ok_fold server_ok_cap_start)

lemma server_ok_settings:
  assumes "server_ok s"
  shows "server_ok (on_conn i (apply_settings (cfg_max_fps (sv_cfg s)) (uint (q :: u8)) (uint (fps :: u8))) s)"
proof -
  let ?c = "apply_settings (cfg_max_fps (sv_cfg s)) (uint q) (uint fps) (sv_conn s i)"
  have m: "1 \<le> cfg_max_fps (sv_cfg s)" using assms by (simp add: server_ok_def)
  have f: "c_state ?c = c_state (sv_conn s i)" "c_dead ?c = c_dead (sv_conn s i)" "c_uploads ?c = c_uploads (sv_conn s i)"
    "c_frame_id ?c = c_frame_id (sv_conn s i)" "c_acked ?c = c_acked (sv_conn s i)" "c_ch ?c = c_ch (sv_conn s i)"
    by (simp_all add: apply_settings_def Let_def)
  have "0 \<le> c_quality ?c \<and> c_quality ?c \<le> 3 \<and> 1 \<le> c_eff_fps ?c \<and> c_eff_fps ?c \<le> c_fps ?c \<and> c_fps ?c \<le> cfg_max_fps (sv_cfg s)"
    using m server_okD [OF assms, of i] by (auto simp: apply_settings_def Let_def conn_ok_def rate_ok_def)
  with f show ?thesis
    using server_okD [OF assms, of i]
    by (intro server_ok_on_conn [OF assms]) (simp_all add: conn_ok_def flow_ok_def rate_ok_def uploads_ok_def keyed_def is_active_def)
qed

lemma server_ok_on_settings [keeps_ok]: "server_ok s \<Longrightarrow> server_ok (on_settings al i r s)"
  unfolding on_settings_def Let_def
  by (simp add: keeps_ok server_ok_settings split: prod.split)

lemma mod_u32_shift:
  fixes x :: int
  assumes "0 \<le> x" "x < 4294967296"
  shows "(x + 2147483648) mod 4294967296 = (if x < 2147483648 then x + 2147483648 else x - 2147483648)"
proof (cases "x < 2147483648")
  case True
  have "(x + 2147483648) mod 4294967296 = x + 2147483648" by (rule mod_pos_pos_trivial) (use assms True in linarith)+
  then show ?thesis using True by (simp only: if_True)
next
  case False
  have "(x + 2147483648) mod 4294967296 = (x + 2147483648 - 4294967296) mod 4294967296"
    by (rule minus_mod_self2 [symmetric])
  also have "\<dots> = x + 2147483648 - 4294967296" by (rule mod_pos_pos_trivial) (use assms False in linarith)+
  finally show ?thesis using False by (simp only: if_False)
qed

lemma sint_u32: "sint (w :: u32) = (if uint w < 2147483648 then uint w else uint w - 4294967296)"
proof -
  have "sint w = (uint w + 2147483648) mod 4294967296 - 2147483648"
    unfolding sint_uint signed_take_bit_eq_take_bit_shift take_bit_eq_mod by simp
  also have "(uint w + 2147483648) mod 4294967296 =
      (if uint w < 2147483648 then uint w + 2147483648 else uint w - 2147483648)"
    by (rule mod_u32_shift) (use uint_lt2p [of w] in simp_all)
  finally show ?thesis by (simp only: split: if_split) linarith
qed

lemma u32_window:
  fixes d e :: u32
  assumes "unat d \<le> 2" "sint e > 0" "sint (e - d) \<le> 0"
  shows "unat (d - e) \<le> 2"
proof -
  have d: "uint d \<le> 2" using assms(1) by (simp only: unat_eq_nat_uint nat_le_iff)
  have "uint e < 2147483648" "0 < uint e" using assms(2) uint_lt2p [of e] by (auto simp: sint_u32 split: if_splits)
  then have "uint e \<le> uint d"
    using assms(3) d uint_lt2p [of e]
    by (auto simp: sint_u32 uint_sub_if' split: if_splits) (use uint_ge_0 [of d] in linarith)
  then have "uint (d - e) \<le> 2" using d by (simp add: uint_sub_if') (use uint_ge_0 [of e] in linarith)
  then show ?thesis by (simp only: unat_eq_nat_uint nat_le_iff)
qed

lemma ack_window:
  fixes f a fid :: u32
  assumes "unat (f - a) \<le> 2" "sint (fid - a) > 0" "sint (fid - f) \<le> 0"
  shows "unat (f - fid) \<le> 2"
  using u32_window [of "f - a" "fid - a"] assms by (simp add: algebra_simps)

lemma conn_ok_acked: "conn_ok mf c \<Longrightarrow> unat (c_frame_id c - k) \<le> 2 \<Longrightarrow> conn_ok mf (c\<lparr>c_acked := k\<rparr>)"
  by (simp add: conn_ok_def flow_ok_def rate_ok_def uploads_ok_def keyed_def)

lemma server_ok_frame_ack [keeps_ok]:
  assumes "server_ok s"
  shows "server_ok (on_conn i (on_frame_ack r) s)"
proof -
  obtain fid r' where g: "rd_get_u32 r = (fid, r')" by fastforce
  let ?c = "sv_conn s i"
  have c: "conn_ok (cfg_max_fps (sv_cfg s)) ?c" by (rule server_okD [OF assms])
  have "conn_ok (cfg_max_fps (sv_cfg s)) (on_frame_ack r ?c)"
    using c ack_window [of "c_frame_id ?c" "c_acked ?c" fid]
    by (auto simp: on_frame_ack_def g intro!: conn_ok_acked) (simp add: conn_ok_def flow_ok_def)
  then show ?thesis
    by (rule server_ok_on_conn [OF assms]) (simp_all add: on_frame_ack_def g is_active_def split: if_splits)
qed

lemma server_ok_input [keeps_ok]:
  "server_ok s \<Longrightarrow> server_ok (on_pointer i r s)" "server_ok s \<Longrightarrow> server_ok (on_key i r s)"
  "server_ok s \<Longrightarrow> server_ok (on_clipboard al i r s)" "server_ok s \<Longrightarrow> server_ok (on_chat al i r s)"
  by (simp_all add: on_pointer_def on_key_def on_clipboard_def on_chat_def inject_def Let_def keeps_ok
      split: prod.split option.split)

lemma server_ok_session_message [keeps_ok]: "server_ok s \<Longrightarrow> server_ok (handle_session_message al i type r s)"
  by (simp add: handle_session_message_def Let_def keeps_ok split: option.split c_type.split prod.split)

lemma server_ok_plain: "server_ok s \<Longrightarrow> server_ok (handle_plain al i p s)"
  by (simp add: handle_plain_def server_ok_hello server_ok_auth keeps_ok split: prod.split state.split)

lemma server_ok_open:
  assumes "server_ok s" "rd_channel_open (c_ch (sv_conn s i)) p = (m, ch)"
  shows "server_ok (on_conn i (\<lambda>c. c\<lparr>c_ch := ch\<rparr>) s)"
proof -
  have "ch_active ch = ch_active (c_ch (sv_conn s i))"
    using assms(2) by (auto simp: rd_channel_open_def split: if_splits option.splits)
  then show ?thesis
    using server_okD [OF assms(1), of i]
    by (intro server_ok_on_conn [OF assms(1)])
       (simp_all add: conn_ok_def flow_ok_def rate_ok_def uploads_ok_def keyed_def is_active_def)
qed

lemma server_ok_message [keeps_ok]: "server_ok s \<Longrightarrow> server_ok (handle_message al i p s)"
  using server_ok_open
  by (simp add: handle_message_def server_ok_plain keeps_ok split: prod.split option.split)

subsection \<open>The screen\<close>

lemma server_ok_same:
  assumes "server_ok s" "\<And>c. c_state (f c) = c_state c" "\<And>c. c_dead (f c) = c_dead c"
    "\<And>c. conn_ok (cfg_max_fps (sv_cfg s)) c \<Longrightarrow> conn_ok (cfg_max_fps (sv_cfg s)) (f c)"
  shows "server_ok (on_conn i f s)"
  using assms by (intro server_ok_on_conn) (auto simp: is_active_def intro: server_okD)

lemma server_ok_resize [keeps_ok]: "server_ok s \<Longrightarrow> server_ok (resize_shadow al i f s)"
  unfolding resize_shadow_def Let_def
  by (auto intro!: keeps_ok server_ok_same simp: conn_ok_def flow_ok_def rate_ok_def uploads_ok_def keyed_def)

lemma unat_plus_one_le: "unat (d + 1 :: u32) \<le> unat d + 1"
proof -
  have "unat (d + 1) = (unat d + 1) mod 2 ^ LENGTH(32)" by (simp add: unat_word_ariths(1))
  then show ?thesis using mod_less_eq_dividend by presburger
qed

lemma server_ok_send_frame:
  assumes ok: "server_ok s" and room: "\<not> c_frame_id (sv_conn s i) - c_acked (sv_conn s i) \<ge> kMaxFramesInFlight"
  shows "server_ok (send_frame al sched bufs i f now s)"
proof -
  let ?c = "sv_conn s i"
  have "unat (c_frame_id ?c - c_acked ?c) < 2" using room by (simp add: word_less_nat_alt not_le)
  moreover have e: "c_frame_id ?c + 1 - c_acked ?c = (c_frame_id ?c - c_acked ?c) + 1" by simp
  ultimately have more: "unat (c_frame_id ?c + 1 - c_acked ?c) \<le> 2"
    unfolding e using unat_plus_one_le [of "c_frame_id ?c - c_acked ?c"] by linarith
  have 1: "server_ok (on_conn i (\<lambda>c. c\<lparr>c_shadow := sh, c_tile_q := tq, c_last_seq := sq, c_need_full := False, c_lossy_tiles := l\<rparr>) s)"
    for sh tq sq l by (rule server_ok_cong_conn [OF ok]) simp_all
  have 2: "server_ok (on_conn i (\<lambda>c. c\<lparr>c_frame_id := c_frame_id c + 1, c_last_frame_us := now, c_sends := g c\<rparr>) t)"
    if "server_ok t" "c_frame_id (sv_conn t i) = c_frame_id ?c" "c_acked (sv_conn t i) = c_acked ?c" for t g
    using server_okD [OF that(1), of i] that more
    by (intro server_ok_on_conn) (simp_all add: conn_ok_def flow_ok_def rate_ok_def uploads_ok_def keyed_def is_active_def)
  show ?thesis
    unfolding send_frame_def Let_def
    by (intro option.split [where P = server_ok, THEN iffD2] if_split [where P = server_ok, THEN iffD2]
        conjI impI allI ok server_ok_send(1) 2 1) simp_all
qed

lemma server_ok_maybe_send [keeps_ok]: "server_ok s \<Longrightarrow> server_ok (maybe_send_frame al sched bufs i fp now s)"
  unfolding maybe_send_frame_def Let_def
  by (auto split: option.split intro!: keeps_ok server_ok_send_frame)

lemma adapt_frame:
  "c_state (adapt_quality now c) = c_state c" "c_dead (adapt_quality now c) = c_dead c"
  "c_frame_id (adapt_quality now c) = c_frame_id c" "c_acked (adapt_quality now c) = c_acked c"
  "c_uploads (adapt_quality now c) = c_uploads c" "c_fps (adapt_quality now c) = c_fps c"
  "c_ch (adapt_quality now c) = c_ch c"
  by (simp_all add: adapt_quality_def Let_def)

lemma adapt_rate:
  assumes "rate_ok mf c"
  shows "rate_ok mf (adapt_quality now c)"
proof -
  have q: "0 \<le> c_quality (adapt_quality now c) \<and> c_quality (adapt_quality now c) \<le> 3"
    using assms by (simp add: rate_ok_def adapt_quality_def Let_def)
  have e: "1 \<le> c_eff_fps (adapt_quality now c) \<and> c_eff_fps (adapt_quality now c) \<le> c_fps c"
    if "1 \<le> c_eff_fps c" "c_eff_fps c \<le> c_fps c"
    using that zdiv_mono2 [of "c_eff_fps c" 1 2] by (auto simp: adapt_quality_def Let_def)
  show ?thesis using assms q e by (simp add: rate_ok_def adapt_frame)
qed

lemma server_ok_adapt [keeps_ok]: "server_ok s \<Longrightarrow> server_ok (on_conn i (adapt_quality now) s)"
  by (erule server_ok_same) (simp_all add: adapt_frame conn_ok_def flow_ok_def adapt_rate uploads_ok_def keyed_def)

lemma server_ok_pump [keeps_ok]: "server_ok s \<Longrightarrow> server_ok (pump_frames al scheds bufs s)"
  unfolding pump_frames_def Let_def by (rule server_ok_fold) (auto intro!: keeps_ok)

lemma server_ok_poll_clipboard [keeps_ok]: "server_ok s \<Longrightarrow> server_ok (poll_clipboard al s)"
  unfolding poll_clipboard_def Let_def by (auto split: option.split intro!: keeps_ok)

subsection \<open>The network\<close>

lemma server_ok_out [keeps_ok]:
  "server_ok s \<Longrightarrow> server_ok (on_conn i (\<lambda>c. c\<lparr>c_out := g (c_out c), c_close_after_flush := True\<rparr>) s)"
  "server_ok s \<Longrightarrow> server_ok (on_conn i drop_body s)"
  by (erule server_ok_cong_conn, simp_all add: drop_body_def split: option.split)+

lemma server_ok_http [keeps_ok]:
  "server_ok s \<Longrightarrow> server_ok (http_response al i code status type body s)"
  "server_ok s \<Longrightarrow> server_ok (plain_response al i code st bd s)"
  "server_ok s \<Longrightarrow> server_ok (serve_file al i target s)"
  unfolding serve_file_def plain_response_def http_response_def Let_def
  by (auto split: option.split intro!: keeps_ok)

lemma server_ok_new_conn:
  assumes "server_ok s" "c_state c \<notin> {Auth, Active}" "c_frame_id c = 0" "c_acked c = 0" "c_quality c = 0" "c_uploads c = []"
  shows "server_ok (s\<lparr>sv_conn := (sv_conn s)(sv_fresh s := c), sv_conns := sv_conns s @ [sv_fresh s],
    sv_fresh := Suc (sv_fresh s)\<rparr>)" (is "server_ok ?t")
proof -
  have "conn_ok mf c" for mf using assms by (auto simp: conn_ok_def flow_ok_def rate_ok_def uploads_ok_def keyed_def)
  moreover have "active_conns ?t = active_conns s"
    unfolding active_conns_def using assms(1,2)
    by (auto simp: is_active_def server_ok_def intro!: filter_cong)
  ultimately show ?thesis using assms(1) by (auto simp: server_ok_def less_Suc_eq)
qed

lemma server_ok_accept [keeps_ok]: "server_ok s \<Longrightarrow> server_ok (accept_conn addr s)"
  using server_ok_new_conn [of s "new_conn addr (sv_now s)"]
  by (simp add: accept_conn_def new_conn_def)

lemma server_ok_open_relay [keeps_ok]: "server_ok s \<Longrightarrow> server_ok (open_relay_conn al control ticket ip s)"
proof -
  assume ok: "server_ok s"
  obtain raw t where d: "draw 16 s = (raw, t)" by fastforce
  have t: "server_ok t" by (rule server_ok_draw [OF d ok])
  show ?thesis
    using ok unfolding open_relay_conn_def Let_def d prod.case back_off_def
    by (auto intro!: keeps_ok server_ok_new_conn [OF t] simp: new_conn_def)
qed

lemma server_ok_relay_command [keeps_ok]: "server_ok s \<Longrightarrow> server_ok (relay_command al i p s)"
  by (simp add: relay_command_def Let_def keeps_ok)

lemma server_ok_closing [keeps_ok]:
  "server_ok s \<Longrightarrow> server_ok (on_conn i (\<lambda>c. c\<lparr>c_state := Closing, c_close_after_flush := True\<rparr>) s)"
  by (rule server_ok_leave) simp_all

lemma server_ok_ws_loop: "server_ok s \<Longrightarrow> server_ok (snd (ws_messages_loop al i n rc s))"
proof (induction n arbitrary: rc s)
  case 0
  then show ?case by simp
next
  case (Suc n)
  have 1: "server_ok (on_conn i (\<lambda>c. c\<lparr>c_ws := w, c_in := b\<rparr>) s)" for w b by (rule keeps_ok) (rule Suc.prems)
  show ?case
    using Suc.prems 1 by (auto simp: Let_def split: prod.split ws_result.split intro!: keeps_ok Suc.IH)
qed

lemma server_ok_ws_messages [keeps_ok]: "server_ok s \<Longrightarrow> server_ok (handle_ws_messages al i s)"
  using server_ok_ws_loop [of s al i "Suc (rb_len (c_in (sv_conn s i)))" None]
  by (auto simp: handle_ws_messages_def split: prod.split intro: keeps_ok)

lemma server_ok_to_state [keeps_ok]:
  "server_ok s \<Longrightarrow> server_ok (on_conn i (\<lambda>c. c\<lparr>c_state := RelayCtl\<rparr>) s)"
  "server_ok s \<Longrightarrow> server_ok (on_conn i (\<lambda>c. c\<lparr>c_state := Hello\<rparr>) s)"
  "server_ok s \<Longrightarrow> server_ok (on_conn i (\<lambda>c. c\<lparr>c_out := g c, c_state := Hello, c_ws := w c\<rparr>) s)"
  by (rule server_ok_leave, simp_all)+

lemma server_ok_handle_http [keeps_ok]: "server_ok s \<Longrightarrow> server_ok (handle_http al i s)"
  unfolding handle_http_def Let_def accept_upgrade_def
  by (auto split: option.split http_request.split intro!: keeps_ok)

lemma server_ok_relay_upgrade [keeps_ok]: "server_ok s \<Longrightarrow> server_ok (finish_relay_upgrade al i s)"
  unfolding finish_relay_upgrade_def Let_def by (auto intro!: keeps_ok)

lemma server_ok_recv: "server_ok s \<Longrightarrow> server_ok (snd (recv_loop al i n rs s))"
proof (induction rs arbitrary: n s)
  case Nil
  then show ?case by simp
next
  case (Cons r rs)
  have 1: "server_ok (on_conn i (\<lambda>c. c\<lparr>c_in := rd_buf_put al (c_in c) d\<rparr>) s)" for d by (rule keeps_ok) (rule Cons.prems)
  show ?case using Cons.prems 1 by (auto split: rx.split intro: Cons.IH keeps_ok)
qed

lemma server_ok_read [keeps_ok]: "server_ok s \<Longrightarrow> server_ok (read_conn al i rs s)"
  using server_ok_recv [of s al i 0 rs]
  by (auto simp: read_conn_def Let_def split: prod.split state.split intro!: keeps_ok)

lemma send_loop_frame:
  "send_loop tx c = (b, d) \<Longrightarrow> c_state d = c_state c \<and> c_dead d = c_dead c \<and> (conn_ok mf c \<longrightarrow> conn_ok mf d)"
  by (induction tx c arbitrary: b d rule: send_loop.induct)
     (auto simp: Let_def conn_ok_def flow_ok_def rate_ok_def uploads_ok_def keyed_def split: if_splits option.splits)

lemma server_ok_flush [keeps_ok]:
  assumes "server_ok s"
  shows "server_ok (flush i tx s)"
proof -
  obtain b d where l: "send_loop tx (sv_conn s i) = (b, d)" by fastforce
  note f = send_loop_frame [OF l]
  let ?c = "flush_conn tx (sv_conn s i)"
  have "c_state ?c = c_state (sv_conn s i)" "c_dead (sv_conn s i) \<longrightarrow> c_dead ?c"
    using f by (auto simp: flush_conn_def l Let_def)
  moreover have "conn_ok (cfg_max_fps (sv_cfg s)) ?c"
    using f [of "cfg_max_fps (sv_cfg s)"] server_okD [OF assms, of i]
    by (simp add: flush_conn_def l Let_def) (simp add: conn_ok_def flow_ok_def rate_ok_def uploads_ok_def keyed_def)
  ultimately show ?thesis
    unfolding flush_def by (intro server_ok_on_conn [OF assms]) (auto simp: is_active_def)
qed

subsection \<open>The operator and the main loop\<close>

lemma server_ok_finish [keeps_ok]:
  "server_ok s \<Longrightarrow> server_ok (snd (finish_connect e i s))" "server_ok s \<Longrightarrow> server_ok (snd (finish_tls e i s))"
  unfolding finish_connect_def finish_tls_def Let_def by (auto intro!: keeps_ok)

lemma server_ok_serve [keeps_ok]:
  assumes "server_ok s"
  shows "server_ok (serve_conn al e i s)"
proof -
  obtain k1 t where 1: "finish_connect e i s = (k1, t)" by fastforce
  obtain k2 u where 2: "finish_tls e i t = (k2, u)" by fastforce
  have t: "server_ok t" using server_ok_finish(1) [OF assms, of e i] by (simp add: 1)
  have u: "server_ok u" using server_ok_finish(2) [OF t, of e i] by (simp add: 2)
  show ?thesis using t u by (simp add: serve_conn_def 1 2 Let_def keeps_ok)
qed

lemma server_ok_timer [keeps_ok]: "server_ok s \<Longrightarrow> server_ok (timer_conn al i s)"
  by (simp add: timer_conn_def Let_def keeps_ok)

lemma server_ok_kick: "server_ok s \<Longrightarrow> server_ok (kick al i s)"
  unfolding kick_def by (rule server_ok_leave) (simp_all add: keeps_ok)

lemma server_ok_toggle [keeps_ok]: "server_ok s \<Longrightarrow> server_ok (toggle_view_only al i s)"
  by (simp add: toggle_view_only_def Let_def keeps_ok)

lemma server_ok_password: "server_ok s \<Longrightarrow> server_ok (s\<lparr>sv_cfg := (sv_cfg s)\<lparr>cfg_password := p\<rparr>\<rparr>)"
  by (simp add: server_ok_def active_conns_def is_active_def cong: filter_cong)

lemma server_ok_console_line [keeps_ok]: "server_ok s \<Longrightarrow> server_ok (handle_console_line al raw s)"
  by (simp add: handle_console_line_def Let_def server_ok_kick server_ok_password keeps_ok split: option.split)

lemma server_ok_console [keeps_ok]: "server_ok s \<Longrightarrow> server_ok (console_input al buf s)"
proof (induction al buf s rule: console_input.induct)
  case (1 al buf s)
  then show ?case by (subst console_input.simps) (auto split: option.split intro: keeps_ok)
qed

lemma server_ok_bury [keeps_ok]: "server_ok s \<Longrightarrow> server_ok (bury i s)"
  unfolding bury_def back_off_def Let_def by (auto intro!: keeps_ok)

lemma server_ok_forget [keeps_ok]:
  assumes "server_ok s"
  shows "server_ok (s\<lparr>sv_conns := filter P (sv_conns s)\<rparr>)" (is "server_ok ?t")
proof -
  have "active_conns ?t = filter (\<lambda>j. P j \<and> is_active s j) (sv_conns s)"
    by (simp add: active_conns_def is_active_def cong: filter_cong)
  also have "length \<dots> \<le> length (active_conns s)" unfolding active_conns_def by (rule length_filter_mono) simp
  finally show ?thesis using assms by (simp add: server_ok_def)
qed

lemma server_ok_reap [keeps_ok]: "server_ok s \<Longrightarrow> server_ok (reap al s)"
  unfolding reap_def Let_def by (auto intro!: keeps_ok server_ok_fold)

lemma server_ok_maintain [keeps_ok]: "server_ok s \<Longrightarrow> server_ok (maintain_relay al s)"
  by (simp add: maintain_relay_def keeps_ok)

lemma server_ok_round:
  assumes "server_ok s"
  shows "server_ok (server_round al e s)"
proof -
  have 1: "server_ok (fold (\<lambda>i s. if c_dead (sv_conn s i) then s else flush i (tx i) s) xs u)" if "server_ok u" for tx xs u
    using that by (intro server_ok_fold) (auto intro: keeps_ok)
  have 2: "server_ok (fold (serve_conn al e) xs u)" "server_ok (fold accept_conn as u)" "server_ok (fold (timer_conn al) xs u)"
    if "server_ok u" for xs as u
    using that by (auto intro: server_ok_fold keeps_ok)
  show ?thesis
    unfolding server_round_def Let_def
    by (intro server_ok_maintain server_ok_reap 1 2 server_ok_poll_clipboard server_ok_pump
        if_split [where P = server_ok, THEN iffD2] conjI impI server_ok_console server_ok_outside(14) assms)
qed

definition server_start :: "server \<Rightarrow> bool" where
  "server_start s \<longleftrightarrow> 1 \<le> cfg_max_fps (sv_cfg s) \<and> sv_conns s = [] \<and> sv_conn s = (\<lambda>_. new_conn [] 0)"

lemma server_ok_start: "server_start s \<Longrightarrow> server_ok s"
  by (simp add: server_start_def server_ok_def new_conn_def conn_ok_def flow_ok_def rate_ok_def uploads_ok_def keyed_def active_conns_def)

lemma server_ok_rounds: "server_ok s \<Longrightarrow> server_ok (fold (server_round al) es s)"
  by (rule server_ok_fold) (rule server_ok_round)

text \<open>The header of every response fits its 512-byte array.\<close>

lemma length_dec_digits: "n < 10 ^ Suc k \<Longrightarrow> length (dec_digits n) \<le> Suc k"
proof (induction k arbitrary: n)
  case 0
  then show ?case by (subst dec_digits.simps) simp
next
  case (Suc k)
  have "n div 10 < 10 ^ Suc k" using Suc.prems by (simp add: less_mult_imp_div_less mult.commute)
  then show ?case using Suc.IH [of "n div 10"] by (subst dec_digits.simps) simp
qed

lemma response_header_fits:
  assumes "length status \<le> 31" "length type \<le> 24" "0 \<le> code" "code < 1000" "length body < 2 ^ 64"
  shows "length (response_header code status type body) < 512"
proof -
  have "nat code < 10 ^ Suc 2" using assms(4) by simp
  then have "length (std_to_string code) \<le> 3" using assms(3) length_dec_digits [of "nat code" 2] by (simp add: std_to_string_def)
  moreover have "length body < 10 ^ Suc 19" using assms(5) by simp
  then have "length (std_to_string (int (length body))) \<le> 20" using length_dec_digits [of "length body" 19] by (simp add: std_to_string_def)
  ultimately show ?thesis using assms(1,2) by (simp add: response_header_def bytes_of_def CRLF_def)
qed

end
