(* ===== verification/Server_Props.thy ===== *)
theory Server_Props
  imports Server_Inv
begin

text \<open>
  The properties of the host server: who can become a viewer, what a viewer can do, the lockout,
  uploads and the files it serves.
\<close>


section \<open>Who is a viewer\<close>

text \<open>No connection becomes active.\<close>

definition no_new :: "server \<Rightarrow> server \<Rightarrow> bool" where
  "no_new s t \<longleftrightarrow> (\<forall>j. is_active t j \<longrightarrow> is_active s j)"

named_theorems keeps_new \<open>operations that activate nobody\<close>

lemma no_new_refl [keeps_new]: "no_new s s"
  by (simp add: no_new_def)

lemma no_new_trans: "no_new s t \<Longrightarrow> no_new t u \<Longrightarrow> no_new s u"
  by (simp add: no_new_def)

lemma no_new_quiet: "quiet t u \<Longrightarrow> no_new s t \<Longrightarrow> no_new s u"
  by (simp add: no_new_def is_active_quiet)

lemma no_new_outside [keeps_new]:
  "no_new s t \<Longrightarrow> no_new s (t\<lparr>sv_fs := fs\<rparr>)" "no_new s t \<Longrightarrow> no_new s (t\<lparr>sv_dirs := ds\<rparr>)"
  "no_new s t \<Longrightarrow> no_new s (t\<lparr>sv_disk_free := n\<rparr>)" "no_new s t \<Longrightarrow> no_new s (on_plat g t)"
  "no_new s t \<Longrightarrow> no_new s (t\<lparr>sv_displays := dl\<rparr>)" "no_new s t \<Longrightarrow> no_new s (t\<lparr>sv_last_clip := b\<rparr>)"
  "no_new s t \<Longrightarrow> no_new s (t\<lparr>sv_clip_count := k\<rparr>)" "no_new s t \<Longrightarrow> no_new s (t\<lparr>sv_failures := fl\<rparr>)"
  "no_new s t \<Longrightarrow> no_new s (t\<lparr>sv_recent_failures := rf\<rparr>)" 
  by (simp_all add: no_new_def is_active_def on_plat_def)

lemma no_new_on_conn:
  assumes "no_new s t" "c_state (f (sv_conn t i)) = Active \<Longrightarrow> \<not> c_dead (f (sv_conn t i)) \<Longrightarrow>
    c_state (sv_conn t i) = Active \<and> \<not> c_dead (sv_conn t i)"
  shows "no_new s (on_conn i f t)"
  using assms by (auto simp: no_new_def is_active_def)

lemma no_new_conn [keeps_new]:
  "no_new s t \<Longrightarrow> no_new s (close_conn i t)"
  "no_new s t \<Longrightarrow> no_new s (on_conn i (\<lambda>c. c\<lparr>c_need_full := b\<rparr>) t)"
  "no_new s t \<Longrightarrow> no_new s (on_conn i (\<lambda>c. c\<lparr>c_need_full := b, c_shadow_w := w, c_shadow_h := h\<rparr>) t)"
  "no_new s t \<Longrightarrow> no_new s (on_conn i (\<lambda>c. c\<lparr>c_sent_input := b\<rparr>) t)"
  "no_new s t \<Longrightarrow> no_new s (on_conn i (\<lambda>c. c\<lparr>c_ch := ch\<rparr>) t)"
  "no_new s t \<Longrightarrow> no_new s (on_conn i (\<lambda>c. c\<lparr>c_uploads := g (c_uploads c)\<rparr>) t)"
  "no_new s t \<Longrightarrow> no_new s (on_conn i (\<lambda>c. c\<lparr>c_state := Closing, c_close_after_flush := b\<rparr>) t)"
  "no_new s t \<Longrightarrow> no_new s (on_conn i (\<lambda>c. c\<lparr>c_ch := ch, c_state := Auth\<rparr>) t)"
  "no_new s t \<Longrightarrow> no_new s (on_conn i (\<lambda>c. c\<lparr>c_close_after_flush := b\<rparr>) t)"
  "no_new s t \<Longrightarrow> no_new s (on_conn i (\<lambda>c. c\<lparr>c_transcript := d\<rparr>) t)"
  "no_new s t \<Longrightarrow> no_new s (on_conn i (\<lambda>c. c\<lparr>c_nonce := nf c\<rparr>) t)"
  "no_new s t \<Longrightarrow> no_new s (on_conn i (\<lambda>c. c\<lparr>c_name := d\<rparr>) t)"
  "no_new s t \<Longrightarrow> no_new s (on_conn i (on_frame_ack r) t)"
  "no_new s t \<Longrightarrow> no_new s (on_conn i (apply_settings mf q fps) t)"
  by (auto simp: close_conn_def on_frame_ack_def apply_settings_def Let_def intro!: no_new_on_conn
      split: prod.splits if_splits)

lemma no_new_send [keeps_new]:
  "no_new s t \<Longrightarrow> no_new s (send_msg al i msg t)" "no_new s t \<Longrightarrow> no_new s (broadcast al msg ex co t)"
  "no_new s t \<Longrightarrow> no_new s (notice al txt ex t)" "no_new s t \<Longrightarrow> no_new s (file_result al i fid ok txt t)"
  by (erule no_new_quiet [rotated], rule quiet_intros)+

lemma no_new_fold: "(\<And>x t. no_new s t \<Longrightarrow> no_new s (f x t)) \<Longrightarrow> no_new s t \<Longrightarrow> no_new s (fold f xs t)"
  by (induction xs arbitrary: t) auto

lemma no_new_upload [keeps_new]:
  "no_new s t \<Longrightarrow> no_new s (finish_upload al i fid ok txt t)"
  "no_new s t \<Longrightarrow> no_new s (begin_upload al i fid fsize raw t)"
  "no_new s t \<Longrightarrow> no_new s (file_end al i r t)"
  unfolding finish_upload_def begin_upload_def file_end_def Let_def
  by (auto intro!: keeps_new split: option.split prod.split)

lemma no_new_chunk [keeps_new]: "no_new s t \<Longrightarrow> no_new s (file_chunk al i r t)"
  unfolding file_chunk_def fwrite_def Let_def by (auto intro!: keeps_new split: option.split prod.split)

lemma no_new_switch [keeps_new]: "no_new s t \<Longrightarrow> no_new s (switch_display al k t)"
  unfolding switch_display_def cap_start_def Let_def by (auto intro!: keeps_new no_new_fold)

lemma no_new_messages [keeps_new]:
  "no_new s t \<Longrightarrow> no_new s (on_pointer i r t)" "no_new s t \<Longrightarrow> no_new s (on_key i r t)"
  "no_new s t \<Longrightarrow> no_new s (on_clipboard al i r t)" "no_new s t \<Longrightarrow> no_new s (on_chat al i r t)"
  "no_new s t \<Longrightarrow> no_new s (on_settings al i r t)"
  by (simp_all add: on_pointer_def on_key_def on_clipboard_def on_chat_def on_settings_def inject_def Let_def keeps_new
      split: prod.split option.split)

lemma no_new_session: "no_new s (handle_session_message al i type r s)"
  by (simp add: handle_session_message_def Let_def keeps_new split: option.split c_type.split prod.split)

lemma no_new_draw: "draw n t = (k, u) \<Longrightarrow> no_new s t \<Longrightarrow> no_new s u"
  using no_new_quiet quiet_draw by blast

lemma no_new_hello: "no_new s (handle_hello al i type r s)"
  unfolding handle_hello_def Let_def
  by (auto split!: prod.split option.split intro!: keeps_new intro: no_new_draw)


text \<open>A connection that authentication activates.\<close>

lemma c_type_of_auth: "c_type_of t = Some RD_C_AUTH \<Longrightarrow> t = 2"
proof -
  assume "c_type_of t = Some RD_C_AUTH"
  then have "(unat t, RD_C_AUTH) \<in> set (zip [1..<14] [RD_C_HELLO, RD_C_AUTH, RD_C_FRAME_ACK, RD_C_POINTER, RD_C_KEY, RD_C_CLIPBOARD,
     RD_C_SETTINGS, RD_C_CHAT, RD_C_PING, RD_C_FILE_BEGIN, RD_C_FILE_CHUNK, RD_C_FILE_END, RD_C_REFRESH])"
    unfolding c_type_of_def by (rule map_of_SomeD)
  then have "unat t = 2" by (simp add: upt_rec)
  then show "t = 2" by (simp add: word_unat_eq_iff)
qed

lemma auth_activates:
  assumes new: "\<not> is_active s j" "is_active (handle_auth al i type r s) j"
    and r: "r = snd (rd_get_u8 (rd_reader_init m))" "type = fst (rd_get_u8 (rd_reader_init m))"
  shows "j = i \<and> (\<exists>rest. m = 2 # rd_hs_auth_mac (cfg_password (sv_cfg s)) (c_transcript (sv_conn s i)) @ rest) \<and>
    fst (locked_out (c_addr (sv_conn s i)) s) = None \<and> int (length (active_conns s)) < cfg_max_viewers (sv_cfg s)"
proof -
  let ?mac = "rd_hs_auth_mac (cfg_password (sv_cfg s)) (c_transcript (sv_conn s i))"
  obtain mac r' where g: "rd_get_bytes r 32 = (mac, r')" by fastforce
  obtain w t where l: "locked_out (c_addr (sv_conn s i)) s = (w, t)" by fastforce
  note f = locked_out_frame [OF l]
  have same: "is_active t = is_active s" "active_conns t = active_conns s"
    using f by (simp_all add: is_active_def fun_eq_iff active_conns_def cong: filter_cong)
  have n: "no_new s t" using same by (simp add: no_new_def)
  have fail: "no_new s (auth_fail al i why u)" if "no_new s u" for why u
    unfolding auth_fail_def using that by (auto intro!: keeps_new)
  have ct: "c_type_of type = Some RD_C_AUTH" using new no_new_conn(1) [OF no_new_refl, of s i]
    by (auto simp: handle_auth_def no_new_def split: if_splits)
  then have ty: "type = 2" by (rule c_type_of_auth)
  have w: "w = None"
    using new fail [OF n] by (cases w) (auto simp: handle_auth_def ct g l no_new_def Let_def split: if_splits)
  have rec: "no_new s (record_auth_failure a t)" for a
    unfolding record_auth_failure_def Let_def using n by (auto intro!: keeps_new)
  have full: "int (length (active_conns s)) < cfg_max_viewers (sv_cfg s)"
    using new fail [OF n] fail [OF rec] w f same by (auto simp: handle_auth_def ct g l no_new_def Let_def split: if_splits)
  obtain d where d: "mac = Some d" "rd_ct_equal d ?mac 32"
    using new fail [OF rec] w f
    by (cases mac) (auto simp: handle_auth_def ct g l no_new_def Let_def split: if_splits)
  let ?u = "t\<lparr>sv_failures := (sv_failures t)(c_addr (sv_conn s i) := None)\<rparr>"
  have "is_active (on_authenticated al i ?u) j"
    using new fail [OF n] fail [OF rec] w d full f
    by (auto simp: handle_auth_def ct g l no_new_def Let_def split: if_splits)
  then have ji: "j = i"
    using new(1) f by (auto simp: on_authenticated_def Let_def is_active_quiet [OF quiet_notice]
        is_active_quiet [OF quiet_broadcast_viewers] is_active_quiet [OF quiet_send_display_info]
        is_active_quiet [OF quiet_send_msg] is_active_def split: if_splits)
  have m: "m \<noteq> []" "r = \<lparr>rr_p = m, rr_pos = 1, rr_err = False\<rparr>" "hd m = 2"
    using r ty g d by (cases m; auto simp: rd_get_u8_def rd_get_bytes_def rd_reader_init_def split: if_splits)+
  then have "32 \<le> length (tl m)" "d = take 32 (tl m)"
    using g d by (auto simp: rd_get_bytes_def drop_Suc split: if_splits)
  moreover have "take 32 d = take 32 ?mac"
    using d(2) calculation by (simp add: rd_ct_equal_iff rd_hs_auth_mac_def)
  ultimately have "take 32 (tl m) = ?mac" by (simp add: rd_hs_auth_mac_def)
  then have "m = 2 # ?mac @ drop 32 (tl m)" using m by (metis append_take_drop_id list.collapse)
  then show ?thesis using ji w full l by auto
qed

text \<open>A host with one connection, in the state after the key exchange.\<close>

definition demo_cfg :: config where
  "demo_cfg = \<lparr>cfg_password = bytes_of ''secret'', cfg_view_only = False, cfg_allow_files = True, cfg_max_viewers = 8,
     cfg_max_fps = 30, cfg_web_root = [], cfg_downloads_dir = bytes_of ''dl'', cfg_host_name = bytes_of ''host'',
     cfg_static_priv = replicate 32 1, cfg_static_pub = replicate 32 2, cfg_relay_host = [], cfg_relay_port = 0,
     cfg_relay_id = [], cfg_relay_key = []\<rparr>"

definition demo_plat :: platform where
  "demo_plat = \<lparr>pl_os_name = bytes_of ''Demo'', pl_displays = [], pl_current = 0, pl_can_start = \<lambda>_. True,
     pl_hires_supported = False, pl_hires = False, pl_latest = None, pl_clip_text = None, pl_clip_count = 0,
     pl_set_count = \<lambda>k. k + 1, pl_input = []\<rparr>"

definition demo_conn :: conn where
  "demo_conn = (new_conn (bytes_of ''10.0.0.2'') 0)\<lparr>c_state := Auth, c_name := bytes_of ''Ann'', c_ch := rd_hs_keys [] [] [] True\<rparr>"

definition demo_server :: server where
  "demo_server = \<lparr>sv_cfg = demo_cfg, sv_plat = demo_plat, sv_conns = [0], sv_conn = \<lambda>_. demo_conn, sv_fresh = 1, sv_next_id = 1,
     sv_clip_count = 0, sv_last_clip = [], sv_displays = [], sv_next_clip_poll_us = 0, sv_console_buf = [],
     sv_failures = \<lambda>_. None, sv_recent_failures = [], sv_relay_ctl = None, sv_relay_next_us = 0,
     sv_relay_backoff_us = 2000000, sv_relay_online = False, sv_stop = False, sv_now = 1000000, sv_random = \<lambda>_. 0,
     sv_random_ok = True, sv_fs = \<lambda>_. None, sv_can_create = \<lambda>_. True, sv_disk_free = 1000000, sv_dirs = [],
     sv_can_connect = False, sv_junk = -1\<rparr>"



definition demo_auth :: bytes where
  "demo_auth = rd_aead_seal (2 # rd_hs_auth_mac (bytes_of ''secret'') (replicate 32 0)) [] (recv_key (c_ch demo_conn)) (ctr_nonce 0)"

lemma auth_succeeds:
  assumes "c_type_of type = Some RD_C_AUTH" "\<not> c_dead (sv_conn s i)"
    "rd_get_bytes r 32 = (Some (rd_hs_auth_mac (cfg_password (sv_cfg s)) (c_transcript (sv_conn s i))), r')"
    "fst (locked_out (c_addr (sv_conn s i)) s) = None" "int (length (active_conns s)) < cfg_max_viewers (sv_cfg s)"
  shows "is_active (handle_auth al i type r s) i"
proof -
  obtain t where l: "locked_out (c_addr (sv_conn s i)) s = (None, t)" using assms(4) by (metis prod.collapse)
  note f = locked_out_frame [OF l]
  have "active_conns t = active_conns s" using f by (simp add: is_active_def active_conns_def cong: filter_cong)
  moreover have "is_active (on_authenticated al i u) i" if "\<not> c_dead (sv_conn u i)" for u
    using that by (simp add: on_authenticated_def Let_def is_active_quiet [OF quiet_notice]
        is_active_quiet [OF quiet_broadcast_viewers] is_active_quiet [OF quiet_send_display_info]
        is_active_quiet [OF quiet_send_msg]) (simp add: is_active_def)
  ultimately show ?thesis
    using assms f by (simp add: handle_auth_def l Let_def rd_ct_equal_iff rd_hs_auth_mac_def)
qed

lemma demo_conn_simps: "c_state demo_conn = Auth" "c_dead demo_conn = False" "c_transcript demo_conn = replicate 32 0"
  "ch_active (c_ch demo_conn)" "recv_ctr (c_ch demo_conn) = 0"
  by (simp_all add: demo_conn_def new_conn_def rd_hs_keys_def Let_def)

lemma demo_server_simps: "sv_conn demo_server i = demo_conn" "sv_cfg demo_server = demo_cfg" "sv_conns demo_server = [0]"
  "sv_failures demo_server = (\<lambda>_. None)" "sv_recent_failures demo_server = []" "sv_now demo_server = 1000000"
  by (simp_all add: demo_server_def)

lemma demo_active: "is_active (handle_message al 0 demo_auth demo_server) 0"
proof -
  let ?m = "2 # rd_hs_auth_mac (bytes_of ''secret'') (replicate 32 0)"
  let ?u = "on_conn 0 (\<lambda>c. c\<lparr>c_ch := (c_ch demo_conn)\<lparr>recv_ctr := 1\<rparr>\<rparr>) demo_server"
  have o: "rd_channel_open (c_ch demo_conn) demo_auth = (Some ?m, (c_ch demo_conn)\<lparr>recv_ctr := 1\<rparr>)"
    by (simp add: rd_channel_open_iff demo_auth_def demo_conn_simps)
  have g: "rd_get_u8 (rd_reader_init ?m) = (2, \<lparr>rr_p = ?m, rr_pos = 1, rr_err = False\<rparr>)"
    by (simp add: rd_get_u8_def rd_get_bytes_def rd_reader_init_def)
  have "is_active (handle_auth al 0 2 \<lparr>rr_p = ?m, rr_pos = 1, rr_err = False\<rparr> ?u) 0"
  proof (rule auth_succeeds)
    show "c_type_of 2 = Some RD_C_AUTH" by code_simp
    show "rd_get_bytes \<lparr>rr_p = ?m, rr_pos = 1, rr_err = False\<rparr> 32 =
      (Some (rd_hs_auth_mac (cfg_password (sv_cfg ?u)) (c_transcript (sv_conn ?u 0))), \<lparr>rr_p = ?m, rr_pos = 33, rr_err = False\<rparr>)"
      by (simp add: rd_get_bytes_def demo_server_simps demo_conn_simps demo_cfg_def rd_hs_auth_mac_def)
  qed (simp_all add: demo_server_simps demo_conn_simps demo_cfg_def locked_out_def active_conns_def is_active_def Let_def)
  then show ?thesis
    by (simp add: handle_message_def demo_server_simps demo_conn_simps o handle_plain_def g)
qed


section \<open>What a viewer can do\<close>

text \<open>The screen, input, clipboard and displays are left alone.\<close>

lemma quiet_plat: "quiet s t \<Longrightarrow> sv_plat t = sv_plat s \<and> sv_fs t = sv_fs s"
  by (simp add: quiet_fields)

lemma send_plat [simp]:
  "sv_plat (send_msg al i msg s) = sv_plat s" "sv_plat (broadcast al msg ex co s) = sv_plat s"
  "sv_plat (notice al txt ex s) = sv_plat s" "sv_plat (file_result al i fid ok txt s) = sv_plat s"
  "sv_plat (broadcast_viewers al s) = sv_plat s" "sv_plat (send_display_info al i s) = sv_plat s"
  "sv_fs (send_msg al i msg s) = sv_fs s" "sv_fs (broadcast al msg ex co s) = sv_fs s"
  "sv_fs (notice al txt ex s) = sv_fs s" "sv_fs (file_result al i fid ok txt s) = sv_fs s"
  "sv_fs (broadcast_viewers al s) = sv_fs s" "sv_fs (send_display_info al i s) = sv_fs s"
  "sv_plat (close_conn i s) = sv_plat s" "sv_fs (close_conn i s) = sv_fs s"
  using quiet_plat [OF quiet_send_msg] quiet_plat [OF quiet_broadcast] quiet_plat [OF quiet_notice]
    quiet_plat [OF quiet_file_result] quiet_plat [OF quiet_broadcast_viewers] quiet_plat [OF quiet_send_display_info]
  by (simp_all add: close_conn_def)

lemma draw_plat: "draw n s = (k, t) \<Longrightarrow> sv_plat t = sv_plat s \<and> sv_fs t = sv_fs s"
  using quiet_plat quiet_draw by blast

lemma hello_plat: "sv_plat (handle_hello al i type r s) = sv_plat s \<and> sv_fs (handle_hello al i type r s) = sv_fs s"
  unfolding handle_hello_def Let_def
  by (auto split: prod.split option.split dest!: draw_plat)

lemma auth_plat: "sv_plat (handle_auth al i type r s) = sv_plat s \<and> sv_fs (handle_auth al i type r s) = sv_fs s"
  unfolding handle_auth_def Let_def auth_fail_def record_auth_failure_def on_authenticated_def locked_out_def
  by (auto split: prod.split option.split)

lemma uploads_plat:
  "sv_plat (begin_upload al i fid fsize raw s) = sv_plat s" "sv_plat (finish_upload al i fid ok txt s) = sv_plat s"
  "sv_plat (file_chunk al i r s) = sv_plat s" "sv_plat (file_end al i r s) = sv_plat s"
  unfolding begin_upload_def finish_upload_def file_chunk_def file_end_def fwrite_def Let_def
  by (auto split: prod.split option.split)

lemma apply_settings_view_only [simp]: "c_view_only (apply_settings mf q fps c) = c_view_only c"
  by (simp add: apply_settings_def Let_def)

lemma input_view_only:
  assumes "c_view_only (sv_conn s i)"
  shows "on_pointer i r s = s" "on_key i r s = s" "on_clipboard al i r s = s"
    "sv_plat (on_settings al i r s) = sv_plat s" "sv_fs (on_settings al i r s) = sv_fs s"
    "sv_plat (begin_upload al i fid fsize raw s) = sv_plat s" "sv_fs (begin_upload al i fid fsize raw s) = sv_fs s"
  using assms
  by (simp_all add: on_pointer_def on_key_def on_clipboard_def on_settings_def begin_upload_def Let_def split: prod.split)

lemma chat_plat: "sv_plat (on_chat al i r s) = sv_plat s" "sv_fs (on_chat al i r s) = sv_fs s"
  by (simp_all add: on_chat_def Let_def split: prod.split)

lemma session_view_only:
  assumes "c_view_only (sv_conn s i)"
  shows "sv_plat (handle_session_message al i type r s) = sv_plat s"
proof (cases "c_type_of type")
  case (Some t)
  then show ?thesis using assms
    by (cases t) (simp_all add: handle_session_message_def uploads_plat input_view_only chat_plat split: prod.split)
qed (simp add: handle_session_message_def)

lemma session_view_only_fs:
  assumes "c_view_only (sv_conn s i)" "c_uploads (sv_conn s i) = []"
  shows "sv_fs (handle_session_message al i type r s) = sv_fs s"
proof (cases "c_type_of type")
  case (Some t)
  have "file_chunk al i r s = s" "file_end al i r s = s"
    using assms(2) by (simp_all add: file_chunk_def file_end_def split: prod.split)
  with Some show ?thesis using assms
    by (cases t) (simp_all add: handle_session_message_def input_view_only chat_plat split: prod.split)
qed (simp add: handle_session_message_def)


section \<open>Lockout\<close>

definition fail_at :: "bytes \<Rightarrow> u64 \<Rightarrow> server \<Rightarrow> server" where
  "fail_at addr t s = record_auth_failure addr (s\<lparr>sv_now := t\<rparr>)"

definition until_after :: "u64 list \<Rightarrow> u64" where
  "until_after ts = (if length ts < 5 then 0 else last ts + lockout_secs (int (length ts)) * kSecond)"

lemma failures_count:
  assumes "sv_failures s addr = None" "ts \<noteq> []"
  shows "sv_failures (fold (fail_at addr) ts s) addr = Some \<lparr>f_count = int (length ts), f_until_us = until_after ts\<rparr>"
  using assms(2)
proof (induction ts rule: rev_induct)
  case (snoc t ts)
  then show ?case
    using assms(1) by (cases "ts = []") (auto simp: fail_at_def record_auth_failure_def Let_def until_after_def add.commute)
qed simp

lemma failures_recent: "sv_recent_failures (fold (fail_at addr) ts s) = sv_recent_failures s @ ts"
  by (induction ts rule: rev_induct) (simp_all add: fail_at_def record_auth_failure_def Let_def)

lemma lockout_secs_eq:
  assumes "5 \<le> n"
  shows "lockout_secs (int n) = of_nat (min 900 (30 * 2 ^ min (n - 5) 5))"
proof -
  have "min (n - 5) 5 \<le> 5" by simp
  then have "min (n - 5) 5 \<in> {0, 1, 2, 3, 4, 5}" unfolding insert_iff by linarith
  moreover have "nat (min (int n - 5) 5) = min (n - 5) 5" using assms by simp
  ultimately show ?thesis by (auto simp: lockout_secs_def Let_def push_bit_eq_mult)
qed


section \<open>Uploads\<close>

lemma set_std_to_string: "b \<in> set (std_to_string (int n)) \<Longrightarrow> 48 \<le> b \<and> b \<le> 57"
  using dec_digits_digit [of b n] by (simp add: std_to_string_def is_digit_def)

text \<open>A name a file system takes as one component.\<close>

definition plain_name :: "bytes \<Rightarrow> bool" where
  "plain_name nm \<longleftrightarrow> nm \<noteq> [] \<and> nm \<noteq> [46] \<and> nm \<noteq> [46, 46] \<and> set nm \<subseteq> {ch. 32 \<le> ch \<and> ch \<noteq> 47 \<and> ch \<noteq> 92 \<and> ch \<notin> set unsafe_chars}"

lemma after_last_separator:
  assumes "find_last_of cs xs = Some k"
  shows "set (drop (k + 1) xs) \<inter> set cs = {}"
proof -
  obtain n where n: "find_if (\<lambda>b. b \<in> set cs) (rev xs) = Some n" "k = length xs - 1 - n"
    using assms by (auto simp: find_last_of_def)
  note f = find_if_Some [OF n(1)]
  have "b \<notin> set cs" if b: "b \<in> set (drop (k + 1) xs)" for b
  proof -
    obtain m where m: "m < length (drop (k + 1) xs)" "drop (k + 1) xs ! m = b"
      using b unfolding in_set_conv_nth by blast
    define j where "j = k + 1 + m"
    have j: "j < length xs" "k + 1 \<le> j" "b = xs ! j"
      using m by (simp_all add: j_def less_diff_conv add.commute flip: m(2))
    have "length xs - 1 - j < n" using j n(2) f(1) by simp
    then have "rev xs ! (length xs - 1 - j) \<notin> set cs" using f(3) by blast
    then show ?thesis using j by (simp add: rev_nth)
  qed
  then show ?thesis by blast
qed

lemma no_separator: "find_last_of cs xs = None \<Longrightarrow> set xs \<inter> set cs = {}"
  by (simp add: find_last_of_def find_if_None) blast

abbreviation (input) safe_char :: "u8 \<Rightarrow> bool" where
  "safe_char ch \<equiv> 32 \<le> ch \<and> ch \<noteq> 47 \<and> ch \<noteq> 92 \<and> ch \<notin> set unsafe_chars"

lemma safe_name_set: "ch \<in> set (safe_name raw) \<Longrightarrow> safe_char ch"
proof -
  assume ch: "ch \<in> set (safe_name raw)"
  define nm where "nm = (case find_last_of [47, 92] raw of None \<Rightarrow> raw | Some slash \<Rightarrow> drop (slash + 1) raw)"
  define kept where "kept = dropWhile (\<lambda>ch. ch = 46 \<or> ch = 32) (filter (\<lambda>ch. ch \<ge> 32 \<and> ch \<notin> set unsafe_chars) nm)"
  define sf where "sf = (if kept = [] then bytes_of ''upload.bin'' else kept)"
  have "47 \<notin> set nm" "92 \<notin> set nm"
    using after_last_separator [of "[47, 92]" raw] no_separator [of "[47, 92]" raw]
    by (auto simp: nm_def split: option.splits)
  then have k: "safe_char c" if "c \<in> set kept" for c
    using set_dropWhileD [OF that [unfolded kept_def]] by auto
  have u: "safe_char c" if "c \<in> set (bytes_of ''upload.bin'')" for c
    using that by (auto simp: unsafe_chars_def bytes_of_def of_char_def)
  have "safe_name raw = (if length sf > 120 then drop (length sf - 120) sf else sf)"
    unfolding safe_name_def Let_def sf_def kept_def nm_def by (rule refl)
  then have "ch \<in> set sf" using ch by (auto split: if_splits dest: in_set_dropD)
  then show ?thesis using k u by (auto simp: sf_def split: if_splits)
qed

lemma safe_name_length: "safe_name raw \<noteq> [] \<and> length (safe_name raw) \<le> 120"
  by (auto simp: safe_name_def Let_def bytes_of_def)

lemma safe_name_first:
  assumes "length (safe_name raw) < 120"
  shows "hd (safe_name raw) \<noteq> 46"
proof -
  define kept where "kept = dropWhile (\<lambda>ch. ch = 46 \<or> ch = 32) (filter (\<lambda>ch. ch \<ge> 32 \<and> ch \<notin> set unsafe_chars)
    (case find_last_of [47, 92] raw of None \<Rightarrow> raw | Some slash \<Rightarrow> drop (slash + 1) raw))"
  have "kept \<noteq> [] \<Longrightarrow> hd kept \<noteq> 46" unfolding kept_def by (metis (mono_tags, lifting) hd_dropWhile)
  then show ?thesis
    using assms by (auto simp: safe_name_def Let_def kept_def [symmetric] bytes_of_def of_char_def split: if_splits)
qed


lemma set_split_ext:
  assumes "split_ext safe = (b, x)"
  shows "set b \<subseteq> set safe \<and> set x \<subseteq> set safe"
  using assms by (auto simp: split_ext_def split: option.splits if_splits dest: in_set_takeD in_set_dropD)

text \<open>The candidates for the name of an upload.\<close>

definition candidate :: "bytes \<Rightarrow> bytes \<Rightarrow> nat \<Rightarrow> bytes" where
  "candidate dir safe k = (if k = 0 then dir @ [47] @ safe else numbered_path dir safe k)"

lemma free_path_candidate:
  assumes "1 \<le> i" "i \<le> 1000"
  shows "\<exists>k<1000. free_path e dir safe i (candidate dir safe (i - 1)) = candidate dir safe k"
  using assms
proof (induction "1000 - i" arbitrary: i)
  case 0
  then show ?case by (subst free_path.simps) (auto intro!: exI [of _ 999])
next
  case (Suc n)
  then have "\<exists>k<1000. free_path e dir safe (i + 1) (candidate dir safe i) = candidate dir safe k"
    using Suc.hyps(1) [of "i + 1"] by simp
  moreover have "numbered_path dir safe i = candidate dir safe i" using Suc.prems by (simp add: candidate_def)
  moreover have "\<exists>k<1000. candidate dir safe (i - 1) = candidate dir safe k" using Suc.prems by (intro exI [of _ "i - 1"]) auto
  ultimately show ?case by (subst free_path.simps) auto
qed

lemma free_path_free:
  assumes "1 \<le> i" "i - 1 \<le> k" "k < 1000" "\<not> e (candidate dir safe k)"
  shows "\<not> e (free_path e dir safe i (candidate dir safe (i - 1)))"
  using assms
proof (induction "1000 - i" arbitrary: i)
  case 0
  then have "k = i - 1" by simp
  then show ?case using 0 by (subst free_path.simps) auto
next
  case (Suc n)
  have c: "numbered_path dir safe i = candidate dir safe i" using Suc.prems by (simp add: candidate_def)
  have "\<not> e (free_path e dir safe (i + 1) (candidate dir safe i))" if "e (candidate dir safe (i - 1))"
  proof -
    have "k \<noteq> i - 1" using that Suc.prems(4) by blast
    then show ?thesis using Suc.hyps(1) [of "i + 1"] Suc.hyps(2) Suc.prems by simp
  qed
  moreover have "i < 1000" using Suc.hyps(2) by simp
  ultimately show ?case using c by (subst free_path.simps) auto
qed

lemma upload_path_candidate: "\<exists>k<1000. upload_path e dir safe = candidate dir safe k"
  using free_path_candidate [of 1 e dir safe] by (simp add: upload_path_def candidate_def [of _ _ 0])

lemma candidate_name:
  "\<exists>nm. candidate dir (safe_name raw) k = dir @ [47] @ nm \<and> plain_name nm"
proof (cases "k = 0")
  case True
  have "safe_name raw \<noteq> [46]" "safe_name raw \<noteq> [46, 46]" using safe_name_first [of raw] by auto
  then show ?thesis using True safe_name_length [of raw] safe_name_set [of _ raw] by (auto simp: candidate_def plain_name_def)
next
  case False
  obtain b x where e: "split_ext (safe_name raw) = (b, x)" by fastforce
  let ?nm = "b @ bytes_of '' ('' @ std_to_string (int k) @ bytes_of '')'' @ x"
  have p: "bytes_of '' ('' = [32, 40]" "bytes_of '')'' = [41]" by (simp_all add: bytes_of_def of_char_def)
  have d: "safe_char c" if "c \<in> set (std_to_string (int k))" for c
    using set_std_to_string [OF that] by (auto simp: unsafe_chars_def word_le_nat_alt)
  have "safe_char c" if "c \<in> set ?nm" for c
    using that set_split_ext [OF e] safe_name_set [of c raw] d [of c] by (auto simp: p unsafe_chars_def)
  moreover have "?nm \<noteq> [46] \<and> ?nm \<noteq> [46, 46]"
  proof -
    have l: "3 \<le> length ?nm" by (simp add: p)
    have short: "?nm \<noteq> xs" if "length xs \<le> 2" for xs
    proof
      assume "?nm = xs"
      then have "length ?nm = length xs" by (rule arg_cong)
      with l that show False by linarith
    qed
    show ?thesis by (intro conjI short) simp_all
  qed
  ultimately have "plain_name ?nm" by (auto simp: plain_name_def p)
  then show ?thesis using False by (auto simp: candidate_def numbered_path_def e)
qed

text \<open>C34: whatever name a viewer sends, its upload is a file directly inside the downloads directory: one
path component without separators, control characters or characters reserved on common file systems, not
\<open>.\<close> or \<open>..\<close>, made from a name of 1 to 120 bytes.\<close>

theorem upload_stays_in_downloads:
  "\<exists>nm. upload_path taken dir (safe_name raw) = dir @ [47] @ nm \<and> plain_name nm \<and>
     1 \<le> length (safe_name raw) \<and> length (safe_name raw) \<le> 120"
  using upload_path_candidate [of taken dir "safe_name raw"] candidate_name [of dir raw] safe_name_length [of raw]
  by (metis One_nat_def Suc_leI length_greater_0_conv)

text \<open>C35: starting an upload changes no file that is already there, as long as one of the thousand candidate
names is free.\<close>

theorem upload_never_overwrites:
  assumes "k < 1000" "sv_fs s (candidate (cfg_downloads_dir (sv_cfg s)) (safe_name raw) k) = None" "sv_fs s p \<noteq> None"
  shows "sv_fs (begin_upload al i fid fsize raw s) p = sv_fs s p"
proof -
  let ?e = "\<lambda>p. sv_fs s p \<noteq> None" and ?d = "cfg_downloads_dir (sv_cfg s)"
  have "\<not> ?e (free_path ?e ?d (safe_name raw) 1 (candidate ?d (safe_name raw) (1 - 1)))"
    using assms(1,2) by (intro free_path_free) auto
  then have "\<not> ?e (upload_path ?e ?d (safe_name raw))" by (simp add: upload_path_def candidate_def)
  then show ?thesis using assms(3) by (auto simp: begin_upload_def Let_def file_result_def quiet_fields [OF quiet_send_msg])
qed

text \<open>When all of them are taken, the last one is emptied; and cutting a long name to its last 120 bytes can bring a
leading dot back.\<close>

lemma free_path_taken:
  assumes "\<And>k. k < 1000 \<Longrightarrow> e (candidate dir safe k)" "1 \<le> i" "i \<le> 1000"
  shows "free_path e dir safe i (candidate dir safe (i - 1)) = candidate dir safe 999"
  using assms(2,3)
proof (induction "1000 - i" arbitrary: i)
  case 0
  then show ?case by (subst free_path.simps) simp
next
  case (Suc n)
  have "numbered_path dir safe i = candidate dir safe i" using Suc.prems by (simp add: candidate_def)
  moreover have "e (candidate dir safe (i - 1))" using Suc.prems by (intro assms(1)) simp
  ultimately show ?case using Suc.hyps(1) [of "i + 1"] Suc.hyps(2) Suc.prems by (subst free_path.simps) simp
qed

lemma upload_overwrites_last:
  assumes "\<And>k. k < 1000 \<Longrightarrow> e (candidate dir safe k)"
  shows "upload_path e dir safe = candidate dir safe 999"
  using free_path_taken [of e dir safe 1, OF assms] by (simp add: upload_path_def candidate_def)

lemma safe_name_hidden: "hd (safe_name (97 # 46 # replicate 119 98)) = 46"
  by code_simp

text \<open>Witnesses.\<close>

definition demo_viewer :: server where
  "demo_viewer = on_conn 0 (\<lambda>c. c\<lparr>c_state := Active, c_view_only := True\<rparr>) demo_server"



theorem upload_never_overwrites_witness:
  "sv_fs (begin_upload (\<lambda>_. True) 0 7 100 (bytes_of ''a.txt'') (demo_server\<lparr>sv_fs := [bytes_of ''keep'' \<mapsto> [1]]\<rparr>)) (bytes_of ''keep'') = Some [1]"
  using upload_never_overwrites [of 0 "demo_server\<lparr>sv_fs := [bytes_of ''keep'' \<mapsto> [1]]\<rparr>" "bytes_of ''a.txt''" "bytes_of ''keep''" "\<lambda>_. True" 0 7 100]
  by (simp add: candidate_def demo_server_simps demo_cfg_def bytes_of_def)

section \<open>The limits the host promises\<close>

text \<open>C4: whatever the sockets, the console and the viewers do, in every state the main loop reaches at
most \<open>max_viewers\<close> viewers are active, each of them over an encrypted channel; no viewer has more than two
unacknowledged frames, a frame rate outside 1 to \<open>max_fps\<close> or a quality outside 0 to 3; and no viewer has
more than four uploads open, or one that has received more than it announced or announced more than 4 GiB.\<close>

theorem server_keeps_its_limits:
  fixes al :: alloc and es :: "round list"
  assumes "server_start s"
  defines "t \<equiv> fold (server_round al) es s"
  shows "int (length (active_conns t)) \<le> max 0 (cfg_max_viewers (sv_cfg t)) \<and>
    (is_active t j \<longrightarrow> ch_active (c_ch (sv_conn t j)) \<and> 1 \<le> c_eff_fps (sv_conn t j) \<and>
       c_eff_fps (sv_conn t j) \<le> c_fps (sv_conn t j) \<and> c_fps (sv_conn t j) \<le> cfg_max_fps (sv_cfg t)) \<and>
    unat (c_frame_id (sv_conn t j) - c_acked (sv_conn t j)) \<le> 2 \<and>
    0 \<le> c_quality (sv_conn t j) \<and> c_quality (sv_conn t j) \<le> 3 \<and> length (c_uploads (sv_conn t j)) \<le> 4 \<and>
    (map_of (c_uploads (sv_conn t j)) fid = Some u \<longrightarrow> up_received u \<le> up_size u \<and> up_size u \<le> RD_MAX_FILE_SIZE)"
proof -
  have t: "server_ok t" unfolding t_def by (rule server_ok_rounds [OF server_ok_start [OF assms(1)]])
  note c = server_okD [OF t, of j]
  have "up_received u \<le> up_size u \<and> up_size u \<le> RD_MAX_FILE_SIZE" if "map_of (c_uploads (sv_conn t j)) fid = Some u"
    using c map_of_SomeD [OF that] by (auto simp: conn_ok_def uploads_ok_def)
  moreover have "int (length (active_conns t)) \<le> max 0 (cfg_max_viewers (sv_cfg t))" using t by (simp add: server_ok_def)
  ultimately show ?thesis using c by (simp add: conn_ok_def flow_ok_def rate_ok_def uploads_ok_def keyed_def is_active_def)
qed

definition demo_start :: server where
  "demo_start = demo_server\<lparr>sv_conns := [], sv_conn := \<lambda>_. new_conn [] 0\<rparr>"

theorem server_keeps_its_limits_witness:
  "\<forall>al es. int (length (active_conns (fold (server_round al) es demo_start))) \<le>
     max 0 (cfg_max_viewers (sv_cfg (fold (server_round al) es demo_start)))"
proof -
  have "server_start demo_start" by (simp add: server_start_def demo_start_def demo_server_simps demo_cfg_def)
  from server_keeps_its_limits [OF this] show ?thesis by blast
qed

section \<open>Serving files\<close>

text \<open>A path the host looks up: below the web root, without \<open>..\<close>.\<close>

definition web_path :: "bytes \<Rightarrow> bytes \<Rightarrow> bool" where
  "web_path root q \<longleftrightarrow> (\<exists>path. q = c_str (root @ path) \<and> hd path = 47 \<and> path \<noteq> [] \<and>
     find_str (bytes_of ''..'') path = None \<and> 92 \<notin> set path \<and> 37 \<notin> set path)"

text \<open>C36: answering a request for a file depends on no file outside the web root: two file systems that agree
on the paths below it give the same answer, whatever target is asked for.\<close>

theorem serve_file_stays_in_web_root:
  assumes "\<And>q. web_path (cfg_web_root (sv_cfg s)) q \<Longrightarrow> fs1 q = fs2 q"
  shows "sv_conn (serve_file al i target (s\<lparr>sv_fs := fs1\<rparr>)) = sv_conn (serve_file al i target (s\<lparr>sv_fs := fs2\<rparr>))"
proof -
  define path where "path = (let p = before (find_first_of [63, 35] target) target in
    if p = [] \<or> p = bytes_of ''/'' then bytes_of ''/index.html'' else p)"
  have ne: "path \<noteq> []" by (auto simp: path_def Let_def bytes_of_def)
  show ?thesis
  proof (cases "path ! 0 \<noteq> 47 \<or> find_str (bytes_of ''..'') path \<noteq> None \<or> find_char 92 path \<noteq> None \<or> find_char 37 path \<noteq> None")
    case True
    then show ?thesis
      by (simp add: serve_file_def Let_def path_def [unfolded Let_def, symmetric] plain_response_def http_response_def on_conn_def)
  next
    case False
    then have "web_path (cfg_web_root (sv_cfg s)) (c_str (cfg_web_root (sv_cfg s) @ path))"
      using ne by (auto simp: web_path_def find_char_def find_if_None hd_conv_nth)
    then have "fs1 (c_str (cfg_web_root (sv_cfg s) @ path)) = fs2 (c_str (cfg_web_root (sv_cfg s) @ path))" by (rule assms)
    then show ?thesis
      by (simp add: serve_file_def Let_def path_def [unfolded Let_def, symmetric] plain_response_def http_response_def on_conn_def
          split: option.split)
  qed
qed

theorem serve_file_stays_in_web_root_witness:
  "sv_conn (serve_file (\<lambda>_. True) 0 (bytes_of ''/../secret'') (demo_server\<lparr>sv_fs := \<lambda>_. None\<rparr>)) =
   sv_conn (serve_file (\<lambda>_. True) 0 (bytes_of ''/../secret'') (demo_server\<lparr>sv_fs := (\<lambda>q. if web_path [] q then None else Some [1])\<rparr>))"
  by (rule serve_file_stays_in_web_root) (simp add: demo_server_simps demo_cfg_def)

section \<open>HTTP\<close>

lemma find_str_prefix: "find_str pat d = Some k \<Longrightarrow> find_str pat (d @ e) = Some k"
proof (induction d arbitrary: k)
  case Nil
  then show ?case by (cases e) (auto split: if_splits)
next
  case (Cons b d)
  have long: "length pat \<le> length xs" if "take (length pat) xs = pat" for xs :: bytes
    using arg_cong [OF that, of length] by simp
  show ?case
  proof (cases "take (length pat) (b # d) = pat")
    case True
    have "take (length pat) ((b # d) @ e) = pat" using long [OF True] True by (subst take_append) simp
    then show ?thesis using Cons.prems True by simp
  next
    case False
    then obtain m where m: "find_str pat d = Some m" "k = Suc m" using Cons.prems by auto
    have "length pat \<le> length (drop m d)" using find_str_Some [OF m(1)] long by blast
    then have "length pat \<le> length (b # d)" by simp
    then have "take (length pat) ((b # d) @ e) = take (length pat) (b # d)" by (subst take_append) simp
    then show ?thesis using False Cons.IH [OF m(1)] m(2) by simp
  qed
qed

lemma c_str_prefix: "\<exists>e. c_str (xs @ ys) = c_str xs @ e"
proof (cases "0 \<in> set xs")
  case True
  then show ?thesis by (auto simp: c_str_def takeWhile_append)
next
  case False
  then show ?thesis by (auto simp: c_str_def takeWhile_append takeWhile_eq_all_conv [THEN iffD2])
qed

lemma serve_file_out:
  "\<exists>x. rb_data (c_out (sv_conn (serve_file al i target s) i)) = rb_data (c_out (sv_conn s i)) @ x \<and>
     c_out_off (sv_conn (serve_file al i target s) i) = c_out_off (sv_conn s i)"
proof -
  have "\<exists>x. rb_data (rd_buf_put al b p) = rb_data b @ x" for b p
    using rd_buf_put_cases [of al b p] by (auto intro: exI [of _ "[]"])
  then have "\<exists>x. rb_data (rd_buf_put al (rd_buf_put al b p) q) = rb_data b @ x" for b p q
    by (metis append.assoc)
  then show ?thesis
    by (auto simp: serve_file_def Let_def plain_response_def http_response_def split: option.split)
qed

lemma unat_wrap:
  assumes "a < b" "b < 2 ^ 63"
  shows "2 ^ 63 < unat (of_nat a - of_nat b :: u64)"
proof -
  have "unat (of_nat a :: u64) = a" "unat (of_nat b :: u64) = b" using assms by (simp_all add: unat_of_nat)
  then show ?thesis using assms by (simp add: unat_sub_if')
qed

text \<open>A \<open>HEAD\<close> request whose headers arrive while an earlier response is being flushed cuts the queue at
the end of that response's header. When more than the header is out already, the queue is then shorter than
what was sent of it, \<open>pending()\<close> wraps around to nearly 2^64, and the next \<open>send\<close> reads past the buffer.\<close>

theorem head_request_wraps_pending:
  assumes "parse_request (take (e + 2) d) = GetFile target True" "rb_data (c_in (sv_conn s i)) = d" "find_blank_line d = Some e"
    "find_blank_line (c_str (rb_data (c_out (sv_conn s i)))) = Some k"
    "k + 4 < c_out_off (sv_conn s i)" "c_out_off (sv_conn s i) < 2 ^ 63"
  shows "2 ^ 63 < unat (conn_pending (sv_conn (handle_http al i s) i))"
proof -
  let ?u = "on_conn i (\<lambda>c. c\<lparr>c_in := rd_buf_consume (c_in c) (e + 4)\<rparr>) s"
  let ?v = "serve_file al i target ?u"
  obtain x where x: "rb_data (c_out (sv_conn ?v i)) = rb_data (c_out (sv_conn s i)) @ x"
    "c_out_off (sv_conn ?v i) = c_out_off (sv_conn s i)"
    using serve_file_out [of al i target ?u] by auto
  obtain y where y: "c_str (rb_data (c_out (sv_conn ?v i))) = c_str (rb_data (c_out (sv_conn s i))) @ y"
    using c_str_prefix x(1) by metis
  have b: "find_blank_line (c_str (rb_data (c_out (sv_conn ?v i)))) = Some k"
    using assms(4) unfolding y find_blank_line_def by (rule find_str_prefix)
  have "k + 4 \<le> length (c_str (rb_data (c_out (sv_conn s i))))"
    using find_str_Some [OF assms(4) [unfolded find_blank_line_def]]
    by (auto simp: CRLF_def dest!: arg_cong [of "take _ _" _ length])
  then have len: "k + 4 \<le> length (rb_data (c_out (sv_conn ?v i)))" using length_c_str_le x(1)
    by (metis le_trans length_append trans_le_add1)
  have "sv_conn (handle_http al i s) i = drop_body (sv_conn ?v i)"
    by (simp add: handle_http_def assms(2,3) assms(1) [simplified] Let_def)
  also have "\<dots> = (sv_conn ?v i)\<lparr>c_out := (c_out (sv_conn ?v i))\<lparr>rb_data := take (k + 4) (rb_data (c_out (sv_conn ?v i)))\<rparr>\<rparr>"
    by (simp add: drop_body_def b)
  finally have "conn_pending (sv_conn (handle_http al i s) i) = of_nat (k + 4) - of_nat (c_out_off (sv_conn s i))"
    using len by (simp add: conn_pending_def x(2))
  moreover have "2 ^ 63 < unat (of_nat (k + 4) - of_nat (c_out_off (sv_conn s i)) :: u64)"
    using assms(5,6) by (rule unat_wrap)
  ultimately show ?thesis by simp
qed


definition demo_head :: server where
  "demo_head = on_conn 0 (\<lambda>c. c\<lparr>c_state := Http, c_in := rd_buf_init\<lparr>rb_data := bytes_of ''HEAD / HTTP/1.1'' @ CRLF @ CRLF\<rparr>,
     c_out := rd_buf_init\<lparr>rb_data := bytes_of ''HTTP/1.1 200 OK'' @ CRLF @ CRLF @ bytes_of ''<html>''\<rparr>, c_out_off := 21\<rparr>) demo_server"

theorem head_request_wraps_pending_witness:
  "2 ^ 63 < unat (conn_pending (sv_conn (handle_http (\<lambda>_. True) 0 demo_head) 0))"
proof (rule head_request_wraps_pending)
  show "parse_request (take (15 + 2) (bytes_of ''HEAD / HTTP/1.1'' @ CRLF @ CRLF)) = GetFile (bytes_of ''/'') True" by code_simp
  show "rb_data (c_in (sv_conn demo_head 0)) = bytes_of ''HEAD / HTTP/1.1'' @ CRLF @ CRLF" by (simp add: demo_head_def)
  show "find_blank_line (bytes_of ''HEAD / HTTP/1.1'' @ CRLF @ CRLF) = Some 15" by code_simp
  have "find_blank_line (c_str (bytes_of ''HTTP/1.1 200 OK'' @ CRLF @ CRLF @ bytes_of ''<html>'')) = Some 15" by code_simp
  then show "find_blank_line (c_str (rb_data (c_out (sv_conn demo_head 0)))) = Some 15" by (simp add: demo_head_def)
qed (simp_all add: demo_head_def)

text \<open>A connection that is already closing leaves \<open>rc\<close> uninitialised; a negative leftover value closes it before
its last bytes are flushed.\<close>

lemma ws_messages_uninitialised:
  assumes "c_state (sv_conn s i) = Closing"
  shows "handle_ws_messages al i s = (if sv_junk s < 0 then close_conn i s else s)"
  using assms by (simp add: handle_ws_messages_def Let_def)

end
