(* ===== verification/Store.thy ===== *)
theory Store
  imports Cxx Rd_Secure "HOL-Library.List_Lexorder"
begin

text \<open>
  The viewer's saved computers, \<open>client/store.cpp\<close>: tab-separated records with escapes, the file they
  are loaded from and saved to, and the fingerprints trusted on first use. The directory is what the
  environment or SDL says; a file system maps paths to contents.
\<close>

section \<open>Escapes and records\<close>

definition esc_char :: "u8 \<Rightarrow> bytes" where
  "esc_char c = (if c = 92 then [92, 92] else if c = 9 then [92, 116] else if c = 10 then [92, 110]
     else if c = 13 then [92, 114] else [c])"

definition esc :: "bytes \<Rightarrow> bytes" where
  "esc s = concat (map esc_char s)"

fun unesc :: "bytes \<Rightarrow> bytes" where
  "unesc (c # n # s) =
     (if c = 92 then (if n = 116 then 9 else if n = 110 then 10 else if n = 114 then 13 else n) # unesc s
      else c # unesc (n # s))"
| "unesc s = s"

text \<open>The loop of \<open>split_tabs\<close>; \<open>cur\<close> is the field being read.\<close>

fun split_tabs_loop :: "bytes \<Rightarrow> bytes \<Rightarrow> bytes list" where
  "split_tabs_loop cur [] = [unesc cur]"
| "split_tabs_loop cur (c # s) =
     (if c = 9 then unesc cur # split_tabs_loop [] s else split_tabs_loop (cur @ [c]) s)"

definition split_tabs :: "bytes \<Rightarrow> bytes list" where
  "split_tabs line = split_tabs_loop [] line"

definition key_for :: "bytes \<Rightarrow> int \<Rightarrow> bytes" where
  "key_for host port = host @ bytes_of '':'' @ std_to_string port"

text \<open>\<open>std::getline\<close> until the end of the file: the last line need not end in a newline.\<close>

fun get_lines :: "bytes \<Rightarrow> bytes \<Rightarrow> bytes list" where
  "get_lines cur [] = (if cur = [] then [] else [cur])"
| "get_lines cur (c # s) = (if c = 10 then cur # get_lines [] s else get_lines (cur @ [c]) s)"

section \<open>State\<close>

record saved_pc =
  pc_id :: bytes
  pc_label :: bytes
  pc_host :: bytes
  pc_port :: int
  pc_user_name :: bytes
  pc_password :: bytes
  pc_remember :: bool
  pc_fullscreen :: bool
  pc_last_used :: int

text \<open>\<open>st_known\<close> is a \<open>std::map\<close>: its entries in the order of their keys.\<close>

record store =
  st_pcs :: "saved_pc list"
  st_share_password :: bytes
  st_share_view_only :: bool
  st_share_demo :: bool
  st_share_always_on :: bool
  st_dir :: bytes
  st_known :: "(bytes \<times> bytes) list"

fun map_put :: "bytes \<Rightarrow> bytes \<Rightarrow> (bytes \<times> bytes) list \<Rightarrow> (bytes \<times> bytes) list" where
  "map_put k v [] = [(k, v)]"
| "map_put k v ((k', v') # m) =
     (if k < k' then (k, v) # (k', v') # m else if k = k' then (k, v) # m else (k', v') # map_put k v m)"

definition empty_store :: "bool \<Rightarrow> store" where
  "empty_store remote = \<lparr>st_pcs = [], st_share_password = [], st_share_view_only = False, st_share_demo = False,
     st_share_always_on = remote, st_dir = [], st_known = []\<rparr>"

section \<open>Operations\<close>

definition store_persistent :: "store \<Rightarrow> bool" where
  "store_persistent st \<longleftrightarrow> st_dir st \<noteq> []"

definition viewer_tsv :: "bytes \<Rightarrow> bytes" where
  "viewer_tsv dir = dir @ bytes_of ''viewer.tsv''"

definition load_line :: "bytes \<Rightarrow> store \<Rightarrow> store" where
  "load_line line st =
     (let v = split_tabs line
      in if length v \<ge> 10 \<and> v ! 0 = bytes_of ''pc'' then
           (let rem = (v ! 6 = bytes_of ''1'');
                pc = \<lparr>pc_id = v ! 1, pc_label = v ! 2, pc_host = v ! 3, pc_port = c_atoi (v ! 4), pc_user_name = v ! 5,
                  pc_password = (if rem then v ! 9 else []), pc_remember = rem, pc_fullscreen = (v ! 7 = bytes_of ''1''),
                  pc_last_used = c_atoi (v ! 8)\<rparr>
            in if pc_id pc \<noteq> [] \<and> pc_host pc \<noteq> [] then st\<lparr>st_pcs := st_pcs st @ [pc]\<rparr> else st)
         else if length v \<ge> 4 \<and> v ! 0 = bytes_of ''share'' then
           st\<lparr>st_share_password := v ! 1, st_share_view_only := (v ! 2 = bytes_of ''1''),
              st_share_demo := (v ! 3 = bytes_of ''1''), st_share_always_on := (length v \<ge> 5 \<and> v ! 4 = bytes_of ''1'')\<rparr>
         else if length v \<ge> 3 \<and> v ! 0 = bytes_of ''known'' then st\<lparr>st_known := map_put (v ! 1) (v ! 2) (st_known st)\<rparr>
         else st)"

text \<open>\<open>override\<close> is TETHERDESK_DATA_DIR, \<open>pref\<close> the path SDL gives, each when there is one.\<close>

definition store_dir :: "bytes option \<Rightarrow> bytes option \<Rightarrow> bytes \<Rightarrow> bytes" where
  "store_dir override pref dir =
     (case override of
        Some d \<Rightarrow> if d \<noteq> [] then (if last d \<noteq> 47 \<and> last d \<noteq> 92 then d @ [47] else d)
          else (case pref of None \<Rightarrow> dir | Some p \<Rightarrow> p)
      | None \<Rightarrow> (case pref of None \<Rightarrow> dir | Some p \<Rightarrow> p))"

definition store_load :: "bytes option \<Rightarrow> bytes option \<Rightarrow> (bytes \<Rightarrow> bytes option) \<Rightarrow> store \<Rightarrow> store" where
  "store_load override pref fs st =
     (let st = st\<lparr>st_dir := store_dir override pref (st_dir st)\<rparr>
      in if st_dir st = [] then st
         else case fs (viewer_tsv (st_dir st)) of
           None \<Rightarrow> st
         | Some body \<Rightarrow> fold load_line (get_lines [] body) st)"

definition digit01 :: "bool \<Rightarrow> bytes" where
  "digit01 b = (if b then [49] else [48])"

definition pc_fields :: "saved_pc \<Rightarrow> bytes list" where
  "pc_fields pc = [bytes_of ''pc'', esc (pc_id pc), esc (pc_label pc), esc (pc_host pc), std_to_string (pc_port pc),
     esc (pc_user_name pc), digit01 (pc_remember pc), digit01 (pc_fullscreen pc), std_to_string (pc_last_used pc),
     esc (if pc_remember pc then pc_password pc else [])]"

definition known_fields :: "bytes \<times> bytes \<Rightarrow> bytes list" where
  "known_fields k = [bytes_of ''known'', esc (fst k), esc (snd k)]"

definition share_fields :: "store \<Rightarrow> bytes list" where
  "share_fields st = [bytes_of ''share'', esc (st_share_password st), digit01 (st_share_view_only st),
     digit01 (st_share_demo st), digit01 (st_share_always_on st)]"

text \<open>One record: its fields with tabs between them and a newline.\<close>

fun record_line :: "bytes list \<Rightarrow> bytes" where
  "record_line [] = [10]"
| "record_line [f] = f @ [10]"
| "record_line (f # g # fs) = f @ [9] @ record_line (g # fs)"

definition store_text :: "store \<Rightarrow> bytes" where
  "store_text st = concat (map (\<lambda>pc. record_line (pc_fields pc)) (st_pcs st)) @
     concat (map (\<lambda>k. record_line (known_fields k)) (st_known st)) @ record_line (share_fields st)"

text \<open>
  The text goes to a temporary file, which then replaces the old one. \<open>can_create\<close> says whether the temporary file can be
  opened and \<open>room\<close> how much of it the disk takes; nobody looks whether all of it was written.
\<close>

definition store_save :: "(bytes \<Rightarrow> bool) \<Rightarrow> nat \<Rightarrow> store \<Rightarrow> (bytes \<Rightarrow> bytes option) \<Rightarrow> bytes \<Rightarrow> bytes option" where
  "store_save can_create room st fs =
     (let path = viewer_tsv (st_dir st); tmp = path @ bytes_of ''.tmp''
      in if st_dir st = [] \<or> \<not> can_create tmp then fs
         else fs(tmp := None, path := Some (take room (store_text st))))"

definition store_find :: "bytes \<Rightarrow> store \<Rightarrow> saved_pc option" where
  "store_find i st = find (\<lambda>pc. pc_id pc = i) (st_pcs st)"

fun replace_pc :: "saved_pc \<Rightarrow> saved_pc list \<Rightarrow> saved_pc list" where
  "replace_pc pc [] = [pc]"
| "replace_pc pc (p # ps) = (if pc_id p = pc_id pc then pc # ps else p # replace_pc pc ps)"

definition store_upsert :: "saved_pc \<Rightarrow> store \<Rightarrow> store" where
  "store_upsert pc st = st\<lparr>st_pcs := replace_pc pc (st_pcs st)\<rparr>"

definition thumbnail_path :: "bytes \<Rightarrow> store \<Rightarrow> bytes" where
  "thumbnail_path i st = st_dir st @ bytes_of ''thumb_'' @ i @ bytes_of ''.bmp''"

definition store_remove :: "bytes \<Rightarrow> store \<Rightarrow> (bytes \<Rightarrow> bytes option) \<Rightarrow> store \<times> (bytes \<Rightarrow> bytes option)" where
  "store_remove i st fs =
     (st\<lparr>st_pcs := filter (\<lambda>p. pc_id p \<noteq> i) (st_pcs st)\<rparr>,
      if st_dir st \<noteq> [] then fs(thumbnail_path i st := None) else fs)"

text \<open>\<open>r\<close> is what \<open>rd_random\<close> left in the six bytes.\<close>

definition store_new_id :: "bytes \<Rightarrow> bytes" where
  "store_new_id r = concat (map (\<lambda>b. [hex_digit (drop_bit 4 b), hex_digit (b AND 15)]) (take 6 r))"

definition known_fingerprint :: "bytes \<Rightarrow> int \<Rightarrow> store \<Rightarrow> bytes" where
  "known_fingerprint host port st = (case map_of (st_known st) (key_for host port) of None \<Rightarrow> [] | Some fp \<Rightarrow> fp)"

definition store_trust :: "bytes \<Rightarrow> int \<Rightarrow> bytes \<Rightarrow> store \<Rightarrow> store" where
  "store_trust host port fp st = st\<lparr>st_known := map_put (key_for host port) fp (st_known st)\<rparr>"

section \<open>Escapes\<close>

lemma unesc_esc_char: "unesc (esc_char c @ s) = c # unesc s"
  by (cases s) (auto simp: esc_char_def)

lemma unesc_esc: "unesc (esc s) = s"
proof -
  have "unesc (esc s @ t) = s @ unesc t" for t
    by (induction s) (simp_all add: esc_def unesc_esc_char)
  from this [of "[]"] show ?thesis by simp
qed

lemma esc_chars: "b \<in> set (esc s) \<Longrightarrow> b \<noteq> 9 \<and> b \<noteq> 10 \<and> b \<noteq> 13"
  by (auto simp: esc_def esc_char_def split: if_splits)

text \<open>A field: what reading it gives back.\<close>

definition field_of :: "bytes \<Rightarrow> bytes \<Rightarrow> bool" where
  "field_of f x \<longleftrightarrow> unesc f = x \<and> 9 \<notin> set f \<and> 10 \<notin> set f"

lemma unesc_id: "92 \<notin> set s \<Longrightarrow> unesc s = s"
  by (induction s rule: unesc.induct) auto

lemma field_esc: "field_of (esc s) s"
  using esc_chars [of _ s] by (auto simp: field_of_def unesc_esc)

lemma field_number: "field_of (std_to_string n) (std_to_string n)"
proof -
  have "b \<noteq> 9 \<and> b \<noteq> 10 \<and> b \<noteq> 92" if "b \<in> set (std_to_string n)" for b
    using std_to_string_chars [OF that] digit_not_special [of b] by auto
  then show ?thesis by (auto simp: field_of_def intro!: unesc_id)
qed

lemma field_digit01: "field_of (digit01 b) (digit01 b)"
  by (simp add: field_of_def digit01_def)

lemma split_tabs_record:
  assumes "list_all2 field_of fs xs" "fs \<noteq> []"
  shows "split_tabs (butlast (record_line fs)) = xs"
proof -
  have loop: "9 \<notin> set f \<Longrightarrow> split_tabs_loop cur (f @ s) = split_tabs_loop (cur @ f) s" for f cur s
    by (induction f arbitrary: cur) auto
  have "record_line gs \<noteq> []" for gs by (induction gs rule: record_line.induct) auto
  then show ?thesis
    using assms unfolding split_tabs_def
  proof (induction fs arbitrary: xs rule: record_line.induct)
    case (2 f)
    then show ?case by (cases xs) (auto simp: field_of_def loop [of f "[]" "[]", simplified] butlast_append)
  next
    case (3 f g fs)
    then obtain x xs' where x: "xs = x # xs'" "field_of f x" "list_all2 field_of (g # fs) xs'"
      by (cases xs) auto
    then show ?case using 3 by (simp add: field_of_def loop butlast_append)
  qed simp
qed

lemma record_line_shape:
  assumes "list_all2 field_of fs xs" "fs \<noteq> []"
  shows "\<exists>l. record_line fs = l @ [10] \<and> 10 \<notin> set l"
  using assms
proof (induction fs arbitrary: xs rule: record_line.induct)
  case (2 f)
  then show ?case by (cases xs) (auto simp: field_of_def)
next
  case (3 f g fs)
  then obtain x xs' where "xs = x # xs'" "field_of f x" "list_all2 field_of (g # fs) xs'" by (cases xs) auto
  then obtain l where "record_line (g # fs) = l @ [10]" "10 \<notin> set l" using "3.IH" [of xs'] by blast
  then show ?case using \<open>field_of f x\<close> by (intro exI [of _ "f @ 9 # l"]) (simp add: field_of_def)
qed simp

lemma get_lines_record:
  assumes "list_all2 field_of fs xs" "fs \<noteq> []"
  shows "get_lines [] (record_line fs @ rest) = butlast (record_line fs) # get_lines [] rest"
proof -
  obtain l where l: "record_line fs = l @ [10]" "10 \<notin> set l" using record_line_shape [OF assms] by blast
  have "10 \<notin> set l \<Longrightarrow> get_lines cur (l @ 10 # rest) = (cur @ l) # get_lines [] rest" for cur
    by (induction l arbitrary: cur) auto
  with l show ?thesis by simp
qed

lemmas fields = field_esc field_number field_digit01

lemma field_word: "field_of (bytes_of ''pc'') (bytes_of ''pc'')" "field_of (bytes_of ''known'') (bytes_of ''known'')"
  "field_of (bytes_of ''share'') (bytes_of ''share'')"
  by code_simp+

lemma digit01_one: "(digit01 b = bytes_of ''1'') = b"
  by (auto simp: digit01_def bytes_of_def of_char_def)

section \<open>What is saved is what is loaded\<close>

text \<open>A password is not stored unless it is to be remembered.\<close>

definition stored_pc :: "saved_pc \<Rightarrow> saved_pc" where
  "stored_pc pc = (if pc_remember pc then pc else pc\<lparr>pc_password := []\<rparr>)"

lemma load_pc_line:
  assumes "pc_id pc \<noteq> []" "pc_host pc \<noteq> []"
  shows "load_line (butlast (record_line (pc_fields pc))) st = st\<lparr>st_pcs := st_pcs st @ [stored_pc pc]\<rparr>"
proof -
  have "split_tabs (butlast (record_line (pc_fields pc))) = [bytes_of ''pc'', pc_id pc, pc_label pc, pc_host pc,
      std_to_string (pc_port pc), pc_user_name pc, digit01 (pc_remember pc), digit01 (pc_fullscreen pc),
      std_to_string (pc_last_used pc), if pc_remember pc then pc_password pc else []]"
    unfolding pc_fields_def by (rule split_tabs_record) (simp_all add: fields field_word)
  then show ?thesis
    using assms by (simp add: load_line_def Let_def digit01_one c_atoi_to_string stored_pc_def)
qed

lemma load_known_line:
  "load_line (butlast (record_line (known_fields k))) st = st\<lparr>st_known := map_put (fst k) (snd k) (st_known st)\<rparr>"
proof -
  have "split_tabs (butlast (record_line (known_fields k))) = [bytes_of ''known'', fst k, snd k]"
    unfolding known_fields_def by (rule split_tabs_record) (simp_all add: fields field_word)
  then show ?thesis by (simp add: load_line_def Let_def bytes_of_def)
qed

lemma load_share_line:
  "load_line (butlast (record_line (share_fields t))) st = st\<lparr>st_share_password := st_share_password t,
     st_share_view_only := st_share_view_only t, st_share_demo := st_share_demo t, st_share_always_on := st_share_always_on t\<rparr>"
proof -
  have "split_tabs (butlast (record_line (share_fields t))) = [bytes_of ''share'', st_share_password t,
      digit01 (st_share_view_only t), digit01 (st_share_demo t), digit01 (st_share_always_on t)]"
    unfolding share_fields_def by (rule split_tabs_record) (simp_all add: fields field_word)
  moreover have "bytes_of ''share'' \<noteq> bytes_of ''pc''" by code_simp
  ultimately show ?thesis by (simp add: load_line_def Let_def digit01_one)
qed

lemma load_pcs:
  assumes "\<forall>pc\<in>set pcs. pc_id pc \<noteq> [] \<and> pc_host pc \<noteq> []"
  shows "fold load_line (get_lines [] (concat (map (\<lambda>pc. record_line (pc_fields pc)) pcs) @ rest)) st =
    fold load_line (get_lines [] rest) (st\<lparr>st_pcs := st_pcs st @ map stored_pc pcs\<rparr>)"
  using assms
proof (induction pcs arbitrary: st)
  case (Cons pc pcs)
  have "list_all2 field_of (pc_fields pc) [bytes_of ''pc'', pc_id pc, pc_label pc, pc_host pc,
      std_to_string (pc_port pc), pc_user_name pc, digit01 (pc_remember pc), digit01 (pc_fullscreen pc),
      std_to_string (pc_last_used pc), if pc_remember pc then pc_password pc else []]"
    by (simp add: pc_fields_def fields field_word)
  then have "get_lines [] (record_line (pc_fields pc) @ r) = butlast (record_line (pc_fields pc)) # get_lines [] r" for r
    by (rule get_lines_record) (simp add: pc_fields_def)
  then show ?case using Cons by (simp add: load_pc_line)
qed simp

lemma load_known:
  "fold load_line (get_lines [] (concat (map (\<lambda>k. record_line (known_fields k)) ks) @ rest)) st =
    fold load_line (get_lines [] rest) (st\<lparr>st_known := fold (\<lambda>k. map_put (fst k) (snd k)) ks (st_known st)\<rparr>)"
proof (induction ks arbitrary: st)
  case (Cons k ks)
  have "list_all2 field_of (known_fields k) [bytes_of ''known'', fst k, snd k]"
    by (simp add: known_fields_def fields field_word)
  then have "get_lines [] (record_line (known_fields k) @ r) = butlast (record_line (known_fields k)) # get_lines [] r" for r
    by (rule get_lines_record) (simp add: known_fields_def)
  then show ?case by (simp add: Cons load_known_line)
qed simp

text \<open>Entering a map's entries in order gives the map.\<close>

lemma map_put_last: "\<forall>e\<in>set m. fst e < k \<Longrightarrow> map_put k v m = m @ [(k, v)]"
  by (induction m) (auto simp: less_not_sym)

lemma map_put_sorted:
  assumes "sorted_wrt (<) (map fst (m @ ks))"
  shows "fold (\<lambda>k. map_put (fst k) (snd k)) ks m = m @ ks"
  using assms
proof (induction ks arbitrary: m)
  case (Cons k ks)
  have "map_put (fst k) (snd k) m = m @ [k]" using Cons.prems by (simp add: map_put_last sorted_wrt_append)
  then show ?case using Cons by simp
qed simp


lemma map_put_keys: "fst ` set (map_put k v m) = insert k (fst ` set m)"
  by (induction k v m rule: map_put.induct) auto

lemma map_put_keeps_order:
  assumes "sorted_wrt (<) (map fst m)"
  shows "sorted_wrt (<) (map fst (map_put k v m))"
  using assms
proof (induction k v m rule: map_put.induct)
  case (2 k v k' v' m)
  show ?case
  proof (cases "k < k' \<or> k = k'")
    case True
    then show ?thesis using 2(2) by (auto intro: less_trans)
  next
    case False
    then have "k' < k" using less_linear by blast
    then show ?thesis using 2 False map_put_keys [of k v m] by (auto dest!: equalityD1 [THEN subsetD])
  qed
qed simp

definition store_ok :: "store \<Rightarrow> bool" where
  "store_ok st \<longleftrightarrow> (\<forall>pc\<in>set (st_pcs st). pc_id pc \<noteq> [] \<and> pc_host pc \<noteq> []) \<and> sorted_wrt (<) (map fst (st_known st))"

lemma store_ok_trust: "store_ok st \<Longrightarrow> store_ok (store_trust host port fp st)"
  by (simp add: store_ok_def store_trust_def map_put_keeps_order)

lemma store_ok_load_line: "store_ok st \<Longrightarrow> store_ok (load_line l st)"
  by (auto simp: store_ok_def load_line_def Let_def map_put_keeps_order)

text \<open>C32: when the disk takes the whole text, loading what was saved gives the store back, whatever bytes its names,
passwords and fingerprints are made of; only passwords not to be remembered are gone.\<close>

theorem store_load_saved:
  assumes "store_ok st" "st_dir st \<noteq> []" "store_dir override pref [] = st_dir st"
    "can_create (viewer_tsv (st_dir st) @ bytes_of ''.tmp'')" "length (store_text st) \<le> room"
  shows "store_load override pref (store_save can_create room st fs) (empty_store remote) =
    st\<lparr>st_pcs := map stored_pc (st_pcs st)\<rparr>"
proof -
  have f: "store_save can_create room st fs (viewer_tsv (st_dir st)) = Some (store_text st)"
    using assms by (simp add: store_save_def Let_def)
  let ?e = "(empty_store remote)\<lparr>st_dir := st_dir st\<rparr>"
  have "fold load_line (get_lines [] (store_text st)) ?e =
      fold load_line (get_lines [] (record_line (share_fields st)))
        (?e\<lparr>st_pcs := map stored_pc (st_pcs st), st_known := fold (\<lambda>k. map_put (fst k) (snd k)) (st_known st) []\<rparr>)"
    unfolding store_text_def using assms(1) by (simp add: load_pcs load_known store_ok_def empty_store_def)
  also have "fold (\<lambda>k. map_put (fst k) (snd k)) (st_known st) [] = st_known st"
    using assms(1) map_put_sorted [of "[]" "st_known st"] by (simp add: store_ok_def)
  also have "get_lines [] (record_line (share_fields st)) = [butlast (record_line (share_fields st))]"
    using get_lines_record [of "share_fields st" "[bytes_of ''share'', st_share_password st, digit01 (st_share_view_only st),
      digit01 (st_share_demo st), digit01 (st_share_always_on st)]" "[]"]
    by (simp add: share_fields_def fields field_word)
  finally show ?thesis
    using assms(2,3) f by (simp add: store_load_def empty_store_def load_share_line)
qed

definition demo_store :: store where
  "demo_store = (empty_store False)\<lparr>st_dir := bytes_of ''d/'', st_share_password := [9, 92, 10],
     st_known := [([49], [50]), ([49, 9], [13])], st_pcs := [\<lparr>pc_id = [97], pc_label = [], pc_host = [98, 9], pc_port = 5980,
       pc_user_name = [], pc_password = [99], pc_remember = False, pc_fullscreen = True, pc_last_used = -5\<rparr>]\<rparr>"

theorem store_load_saved_witness:
  "pc_password (hd (st_pcs (store_load None (Some (bytes_of ''d/'')) (store_save (\<lambda>_. True) (length (store_text demo_store)) demo_store (\<lambda>_. None)) (empty_store True)))) = []"
proof -
  have "store_load None (Some (bytes_of ''d/'')) (store_save (\<lambda>_. True) (length (store_text demo_store)) demo_store (\<lambda>_. None)) (empty_store True) =
      demo_store\<lparr>st_pcs := map stored_pc (st_pcs demo_store)\<rparr>"
    by (intro store_load_saved) (simp_all add: demo_store_def empty_store_def store_ok_def store_dir_def bytes_of_def)
  then show ?thesis by (simp add: demo_store_def stored_pc_def)
qed

text \<open>A full disk: the old file is replaced all the same.\<close>

lemma store_save_on_full_disk:
  assumes "st_dir st \<noteq> []" "can_create (viewer_tsv (st_dir st) @ bytes_of ''.tmp'')"
  shows "store_save can_create 0 st fs (viewer_tsv (st_dir st)) = Some []"
  using assms by (simp add: store_save_def Let_def)

end
