(* ===== verification/Transport.thy ===== *)
theory Transport
  imports Rd_Ws Cxx
begin

text \<open>
  The viewer's connection, \<open>client/transport_native.cpp\<close>: a WebSocket client on a non-blocking socket,
  with TLS when it goes to a relay. What the system answers is part of the state (\<open>tr_dial\<close> for starting a
  connection to the n-th address of a host, \<open>tr_tx\<close> for the results of sending, call after call) or
  an argument of \<open>tr_poll\<close>.
\<close>

section \<open>State\<close>

datatype tstate = TIdle | TConnecting | TOpen | TClosed

record transport =
  tr_sock :: bool
  tr_host :: bytes
  tr_path :: bytes
  tr_port :: int
  tr_attempt :: nat
  tr_secure :: bool
  tr_tls_ready :: bool
  tr_tls :: bool
  tr_state :: tstate
  tr_tcp_up :: bool
  tr_started_us :: u64
  tr_in :: rd_buf
  tr_out :: rd_buf
  tr_ws :: rd_ws_reader
  tr_accept :: bytes
  tr_error :: bytes
  tr_now :: u64
  tr_tx :: "nat option list"
  tr_dial :: "bytes \<Rightarrow> int \<Rightarrow> nat \<Rightarrow> bytes option"
  tr_random :: "nat \<Rightarrow> u8"

abbreviation (input) RD_MAX_SERVER_MSG :: nat where "RD_MAX_SERVER_MSG \<equiv> 268435456"

definition server_reader :: rd_ws_reader where
  "server_reader = rd_ws_reader_init \<lparr>wr_assembly = rd_buf_init, wr_opcode = -1, wr_max_message = 0,
     wr_expect_masked = False, wr_ctrl = replicate 125 0\<rparr> RD_MAX_SERVER_MSG False"

definition tr_init :: "u64 \<Rightarrow> (bytes \<Rightarrow> int \<Rightarrow> nat \<Rightarrow> bytes option) \<Rightarrow> (nat \<Rightarrow> u8) \<Rightarrow> transport" where
  "tr_init now dial rnd = \<lparr>tr_sock = False, tr_host = [], tr_path = [], tr_port = 0, tr_attempt = 0, tr_secure = False,
     tr_tls_ready = False, tr_tls = False, tr_state = TIdle, tr_tcp_up = False, tr_started_us = 0, tr_in = rd_buf_init,
     tr_out = rd_buf_init, tr_ws = server_reader, tr_accept = [], tr_error = [], tr_now = now, tr_tx = [], tr_dial = dial,
     tr_random = rnd\<rparr>"

text \<open>\<open>rd_random\<close> into a buffer of \<open>n\<close> bytes; its result is not looked at.\<close>

definition tr_draw :: "nat \<Rightarrow> transport \<Rightarrow> bytes \<times> transport" where
  "tr_draw n t = (map (tr_random t) [0..<n], t\<lparr>tr_random := \<lambda>k. tr_random t (k + n)\<rparr>)"

section \<open>Failing, sending\<close>

definition drop_tls :: "transport \<Rightarrow> transport" where
  "drop_tls t = t\<lparr>tr_tls := False, tr_tls_ready := False\<rparr>"

definition tr_fail :: "bytes \<Rightarrow> transport \<Rightarrow> transport" where
  "tr_fail why t =
     (let t = drop_tls t; t = (if tr_error t = [] then t\<lparr>tr_error := why\<rparr> else t)
      in t\<lparr>tr_sock := False, tr_state := TClosed\<rparr>)"

text \<open>The loop of \<open>flush\<close>: how much is out, or \<open>None\<close> for an error.\<close>

fun tr_send_loop :: "nat option list \<Rightarrow> nat \<Rightarrow> nat \<Rightarrow> nat option \<times> nat option list" where
  "tr_send_loop (x # xs) off len =
     (if off < len then
        (case x of
           None \<Rightarrow> (None, xs)
         | Some n \<Rightarrow> if n = 0 then (Some off, xs) else tr_send_loop xs (off + min n (len - off)) len)
      else (Some off, x # xs))"
| "tr_send_loop [] off len = (Some off, [])"

definition tr_flush :: "transport \<Rightarrow> transport" where
  "tr_flush t =
     (if \<not> tr_tcp_up t \<or> (tr_tls t \<and> \<not> tr_tls_ready t) then t
      else case tr_send_loop (tr_tx t) 0 (rb_len (tr_out t)) of (off, tx) \<Rightarrow>
        (let t = t\<lparr>tr_tx := tx\<rparr>
         in case off of
              None \<Rightarrow> tr_fail (bytes_of ''connection lost'') (t\<lparr>tr_out := rd_buf_clear (tr_out t)\<rparr>)
            | Some n \<Rightarrow> t\<lparr>tr_out := rd_buf_consume (tr_out t) n\<rparr>))"

definition tr_frame :: "alloc \<Rightarrow> nat \<Rightarrow> bytes \<Rightarrow> transport \<Rightarrow> transport" where
  "tr_frame al opc p t =
     (case tr_draw 4 t of (key, t) \<Rightarrow> t\<lparr>tr_out := rd_ws_write_frame al key (tr_out t) opc p True\<rparr>)"

definition tr_send :: "alloc \<Rightarrow> bytes \<Rightarrow> transport \<Rightarrow> transport" where
  "tr_send al p t = (if tr_state t \<noteq> TOpen then t else tr_flush (tr_frame al RD_WS_BINARY p t))"

definition tr_buffered :: "transport \<Rightarrow> nat" where
  "tr_buffered t = rb_len (tr_out t)"

definition tr_close :: "alloc \<Rightarrow> transport \<Rightarrow> transport" where
  "tr_close al t =
     (let t = (if tr_sock t
           then drop_tls (if tr_state t = TOpen then tr_flush (tr_frame al RD_WS_CLOSE [3, 0xe8] t) else t) else t);
          t = t\<lparr>tr_sock := False\<rparr>
      in if tr_state t \<noteq> TIdle then t\<lparr>tr_state := TClosed\<rparr> else t)"

section \<open>Connecting\<close>

text \<open>
  The loop of \<open>open_socket\<close>: the attempt it ends at, whether a socket was opened and the last error.
\<close>

function open_loop :: "(nat \<Rightarrow> bytes option) \<Rightarrow> nat \<Rightarrow> bytes \<Rightarrow> nat \<times> bool \<times> bytes" where
  "open_loop dial k err =
     (if k \<ge> 8 then (k, False, err)
      else case dial k of
        None \<Rightarrow> (k, True, err)
      | Some e \<Rightarrow> if take 7 e = bytes_of ''no more'' \<or> take 14 e = bytes_of ''cannot resolve'' then (k, False, e)
          else open_loop dial (k + 1) e)"
  by pat_completeness auto
termination by (relation "measure (\<lambda>(dial, k, err). 8 - k)") auto

declare open_loop.simps [simp del]

definition open_socket :: "bool \<Rightarrow> transport \<Rightarrow> bool \<times> transport" where
  "open_socket quiet t =
     (case open_loop (tr_dial t (tr_host t) (tr_port t)) (tr_attempt t) [] of (k, ok, err) \<Rightarrow>
        (let t = t\<lparr>tr_attempt := k\<rparr>
         in if ok then (True, t\<lparr>tr_sock := True, tr_tcp_up := False\<rparr>)
            else (False, if quiet then t else tr_fail err t)))"

definition upgrade_request :: "bytes \<Rightarrow> int \<Rightarrow> bytes \<Rightarrow> bytes \<Rightarrow> bytes" where
  "upgrade_request host port path key =
     (let h = (if find_char 58 host \<noteq> None then bytes_of ''['' @ host @ bytes_of '']'' else host)
      in bytes_of ''GET '' @ path @ bytes_of '' HTTP/1.1'' @ CRLF @ bytes_of ''Host: '' @ h @
         (if port = 80 then [] else bytes_of '':'' @ std_to_string port) @ CRLF @
         bytes_of ''Upgrade: websocket'' @ CRLF @ bytes_of ''Connection: Upgrade'' @ CRLF @
         bytes_of ''Sec-WebSocket-Key: '' @ key @ CRLF @ bytes_of ''Sec-WebSocket-Version: 13'' @ CRLF @
         bytes_of ''User-Agent: TetherDesk'' @ CRLF @ CRLF)"

definition tr_connect :: "alloc \<Rightarrow> bytes \<Rightarrow> int \<Rightarrow> bytes \<Rightarrow> bool \<Rightarrow> transport \<Rightarrow> transport" where
  "tr_connect al host port path secure t =
     (let t = tr_close al t;
          t = t\<lparr>tr_in := rd_buf_clear (tr_in t), tr_out := rd_buf_clear (tr_out t), tr_ws := server_reader, tr_error := [],
                tr_host := host, tr_port := port, tr_path := path, tr_secure := secure, tr_tls_ready := False, tr_attempt := 0\<rparr>;
          (ok, t) = open_socket False t
      in if \<not> ok then t
         else
           let t = t\<lparr>tr_state := TConnecting, tr_started_us := tr_now t\<rparr>;
               (raw, t) = tr_draw 16 t;
               key = rd_base64 raw
           in t\<lparr>tr_accept := rd_ws_accept_key key, tr_out := rd_buf_put al (tr_out t) (upgrade_request host port path key)\<rparr>)"

definition refused_code :: "int \<Rightarrow> bool" where
  "refused_code e \<longleftrightarrow> e = 61 \<or> e = 111 \<or> e = 10061"

definition connect_error :: "bytes \<Rightarrow> int \<Rightarrow> bytes" where
  "connect_error host e =
     (if refused_code e \<and> host \<in> set (map bytes_of [''localhost'', ''127.0.0.1'', ''::1''])
      then bytes_of ''Nothing is sharing on this computer. '' @ [34] @ bytes_of ''localhost'' @ [34] @
        bytes_of '' means this computer - use the address shown in Share this PC on the other computer.''
      else if refused_code e
      then bytes_of ''Nothing is sharing at '' @ host @ bytes_of ''. On that computer, open TetherDesk and turn on Share this PC.''
      else if e = 60 \<or> e = 110 \<or> e = 10060
      then bytes_of ''No answer from '' @ host @ bytes_of '' - check the address and your network.''
      else if e = 65 \<or> e = 113 \<or> e = 51 \<or> e = 101 \<or> e = 10065 \<or> e = 10051
      then bytes_of ''Can't reach '' @ host @ bytes_of '' from this network.''
      else bytes_of ''Could not connect to '' @ host @ bytes_of '' (error '' @ std_to_string e @ bytes_of '')'')"

definition close_reason :: "int \<Rightarrow> bytes" where
  "close_reason code =
     (if code = 4404 then bytes_of ''That computer isn't online right now. Ask them to open TetherDesk and turn on sharing.''
      else if code = 4408 then bytes_of ''That computer didn't answer - try again in a moment.''
      else bytes_of ''the host closed the connection'')"

definition finish_handshake :: "transport \<Rightarrow> bool \<times> transport" where
  "finish_handshake t =
     (let d = rb_data (tr_in t)
      in case find_blank_line d of
           None \<Rightarrow> (False, if length d > 16384 then tr_fail (bytes_of ''bad handshake response'') t else t)
         | Some e \<Rightarrow>
             (let resp = take (e + 2) d;
                  t = t\<lparr>tr_in := rd_buf_consume (tr_in t) (e + 4)\<rparr>;
                  headers = drop (the (find_str CRLF resp) + 2) resp
              in if take 12 resp \<noteq> bytes_of ''HTTP/1.1 101'' \<or>
                    rd_http_header headers (bytes_of ''Sec-WebSocket-Accept'') 64 \<noteq> Some (tr_accept t)
                 then (False, tr_fail (bytes_of ''not a TetherDesk host (WebSocket upgrade refused)'') t)
                 else (True, t\<lparr>tr_state := TOpen\<rparr>)))"

section \<open>Receiving\<close>

text \<open>
  What one poll reports: whether the socket is writable or in error, the result of the connect, whether TLS can be set up,
  the result and message of a handshake step, and what receiving returns, call after call.
\<close>

datatype net_rx = NetData bytes | NetBlock | NetClosed

record poll_result =
  po_ready :: bool
  po_connect_result :: int
  po_tls_new :: bool
  po_handshake :: int
  po_tls_error :: bytes
  po_recv :: "net_rx list"

text \<open>At most 256 calls; the result says whether the peer closed.\<close>

fun tr_recv_loop :: "alloc \<Rightarrow> nat \<Rightarrow> net_rx list \<Rightarrow> rd_buf \<Rightarrow> bool \<times> rd_buf" where
  "tr_recv_loop al i (r # rs) b =
     (if i < 256 then
        (case r of NetClosed \<Rightarrow> (True, b) | NetBlock \<Rightarrow> (False, b)
         | NetData d \<Rightarrow> tr_recv_loop al (i + 1) rs (rd_buf_put al b d))
      else (False, b))"
| "tr_recv_loop al i [] b = (False, b)"

text \<open>
  The message loop, with what arrived and how it ended: \<open>None\<close> for no more messages, otherwise the reason to fail.
  The fuel is one more than the bytes there are.
\<close>

primrec tr_ws_loop :: "alloc \<Rightarrow> nat \<Rightarrow> bytes list \<Rightarrow> transport \<Rightarrow> bytes option \<times> bytes list \<times> transport" where
  "tr_ws_loop al 0 msgs t = (None, msgs, t)"
| "tr_ws_loop al (Suc n) msgs t =
     (case rd_ws_next al (tr_ws t) (tr_in t) of (res, r, b) \<Rightarrow>
        (let t = t\<lparr>tr_ws := r, tr_in := b\<rparr>
         in case res of
              WsMore \<Rightarrow> (None, msgs, t)
            | WsError \<Rightarrow> (Some (bytes_of ''protocol error from host''), msgs, t)
            | WsMsg opc p \<Rightarrow>
                if opc = RD_WS_BINARY then tr_ws_loop al n (msgs @ [p]) t
                else if opc = RD_WS_PING then tr_ws_loop al n msgs (tr_frame al RD_WS_PONG p t)
                else if opc = RD_WS_CLOSE
                then (Some (close_reason (if length p \<ge> 2 then int (unat (p ! 0)) * 256 + int (unat (p ! 1)) else 1000)), msgs, t)
                else tr_ws_loop al n msgs t))"

text \<open>The connection attempt: \<open>True\<close> when the poll ends here.\<close>

definition poll_connect :: "poll_result \<Rightarrow> transport \<Rightarrow> bool \<times> transport" where
  "poll_connect e t =
     (if tr_tcp_up t then (False, t)
      else if po_ready e then
        if po_connect_result e \<noteq> 0 then
          (let t = drop_tls (t\<lparr>tr_sock := False\<rparr>);
               (ok, t) = open_socket True (t\<lparr>tr_attempt := tr_attempt t + 1\<rparr>)
           in (True, if ok then t else tr_fail (connect_error (tr_host t) (po_connect_result e)) t))
        else
          let t = t\<lparr>tr_tcp_up := True\<rparr>
          in if \<not> tr_secure t then (False, t)
             else if po_tls_new e then (False, t\<lparr>tr_tls := True\<rparr>)
             else (True, tr_fail (bytes_of ''could not start a secure connection'') t)
      else (True, if tr_now t - tr_started_us t > 10000000
              then tr_fail (bytes_of ''No answer from '' @ tr_host t @
                bytes_of '' - check the address, and that this computer can reach it (same network, port forwarding or a VPN)'') t
              else t))"

definition poll_tls :: "poll_result \<Rightarrow> transport \<Rightarrow> bool \<times> transport" where
  "poll_tls e t =
     (if \<not> tr_tls t \<or> tr_tls_ready t then (False, t)
      else if po_handshake e < 0
      then (True, tr_fail (bytes_of ''secure connection failed ('' @ po_tls_error e @ bytes_of '')'') t)
      else if po_handshake e > 0
      then (True, if tr_now t - tr_started_us t > 15000000 then tr_fail (bytes_of ''secure connection timed out'') t else t)
      else (False, t\<lparr>tr_tls_ready := True\<rparr>))"

definition poll_read :: "alloc \<Rightarrow> poll_result \<Rightarrow> transport \<Rightarrow> bytes list \<times> transport" where
  "poll_read al e t =
     (let t = tr_flush t;
          (closed, b) = tr_recv_loop al 0 (po_recv e) (tr_in t);
          t = t\<lparr>tr_in := b\<rparr>;
          (go, t) = (if tr_state t = TConnecting then finish_handshake t else (True, t))
      in if \<not> go then ([], if closed then tr_fail (bytes_of ''connection refused'') t else t)
         else case tr_ws_loop al (Suc (rb_len (tr_in t))) [] t of (why, msgs, t) \<Rightarrow>
           (msgs, case why of
              Some w \<Rightarrow> tr_fail w t
            | None \<Rightarrow> if closed then tr_fail (bytes_of ''the host closed the connection'') t else tr_flush t))"

definition tr_poll :: "alloc \<Rightarrow> poll_result \<Rightarrow> transport \<Rightarrow> bytes list \<times> transport" where
  "tr_poll al e t =
     (if tr_state t \<noteq> TConnecting \<and> tr_state t \<noteq> TOpen then ([], t)
      else case poll_connect e t of (stop, t) \<Rightarrow>
        if stop then ([], t)
        else case poll_tls e t of (stop, t) \<Rightarrow>
          if stop then ([], t) else poll_read al e t)"

end
