(* ===== verification/Viewer.thy ===== *)
theory Viewer
  imports Store Transport Rd_X25519 Rd_Codec
begin

text \<open>
  The viewer's session, \<open>client/app.cpp\<close>: connecting, the handshake with its trust-on-first-use check, the
  messages of the host, the frame buffer, input, clipboard and uploads, and the network part of one
  tick. Drawing, dialogs and SDL events are not modelled; what the messages and the state machine decide
  about them (screen, dialog, texts, toasts) is. The clock, the system clipboard and files are part of the
  state.
\<close>

section \<open>Texts\<close>

definition relay_id_of :: "bytes \<Rightarrow> bytes" where
  "relay_id_of s =
     (let d = filter is_digit s
      in if list_all (\<lambda>c. is_digit c \<or> c = 32 \<or> c = 45) s \<and> length d = 9 then d else [])"

definition pretty_id :: "bytes \<Rightarrow> bytes" where
  "pretty_id i = (if length i = 9 then take 3 i @ [32] @ take 3 (drop 3 i) @ [32] @ drop 6 i else i)"

definition display_address :: "bytes \<Rightarrow> int \<Rightarrow> bytes" where
  "display_address host port =
     (if relay_id_of host \<noteq> [] then bytes_of ''ID '' @ pretty_id (relay_id_of host)
      else host @ (if port \<noteq> 5980 then bytes_of '':'' @ std_to_string port else []))"

text \<open>The last UTF-8 character of a text is dropped: its bytes back to one that is not a continuation byte.\<close>

definition pop_utf8 :: "bytes \<Rightarrow> bytes" where
  "pop_utf8 s = (if s = [] then [] else rev (dropWhile (\<lambda>b. b AND 0xC0 = 0x80) (tl (rev s))))"

section \<open>State\<close>

datatype screen = ScHome | ScSession
datatype phase = PhNone | PhConnecting | PhHello | PhVerify | PhAuth | PhLive
datatype dialog = DlgNone | DlgEditPc | DlgPassword | DlgVerify | DlgConnecting | DlgSetPassword

text \<open>\<open>op_remote\<close> is the edition (\<open>edition.h\<close>).\<close>

record options =
  op_name :: bytes
  op_trust_new_hosts :: bool
  op_open_menu :: bool
  op_relay :: bytes
  op_web :: bool
  op_web_secure :: bool
  op_web_relay :: bool
  op_web_host :: bytes
  op_web_port :: int
  op_remote :: bool

text \<open>\<open>vu_rest\<close> is what is left to read of the file, \<open>vu_eof\<close> whether a read hit its end.\<close>

record vupload =
  vu_id :: u32
  vu_name :: bytes
  vu_path :: bytes
  vu_open :: bool
  vu_rest :: bytes
  vu_eof :: bool
  vu_size :: u64
  vu_sent :: u64
  vu_begun :: bool
  vu_done :: bool

record viewer =
  vw_opts :: options
  vw_store :: store
  vw_fs :: "bytes \<Rightarrow> bytes option"
  vw_can_create :: "bytes \<Rightarrow> bool"
  vw_room :: nat
  vw_tr :: transport
  vw_screen :: screen
  vw_phase :: phase
  vw_dialog :: dialog
  vw_target :: saved_pc
  vw_user_closed :: bool
  vw_reconnect_attempts :: nat
  vw_reconnect_at :: u32
  vw_error :: bytes
  vw_dialog_error :: bytes
  vw_pw_input :: bytes
  vw_pw_remember :: bool
  vw_ce_priv :: bytes
  vw_ce :: bytes
  vw_transcript :: bytes
  vw_ch :: rd_channel
  vw_host_fp :: bytes
  vw_old_fp :: bytes
  vw_rw :: int
  vw_rh :: int
  vw_fb :: "u32 list"
  vw_tex :: bool
  vw_displays :: "(bytes \<times> int \<times> int) list"
  vw_cur_display :: int
  vw_host_name :: bytes
  vw_host_os :: bytes
  vw_view_only :: bool
  vw_viewers :: "(bytes \<times> bytes \<times> bool) list"
  vw_last_refresh :: u32
  vw_quality :: int
  vw_fps :: int
  vw_hires_supported :: bool
  vw_hires_on :: bool
  vw_resolution_pref :: int
  vw_menu_open :: bool
  vw_chat_open :: bool
  vw_chat_text :: bytes
  vw_toasts :: "bytes list"
  vw_ptr_x :: int
  vw_ptr_y :: int
  vw_buttons :: u8
  vw_ptr_dirty :: bool
  vw_held :: "bool list"
  vw_last_ping :: u32
  vw_last_clip_check :: u32
  vw_rtt_us :: "u64 option"
  vw_clipboard :: "bytes option"
  vw_focused :: bool
  vw_last_local_clip :: bytes
  vw_last_remote_clip :: bytes
  vw_uploads :: "vupload list"
  vw_next_upload_id :: u32
  vw_ticks :: u32
  vw_time :: int
  vw_fullscreen :: bool
  vw_random_ok :: bool

definition wiped_channel :: rd_channel where
  "wiped_channel = \<lparr>send_key = replicate 32 0, recv_key = replicate 32 0, send_ctr = 0, recv_ctr = 0, ch_active = False\<rparr>"

text \<open>A viewer as its constructor leaves it; the file system and the clock are what the program starts with.\<close>

definition new_pc :: saved_pc where
  "new_pc = \<lparr>pc_id = [], pc_label = [], pc_host = [], pc_port = 5980, pc_user_name = [], pc_password = [], pc_remember = False,
     pc_fullscreen = True, pc_last_used = 0\<rparr>"

definition vw_init :: "options \<Rightarrow> store \<Rightarrow> (bytes \<Rightarrow> bytes option) \<Rightarrow> (bytes \<Rightarrow> bool) \<Rightarrow> nat \<Rightarrow> transport \<Rightarrow> viewer" where
  "vw_init opts st fs can_create room tr = \<lparr>vw_opts = opts, vw_store = st, vw_fs = fs, vw_can_create = can_create, vw_room = room,
     vw_tr = tr, vw_screen = ScHome, vw_phase = PhNone, vw_dialog = DlgNone, vw_target = new_pc, vw_user_closed = False,
     vw_reconnect_attempts = 0, vw_reconnect_at = 0, vw_error = [], vw_dialog_error = [], vw_pw_input = [], vw_pw_remember = False,
     vw_ce_priv = replicate 32 0, vw_ce = replicate 32 0, vw_transcript = replicate 32 0, vw_ch = wiped_channel, vw_host_fp = [],
     vw_old_fp = [], vw_rw = 0, vw_rh = 0, vw_fb = [], vw_tex = False, vw_displays = [], vw_cur_display = 0, vw_host_name = [],
     vw_host_os = [], vw_view_only = False, vw_viewers = [], vw_last_refresh = 0, vw_quality = 255, vw_fps = 30,
     vw_hires_supported = False, vw_hires_on = False, vw_resolution_pref = 255, vw_menu_open = False, vw_chat_open = False,
     vw_chat_text = [], vw_toasts = [], vw_ptr_x = 0, vw_ptr_y = 0, vw_buttons = 0, vw_ptr_dirty = False,
     vw_held = replicate 256 False, vw_last_ping = 0, vw_last_clip_check = 0, vw_rtt_us = None, vw_clipboard = None,
     vw_focused = True, vw_last_local_clip = [], vw_last_remote_clip = [], vw_uploads = [], vw_next_upload_id = 1, vw_ticks = 0,
     vw_time = 0, vw_fullscreen = False, vw_random_ok = True\<rparr>"

text \<open>At most six toasts are kept.\<close>

definition toast :: "bytes \<Rightarrow> viewer \<Rightarrow> viewer" where
  "toast t v = (let ts = vw_toasts v @ [t] in v\<lparr>vw_toasts := drop (length ts - 6) ts\<rparr>)"

definition on_tr :: "(transport \<Rightarrow> transport) \<Rightarrow> viewer \<Rightarrow> viewer" where
  "on_tr f v = v\<lparr>vw_tr := f (vw_tr v)\<rparr>"

definition save_store :: "viewer \<Rightarrow> viewer" where
  "save_store v = v\<lparr>vw_fs := store_save (vw_can_create v) (vw_room v) (vw_store v) (vw_fs v)\<rparr>"

definition set_fullscreen :: "bool \<Rightarrow> viewer \<Rightarrow> viewer" where
  "set_fullscreen on v = (if op_web (vw_opts v) then v else v\<lparr>vw_fullscreen := on\<rparr>)"

section \<open>Sending\<close>

definition vsend :: "alloc \<Rightarrow> rd_buf \<Rightarrow> viewer \<Rightarrow> viewer" where
  "vsend al msg v =
     (if \<not> ch_active (vw_ch v) then on_tr (tr_send al (rb_data msg)) v
      else case rd_channel_seal al (vw_ch v) (rb_data msg) rd_buf_init of
        (ch, sealed) \<Rightarrow> on_tr (tr_send al (rb_data sealed)) (v\<lparr>vw_ch := ch\<rparr>))"

definition vmsg :: "alloc \<Rightarrow> u8 \<Rightarrow> rd_buf" where
  "vmsg al t = rd_buf_put_u8 al rd_buf_init t"

definition send_simple :: "alloc \<Rightarrow> u8 \<Rightarrow> viewer \<Rightarrow> viewer" where
  "send_simple al t v = vsend al (vmsg al t) v"

definition send_settings :: "alloc \<Rightarrow> viewer \<Rightarrow> viewer" where
  "send_settings al v =
     vsend al (rd_buf_put_u8 al (rd_buf_put_u8 al (rd_buf_put_u8 al (rd_buf_put_u8 al (vmsg al 7) (of_int (vw_quality v)))
       (of_int (vw_fps v))) (of_int (vw_cur_display v))) (of_int (vw_resolution_pref v))) v"

definition send_pointer :: "alloc \<Rightarrow> int \<Rightarrow> int \<Rightarrow> viewer \<Rightarrow> viewer" where
  "send_pointer al wx wy v =
     (let v = v\<lparr>vw_ptr_dirty := False\<rparr>
      in if vw_view_only v \<or> vw_phase v \<noteq> PhLive then v
         else vsend al (rd_buf_put_u16 al (rd_buf_put_u16 al (rd_buf_put_u8 al (rd_buf_put_u16 al (rd_buf_put_u16 al (vmsg al 4)
           (of_int (vw_ptr_x v))) (of_int (vw_ptr_y v))) (vw_buttons v)) (of_int wx)) (of_int wy)) v)"

definition send_key :: "alloc \<Rightarrow> u16 \<Rightarrow> bool \<Rightarrow> viewer \<Rightarrow> viewer" where
  "send_key al hid down v =
     (if vw_view_only v \<or> vw_phase v \<noteq> PhLive \<or> hid \<ge> 256 then v
      else vsend al (rd_buf_put_u8 al (rd_buf_put_u16 al (vmsg al 5) hid) (if down then 1 else 0))
        (v\<lparr>vw_held := (vw_held v)[unat hid := down]\<rparr>))"

definition release_input :: "alloc \<Rightarrow> viewer \<Rightarrow> viewer" where
  "release_input al v =
     (let v = fold (\<lambda>k v. if vw_held v ! k then send_key al (of_nat k) False v else v) [0..<256] v
      in if vw_buttons v \<noteq> 0 then send_pointer al 0 0 (v\<lparr>vw_buttons := 0\<rparr>) else v)"

definition send_chat :: "alloc \<Rightarrow> viewer \<Rightarrow> viewer" where
  "send_chat al v =
     (if vw_chat_text v = [] then v
      else (toast (bytes_of ''You: '' @ vw_chat_text v)
        (vsend al (rd_buf_put_str al (vmsg al 8) (Some (vw_chat_text v))) v))\<lparr>vw_chat_text := []\<rparr>)"

definition send_clipboard :: "alloc \<Rightarrow> bytes \<Rightarrow> viewer \<Rightarrow> viewer" where
  "send_clipboard al t v =
     (if vw_view_only v \<or> length t > 1048576 then v
      else (vsend al (rd_buf_put_blob al (vmsg al 6) t) v)\<lparr>vw_last_local_clip := t\<rparr>)"

definition check_local_clipboard :: "alloc \<Rightarrow> viewer \<Rightarrow> viewer" where
  "check_local_clipboard al v =
     (if op_web (vw_opts v) \<or> vw_view_only v \<or> \<not> vw_focused v then v
      else case vw_clipboard v of
        None \<Rightarrow> v
      | Some t \<Rightarrow> if t \<noteq> [] \<and> t \<noteq> vw_last_local_clip v \<and> t \<noteq> vw_last_remote_clip v then send_clipboard al t v else v)"

definition send_hello :: "alloc \<Rightarrow> viewer \<Rightarrow> viewer" where
  "send_hello al v =
     (let nm = (if pc_user_name (vw_target v) = [] then bytes_of ''Viewer'' else pc_user_name (vw_target v))
      in (vsend al (rd_buf_put al (rd_buf_put_str al (rd_buf_put_u16 al (vmsg al 1) 2) (Some nm)) (vw_ce v)) v)\<lparr>vw_phase := PhHello\<rparr>)"

definition send_auth :: "alloc \<Rightarrow> viewer \<Rightarrow> viewer" where
  "send_auth al v =
     (let mac = rd_hs_auth_mac (pc_password (vw_target v)) (vw_transcript v);
          v = (vsend al (rd_buf_put al (vmsg al 2) mac) v)\<lparr>vw_phase := PhAuth\<rparr>
      in if vw_dialog v = DlgVerify
         then v\<lparr>vw_dialog := (if vw_screen v = ScSession then DlgNone else DlgConnecting)\<rparr> else v)"

section \<open>Connecting\<close>

definition fail_connect :: "alloc \<Rightarrow> bytes \<Rightarrow> viewer \<Rightarrow> viewer" where
  "fail_connect al why v =
     (let v = on_tr (tr_close al) (v\<lparr>vw_phase := PhNone, vw_user_closed := True\<rparr>)
      in if op_web (vw_opts v) then v\<lparr>vw_error := why, vw_dialog := DlgNone\<rparr>
         else v\<lparr>vw_dialog_error := why, vw_dialog := DlgConnecting\<rparr>)"

text \<open>The last occurrence of a character (\<open>rfind\<close>, \<open>strrchr\<close>).\<close>

definition rfind_char :: "u8 \<Rightarrow> bytes \<Rightarrow> nat option" where
  "rfind_char c s = find_last_of [c] s"

definition relay_link :: "options \<Rightarrow> bytes \<Rightarrow> bytes \<times> int \<times> bytes \<times> bool" where
  "relay_link opts i =
     (let path = bytes_of ''/v/'' @ i; c = rfind_char 58 (op_relay opts); rh = before c (op_relay opts)
      in if op_web opts then
           (if op_web_relay opts then (op_web_host opts, op_web_port opts, path, op_web_secure opts)
            else (rh, 443, path, True))
         else
           let rp = (case c of None \<Rightarrow> 443 | Some k \<Rightarrow> c_atoi (drop (k + 1) (op_relay opts)))
           in (rh, rp, path, rp = 443))"

definition start_connect :: "alloc \<Rightarrow> viewer \<Rightarrow> viewer" where
  "start_connect al v =
     (let v = v\<lparr>vw_error := [], vw_dialog_error := []\<rparr>; host = pc_host (vw_target v); port = pc_port (vw_target v)
      in if host = [] then fail_connect al (bytes_of ''Enter the computer's ID or address'') v
         else
           let i = relay_id_of host
           in if i = [] \<and> (port \<le> 0 \<or> port > 65535) then fail_connect al (bytes_of ''Port must be 1-65535'') v
              else
                let v = (if i \<noteq> [] then v\<lparr>vw_target := (vw_target v)\<lparr>pc_host := i\<rparr>\<rparr> else v);
                    v = v\<lparr>vw_user_closed := False, vw_phase := PhConnecting, vw_ch := wiped_channel\<rparr>;
                    (rnd, tr) = tr_draw 32 (vw_tr v);
                    v = (if vw_random_ok v
                         then (case rd_x25519_keypair (Some rnd) of
                                 Some (priv, pub) \<Rightarrow> v\<lparr>vw_tr := tr, vw_ce_priv := priv, vw_ce := pub\<rparr> | None \<Rightarrow> v)
                         else v);
                    v = (if vw_screen v \<noteq> ScSession then v\<lparr>vw_dialog := DlgConnecting\<rparr> else v)
                in if i \<noteq> [] then (case relay_link (vw_opts v) i of (h, p, path, sec) \<Rightarrow> on_tr (tr_connect al h p path sec) v)
                   else on_tr (tr_connect al (pc_host (vw_target v)) (pc_port (vw_target v)) (bytes_of ''/ws'') False) v)"

definition begin_connect :: "alloc \<Rightarrow> saved_pc \<Rightarrow> viewer \<Rightarrow> viewer" where
  "begin_connect al pc v =
     (let v = v\<lparr>vw_target := (if pc_user_name pc = [] then pc\<lparr>pc_user_name := op_name (vw_opts v)\<rparr> else pc)\<rparr>
      in if pc_password (vw_target v) = []
         then v\<lparr>vw_pw_input := [], vw_pw_remember := pc_remember pc, vw_dialog_error := [], vw_dialog := DlgPassword\<rparr>
         else start_connect al v)"

definition disconnect_user :: "alloc \<Rightarrow> viewer \<Rightarrow> viewer" where
  "disconnect_user al v =
     (let v = on_tr (tr_close al) (release_input al (v\<lparr>vw_user_closed := True\<rparr>))
      in set_fullscreen False (v\<lparr>vw_phase := PhNone, vw_reconnect_at := 0, vw_reconnect_attempts := 0, vw_screen := ScHome,
           vw_dialog := DlgNone, vw_menu_open := False, vw_chat_open := False, vw_uploads := []\<rparr>))"

definition on_transport_closed :: "alloc \<Rightarrow> viewer \<Rightarrow> viewer" where
  "on_transport_closed al v =
     (let why = tr_error (vw_tr v); was_live = (vw_phase v = PhLive);
          v = v\<lparr>vw_phase := PhNone, vw_uploads := [], vw_held := replicate 256 False, vw_buttons := 0\<rparr>
      in if \<not> vw_user_closed v \<and> (was_live \<or> (vw_screen v = ScSession \<and> vw_reconnect_attempts v > 0)) \<and> vw_reconnect_attempts v < 10
         then
           let n = vw_reconnect_attempts v + 1;
               v = v\<lparr>vw_reconnect_attempts := n, vw_reconnect_at := vw_ticks v + of_nat (min n 4) * 1000\<rparr>
           in if was_live then toast (bytes_of ''Connection lost ('' @ why @ bytes_of '') - reconnecting...'') v else v
         else
           let v = v\<lparr>vw_reconnect_attempts := 0\<rparr>;
               v = (if vw_screen v = ScSession then set_fullscreen False (v\<lparr>vw_screen := ScHome\<rparr>) else v);
               v = v\<lparr>vw_menu_open := False, vw_chat_open := False\<rparr>
           in if vw_user_closed v then v
              else fail_connect al (if why = [] then bytes_of ''Disconnected'' else why) v)"


section \<open>The host's messages\<close>

text \<open>A new key of the host is stored when it may be trusted; otherwise the user is asked.\<close>

definition check_identity :: "alloc \<Rightarrow> viewer \<Rightarrow> viewer" where
  "check_identity al v =
     (let host = pc_host (vw_target v); port = pc_port (vw_target v); web = op_web (vw_opts v);
          old = known_fingerprint host port (vw_store v);
          v = v\<lparr>vw_old_fp := old\<rparr>
      in if web \<or> op_trust_new_hosts (vw_opts v) \<or> old = vw_host_fp v
         then
           let v = (if \<not> web \<and> old = [] then save_store (v\<lparr>vw_store := store_trust host port (vw_host_fp v) (vw_store v)\<rparr>) else v)
           in send_auth al v
         else v\<lparr>vw_phase := PhVerify, vw_dialog := DlgVerify\<rparr>)"

definition on_hello :: "alloc \<Rightarrow> rd_reader \<Rightarrow> viewer \<Rightarrow> viewer" where
  "on_hello al r v =
     (let (version, r) = rd_get_u16 r; (meth, r) = rd_get_u8 r; (nonce, r) = rd_get_bytes r 16;
          (name, _, r) = rd_get_str r 256; (os, _, r) = rd_get_str r 256; (ss, r) = rd_get_bytes r 32; (se, r) = rd_get_bytes r 32
      in if rr_err r \<or> version \<noteq> 2 \<or> meth \<noteq> 2 \<or> vw_phase v \<noteq> PhHello
         then fail_connect al (if version \<noteq> 2 then bytes_of ''The host runs an incompatible TetherDesk version''
                else bytes_of ''Unexpected handshake from host'') v
         else
           let nonce = the nonce; ss = the ss; se = the se
           in case (rd_x25519 (vw_ce_priv v) se, rd_x25519 (vw_ce_priv v) ss) of
                (Some dh1, Some dh2) \<Rightarrow>
                  (let th = rd_hs_transcript (vw_ce v) ss se nonce
                   in check_identity al (v\<lparr>vw_transcript := th, vw_ch := rd_hs_keys dh1 dh2 th False, vw_ce_priv := replicate 32 0,
                        vw_host_name := c_str name, vw_host_os := c_str os, vw_host_fp := rd_fingerprint ss\<rparr>))
              | _ \<Rightarrow> fail_connect al (bytes_of ''The host sent an invalid key'') v)"

definition auth_rejected :: "alloc \<Rightarrow> bytes \<Rightarrow> viewer \<Rightarrow> viewer" where
  "auth_rejected al txt v =
     (let v = v\<lparr>vw_reconnect_attempts := 0\<rparr>;
          v = (if vw_screen v = ScSession then set_fullscreen False (v\<lparr>vw_screen := ScHome\<rparr>) else v)
      in if find_str (bytes_of ''password'') txt \<noteq> None \<and> \<not> op_web (vw_opts v)
         then
           let v = (case store_find (pc_id (vw_target v)) (vw_store v) of
                      None \<Rightarrow> v
                    | Some pc \<Rightarrow> if pc_remember pc
                        then save_store (v\<lparr>vw_store := store_upsert (pc\<lparr>pc_password := []\<rparr>) (vw_store v)\<rparr>) else v);
               v = fail_connect al txt v
           in v\<lparr>vw_target := (vw_target v)\<lparr>pc_password := []\<rparr>, vw_pw_input := [], vw_dialog_error := txt, vw_dialog := DlgPassword\<rparr>
         else fail_connect al txt v)"

text \<open>The computer is remembered; \<open>new_id\<close> is the random part of a new entry's ID.\<close>

definition remember_pc :: "viewer \<Rightarrow> viewer" where
  "remember_pc v =
     (let (rnd, tr) = tr_draw 6 (vw_tr v); pc = vw_target v; fresh = (pc_id pc = []);
          v = (if fresh then v\<lparr>vw_tr := tr\<rparr> else v);
          pc = (if fresh then pc\<lparr>pc_id := store_new_id rnd, pc_label := pc_host pc\<rparr> else pc);
          pc = (if pc_remember pc then pc else pc\<lparr>pc_password := []\<rparr>);
          pc = pc\<lparr>pc_last_used := vw_time v\<rparr>;
          v = save_store (v\<lparr>vw_store := store_upsert pc (vw_store v)\<rparr>);
          v = v\<lparr>vw_target := (vw_target v)\<lparr>pc_id := pc_id pc, pc_label := pc_label pc\<rparr>\<rparr>
      in if pc_fullscreen (vw_target v) then set_fullscreen True v else v)"

text \<open>The password was right: the session starts, or starts again.\<close>

definition go_live :: "alloc \<Rightarrow> bytes \<Rightarrow> viewer \<Rightarrow> viewer" where
  "go_live al txt v =
     (let first = (vw_screen v \<noteq> ScSession); web = op_web (vw_opts v);
          v = v\<lparr>vw_phase := PhLive, vw_dialog := DlgNone, vw_screen := ScSession\<rparr>;
          v = (if vw_reconnect_attempts v \<noteq> 0 then toast (bytes_of ''Reconnected'') v
               else toast (txt @ bytes_of '' to '' @ vw_host_name v @ (if web then bytes_of '' - F8 for the menu'' else [])) v);
          v = v\<lparr>vw_reconnect_attempts := 0, vw_last_ping := vw_ticks v, vw_last_clip_check := vw_ticks v,
                vw_last_local_clip := (case vw_clipboard v of None \<Rightarrow> [] | Some t \<Rightarrow> t)\<rparr>;
          v = send_settings al v;
          v = (if op_open_menu (vw_opts v) then v\<lparr>vw_menu_open := True\<rparr> else v)
      in if first \<and> \<not> web then remember_pc v else v)"

definition on_auth_result :: "alloc \<Rightarrow> rd_reader \<Rightarrow> viewer \<Rightarrow> viewer" where
  "on_auth_result al r v =
     (let (ok, r) = rd_get_u8 r; (vo, r) = rd_get_u8 r; (txt, _, r) = rd_get_str r 512; txt = c_str txt
      in if ok = 0 then auth_rejected al txt v
         else
           let v = v\<lparr>vw_view_only := (vo \<noteq> 0)\<rparr>
           in if vw_phase v = PhAuth then go_live al txt v
              else (let v = toast txt v in if vo \<noteq> 0 then release_input al v else v))"

definition resize_remote :: "int \<Rightarrow> int \<Rightarrow> viewer \<Rightarrow> viewer" where
  "resize_remote w h v =
     (if w = vw_rw v \<and> h = vw_rh v \<and> vw_tex v then v
      else v\<lparr>vw_rw := w, vw_rh := h, vw_fb := replicate (nat w * nat h) 0xFF000000, vw_tex := True\<rparr>)"

text \<open>The loop over the displays; it stops when the reader fails, after the entry that failed.\<close>

primrec read_displays :: "nat \<Rightarrow> rd_reader \<Rightarrow> (bytes \<times> int \<times> int) list \<times> rd_reader" where
  "read_displays 0 r = ([], r)"
| "read_displays (Suc n) r =
     (if rr_err r then ([], r)
      else
        let (name, _, r) = rd_get_str r 256; (dw, r) = rd_get_u16 r; (dh, r) = rd_get_u16 r;
            (ds, r) = read_displays n r
        in ((c_str name, uint dw, uint dh) # ds, r))"

definition on_display_info :: "rd_reader \<Rightarrow> viewer \<Rightarrow> viewer" where
  "on_display_info r v =
     (let (w, r) = rd_get_u16 r; (h, r) = rd_get_u16 r; (cur, r) = rd_get_u8 r; (n, r) = rd_get_u8 r;
          (ds, r) = read_displays (unat n) r;
          v = v\<lparr>vw_cur_display := uint cur, vw_displays := ds\<rparr>;
          (v, r) = (if rd_remaining r \<noteq> 0
            then (case rd_get_u8 r of (flags, r) \<Rightarrow>
              (v\<lparr>vw_hires_supported := (flags AND 1 \<noteq> 0), vw_hires_on := (flags AND 2 \<noteq> 0)\<rparr>, r))
            else (v, r))
      in if \<not> rr_err r \<and> w \<noteq> 0 \<and> h \<noteq> 0 then resize_remote (uint w) (uint h) v else v)"

text \<open>
  The tiles of a frame, decoded into the frame buffer one after the other; the result says whether one was bad.
\<close>

primrec tiles_loop :: "nat \<Rightarrow> int \<Rightarrow> int \<Rightarrow> rd_reader \<Rightarrow> u32 list \<Rightarrow> bool \<times> u32 list" where
  "tiles_loop 0 rw rh r fb = (False, fb)"
| "tiles_loop (Suc n) rw rh r fb =
     (let (x, r) = rd_get_u16 r; (y, r) = rd_get_u16 r; (w, r) = rd_get_u16 r; (h, r) = rd_get_u16 r;
          (enc, r) = rd_get_u8 r; (p, len, r) = rd_get_blob r
      in if rr_err r \<or> uint x + uint w > rw \<or> uint y + uint h > rh then (True, fb)
         else
           let at = unat y * nat rw + unat x
           in case rd_decode_tile (unat enc) (case p of None \<Rightarrow> [] | Some p \<Rightarrow> p) (uint w) (uint h) (drop at fb) (nat rw) of
                (rc, dst) \<Rightarrow>
                  (let fb = take at fb @ dst in if rc \<noteq> 0 then (True, fb) else tiles_loop n rw rh r fb))"

definition on_frame :: "alloc \<Rightarrow> rd_reader \<Rightarrow> viewer \<Rightarrow> viewer" where
  "on_frame al r v =
     (let (fid, r) = rd_get_u32 r; (_, r) = rd_get_u8 r; (n, r) = rd_get_u16 r
      in if rr_err r \<or> \<not> vw_tex v then v
         else
           let (bad, fb) = tiles_loop (unat n) (vw_rw v) (vw_rh v) r (vw_fb v);
               v = vsend al (rd_buf_put_u32 al (vmsg al 3) fid) (v\<lparr>vw_fb := fb\<rparr>)
           in if bad \<and> vw_ticks v - vw_last_refresh v > 1000
              then send_simple al 13 (v\<lparr>vw_last_refresh := vw_ticks v\<rparr>) else v)"

primrec read_viewers :: "nat \<Rightarrow> rd_reader \<Rightarrow> (bytes \<times> bytes \<times> bool) list" where
  "read_viewers 0 r = []"
| "read_viewers (Suc n) r =
     (if rr_err r then []
      else
        let (name, _, r) = rd_get_str r 256; (addr, _, r) = rd_get_str r 128; (vo, r) = rd_get_u8 r
        in (c_str name, c_str addr, vo \<noteq> 0) # read_viewers n r)"

definition on_file_result :: "rd_reader \<Rightarrow> viewer \<Rightarrow> viewer" where
  "on_file_result r v =
     (let (fid, r) = rd_get_u32 r; (ok, r) = rd_get_u8 r; (txt, _, r) = rd_get_str r 2048
      in case find (\<lambda>u. vu_id u = fid) (vw_uploads v) of
           None \<Rightarrow> v
         | Some u \<Rightarrow>
             toast ((if ok \<noteq> 0 then bytes_of ''Sent '' else bytes_of ''Couldn't send '') @ vu_name u @ bytes_of '' - '' @ c_str txt)
               (v\<lparr>vw_uploads := remove1 u (vw_uploads v)\<rparr>))"

definition on_remote_clipboard :: "rd_reader \<Rightarrow> viewer \<Rightarrow> viewer" where
  "on_remote_clipboard r v =
     (let (p, _, r) = rd_get_blob r
      in if rr_err r then v
         else
           let t = (case p of None \<Rightarrow> [] | Some p \<Rightarrow> p)
           in toast (bytes_of ''Clipboard updated from host ('' @ std_to_string (int (length t)) @ bytes_of '' chars)'')
                (v\<lparr>vw_last_remote_clip := t, vw_last_local_clip := t, vw_clipboard := Some (c_str t)\<rparr>))"

definition vhandle_plain :: "alloc \<Rightarrow> bytes \<Rightarrow> viewer \<Rightarrow> viewer" where
  "vhandle_plain al m v =
     (let (type, r) = rd_get_u8 (rd_reader_init m)
      in if type = 64 then on_hello al r v
         else if type = 65 then on_auth_result al r v
         else if type = 66 then on_display_info r v
         else if type = 67 then on_frame al r v
         else if type = 68 then on_remote_clipboard r v
         else if type = 69 then
           (let (from, _, r) = rd_get_str r 256; (txt, _, r) = rd_get_str r 4096
            in if rr_err r then v else toast (c_str from @ bytes_of '': '' @ c_str txt) v)
         else if type = 70 then
           (let (t, r) = rd_get_u64 r in if rr_err r then v else v\<lparr>vw_rtt_us := Some (tr_now (vw_tr v) - t)\<rparr>)
         else if type = 71 then (let (n, r) = rd_get_u8 r in v\<lparr>vw_viewers := read_viewers (unat n) r\<rparr>)
         else if type = 72 then
           (let (txt, _, r) = rd_get_str r 1024 in if rr_err r then v else toast (c_str txt) v)
         else if type = 73 then on_file_result r v
         else v)"

definition vhandle_message :: "alloc \<Rightarrow> bytes \<Rightarrow> viewer \<Rightarrow> viewer" where
  "vhandle_message al m v =
     (if ch_active (vw_ch v) then
        (case rd_channel_open (vw_ch v) m of
           (None, _) \<Rightarrow> fail_connect al (bytes_of ''Decryption failed - the connection may have been tampered with'') v
         | (Some p, ch) \<Rightarrow> vhandle_plain al p (v\<lparr>vw_ch := ch\<rparr>))
      else vhandle_plain al m v)"

section \<open>Uploads\<close>

text \<open>\<open>body\<close> is the file, \<open>None\<close> when it cannot be opened; \<open>fsize\<close> is what \<open>ftell\<close> returns at its end.\<close>

definition queue_upload :: "bytes \<Rightarrow> bytes option \<Rightarrow> int \<Rightarrow> viewer \<Rightarrow> viewer" where
  "queue_upload path body fsize v =
     (if vw_phase v \<noteq> PhLive then v
      else if vw_view_only v then toast (bytes_of ''View-only viewers can't send files'') v
      else case body of
        None \<Rightarrow> toast (bytes_of ''Can't open '' @ path) v
      | Some d \<Rightarrow>
          if fsize < 0 then toast (bytes_of ''Folders can't be sent - drop files instead'') v
          else
            let name = (case rfind_char 47 path of None \<Rightarrow> path | Some k \<Rightarrow> drop (k + 1) path);
                u = \<lparr>vu_id = vw_next_upload_id v, vu_name = name, vu_path = path, vu_open = True, vu_rest = d, vu_eof = False,
                     vu_size = of_int fsize, vu_sent = 0, vu_begun = False, vu_done = False\<rparr>
            in toast (bytes_of ''Sending '' @ name @ bytes_of '' to the host...'')
                 (v\<lparr>vw_next_upload_id := vw_next_upload_id v + 1, vw_uploads := vw_uploads v @ [u]\<rparr>))"

text \<open>The loop that sends chunks of 64 KiB while less than 1 MiB is buffered.\<close>

function chunk_loop :: "alloc \<Rightarrow> vupload \<Rightarrow> viewer \<Rightarrow> vupload \<times> viewer" where
  "chunk_loop al u v =
     (if vu_sent u < vu_size u \<and> tr_buffered (vw_tr v) < 1048576 then
        (let d = take 65536 (vu_rest u);
             u' = u\<lparr>vu_rest := drop 65536 (vu_rest u), vu_eof := (vu_eof u \<or> length (vu_rest u) < 65536)\<rparr>
         in if vu_rest u = [] then (u', v)
            else chunk_loop al (u'\<lparr>vu_sent := vu_sent u + of_nat (length d)\<rparr>)
                   (vsend al (rd_buf_put al (rd_buf_put_u32 al (vmsg al 11) (vu_id u)) d) v))
      else (u, v))"
  by pat_completeness auto
termination by (relation "measure (\<lambda>(al, u, v). length (vu_rest u))") auto

declare chunk_loop.simps [simp del]

text \<open>The first upload that is not done goes on; \<open>k\<close> is its place in the queue.\<close>

definition pump_upload_at :: "alloc \<Rightarrow> nat \<Rightarrow> viewer \<Rightarrow> viewer" where
  "pump_upload_at al k v =
     (let u = vw_uploads v ! k;
          v = (if vu_begun u then v
               else vsend al (rd_buf_put_str al (rd_buf_put_u64 al (rd_buf_put_u32 al (vmsg al 10) (vu_id u)) (vu_size u)) (Some (vu_name u))) v);
          (u, v) = chunk_loop al (u\<lparr>vu_begun := True\<rparr>) v;
          (u, v) = (if vu_sent u \<ge> vu_size u \<or> vu_eof u
                    then (u\<lparr>vu_done := True, vu_open := False\<rparr>, vsend al (rd_buf_put_u32 al (vmsg al 12) (vu_id u)) v)
                    else (u, v))
      in v\<lparr>vw_uploads := (vw_uploads v)[k := u]\<rparr>)"

definition pump_uploads :: "alloc \<Rightarrow> viewer \<Rightarrow> viewer" where
  "pump_uploads al v =
     (let k = length (takeWhile vu_done (vw_uploads v))
      in if k < length (vw_uploads v) then pump_upload_at al k v else v)"

section \<open>One tick\<close>

fun handle_messages :: "alloc \<Rightarrow> bytes list \<Rightarrow> viewer \<Rightarrow> viewer" where
  "handle_messages al [] v = v"
| "handle_messages al (m # ms) v =
     (let v = vhandle_message al m v in if vw_phase v = PhNone then v else handle_messages al ms v)"

definition tick_network :: "alloc \<Rightarrow> poll_result \<Rightarrow> viewer \<Rightarrow> viewer" where
  "tick_network al e v =
     (if vw_phase v \<noteq> PhNone then
        (let (msgs, tr) = tr_poll al e (vw_tr v);
             v = handle_messages al msgs (v\<lparr>vw_tr := tr\<rparr>);
             v = (if vw_phase v = PhConnecting \<and> tr_state (vw_tr v) = TOpen then send_hello al v else v)
         in if vw_phase v \<noteq> PhNone \<and> tr_state (vw_tr v) = TClosed then on_transport_closed al v else v)
      else if vw_reconnect_at v \<noteq> 0 \<and> vw_ticks v \<ge> vw_reconnect_at v
      then start_connect al (v\<lparr>vw_reconnect_at := 0\<rparr>) else v)"

definition tick_live :: "alloc \<Rightarrow> viewer \<Rightarrow> viewer" where
  "tick_live al v =
     (if vw_phase v \<noteq> PhLive then v
      else
        let now = vw_ticks v;
            v = (if vw_ptr_dirty v then send_pointer al 0 0 v else v);
            v = (if now - vw_last_ping v \<ge> 2000
                 then vsend al (rd_buf_put_u64 al (vmsg al 9) (tr_now (vw_tr v))) (v\<lparr>vw_last_ping := now\<rparr>) else v);
            v = (if now - vw_last_clip_check v \<ge> 1000
                 then check_local_clipboard al (v\<lparr>vw_last_clip_check := now\<rparr>) else v)
        in pump_uploads al v)"

definition tick :: "alloc \<Rightarrow> poll_result \<Rightarrow> viewer \<Rightarrow> viewer" where
  "tick al e v = tick_live al (tick_network al e v)"

end
