(* ===== verification/Viewer_Input.thy ===== *)
theory Viewer_Input
  imports Viewer
begin

text \<open>
  What the user does: dialogs, text fields, keyboard, mouse and dropped files (\<open>client/app.cpp\<close>). An event carries what the
  window system reports; for the mouse also whether it is over the program's own controls and the position in remote
  pixels before it is clamped to the screen, which come from floating-point layout. \<open>viewer_event\<close> is one of all the things
  that can happen to a viewer.
\<close>

section \<open>Text fields\<close>

datatype field_event = FText bytes | FBackspace | FPaste bytes

definition edit_field :: "bool \<Rightarrow> field_event \<Rightarrow> bytes \<Rightarrow> bytes" where
  "edit_field digits e s =
     (case e of
        FText t \<Rightarrow> (let s = (if length s < 200 then s @ t else s) in if digits then filter is_digit s else s)
      | FBackspace \<Rightarrow> pop_utf8 s
      | FPaste t \<Rightarrow> s @ filter (\<lambda>c. c \<noteq> 10 \<and> c \<noteq> 13) (c_str t))"

section \<open>Session input\<close>

datatype skey = SKReturn | SKEscape | SKBackspace | SKF7 | SKF8 | SKF9 | SKF11 | SKOther

datatype session_input =
    InText bytes
  | InKey bool skey int bool
  | InMotion bool int int
  | InButton bool nat bool int int
  | InWheel int int bool

definition switch_screen :: "alloc \<Rightarrow> int \<Rightarrow> viewer \<Rightarrow> viewer" where
  "switch_screen al index v =
     (if index < 0 \<or> index \<ge> int (length (vw_displays v)) then v
      else if vw_view_only v then toast (bytes_of ''View-only viewers can't switch screens'') v
      else
        let v = send_settings al (release_input al (v\<lparr>vw_cur_display := index\<rparr>));
            (name, w, h) = vw_displays v ! nat index
        in toast (bytes_of ''Screen '' @ std_to_string (index + 1) @ bytes_of '' of '' @ std_to_string (int (length (vw_displays v))) @
             bytes_of '': '' @ name @ bytes_of ''  ('' @ std_to_string w @ bytes_of ''x'' @ std_to_string h @ bytes_of '')'') v)"

definition point_to :: "int \<Rightarrow> int \<Rightarrow> viewer \<Rightarrow> viewer" where
  "point_to x y v = v\<lparr>vw_ptr_x := max 0 (min (vw_rw v - 1) x), vw_ptr_y := max 0 (min (vw_rh v - 1) y)\<rparr>"

definition chat_key :: "alloc \<Rightarrow> skey \<Rightarrow> viewer \<Rightarrow> viewer" where
  "chat_key al k v =
     (let v = (if k = SKReturn then send_chat al v else v)
      in if k = SKReturn \<or> k = SKEscape then v\<lparr>vw_chat_open := False\<rparr>
         else if k = SKBackspace then v\<lparr>vw_chat_text := pop_utf8 (vw_chat_text v)\<rparr> else v)"

definition session_key :: "alloc \<Rightarrow> bool \<Rightarrow> skey \<Rightarrow> int \<Rightarrow> bool \<Rightarrow> viewer \<Rightarrow> viewer" where
  "session_key al down k sc repeat v =
     (if vw_chat_open v then (if down then chat_key al k v else v)
      else if k = SKF8 then (if down then v\<lparr>vw_menu_open := \<not> vw_menu_open v\<rparr> else v)
      else if k = SKF7 then
        (if down \<and> length (vw_displays v) > 1
         then switch_screen al ((vw_cur_display v + 1) mod int (length (vw_displays v))) v else v)
      else if k = SKF9 \<and> \<not> op_remote (vw_opts v) then
        (if down then (release_input al v)\<lparr>vw_chat_open := True, vw_menu_open := False\<rparr> else v)
      else if k = SKF11 \<and> \<not> op_web (vw_opts v) then (if down then set_fullscreen (\<not> vw_fullscreen v) v else v)
      else if vw_menu_open v \<and> k = SKEscape then (if down then v\<lparr>vw_menu_open := False\<rparr> else v)
      else if repeat then v
      else if sc > 0 \<and> sc < 256 \<and> (down \<or> vw_held v ! nat sc) then send_key al (of_int sc) down v else v)"

text \<open>The buttons' bits, by their number.\<close>

definition button_bit :: "nat \<Rightarrow> u8" where
  "button_bit b = (if b = 1 then 1 else if b = 2 then 2 else if b = 3 then 4 else if b = 4 then 8 else if b = 5 then 16 else 0)"

definition session_button :: "alloc \<Rightarrow> bool \<Rightarrow> nat \<Rightarrow> bool \<Rightarrow> int \<Rightarrow> int \<Rightarrow> viewer \<Rightarrow> viewer" where
  "session_button al down b over x y v =
     (let bit = button_bit b
      in if down \<and> over then v
         else if down \<and> vw_menu_open v then v\<lparr>vw_menu_open := False\<rparr>
         else if \<not> down \<and> vw_buttons v AND bit = 0 then v
         else
           let v = point_to x y v;
               v = v\<lparr>vw_buttons := (if down then vw_buttons v OR bit else vw_buttons v AND NOT bit)\<rparr>
           in send_pointer al 0 0 v)"

definition session_event :: "alloc \<Rightarrow> session_input \<Rightarrow> viewer \<Rightarrow> viewer" where
  "session_event al e v =
     (if vw_phase v \<noteq> PhLive then
        (case e of InKey down k _ _ \<Rightarrow> if down \<and> k = SKEscape then disconnect_user al v else v | _ \<Rightarrow> v)
      else case e of
        InText t \<Rightarrow> if vw_chat_open v \<and> length (vw_chat_text v) < 900 then v\<lparr>vw_chat_text := vw_chat_text v @ t\<rparr> else v
      | InKey down k sc repeat \<Rightarrow> session_key al down k sc repeat v
      | InMotion over x y \<Rightarrow> if over then v else (point_to x y v)\<lparr>vw_ptr_dirty := True\<rparr>
      | InButton down b over x y \<Rightarrow> session_button al down b over x y v
      | InWheel wx wy flipped \<Rightarrow>
          if vw_menu_open v then v
          else
            let (wx, wy) = (if flipped then (- wx, - wy) else (wx, wy))
            in if wx \<noteq> 0 \<or> wy \<noteq> 0 then send_pointer al wx wy v else v)"

section \<open>The session menu\<close>

definition ctrl_alt_del :: "alloc \<Rightarrow> viewer \<Rightarrow> viewer" where
  "ctrl_alt_del al v =
     fold (\<lambda>k. send_key al k False) [0x4c, 0xe2, 0xe0] (fold (\<lambda>k. send_key al k True) [0xe0, 0xe2, 0x4c] v)"

definition menu_clipboard :: "alloc \<Rightarrow> viewer \<Rightarrow> viewer" where
  "menu_clipboard al v =
     (case vw_clipboard v of
        None \<Rightarrow> v
      | Some t \<Rightarrow> if t = [] then v else toast (bytes_of ''Clipboard sent to host'') (send_clipboard al t v))"

definition menu_chat :: "alloc \<Rightarrow> viewer \<Rightarrow> viewer" where
  "menu_chat al v = (release_input al v)\<lparr>vw_chat_open := True, vw_menu_open := False\<rparr>"

datatype menu_item = MnSettings int int int | MnDisplay int | MnCtrlAltDel | MnRefresh | MnChat | MnClipboard | MnDisconnect | MnClose

text \<open>The menu is drawn, and its buttons work, in every phase of a session; two of them not for a view-only viewer.\<close>

definition menu_event :: "alloc \<Rightarrow> menu_item \<Rightarrow> viewer \<Rightarrow> viewer" where
  "menu_event al b v =
     (case b of
        MnSettings q fps res \<Rightarrow> send_settings al (v\<lparr>vw_quality := q, vw_fps := fps, vw_resolution_pref := res\<rparr>)
      | MnDisplay i \<Rightarrow> if i \<noteq> vw_cur_display v then switch_screen al i v else v
      | MnCtrlAltDel \<Rightarrow> if vw_view_only v then v else ctrl_alt_del al v
      | MnRefresh \<Rightarrow> send_simple al 13 v
      | MnChat \<Rightarrow> if op_remote (vw_opts v) then v else menu_chat al v
      | MnClipboard \<Rightarrow> if op_web (vw_opts v) \<or> vw_view_only v then v else menu_clipboard al v
      | MnDisconnect \<Rightarrow> disconnect_user al v
      | MnClose \<Rightarrow> v\<lparr>vw_menu_open := False\<rparr>)"

section \<open>Dialogs\<close>

text \<open>Saving the edited computer: a message when it is not valid.\<close>

definition save_edited :: "saved_pc \<Rightarrow> viewer \<Rightarrow> viewer" where
  "save_edited pc v =
     (if pc_host pc = [] then v\<lparr>vw_dialog_error := bytes_of ''Enter the PC's address''\<rparr>
      else if pc_port pc \<le> 0 \<or> pc_port pc > 65535 then v\<lparr>vw_dialog_error := bytes_of ''Port must be 1-65535''\<rparr>
      else
        let pc = (if pc_label pc = [] then pc\<lparr>pc_label := pc_host pc\<rparr> else pc);
            (rnd, tr) = tr_draw 6 (vw_tr v);
            (pc, v) = (if pc_id pc = [] then (pc\<lparr>pc_id := store_new_id rnd\<rparr>, v\<lparr>vw_tr := tr\<rparr>) else (pc, v));
            pc = (if pc_remember pc then pc else pc\<lparr>pc_password := []\<rparr>);
            v = save_store (v\<lparr>vw_store := store_upsert pc (vw_store v)\<rparr>)
        in v\<lparr>vw_dialog := DlgNone\<rparr>)"

definition submit_password :: "alloc \<Rightarrow> viewer \<Rightarrow> viewer" where
  "submit_password al v =
     (if vw_pw_input v = [] then v
      else
        let v = v\<lparr>vw_target := (vw_target v)\<lparr>pc_password := vw_pw_input v, pc_remember := vw_pw_remember v\<rparr>\<rparr>;
            v = (case store_find (pc_id (vw_target v)) (vw_store v) of
                   None \<Rightarrow> v
                 | Some pc \<Rightarrow> save_store (v\<lparr>vw_store := store_upsert (pc\<lparr>pc_remember := vw_pw_remember v,
                     pc_password := (if vw_pw_remember v then vw_pw_input v else [])\<rparr>) (vw_store v)\<rparr>))
        in start_connect al v)"

text \<open>The user trusts the key the dialog shows.\<close>

definition accept_identity :: "alloc \<Rightarrow> viewer \<Rightarrow> viewer" where
  "accept_identity al v =
     send_auth al (save_store (v\<lparr>vw_store := store_trust (pc_host (vw_target v)) (pc_port (vw_target v)) (vw_host_fp v) (vw_store v)\<rparr>))"

definition dialog_cancel :: "alloc \<Rightarrow> viewer \<Rightarrow> viewer" where
  "dialog_cancel al v =
     (if vw_dialog v = DlgVerify \<or> vw_dialog v = DlgConnecting \<and> vw_dialog_error v = [] then disconnect_user al v
      else v\<lparr>vw_dialog := DlgNone\<rparr>)"

text \<open>The dialog's main button.\<close>

definition dialog_submit :: "alloc \<Rightarrow> saved_pc \<Rightarrow> viewer \<Rightarrow> viewer" where
  "dialog_submit al edited v =
     (case vw_dialog v of
        DlgEditPc \<Rightarrow> save_edited edited v
      | DlgPassword \<Rightarrow> submit_password al v
      | DlgVerify \<Rightarrow> accept_identity al v
      | DlgConnecting \<Rightarrow> if vw_dialog_error v = [] then v else begin_connect al (vw_target v) v
      | _ \<Rightarrow> v)"

section \<open>Everything that can happen\<close>

datatype viewer_event =
    EvTick poll_result
  | EvTime u64 u32 int
  | EvClipboard "bytes option"
  | EvFocus bool
  | EvInput session_input
  | EvDrop bytes "bytes option" int
  | EvConnect saved_pc
  | EvDisconnect
  | EvPassword bytes bool
  | EvSubmit saved_pc
  | EvCancel
  | EvMenu menu_item

definition viewer_event :: "alloc \<Rightarrow> viewer_event \<Rightarrow> viewer \<Rightarrow> viewer" where
  "viewer_event al e v =
     (case e of
        EvTick p \<Rightarrow> tick al p v
      | EvTime now ticks time \<Rightarrow> v\<lparr>vw_tr := (vw_tr v)\<lparr>tr_now := now\<rparr>, vw_ticks := ticks, vw_time := time\<rparr>
      | EvClipboard t \<Rightarrow> v\<lparr>vw_clipboard := t\<rparr>
      | EvFocus on \<Rightarrow> (if on then v else release_input al v)\<lparr>vw_focused := on\<rparr>
      | EvInput i \<Rightarrow> if vw_screen v = ScSession \<and> vw_dialog v = DlgNone then session_event al i v else v
      | EvDrop path body fsize \<Rightarrow> queue_upload path body fsize v
      | EvConnect pc \<Rightarrow> begin_connect al pc v
      | EvDisconnect \<Rightarrow> disconnect_user al v
      | EvPassword t remember \<Rightarrow> v\<lparr>vw_pw_input := t, vw_pw_remember := remember\<rparr>
      | EvSubmit edited \<Rightarrow> dialog_submit al edited v
      | EvCancel \<Rightarrow> dialog_cancel al v
      | EvMenu b \<Rightarrow> if vw_screen v = ScSession \<and> vw_menu_open v then menu_event al b v else v)"

end
