(* ===== verification/Viewer_Props.thy ===== *)
theory Viewer_Props
  imports Viewer_Input
begin

text \<open>
  The viewer's invariant and its preservation by every message, tick and action of the user; whom it sends its
  password proof to; and where the code does not do what it means to.
\<close>

section \<open>The viewer's invariant\<close>

text \<open>
  The frame buffer has the size of the remote screen, the key table covers every key, at most six toasts are
  shown and ten reconnects tried, and from the host's hello on the channel is up.
\<close>

definition viewer_ok :: "viewer \<Rightarrow> bool" where
  "viewer_ok v \<longleftrightarrow> (vw_tex v \<longrightarrow> 0 \<le> vw_rw v \<and> 0 \<le> vw_rh v \<and> length (vw_fb v) = nat (vw_rw v) * nat (vw_rh v)) \<and>
     length (vw_held v) = 256 \<and> length (vw_toasts v) \<le> 6 \<and> vw_reconnect_attempts v \<le> 10 \<and>
     (vw_phase v \<in> {PhVerify, PhAuth, PhLive} \<longrightarrow> ch_active (vw_ch v))"

text \<open>Operations that only send, or change nothing the invariant is about.\<close>

definition calm :: "viewer \<Rightarrow> viewer \<Rightarrow> bool" where
  "calm v w \<longleftrightarrow> vw_tex w = vw_tex v \<and> vw_rw w = vw_rw v \<and> vw_rh w = vw_rh v \<and> length (vw_fb w) = length (vw_fb v) \<and>
     length (vw_held w) = length (vw_held v) \<and> (length (vw_toasts v) \<le> 6 \<longrightarrow> length (vw_toasts w) \<le> 6) \<and>
     vw_reconnect_attempts w = vw_reconnect_attempts v \<and> vw_phase w = vw_phase v \<and> ch_active (vw_ch w) = ch_active (vw_ch v)"

named_theorems calm_intros \<open>operations that leave the invariant alone\<close>
named_theorems viewer_intros \<open>operations that keep the invariant\<close>

lemma calm_refl [simp, calm_intros]: "calm v v"
  by (simp add: calm_def)

lemma calm_trans: "calm u v \<Longrightarrow> calm v w \<Longrightarrow> calm u w"
  by (auto simp: calm_def)

lemma viewer_ok_calm: "calm v w \<Longrightarrow> viewer_ok v \<Longrightarrow> viewer_ok w"
  by (auto simp: calm_def viewer_ok_def)

lemma rd_channel_seal_active: "rd_channel_seal al ch p b = (ch', b') \<Longrightarrow> ch_active ch' = ch_active ch"
  by (auto simp: rd_channel_seal_def Let_def split: option.splits)

lemma rd_channel_open_active: "rd_channel_open ch m = (p, ch') \<Longrightarrow> ch_active ch' = ch_active ch"
  by (auto simp: rd_channel_open_def Let_def split: if_splits option.splits)

lemma vsend_keeps [simp]:
  "ch_active (vw_ch (vsend al m v)) = ch_active (vw_ch v)" "vw_phase (vsend al m v) = vw_phase v" "vw_tex (vsend al m v) = vw_tex v"
  "vw_rw (vsend al m v) = vw_rw v" "vw_rh (vsend al m v) = vw_rh v" "vw_fb (vsend al m v) = vw_fb v" "vw_held (vsend al m v) = vw_held v"
  "vw_toasts (vsend al m v) = vw_toasts v" "vw_reconnect_attempts (vsend al m v) = vw_reconnect_attempts v"
  "vw_dialog (vsend al m v) = vw_dialog v" "vw_screen (vsend al m v) = vw_screen v" "vw_opts (vsend al m v) = vw_opts v"
  "vw_host_fp (vsend al m v) = vw_host_fp v" "vw_store (vsend al m v) = vw_store v" "vw_target (vsend al m v) = vw_target v"
  "vw_view_only (vsend al m v) = vw_view_only v" "vw_buttons (vsend al m v) = vw_buttons v" "vw_chat_text (vsend al m v) = vw_chat_text v"
  by (auto simp: vsend_def on_tr_def rd_channel_seal_active split: prod.split)

lemma on_tr_keeps [simp]:
  "vw_ch (on_tr f v) = vw_ch v" "vw_phase (on_tr f v) = vw_phase v" "vw_tex (on_tr f v) = vw_tex v"
  "vw_rw (on_tr f v) = vw_rw v" "vw_rh (on_tr f v) = vw_rh v" "vw_fb (on_tr f v) = vw_fb v" "vw_held (on_tr f v) = vw_held v"
  "vw_toasts (on_tr f v) = vw_toasts v" "vw_reconnect_attempts (on_tr f v) = vw_reconnect_attempts v"
  "vw_dialog (on_tr f v) = vw_dialog v" "vw_screen (on_tr f v) = vw_screen v" "vw_opts (on_tr f v) = vw_opts v"
  "vw_host_fp (on_tr f v) = vw_host_fp v" "vw_store (on_tr f v) = vw_store v" "vw_target (on_tr f v) = vw_target v"
  by (simp_all add: on_tr_def)

lemma save_store_keeps [simp]:
  "vw_ch (save_store v) = vw_ch v" "vw_phase (save_store v) = vw_phase v" "vw_tex (save_store v) = vw_tex v"
  "vw_rw (save_store v) = vw_rw v" "vw_rh (save_store v) = vw_rh v" "vw_fb (save_store v) = vw_fb v" "vw_held (save_store v) = vw_held v"
  "vw_toasts (save_store v) = vw_toasts v" "vw_reconnect_attempts (save_store v) = vw_reconnect_attempts v"
  "vw_dialog (save_store v) = vw_dialog v" "vw_screen (save_store v) = vw_screen v" "vw_opts (save_store v) = vw_opts v"
  "vw_host_fp (save_store v) = vw_host_fp v" "vw_store (save_store v) = vw_store v" "vw_target (save_store v) = vw_target v"
  "vw_tr (save_store v) = vw_tr v"
  by (simp_all add: save_store_def)

lemma calm_toast: "calm v (toast t v)"
  by (simp add: calm_def toast_def Let_def) arith

lemma calm_fields [calm_intros]:
  "calm v (on_tr f v)" "calm v (save_store v)" "calm v (toast t v)" "calm v (set_fullscreen on v)" "calm v (vsend al m v)"
  by (simp_all add: calm_toast) (simp_all add: calm_def set_fullscreen_def)

lemma calm_sends [calm_intros]:
  "calm v (send_simple al t v)" "calm v (send_settings al v)" "calm v (send_pointer al wx wy v)" "calm v (send_key al k d v)"
  "calm v (send_chat al v)" "calm v (send_clipboard al s v)"
  by (auto simp: calm_def send_simple_def send_settings_def send_pointer_def send_key_def send_chat_def send_clipboard_def toast_def Let_def)

lemma calm_fold: "(\<And>x v. calm v (f x v)) \<Longrightarrow> calm v (fold f xs v)"
  by (induction xs arbitrary: v) (auto intro: calm_trans)

lemma calm_release [calm_intros]: "calm v (release_input al v)"
proof -
  let ?w = "fold (\<lambda>k v. if vw_held v ! k then send_key al (of_nat k) False v else v) [0..<256] v"
  have w: "calm v ?w" by (rule calm_fold) (simp add: calm_sends)
  have "calm ?w (send_pointer al 0 0 (?w\<lparr>vw_buttons := 0\<rparr>))"
    by (rule calm_trans [OF _ calm_sends(3)]) (simp add: calm_def)
  then show ?thesis using w calm_trans [OF w] by (simp add: release_input_def Let_def)
qed

lemma calm_check_clipboard [calm_intros]: "calm v (check_local_clipboard al v)"
  by (auto simp: check_local_clipboard_def intro: calm_sends split: option.split)

section \<open>Connecting\<close>

lemma viewer_ok_fields:
  "viewer_ok v \<Longrightarrow> viewer_ok (v\<lparr>vw_dialog := d\<rparr>)" "viewer_ok v \<Longrightarrow> viewer_ok (v\<lparr>vw_screen := sc\<rparr>)" "viewer_ok v \<Longrightarrow> viewer_ok (v\<lparr>vw_target := pc\<rparr>)"
  "viewer_ok v \<Longrightarrow> viewer_ok (v\<lparr>vw_tr := tr\<rparr>)"
  by (simp_all add: viewer_ok_def)

lemma viewer_ok_fail_connect [viewer_intros]: "viewer_ok v \<Longrightarrow> viewer_ok (fail_connect al why v)"
  by (auto simp: viewer_ok_def fail_connect_def Let_def)

lemma fail_connect_phase [simp]: "vw_phase (fail_connect al why v) = PhNone"
  by (simp add: fail_connect_def Let_def)

lemma viewer_ok_start_connect [viewer_intros]: "viewer_ok v \<Longrightarrow> viewer_ok (start_connect al v)"
  unfolding start_connect_def Let_def
  by (auto simp: viewer_ok_def fail_connect_def Let_def wiped_channel_def split: prod.split option.split)

lemma viewer_ok_begin_connect [viewer_intros]: "viewer_ok v \<Longrightarrow> viewer_ok (begin_connect al pc v)"
  by (auto simp: begin_connect_def Let_def intro!: viewer_intros) (auto simp: viewer_ok_def)

lemma viewer_ok_disconnect [viewer_intros]:
  assumes "viewer_ok v" shows "viewer_ok (disconnect_user al v)"
proof -
  have "viewer_ok (release_input al (v\<lparr>vw_user_closed := True\<rparr>))"
    using assms by (intro viewer_ok_calm [OF calm_release]) (simp add: viewer_ok_def)
  then show ?thesis by (auto simp: disconnect_user_def Let_def viewer_ok_def set_fullscreen_def)
qed

lemma viewer_ok_closed [viewer_intros]: "viewer_ok v \<Longrightarrow> viewer_ok (on_transport_closed al v)"
  by (auto simp: on_transport_closed_def Let_def viewer_ok_def toast_def set_fullscreen_def fail_connect_def)

lemma viewer_ok_send_hello [viewer_intros]: "viewer_ok v \<Longrightarrow> viewer_ok (send_hello al v)"
  by (auto simp: send_hello_def Let_def viewer_ok_def)

lemma viewer_ok_send_auth: "viewer_ok v \<Longrightarrow> ch_active (vw_ch v) \<Longrightarrow> viewer_ok (send_auth al v)"
  by (auto simp: send_auth_def Let_def viewer_ok_def)

section \<open>Messages\<close>

lemma viewer_ok_check_identity: "viewer_ok v \<Longrightarrow> ch_active (vw_ch v) \<Longrightarrow> viewer_ok (check_identity al v)"
  unfolding check_identity_def Let_def by (auto intro!: viewer_ok_send_auth) (auto simp: viewer_ok_def)

lemma rd_hs_keys_active [simp]: "ch_active (rd_hs_keys a b t srv)"
  by (simp add: rd_hs_keys_def Let_def)

lemma viewer_ok_hello [viewer_intros]: "viewer_ok v \<Longrightarrow> viewer_ok (on_hello al r v)"
  unfolding on_hello_def Let_def
  by (auto intro!: viewer_ok_check_identity viewer_ok_fail_connect split: prod.split option.split) (auto simp: viewer_ok_def)

lemma viewer_ok_rejected [viewer_intros]: "viewer_ok v \<Longrightarrow> viewer_ok (auth_rejected al txt v)"
  unfolding auth_rejected_def Let_def fail_connect_def
  by (auto simp: viewer_ok_def set_fullscreen_def split: option.split)

lemma calm_remember [calm_intros]: "calm v (remember_pc v)"
  unfolding remember_pc_def Let_def by (auto simp: calm_def set_fullscreen_def split: prod.split)

lemma viewer_ok_go_live:
  assumes "viewer_ok v" "vw_phase v = PhAuth"
  shows "viewer_ok (go_live al txt v)"
proof -
  have start: "viewer_ok (v\<lparr>vw_phase := PhLive, vw_dialog := DlgNone, vw_screen := ScSession\<rparr>)"
    using assms by (simp add: viewer_ok_def)
  have more: "viewer_ok w \<Longrightarrow> viewer_ok (w\<lparr>vw_reconnect_attempts := 0, vw_last_ping := p, vw_last_clip_check := q, vw_last_local_clip := c\<rparr>)"
    "viewer_ok w \<Longrightarrow> viewer_ok (w\<lparr>vw_menu_open := True\<rparr>)" for w p q c
    by (simp_all add: viewer_ok_def)
  show ?thesis
    unfolding go_live_def Let_def
    by (auto intro!: viewer_ok_calm [OF calm_remember] more viewer_ok_calm [OF calm_sends(2)] viewer_ok_calm [OF calm_toast] start
        simp del: vsend_keeps)
qed

lemma viewer_ok_auth_result [viewer_intros]:
  assumes "viewer_ok v" shows "viewer_ok (on_auth_result al r v)"
proof -
  have "viewer_ok (v\<lparr>vw_view_only := b\<rparr>)" for b using assms by (simp add: viewer_ok_def)
  then show ?thesis
    using assms unfolding on_auth_result_def Let_def case_prod_beta
    by (auto intro!: viewer_ok_rejected viewer_ok_go_live viewer_ok_calm [OF calm_release] viewer_ok_calm [OF calm_toast])
qed

lemma viewer_ok_resize [viewer_intros]: "viewer_ok v \<Longrightarrow> 0 \<le> w \<Longrightarrow> 0 \<le> h \<Longrightarrow> viewer_ok (resize_remote w h v)"
  by (auto simp: resize_remote_def viewer_ok_def)

lemma viewer_ok_display_info [viewer_intros]: "viewer_ok v \<Longrightarrow> viewer_ok (on_display_info r v)"
  unfolding on_display_info_def Let_def
  by (auto simp: case_prod_beta intro!: viewer_ok_resize) (auto simp: viewer_ok_def)

lemma decode_in_place:
  "rd_decode_tile enc p w h (drop at fb) ds = (rc, dst) \<Longrightarrow> length (take at fb @ dst) = length fb"
  using rd_decode_tile_any [of enc p w h "drop at fb" ds rc dst] by (auto simp: tile_frame_def)

lemma length_tiles_loop: "tiles_loop n rw rh r fb = (bad, fb') \<Longrightarrow> length fb' = length fb"
proof (induction n arbitrary: r fb)
  case (Suc n)
  then show ?case
    by (auto simp del: length_append simp: Let_def split: prod.splits if_splits dest: decode_in_place dest!: Suc.IH)
qed simp

lemma calm_frame [calm_intros]: "calm v (on_frame al r v)"
  unfolding on_frame_def Let_def
  by (auto simp: case_prod_beta calm_def send_simple_def length_tiles_loop [OF prod.collapse [symmetric]])

lemma viewer_ok_plain [viewer_intros]: "viewer_ok v \<Longrightarrow> viewer_ok (vhandle_plain al m v)"
  unfolding vhandle_plain_def Let_def
  by (auto simp: case_prod_beta on_remote_clipboard_def on_file_result_def Let_def
      intro!: viewer_intros viewer_ok_calm [OF calm_frame] viewer_ok_calm [OF calm_fields(3)] split: option.split)
    (auto simp: viewer_ok_def)

lemma viewer_ok_message [viewer_intros]: "viewer_ok v \<Longrightarrow> viewer_ok (vhandle_message al m v)"
  unfolding vhandle_message_def
  by (auto intro!: viewer_intros split: prod.split option.split) (auto simp: viewer_ok_def dest: rd_channel_open_active)

section \<open>Ticks and events\<close>

lemma viewer_ok_other:
  "viewer_ok v \<Longrightarrow> viewer_ok (v\<lparr>vw_uploads := us\<rparr>)" "viewer_ok v \<Longrightarrow> viewer_ok (v\<lparr>vw_last_ping := p\<rparr>)"
  "viewer_ok v \<Longrightarrow> viewer_ok (v\<lparr>vw_last_clip_check := p\<rparr>)" "viewer_ok v \<Longrightarrow> viewer_ok (v\<lparr>vw_reconnect_at := p\<rparr>)"
  "viewer_ok v \<Longrightarrow> viewer_ok (v\<lparr>vw_cur_display := i\<rparr>)" "viewer_ok v \<Longrightarrow> viewer_ok (v\<lparr>vw_chat_open := b\<rparr>)"
  "viewer_ok v \<Longrightarrow> viewer_ok (v\<lparr>vw_menu_open := b\<rparr>)" "viewer_ok v \<Longrightarrow> viewer_ok (v\<lparr>vw_chat_text := t\<rparr>)"
  "viewer_ok v \<Longrightarrow> viewer_ok (v\<lparr>vw_buttons := bt\<rparr>)" "viewer_ok v \<Longrightarrow> viewer_ok (v\<lparr>vw_ptr_dirty := b\<rparr>)"
  "viewer_ok v \<Longrightarrow> viewer_ok (v\<lparr>vw_dialog_error := t\<rparr>)" "viewer_ok v \<Longrightarrow> viewer_ok (v\<lparr>vw_store := st\<rparr>)"
  "viewer_ok v \<Longrightarrow> viewer_ok (v\<lparr>vw_focused := b\<rparr>)" "viewer_ok v \<Longrightarrow> viewer_ok (v\<lparr>vw_clipboard := clip\<rparr>)"
  "viewer_ok v \<Longrightarrow> viewer_ok (v\<lparr>vw_next_upload_id := n\<rparr>)" "viewer_ok v \<Longrightarrow> viewer_ok (v\<lparr>vw_quality := i\<rparr>)"
  "viewer_ok v \<Longrightarrow> viewer_ok (v\<lparr>vw_fps := i\<rparr>)" "viewer_ok v \<Longrightarrow> viewer_ok (v\<lparr>vw_resolution_pref := i\<rparr>)"
  "viewer_ok v \<Longrightarrow> viewer_ok (v\<lparr>vw_ptr_x := i\<rparr>)" "viewer_ok v \<Longrightarrow> viewer_ok (v\<lparr>vw_ptr_y := i\<rparr>)"
  "viewer_ok v \<Longrightarrow> viewer_ok (v\<lparr>vw_pw_input := t\<rparr>)" "viewer_ok v \<Longrightarrow> viewer_ok (v\<lparr>vw_pw_remember := b\<rparr>)"
  "viewer_ok v \<Longrightarrow> viewer_ok (v\<lparr>vw_ticks := p\<rparr>)" "viewer_ok v \<Longrightarrow> viewer_ok (v\<lparr>vw_time := i\<rparr>)"
  by (simp_all add: viewer_ok_def)

lemmas viewer_updates = viewer_ok_fields viewer_ok_other

lemmas viewer_calm = calm_fields [THEN viewer_ok_calm] calm_sends [THEN viewer_ok_calm] calm_release [THEN viewer_ok_calm]
  calm_check_clipboard [THEN viewer_ok_calm]

lemma viewer_ok_if: "viewer_ok v \<Longrightarrow> viewer_ok w \<Longrightarrow> viewer_ok (if b then v else w)"
  by simp

lemma calm_chunk_loop: "calm v (snd (chunk_loop al u v))"
proof (induction al u v rule: chunk_loop.induct)
  case (1 al u v)
  then show ?case
    by (subst chunk_loop.simps) (auto simp: Let_def intro: calm_trans [OF calm_fields(5)])
qed

lemma viewer_ok_pump [viewer_intros]: "viewer_ok v \<Longrightarrow> viewer_ok (pump_uploads al v)"
  unfolding pump_uploads_def pump_upload_at_def Let_def case_prod_beta
  by (auto intro!: viewer_updates viewer_calm calm_chunk_loop [THEN viewer_ok_calm])

lemma viewer_ok_handle_messages [viewer_intros]: "viewer_ok v \<Longrightarrow> viewer_ok (handle_messages al ms v)"
  by (induction ms arbitrary: v) (auto simp: Let_def intro!: viewer_ok_message)

lemma viewer_ok_tick [viewer_intros]: "viewer_ok v \<Longrightarrow> viewer_ok (tick al e v)"
proof -
  assume v: "viewer_ok v"
  have "viewer_ok (tick_network al e v)"
    using v unfolding tick_network_def Let_def case_prod_beta
    by (auto intro!: viewer_ok_closed viewer_ok_send_hello viewer_ok_handle_messages viewer_ok_start_connect viewer_updates)
  moreover have "viewer_ok (tick_live al w)" if "viewer_ok w" for w
    using that unfolding tick_live_def Let_def
    by (auto intro!: viewer_ok_pump viewer_ok_if viewer_calm viewer_updates)
  ultimately show ?thesis by (simp add: tick_def)
qed

lemma viewer_ok_switch_screen [viewer_intros]: "viewer_ok v \<Longrightarrow> viewer_ok (switch_screen al i v)"
  unfolding switch_screen_def Let_def case_prod_beta by (auto intro!: viewer_calm viewer_updates)

lemma viewer_ok_session_event [viewer_intros]:
  assumes "viewer_ok v" shows "viewer_ok (session_event al e v)"
proof -
  have key: "viewer_ok (session_key al d k sc rp v)" for d k sc rp
    using assms unfolding session_key_def chat_key_def Let_def
    by (auto intro!: viewer_calm viewer_updates viewer_ok_switch_screen)
  have button: "viewer_ok (session_button al d b over x y v)" for d b over x y
    using assms unfolding session_button_def point_to_def Let_def by (auto intro!: viewer_calm viewer_updates)
  show ?thesis
    using assms key button unfolding session_event_def point_to_def Let_def case_prod_beta
    by (auto intro!: viewer_calm viewer_updates viewer_ok_disconnect split: session_input.split)
qed

lemma viewer_ok_menu_event [viewer_intros]:
  assumes "viewer_ok v" shows "viewer_ok (menu_event al b v)"
proof -
  have "calm v (ctrl_alt_del al v)"
    unfolding ctrl_alt_del_def by (intro calm_trans [OF calm_fold calm_fold] calm_sends)
  then have "viewer_ok (ctrl_alt_del al v)" using assms by (rule viewer_ok_calm)
  then show ?thesis
    using assms unfolding menu_event_def menu_clipboard_def menu_chat_def
    by (auto intro!: viewer_calm viewer_updates viewer_ok_switch_screen viewer_ok_disconnect split: menu_item.split option.split)
qed

lemma viewer_ok_dialog [viewer_intros]:
  assumes "viewer_ok v" "vw_dialog v = DlgVerify \<longrightarrow> vw_phase v = PhVerify"
  shows "viewer_ok (dialog_submit al pc v)"
proof -
  have "viewer_ok (save_edited pc v)"
    using assms(1) unfolding save_edited_def Let_def case_prod_beta by (auto intro!: viewer_calm viewer_updates)
  moreover have "viewer_ok (submit_password al v)"
    using assms(1) unfolding submit_password_def Let_def
    by (auto intro!: viewer_ok_start_connect viewer_calm viewer_updates split: option.split)
  moreover have "viewer_ok (accept_identity al v)" if "vw_dialog v = DlgVerify"
  proof -
    have "ch_active (vw_ch v)" using assms that by (simp add: viewer_ok_def)
    then show ?thesis using assms(1) unfolding accept_identity_def by (auto intro!: viewer_ok_send_auth viewer_calm viewer_updates)
  qed
  ultimately show ?thesis using assms(1) by (auto simp: dialog_submit_def intro: viewer_ok_begin_connect split: dialog.split)
qed

text \<open>
  What can happen to a viewer, one event after the other, as long as the identity question is answered before its
  connection is gone.
\<close>

inductive viewer_run :: "alloc \<Rightarrow> viewer \<Rightarrow> viewer \<Rightarrow> bool" for al where
  start: "viewer_run al v v"
| step: "viewer_run al v w \<Longrightarrow> (vw_dialog w = DlgVerify \<Longrightarrow> (\<exists>pc. e = EvSubmit pc) \<Longrightarrow> vw_phase w = PhVerify) \<Longrightarrow>
    viewer_run al v (viewer_event al e w)"

lemma viewer_ok_event:
  assumes "viewer_ok v" "vw_dialog v = DlgVerify \<Longrightarrow> (\<exists>pc. e = EvSubmit pc) \<Longrightarrow> vw_phase v = PhVerify"
  shows "viewer_ok (viewer_event al e v)"
proof (cases e)
  case (EvSubmit pc)
  then show ?thesis using assms by (auto simp: viewer_event_def intro!: viewer_ok_dialog)
next
  case (EvDrop path body size)
  then show ?thesis
    using assms(1) unfolding viewer_event_def queue_upload_def Let_def
    by (auto intro!: viewer_calm viewer_updates split: option.split)
next
  case EvCancel
  then show ?thesis using assms(1) by (auto simp: viewer_event_def dialog_cancel_def intro!: viewer_ok_disconnect viewer_updates)
qed (use assms(1) in \<open>auto simp: viewer_event_def intro!: viewer_intros viewer_calm viewer_updates\<close>)

lemma viewer_ok_init: "viewer_ok (vw_init opts st fs cc room tr)"
  by (simp add: viewer_ok_def vw_init_def)


section \<open>Who the viewer talks to\<close>

lemma calm_phase: "calm v w \<Longrightarrow> vw_phase w = vw_phase v"
  by (simp add: calm_def)

lemma vsend_recv_key [simp]: "recv_key (vw_ch (vsend al m v)) = recv_key (vw_ch v)"
  by (auto simp: vsend_def on_tr_def rd_channel_seal_def Let_def)

lemma send_auth_keeps [simp]:
  "vw_phase (send_auth al v) = PhAuth" "vw_host_fp (send_auth al v) = vw_host_fp v" "recv_key (vw_ch (send_auth al v)) = recv_key (vw_ch v)"
  by (simp_all add: send_auth_def Let_def)

lemma check_identity_auth:
  "vw_phase (check_identity al v) = PhAuth \<longleftrightarrow> op_web (vw_opts v) \<or> op_trust_new_hosts (vw_opts v) \<or>
     known_fingerprint (pc_host (vw_target v)) (pc_port (vw_target v)) (vw_store v) = vw_host_fp v"
  "vw_host_fp (check_identity al v) = vw_host_fp v" "recv_key (vw_ch (check_identity al v)) = recv_key (vw_ch v)"
  by (auto simp: check_identity_def Let_def)

lemma auth_result_phase: "vw_phase v \<noteq> PhAuth \<Longrightarrow> vw_phase (on_auth_result al r v) \<noteq> PhAuth"
  unfolding on_auth_result_def Let_def case_prod_beta auth_rejected_def
  by (auto simp: calm_phase [OF calm_toast] calm_phase [OF calm_release] split: option.split)

lemma auth_only_after_hello:
  assumes "vw_phase v \<noteq> PhAuth" "vw_phase (vhandle_plain al m v) = PhAuth" "rd_get_u8 (rd_reader_init m) = (type, r)"
  shows "type = 64"
proof (rule ccontr)
  have other: "vw_phase (on_display_info r v) = vw_phase v" "vw_phase (on_frame al r v) = vw_phase v"
    "vw_phase (on_remote_clipboard r v) = vw_phase v" "vw_phase (on_file_result r v) = vw_phase v" "vw_phase (toast t v) = vw_phase v" for r t
    using calm_phase [OF calm_frame]
    by (auto simp: on_display_info_def resize_remote_def on_remote_clipboard_def on_file_result_def Let_def case_prod_beta toast_def split: option.split)
  assume "type \<noteq> 64"
  then have "vw_phase (vhandle_plain al m v) = (if type = 65 then vw_phase (on_auth_result al r v) else vw_phase v)"
    by (simp add: vhandle_plain_def assms(3) other Let_def case_prod_beta)
  then show False using assms auth_result_phase [OF assms(1), of al r] by (simp split: if_splits)
qed

text \<open>The host's static key in a hello message.\<close>

definition hello_key :: "bytes \<Rightarrow> bytes option" where
  "hello_key m =
     (let (_, r) = rd_get_u8 (rd_reader_init m); (_, r) = rd_get_u16 r; (_, r) = rd_get_u8 r; (_, r) = rd_get_bytes r 16;
          (_, _, r) = rd_get_str r 256; (_, _, r) = rd_get_str r 256
      in fst (rd_get_bytes r 32))"

lemma hello_key_known:
  assumes "vw_phase (on_hello al (snd (rd_get_u8 (rd_reader_init m))) v) = PhAuth" "\<not> op_web (vw_opts v)" "\<not> op_trust_new_hosts (vw_opts v)"
  shows "\<exists>ss. hello_key m = Some ss \<and>
    known_fingerprint (pc_host (vw_target v)) (pc_port (vw_target v)) (vw_store v) = rd_fingerprint ss"
proof -
  define r where "r = snd (rd_get_str (snd (snd (rd_get_str (snd (rd_get_bytes (snd (rd_get_u8 (snd (rd_get_u16
    (snd (rd_get_u8 (rd_reader_init m))))))) 16)) 256))) 256)"
  have k: "hello_key m = fst (rd_get_bytes (snd r) 32)" by (simp add: hello_key_def r_def Let_def case_prod_beta)
  have "\<not> rr_err (snd (rd_get_bytes (snd (rd_get_bytes (snd r) 32)) 32))"
    using assms(1) unfolding on_hello_def Let_def by (auto simp: case_prod_beta r_def split: if_splits)
  then have "\<not> rr_err (snd (rd_get_bytes (snd r) 32))"
    by (auto simp: rd_get_bytes_def split: if_splits)
  then obtain ss where ss: "hello_key m = Some ss" using rd_get_err_after [of "snd r" 32] k by auto
  then have "known_fingerprint (pc_host (vw_target v)) (pc_port (vw_target v)) (vw_store v) = rd_fingerprint ss"
    using assms k unfolding on_hello_def Let_def
    by (auto simp: case_prod_beta check_identity_auth r_def split: if_splits option.splits)
  with ss show ?thesis by blast
qed


section \<open>What goes wrong\<close>

text \<open>The option that skips the question about new hosts also accepts a changed key.\<close>

lemma trust_new_hosts_accepts_changed_key:
  "op_trust_new_hosts (vw_opts v) \<Longrightarrow> vw_phase (check_identity al v) = PhAuth"
  by (simp add: check_identity_auth)

text \<open>Before the handshake, and without it, the host's messages are acted on in the clear.\<close>

lemma clipboard_in_the_clear:
  assumes "\<not> ch_active (vw_ch v)" "length t < 2 ^ 32"
  shows "vw_clipboard (vhandle_message al (68 # enc_blob t) v) = Some (c_str t)"
proof -
  have "rd_get_blob (rdr [68] (enc_blob t)) = (Some t, of_nat (length t), rdr ([68] @ enc_blob t) [])"
    using rdr_get_blob [OF assms(2), of "[68]" "[]"] by simp
  then show ?thesis
    using assms(1) by (simp add: vhandle_message_def vhandle_plain_def reader_simps on_remote_clipboard_def toast_def Let_def)
qed

text \<open>Made view-only, the viewer means to release its keys, but it no longer sends any.\<close>

lemma view_only_keeps_keys:
  assumes "vw_view_only v" shows "vw_held (release_input al v) = vw_held v" "vw_tr (release_input al v) = vw_tr v"
proof -
  have k: "send_key al h d v = v" for h d using assms by (simp add: send_key_def)
  have "fold (\<lambda>k v. if vw_held v ! k then send_key al (of_nat k) False v else v) ks v = v" for ks
    by (induction ks) (simp_all add: k)
  then show "vw_held (release_input al v) = vw_held v" "vw_tr (release_input al v) = vw_tr v"
    using assms by (simp_all add: release_input_def send_pointer_def Let_def)
qed

text \<open>The menu works while a lost connection is being set up again, and its clipboard goes out unsealed.\<close>

lemma menu_clipboard_in_the_clear:
  assumes "\<not> ch_active (vw_ch v)" "vw_clipboard v = Some t" "t \<noteq> []" "length t \<le> 1048576" "\<not> vw_view_only v"
  shows "vw_tr (menu_clipboard al v) = tr_send al (rb_data (rd_buf_put_blob al (vmsg al 6) t)) (vw_tr v)"
  using assms by (simp add: menu_clipboard_def toast_def send_clipboard_def vsend_def on_tr_def Let_def)

text \<open>C33: the identity question outlives its connection. A session is reconnecting, the host's key has changed and the
question is up; that connection drops before the user answers, and the next one is opened and greeted. Answering the
question now sends the password proof for the old handshake in the clear over the new connection, before any key
exchange, and the viewer waits for a result that cannot come.\<close>

theorem identity_question_outlives_connection:
  assumes "no_oom al" "vw_dialog v = DlgVerify" "vw_phase v = PhVerify" "vw_screen v = ScSession" "\<not> vw_user_closed v"
    "0 < vw_reconnect_attempts v" "vw_reconnect_attempts v < 10" "pc_host (vw_target v) \<noteq> []"
    "0 < pc_port (vw_target v)" "pc_port (vw_target v) \<le> 65535"
  shows "let u = send_hello al ((start_connect al (on_transport_closed al v))\<lparr>vw_tr := tr\<rparr>);
      w = dialog_submit al pc u
    in vw_phase w = PhAuth \<and> \<not> ch_active (vw_ch w) \<and>
       vw_tr w = tr_send al (2 # rd_hs_auth_mac (pc_password (vw_target v)) (vw_transcript v)) (vw_tr u)"
proof -
  define s where "s = start_connect al (on_transport_closed al v)"
  have s: "vw_dialog s = DlgVerify" "vw_screen s = ScSession" "\<not> ch_active (vw_ch s)" "vw_transcript s = vw_transcript v"
    "pc_password (vw_target s) = pc_password (vw_target v)"
    using assms(2-)
    by (auto simp: s_def start_connect_def on_transport_closed_def Let_def wiped_channel_def on_tr_def split: prod.split option.split)
  define u where "u = send_hello al (s\<lparr>vw_tr := tr\<rparr>)"
  have u: "vw_dialog u = DlgVerify" "\<not> ch_active (vw_ch u)" "vw_transcript u = vw_transcript v"
    "pc_password (vw_target u) = pc_password (vw_target v)"
    using s by (simp_all add: u_def send_hello_def Let_def vsend_def on_tr_def)
  have "rb_data (rd_buf_put al (vmsg al 2) mac) = 2 # mac" for mac
    using assms(1) by (simp add: vmsg_def rd_buf_puts_data rd_buf_put_data rd_buf_init_data)
  then show ?thesis
    using u unfolding Let_def s_def [symmetric] u_def [symmetric]
    by (simp add: dialog_submit_def accept_identity_def send_auth_def Let_def vsend_def on_tr_def save_store_def)
qed

section \<open>Examples\<close>

definition demo_options :: options where
  "demo_options = \<lparr>op_name = [], op_trust_new_hosts = False, op_open_menu = False, op_relay = [], op_web = False,
     op_web_secure = False, op_web_relay = False, op_web_host = [], op_web_port = 80, op_remote = False\<rparr>"

definition demo_start :: viewer where
  "demo_start = vw_init demo_options (empty_store False) (\<lambda>_. None) (\<lambda>_. True) 0 (tr_init 0 (\<lambda>_ _ _. None) (\<lambda>_. 0))"


definition demo_hello :: bytes where
  "demo_hello = [64, 2, 0, 2] @ replicate 16 7 @ [1, 0, 104, 1, 0, 111] @ replicate 32 1 @ replicate 32 2"


definition demo_asked :: viewer where
  "demo_asked = demo_start\<lparr>vw_dialog := DlgVerify, vw_phase := PhVerify, vw_screen := ScSession, vw_reconnect_attempts := 1,
     vw_target := new_pc\<lparr>pc_host := [104]\<rparr>\<rparr>"

theorem identity_question_outlives_connection_witness:
  "let u = send_hello (\<lambda>_. True) ((start_connect (\<lambda>_. True) (on_transport_closed (\<lambda>_. True) demo_asked))
           \<lparr>vw_tr := tr_init 0 (\<lambda>_ _ _. None) (\<lambda>_. 0)\<rparr>);
     w = dialog_submit (\<lambda>_. True) new_pc u
   in vw_phase w = PhAuth \<and> \<not> ch_active (vw_ch w) \<and>
      vw_tr w = tr_send (\<lambda>_. True) (2 # rd_hs_auth_mac (pc_password (vw_target demo_asked)) (vw_transcript demo_asked)) (vw_tr u)"
  by (rule identity_question_outlives_connection) (simp_all add: demo_asked_def demo_start_def vw_init_def new_pc_def)

end
