(* ===== verification/Screen_Sync.thy ===== *)
theory Screen_Sync
  imports Server_Props Viewer_Props "HOL-Library.Multiset"
begin

text \<open>
  From the host's screen to the viewer's: the encoder's run (\<open>host/encoder.cpp\<close>) and the frame message of
  \<open>host/server.cpp\<close> against the viewer's \<open>on_frame\<close> (\<open>client/app.cpp\<close>). \<open>in_sync\<close> relates the viewer's frame buffer to the
  host's shadow of it, pixel by pixel; encoding, sending and drawing a frame keeps it, and a still screen becomes exact.
\<close>

section \<open>Pixels and tiles\<close>

definition frame_ok :: "frame \<Rightarrow> bool" where
  "frame_ok f \<longleftrightarrow> 0 < fr_width f \<and> fr_width f \<le> 65535 \<and> 0 < fr_height f \<and> fr_height f \<le> 65535 \<and>
     fr_w f * 4 \<le> fr_stride f \<and> fr_h f * fr_stride f \<le> length (fr_pixels f) \<and> tiles_total f \<le> 65535"

definition in_frame :: "frame \<Rightarrow> nat \<Rightarrow> nat \<Rightarrow> bool" where
  "in_frame f x y \<longleftrightarrow> x < fr_w f \<and> y < fr_h f"

definition tile_at :: "frame \<Rightarrow> nat \<Rightarrow> nat \<Rightarrow> nat" where
  "tile_at f x y = y div 64 * tiles_x f + x div 64"

definition in_tile :: "frame \<Rightarrow> nat \<Rightarrow> nat \<Rightarrow> nat \<Rightarrow> bool" where
  "in_tile f k x y \<longleftrightarrow> tile_x f k \<le> x \<and> x < tile_x f k + tile_w f k \<and> tile_y f k \<le> y \<and> y < tile_y f k + tile_h f k"

text \<open>Where the first byte of a pixel is, in the frame and in the shadow.\<close>

definition src_px :: "frame \<Rightarrow> nat \<Rightarrow> nat \<Rightarrow> nat" where
  "src_px f x y = y * fr_stride f + x * 4"

definition shadow_px :: "frame \<Rightarrow> nat \<Rightarrow> nat \<Rightarrow> nat" where
  "shadow_px f x y = y * (fr_w f * 4) + x * 4"

lemma div_64_eq: "((x :: nat) div 64 = n) = (n * 64 \<le> x \<and> x < n * 64 + 64)"
  by auto

lemma tile_cover: "(x :: nat) < n \<Longrightarrow> x div 64 < (n + 64 - 1) div 64"
  by (simp add: div_less_iff_less_mult)

lemma tile_start: "(a :: nat) < (n + 64 - 1) div 64 \<Longrightarrow> a * 64 < n"
  using div_times_less_eq_dividend [of "n + 64 - 1" 64] mult_le_mono1 [of "a + 1" "(n + 64 - 1) div 64" 64] by linarith

lemma frame_okD:
  assumes "frame_ok f"
  shows "0 < fr_w f" "fr_w f \<le> 65535" "0 < fr_h f" "fr_h f \<le> 65535" "int (fr_w f) = fr_width f" "int (fr_h f) = fr_height f"
    "0 < tiles_x f" "0 < tiles_y f" "fr_w f * 4 \<le> fr_stride f"
  using assms by (auto simp: frame_ok_def fr_w_def fr_h_def tiles_x_def tiles_y_def)

lemma tile_at_less:
  assumes "in_frame f x y" shows "tile_at f x y < tiles_total f"
proof -
  have x: "x div 64 < tiles_x f" and y: "y div 64 < tiles_y f"
    using assms tile_cover [of x "fr_w f"] tile_cover [of y "fr_h f"] by (simp_all add: in_frame_def tiles_x_def tiles_y_def)
  have "tile_at f x y < (y div 64 + 1) * tiles_x f" using x by (simp add: tile_at_def)
  also have "\<dots> \<le> tiles_y f * tiles_x f" using y by (intro mult_right_mono) simp_all
  finally show ?thesis by (simp add: tiles_total_def mult.commute)
qed

lemma in_tile_iff:
  assumes "frame_ok f" "in_frame f x y"
  shows "in_tile f k x y \<longleftrightarrow> tile_at f x y = k"
proof -
  have x: "x div 64 < tiles_x f"
    using assms(2) tile_cover [of x "fr_w f"] by (simp add: in_frame_def tiles_x_def)
  have "in_tile f k x y \<longleftrightarrow> x div 64 = k mod tiles_x f \<and> y div 64 = k div tiles_x f"
    using assms(2) unfolding div_64_eq in_tile_def in_frame_def tile_x_def tile_y_def tile_w_def tile_h_def by auto
  also have "\<dots> \<longleftrightarrow> tile_at f x y = k"
    using x div_mult_mod_eq [of k "tiles_x f"] unfolding tile_at_def by auto
  finally show ?thesis .
qed

lemma tile_dims_k:
  assumes "frame_ok f" "k < tiles_total f"
  shows "tile_dims (tile_w f k) (tile_h f k)" "tile_x f k + tile_w f k \<le> fr_w f" "tile_y f k + tile_h f k \<le> fr_h f"
proof -
  note d = frame_okD [OF assms(1)]
  have "k mod tiles_x f < tiles_x f" using d by simp
  then have x: "tile_x f k < fr_w f" unfolding tile_x_def tiles_x_def by (rule tile_start)
  have "k div tiles_x f < tiles_y f" using assms(2) d(7) by (simp add: tiles_total_def div_less_iff_less_mult mult.commute)
  then have y: "tile_y f k < fr_h f" unfolding tile_y_def tiles_y_def by (rule tile_start)
  show "tile_dims (tile_w f k) (tile_h f k)" "tile_x f k + tile_w f k \<le> fr_w f" "tile_y f k + tile_h f k \<le> fr_h f"
    using x y by (auto simp: tile_dims_def tile_w_def tile_h_def)
qed

section \<open>The shadow\<close>

text \<open>The four bytes of a pixel are the same in the frame and in the shadow.\<close>

definition same_px :: "frame \<Rightarrow> bytes \<Rightarrow> nat \<Rightarrow> nat \<Rightarrow> bool" where
  "same_px f sh x y \<longleftrightarrow> (\<forall>c < 4. sh ! (shadow_px f x y + c) = fr_pixels f ! (src_px f x y + c))"

lemma src_px_less:
  assumes "frame_ok f" "in_frame f x y" "c < 4"
  shows "src_px f x y + c < length (fr_pixels f)"
proof -
  have "(y + 1) * fr_stride f \<le> fr_h f * fr_stride f" using assms(2) by (intro mult_right_mono) (simp_all add: in_frame_def)
  then show ?thesis using assms by (simp add: frame_ok_def in_frame_def src_px_def)
qed

lemma shadow_px_less:
  assumes "in_frame f x y" "c < 4"
  shows "shadow_px f x y + c < fr_w f * fr_h f * 4"
proof -
  have "(y + 1) * (fr_w f * 4) \<le> fr_h f * (fr_w f * 4)" using assms by (intro mult_right_mono) (simp_all add: in_frame_def)
  moreover have "x * 4 + c < fr_w f * 4" using assms by (simp add: in_frame_def)
  moreover have "(y + 1) * (fr_w f * 4) = y * (fr_w f * 4) + fr_w f * 4" "fr_h f * (fr_w f * 4) = fr_w f * fr_h f * 4" by simp_all
  ultimately show ?thesis unfolding shadow_px_def by linarith
qed

lemma shadow_px_inj:
  assumes "x < fr_w f" "x' < fr_w f" "c < 4" "c' < 4" "shadow_px f x y + c = shadow_px f x' y' + c'"
  shows "x = x' \<and> y = y' \<and> c = c'"
proof -
  have "y * (fr_w f * 4) + (x * 4 + c) = y' * (fr_w f * 4) + (x' * 4 + c')" using assms(5) by (simp add: shadow_px_def)
  then have "y = y' \<and> x * 4 + c = x' * 4 + c'"
    using assms by (intro pixel_index_inj [of _ "fr_w f * 4"]) simp_all
  then show ?thesis using assms by presburger
qed

lemma row_eq_iff:
  assumes "off + w * 4 \<le> length p" "off' + w * 4 \<le> length q"
  shows "row_of p off w = row_of q off' w \<longleftrightarrow> (\<forall>i < w. \<forall>c < 4. p ! (off + i * 4 + c) = q ! (off' + i * 4 + c))"
proof -
  have "row_of p off w = row_of q off' w \<longleftrightarrow> (\<forall>j < w * 4. p ! (off + j) = q ! (off' + j))"
    using assms by (auto simp: row_of_def list_eq_iff_nth_eq)
  also have "\<dots> \<longleftrightarrow> (\<forall>i < w. \<forall>c < 4. p ! (off + i * 4 + c) = q ! (off' + i * 4 + c))"
  proof (intro iffI allI impI)
    fix i c :: nat assume h: "\<forall>j < w * 4. p ! (off + j) = q ! (off' + j)" "i < w" "c < 4"
    then have "i * 4 + c < w * 4" by simp
    with h(1) show "p ! (off + i * 4 + c) = q ! (off' + i * 4 + c)" by (metis add.assoc)
  next
    fix j assume h: "\<forall>i < w. \<forall>c < 4. p ! (off + i * 4 + c) = q ! (off' + i * 4 + c)" "j < w * 4"
    then have "j div 4 < w" "j mod 4 < 4" by auto
    with h(1) have "p ! (off + j div 4 * 4 + j mod 4) = q ! (off' + j div 4 * 4 + j mod 4)" by blast
    then show "p ! (off + j) = q ! (off' + j)" by (simp add: add.assoc)
  qed
  finally show ?thesis .
qed

lemma tile_rows_fit:
  assumes "frame_ok f" "k < tiles_total f" "y < tile_h f k"
  shows "src_off f k y + tile_w f k * 4 \<le> length (fr_pixels f)" "shadow_off f k y + tile_w f k * 4 \<le> fr_w f * fr_h f * 4"
proof -
  note d = tile_dims_k [OF assms(1,2)]
  have "in_frame f (tile_x f k + tile_w f k - 1) (tile_y f k + y)"
    using d assms(3) unfolding in_frame_def tile_dims_def by linarith
  from src_px_less [OF assms(1) this, of 3] shadow_px_less [OF this, of 3]
  show "src_off f k y + tile_w f k * 4 \<le> length (fr_pixels f)" "shadow_off f k y + tile_w f k * 4 \<le> fr_w f * fr_h f * 4"
    using d(1) by (simp_all add: src_off_def shadow_off_def src_px_def shadow_px_def tile_dims_def algebra_simps)
qed

lemma tile_dirty_iff:
  assumes f: "frame_ok f" "k < tiles_total f" "length sh = fr_w f * fr_h f * 4"
  shows "\<not> tile_dirty f sh k \<longleftrightarrow> (\<forall>x y. in_frame f x y \<and> tile_at f x y = k \<longrightarrow> same_px f sh x y)"
proof -
  have row: "src_row f k y = row_of sh (shadow_off f k y) (tile_w f k) \<longleftrightarrow>
      (\<forall>i < tile_w f k. same_px f sh (tile_x f k + i) (tile_y f k + y))" if "y < tile_h f k" for y
    unfolding src_row_def using tile_rows_fit [OF f(1,2) that] f(3)
    by (subst row_eq_iff) (auto simp: same_px_def src_px_def shadow_px_def src_off_def shadow_off_def algebra_simps)
  note d = tile_dims_k [OF f(1,2)]
  have "\<not> tile_dirty f sh k \<longleftrightarrow> (\<forall>y < tile_h f k. \<forall>i < tile_w f k. same_px f sh (tile_x f k + i) (tile_y f k + y))"
    using row by (auto simp: tile_dirty_def list_ex_iff)
  also have "\<dots> \<longleftrightarrow> (\<forall>x y. in_frame f x y \<and> tile_at f x y = k \<longrightarrow> same_px f sh x y)"
  proof (intro iffI allI impI)
    fix y i assume h: "\<forall>x y. in_frame f x y \<and> tile_at f x y = k \<longrightarrow> same_px f sh x y" "y < tile_h f k" "i < tile_w f k"
    then have p: "in_frame f (tile_x f k + i) (tile_y f k + y)" using d by (simp add: in_frame_def)
    then have "tile_at f (tile_x f k + i) (tile_y f k + y) = k"
      using h in_tile_iff [OF f(1) p, of k] by (simp add: in_tile_def)
    with p show "same_px f sh (tile_x f k + i) (tile_y f k + y)" using h(1) by blast
  next
    fix x y assume h: "\<forall>y < tile_h f k. \<forall>i < tile_w f k. same_px f sh (tile_x f k + i) (tile_y f k + y)"
      "in_frame f x y \<and> tile_at f x y = k"
    then have "in_tile f k x y" using in_tile_iff [OF f(1)] by blast
    then show "same_px f sh x y"
      using h(1) [rule_format, of "y - tile_y f k" "x - tile_x f k"] by (auto simp: in_tile_def)
  qed
  finally show ?thesis .
qed

lemma nth_splice:
  assumes "off + length p \<le> length d" "i < length d"
  shows "splice d off p ! i = (if off \<le> i \<and> i < off + length p then p ! (i - off) else d ! i)"
  using assms by (auto simp: splice_def nth_append)

text \<open>Copying a tile makes its pixels those of the frame and leaves the others alone.\<close>

lemma copy_rows:
  assumes f: "frame_ok f" "k < tiles_total f" "length sh = fr_w f * fr_h f * 4" "n \<le> tile_h f k"
    and p: "in_frame f x y" "c < 4"
  shows "length (fold (\<lambda>y sh. splice sh (shadow_off f k y) (src_row f k y)) [0..<n] sh) = fr_w f * fr_h f * 4 \<and>
    fold (\<lambda>y sh. splice sh (shadow_off f k y) (src_row f k y)) [0..<n] sh ! (shadow_px f x y + c) =
      (if tile_x f k \<le> x \<and> x < tile_x f k + tile_w f k \<and> tile_y f k \<le> y \<and> y < tile_y f k + n
       then fr_pixels f ! (src_px f x y + c) else sh ! (shadow_px f x y + c))"
  using f(4)
proof (induction n)
  case (Suc n)
  let ?s = "fold (\<lambda>y sh. splice sh (shadow_off f k y) (src_row f k y)) [0..<n] sh"
  have n: "n < tile_h f k" using Suc.prems by simp
  note fit = tile_rows_fit [OF f(1,2) n]
  have row: "length (src_row f k n) = tile_w f k * 4" using fit by (simp add: src_row_def row_of_def)
  have IH: "length ?s = fr_w f * fr_h f * 4"
    "?s ! (shadow_px f x y + c) = (if tile_x f k \<le> x \<and> x < tile_x f k + tile_w f k \<and> tile_y f k \<le> y \<and> y < tile_y f k + n
       then fr_pixels f ! (src_px f x y + c) else sh ! (shadow_px f x y + c))"
    using Suc by simp_all
  have hit: "shadow_off f k n \<le> shadow_px f x y + c \<and> shadow_px f x y + c < shadow_off f k n + tile_w f k * 4 \<longleftrightarrow>
      tile_x f k \<le> x \<and> x < tile_x f k + tile_w f k \<and> y = tile_y f k + n" (is "?L \<longleftrightarrow> ?R")
  proof
    assume L: ?L
    define j where "j = shadow_px f x y + c - shadow_off f k n"
    have j: "j < tile_w f k * 4" "shadow_px f x y + c = shadow_off f k n + j" using L by (auto simp: j_def)
    have "shadow_px f x y + c = shadow_px f (tile_x f k + j div 4) (tile_y f k + n) + j mod 4"
      using j(2) by (simp add: shadow_px_def shadow_off_def algebra_simps)
    moreover have "tile_x f k + j div 4 < fr_w f" using tile_dims_k(2) [OF f(1,2)] j(1) by linarith
    ultimately have "x = tile_x f k + j div 4 \<and> y = tile_y f k + n \<and> c = j mod 4"
      using p by (intro shadow_px_inj) (auto simp: in_frame_def)
    then show ?R using j(1) by auto
  next
    assume R: ?R
    then have "x * 4 + c < (tile_x f k + tile_w f k) * 4" "tile_x f k * 4 \<le> x * 4" using p(2) by auto
    with R show ?L by (simp add: shadow_px_def shadow_off_def algebra_simps)
  qed
  have val: "src_row f k n ! (shadow_px f x y + c - shadow_off f k n) = fr_pixels f ! (src_px f x y + c)" if ?R
  proof -
    have "shadow_px f x y + c - shadow_off f k n < tile_w f k * 4" using hit that by linarith
    moreover have "src_off f k n + (shadow_px f x y + c - shadow_off f k n) = src_px f x y + c"
      using that hit by (simp add: shadow_px_def shadow_off_def src_off_def src_px_def)
    ultimately show ?thesis using fit by (simp add: src_row_def row_of_def)
  qed
  have "shadow_px f x y + c < length ?s" using shadow_px_less [OF p] IH(1) by simp
  then have "splice ?s (shadow_off f k n) (src_row f k n) ! (shadow_px f x y + c) =
      (if tile_x f k \<le> x \<and> x < tile_x f k + tile_w f k \<and> y = tile_y f k + n
       then fr_pixels f ! (src_px f x y + c) else ?s ! (shadow_px f x y + c))"
    using fit row IH(1) hit val by (simp add: nth_splice)
  then show ?case using IH fit row by (auto simp: length_splice)
qed (use f in auto)

lemma copy_tile_px:
  assumes f: "frame_ok f" "k < tiles_total f" "length sh = fr_w f * fr_h f * 4" and p: "in_frame f x y" "c < 4"
  shows "copy_tile f k sh ! (shadow_px f x y + c) =
    (if tile_at f x y = k then fr_pixels f ! (src_px f x y + c) else sh ! (shadow_px f x y + c))"
  using copy_rows [OF f order_refl p] in_tile_iff [OF f(1) p(1), of k]
  by (auto simp: copy_tile_def in_tile_def)

lemma length_copy_tile:
  assumes "frame_ok f" "k < tiles_total f" "length sh = fr_w f * fr_h f * 4"
  shows "length (copy_tile f k sh) = fr_w f * fr_h f * 4"
  using copy_rows [OF assms order_refl, of 0 0 0] frame_okD [OF assms(1)] by (simp add: copy_tile_def in_frame_def)

section \<open>One tile, sent and drawn\<close>

text \<open>What a pixel of the frame looks like at a quality.\<close>

definition shown :: "frame \<Rightarrow> int \<Rightarrow> nat \<Rightarrow> nat \<Rightarrow> u32" where
  "shown f q x y = opaque (quant_pixel (fr_pixels f) (quality_mask q) (src_px f x y))"

text \<open>\<open>r\<close> is the record of tile \<open>k\<close> at quality \<open>q\<close> in a frame message.\<close>

definition tile_rec :: "frame \<Rightarrow> nat \<times> int \<Rightarrow> bytes \<Rightarrow> bool" where
  "tile_rec f kq r \<longleftrightarrow> (case kq of (k, q) \<Rightarrow> \<exists>st enc pay.
     tile_encoding (tile_pixels (drop (src_off f k 0) (fr_pixels f)) (fr_stride f) (tile_w f k) (tile_h f k) (quality_mask q))
       st (tile_w f k) (tile_h f k) enc pay \<and>
     r = rd_wr16 (of_nat (tile_x f k)) @ rd_wr16 (of_nat (tile_y f k)) @ rd_wr16 (of_nat (tile_w f k)) @
       rd_wr16 (of_nat (tile_h f k)) @ of_nat (enc_id enc) # enc_blob pay)"

definition draw_tile :: "frame \<Rightarrow> nat \<times> int \<Rightarrow> u32 list \<Rightarrow> u32 list" where
  "draw_tile f kq fb = (case kq of (k, q) \<Rightarrow> let at = tile_y f k * fr_w f + tile_x f k
     in take at fb @ blit (drop at fb) (fr_w f) (tile_w f k) (tile_h f k) (\<lambda>y x. shown f q (tile_x f k + x) (tile_y f k + y)))"

lemma tile_pixels_nonempty:
  assumes "frame_ok f" "k < tiles_total f"
  shows "tile_pixels p s (tile_w f k) (tile_h f k) m \<noteq> []"
  using tile_dims_k(1) [OF assms] tile_area length_tile_pixels [of p s "tile_w f k" "tile_h f k" m] by fastforce

lemma put_tile_rec:
  assumes al: "no_oom al" and f: "frame_ok f" "k < tiles_total f"
  shows "\<exists>enc buf' r. put_tile al f k q buf = Some (enc, buf') \<and> rb_data buf' = rb_data buf @ r \<and> tile_rec f (k, q) r"
proof -
  define b where "b = rd_buf_put_u16 al (rd_buf_put_u16 al (rd_buf_put_u16 al (rd_buf_put_u16 al buf
    (of_nat (tile_x f k))) (of_nat (tile_y f k))) (of_nat (tile_w f k))) (of_nat (tile_h f k))"
  define h where "h = rd_wr16 (of_nat (tile_x f k)) @ rd_wr16 (of_nat (tile_y f k)) @ rd_wr16 (of_nat (tile_w f k)) @
    rd_wr16 (of_nat (tile_h f k))"
  have b: "rb_data b = rb_data buf @ h" using al by (simp add: b_def h_def rd_buf_puts_data)
  define b' where "b' = rd_buf_put_u32 al (rd_buf_put_u8 al b 0) 0"
  have b': "rb_data b' = rb_data b @ 0 # rd_wr32 0" using al by (simp add: b'_def rd_buf_puts_data)
  obtain st enc b2 pay where e: "rd_encode_tile al (drop (src_off f k 0) (fr_pixels f)) (fr_stride f) (tile_w f k) (tile_h f k) q b' = Some (enc, b2)"
    "rb_data b2 = rb_data b' @ pay"
    "tile_encoding (tile_pixels (drop (src_off f k 0) (fr_pixels f)) (fr_stride f) (tile_w f k) (tile_h f k) (quality_mask q))
       st (tile_w f k) (tile_h f k) enc pay"
    using rd_encode_tile_cases [OF al refl tile_pixels_nonempty [OF f]] by blast
  define b3 where "b3 = b2\<lparr>rb_data := (rb_data b2)[rb_len b := of_nat (enc_id enc)]\<rparr>"
  have b3: "rb_data b3 = rb_data b @ of_nat (enc_id enc) # rd_wr32 0 @ pay"
    by (simp add: b3_def e(2) b' list_update_append)
  have b2: "rb_len b2 = rb_len b + 5 + length pay" by (simp add: e(2) b')
  have p: "put_tile al f k q buf = Some (enc, rd_buf_patch_u32 b3 (rb_len b + 1) (of_nat (length pay)))"
    unfolding put_tile_def Let_def b_def [symmetric] b'_def [symmetric] by (simp add: e(1) b3_def [symmetric] b3 b' b2)
  have d: "rb_data (rd_buf_patch_u32 b3 (rb_len b + 1) (of_nat (length pay))) = rb_data b @ of_nat (enc_id enc) # enc_blob pay"
    by (simp add: rd_buf_patch_u32_def b3 splice_def enc_blob_def)
  have "tile_rec f (k, q) (h @ of_nat (enc_id enc) # enc_blob pay)"
    using e(3) by (auto simp: tile_rec_def h_def)
  moreover have "rb_data (rd_buf_patch_u32 b3 (rb_len b + 1) (of_nat (length pay))) = rb_data buf @ (h @ of_nat (enc_id enc) # enc_blob pay)"
    by (rule trans [OF d]) (simp add: b)
  ultimately show ?thesis using p by blast
qed

lemma shown_px:
  assumes "frame_ok f" "k < tiles_total f" "x < tile_w f k" "y < tile_h f k"
  shows "opaque (tile_pixels (drop (src_off f k 0) (fr_pixels f)) (fr_stride f) (tile_w f k) (tile_h f k) (quality_mask q) ! (y * tile_w f k + x)) =
    shown f q (tile_x f k + x) (tile_y f k + y)"
proof -
  have "0 < tile_h f k" using assms(4) by simp
  from tile_rows_fit(1) [OF assms(1,2) this] have l: "src_off f k 0 \<le> length (fr_pixels f)" by simp
  have "src_off f k 0 + (y * fr_stride f + x * 4) = src_px f (tile_x f k + x) (tile_y f k + y)"
    by (simp add: src_off_def src_px_def algebra_simps)
  then have "src_off f k 0 + (y * fr_stride f + x * 4 + c) = src_px f (tile_x f k + x) (tile_y f k + y) + c" for c by simp
  from this [of 0] this [of 1] this [of 2] show ?thesis
    using assms l by (simp add: tile_pixels_nth shown_def quant_pixel_def nth_drop del: add.assoc)
qed

lemma tile_fits:
  assumes "frame_ok f" "k < tiles_total f" "length fb = fr_w f * fr_h f"
  shows "tile_y f k * fr_w f + tile_x f k + (tile_h f k - 1) * fr_w f + tile_w f k \<le> length fb"
proof -
  note d = tile_dims_k [OF assms(1,2)]
  have "(tile_y f k + (tile_h f k - 1) + 1) * fr_w f \<le> fr_h f * fr_w f"
    using d by (intro mult_right_mono) (auto simp: tile_dims_def)
  then show ?thesis using d assms(3) by (simp add: algebra_simps)
qed

lemma draw_tile_px:
  assumes f: "frame_ok f" "k < tiles_total f" "length fb = fr_w f * fr_h f" and p: "in_frame f x y"
  shows "draw_tile f (k, q) fb ! (y * fr_w f + x) = (if tile_at f x y = k then shown f q x y else fb ! (y * fr_w f + x))"
proof -
  define at where "at = tile_y f k * fr_w f + tile_x f k"
  note d = tile_dims_k [OF f(1,2)] and fit = tile_fits [OF f]
  let ?g = "\<lambda>y x. shown f q (tile_x f k + x) (tile_y f k + y)"
  have at: "at \<le> length fb" using fit by (simp add: at_def)
  have D: "draw_tile f (k, q) fb = take at fb @ blit (drop at fb) (fr_w f) (tile_w f k) (tile_h f k) ?g"
    by (simp add: draw_tile_def Let_def at_def)
  show ?thesis
  proof (cases "in_tile f k x y")
    case True
    then have i: "y * fr_w f + x = at + ((y - tile_y f k) * fr_w f + (x - tile_x f k))"
      using add_mult_distrib [of "tile_y f k" "y - tile_y f k" "fr_w f"] by (auto simp: in_tile_def at_def)
    have "blit (drop at fb) (fr_w f) (tile_w f k) (tile_h f k) ?g ! ((y - tile_y f k) * fr_w f + (x - tile_x f k)) = ?g (y - tile_y f k) (x - tile_x f k)"
      using True d(2) fit by (intro blit_nth) (auto simp: in_tile_def at_def)
    then show ?thesis
      using True in_tile_iff [OF f(1) p, of k] at by (auto simp: D i nth_append in_tile_def)
  next
    case False
    have n: "y * fr_w f + x \<noteq> at + (b * fr_w f + a)" if "b < tile_h f k" "a < tile_w f k" for a b
    proof
      assume "y * fr_w f + x = at + (b * fr_w f + a)"
      then have "y * fr_w f + x = (tile_y f k + b) * fr_w f + (tile_x f k + a)" by (simp add: at_def algebra_simps)
      then have "y = tile_y f k + b \<and> x = tile_x f k + a"
        using p that d(2) by (intro pixel_index_inj [of _ "fr_w f"]) (auto simp: in_frame_def)
      with that False show False by (auto simp: in_tile_def)
    qed
    have "draw_tile f (k, q) fb ! (y * fr_w f + x) = fb ! (y * fr_w f + x)"
    proof (cases "y * fr_w f + x < at")
      case True
      then show ?thesis using at by (simp add: D nth_append)
    next
      case False
      then obtain j where j: "y * fr_w f + x = at + j" by (metis le_Suc_ex not_less)
      then have "blit (drop at fb) (fr_w f) (tile_w f k) (tile_h f k) ?g ! j = drop at fb ! j"
        using n by (intro blit_other) auto
      then show ?thesis using at by (simp add: D j nth_append)
    qed
    then show ?thesis using False in_tile_iff [OF f(1) p, of k] by auto
  qed
qed

lemma length_draw_tile:
  assumes "frame_ok f" "k < tiles_total f" "length fb = fr_w f * fr_h f"
  shows "length (draw_tile f (k, q) fb) = length fb"
  using tile_fits [OF assms] by (simp add: draw_tile_def Let_def length_blit)

text \<open>The viewer reads a record back and draws it.\<close>

lemma tiles_loop_rec:
  assumes f: "frame_ok f" "k < tiles_total f" and r: "tile_rec f (k, q) r"
  shows "tiles_loop (Suc n) (fr_width f) (fr_height f) (rdr pre (r @ rest)) fb =
    tiles_loop n (fr_width f) (fr_height f) (rdr (pre @ r) rest) (draw_tile f (k, q) fb)"
proof -
  note d = tile_dims_k [OF f] and F = frame_okD [OF f(1)]
  let ?px = "tile_pixels (drop (src_off f k 0) (fr_pixels f)) (fr_stride f) (tile_w f k) (tile_h f k) (quality_mask q)"
  let ?at = "tile_y f k * fr_w f + tile_x f k"
  obtain st enc pay where e: "tile_encoding ?px st (tile_w f k) (tile_h f k) enc pay"
    "r = rd_wr16 (of_nat (tile_x f k)) @ rd_wr16 (of_nat (tile_y f k)) @ rd_wr16 (of_nat (tile_w f k)) @
       rd_wr16 (of_nat (tile_h f k)) @ of_nat (enc_id enc) # enc_blob pay"
    using r by (auto simp: tile_rec_def)
  have px: "length ?px = tile_h f k * tile_w f k" by (simp add: length_tile_pixels)
  have u: "unat (of_nat n :: u16) = n" if "n \<le> 65535" for n using that by (simp add: unat_of_nat_small)
  have b: "tile_x f k \<le> 65535" "tile_y f k \<le> 65535" "tile_w f k \<le> 64" "tile_h f k \<le> 64"
    using d F by (auto simp: tile_dims_def)
  have "length pay \<le> 3 \<or> length pay \<le> tile_h f k * tile_w f k * 3"
    using tile_encoding_length [OF e(1) px] by (auto simp: mult.commute split: if_splits)
  then have "length pay < 2 ^ 32" using tile_area [OF d(1)] by (elim disjE) simp_all
  note rd = rdr_get_blob [OF this]
  have enc: "unat (of_nat (enc_id enc) :: u8) = enc_id enc" by (cases enc) simp_all
  have dec: "rd_decode_tile (enc_id enc) pay (int (tile_w f k)) (int (tile_h f k)) dst (fr_w f) =
      (0, blit dst (fr_w f) (tile_w f k) (tile_h f k) (\<lambda>y x. shown f q (tile_x f k + x) (tile_y f k + y)))" for dst
  proof -
    have "rd_decode_tile (enc_id enc) pay (int (tile_w f k)) (int (tile_h f k)) dst (fr_w f) =
      (0, blit dst (fr_w f) (tile_w f k) (tile_h f k) (\<lambda>y x. opaque (?px ! (y * tile_w f k + x))))"
      by (rule tile_encoding_decodes [OF d(1) e(1) px]) (simp add: tile_pixels_rgb24)
    also have "\<dots> = (0, blit dst (fr_w f) (tile_w f k) (tile_h f k) (\<lambda>y x. shown f q (tile_x f k + x) (tile_y f k + y)))"
      by (simp only: prod.inject simp_thms) (intro blit_cong shown_px f)
    finally show ?thesis .
  qed
  have "uint (of_nat n :: u16) = int n" if "n \<le> 65535" for n using u [OF that] by (simp add: uint_nat)
  note ui = this
  have w: "nat (fr_width f) = fr_w f" by (simp add: fr_w_def)
  have in_w: "\<not> fr_width f < int (tile_x f k) + int (tile_w f k)" "\<not> fr_height f < int (tile_y f k) + int (tile_h f k)"
    using d F by linarith+
  have "tile_w f k \<le> 65535" "tile_h f k \<le> 65535" using b by simp_all
  note u' = u [OF b(1)] u [OF b(2)] ui [OF b(1)] ui [OF b(2)] ui [OF this(1)] ui [OF this(2)]
  show ?thesis
    unfolding e(2) by (simp add: rdr_get rd u' enc dec w in_w draw_tile_def Let_def)
qed

lemma fold_draw_tile:
  assumes "frame_ok f" "length fb = fr_w f * fr_h f" "distinct (map fst E)" "\<forall>k \<in> fst ` set E. k < tiles_total f"
  shows "length (fold (draw_tile f) E fb) = length fb \<and> (\<forall>x y. in_frame f x y \<longrightarrow> fold (draw_tile f) E fb ! (y * fr_w f + x) =
    (case map_of E (tile_at f x y) of Some q \<Rightarrow> shown f q x y | None \<Rightarrow> fb ! (y * fr_w f + x)))"
  using assms(2-)
proof (induction E arbitrary: fb)
  case (Cons e E)
  obtain k q where e: "e = (k, q)" by fastforce
  have k: "k < tiles_total f" "map_of E k = None" using Cons.prems by (auto simp: e map_of_eq_None_iff)
  note d = draw_tile_px [OF assms(1) k(1) Cons.prems(1)] length_draw_tile [OF assms(1) k(1) Cons.prems(1), of q]
  show ?case using Cons.IH [of "draw_tile f (k, q) fb"] Cons.prems d k(2) by (auto simp: e split: option.split)
qed simp

lemma tiles_loop_recs:
  assumes f: "frame_ok f" and "list_all2 (tile_rec f) E rs" "\<forall>k \<in> fst ` set E. k < tiles_total f"
  shows "tiles_loop (length E) (fr_width f) (fr_height f) (rdr pre (concat rs)) fb = (False, fold (draw_tile f) E fb)"
  using assms(2,3)
proof (induction E rs arbitrary: pre fb rule: list_all2_induct)
  case (Cons e E r rs)
  obtain k q where e: "e = (k, q)" by fastforce
  with Cons tiles_loop_rec [OF f, of k q r "length E" pre "concat rs" fb] show ?case by simp
qed simp

section \<open>A run of the encoder\<close>

text \<open>The tiles sent so far, in order: the worker, the tile and its quality.\<close>

definition worker_tiles :: "(nat \<times> nat \<times> int) list \<Rightarrow> nat \<Rightarrow> (nat \<times> int) list" where
  "worker_tiles D wi = map snd (filter (\<lambda>d. fst d = wi) D)"

definition sent_keys :: "(nat \<times> nat \<times> int) list \<Rightarrow> nat set" where
  "sent_keys D = fst ` snd ` set D"

lemma sent_keys_snoc [simp]: "sent_keys [] = {}" "sent_keys (D @ [(wi, k, q)]) = insert k (sent_keys D)"
  by (auto simp: sent_keys_def)

lemma map_of_sent: "k \<notin> sent_keys D \<Longrightarrow> map_of (map snd D) k = None"
  by (auto simp: sent_keys_def map_of_eq_None_iff)

lemma distinct_sent: "distinct (map (fst \<circ> snd) (D @ [(wi, k, q)])) \<longleftrightarrow> distinct (map (fst \<circ> snd) D) \<and> k \<notin> sent_keys D"
  by (auto simp: sent_keys_def image_image)

definition buf_holds :: "frame \<Rightarrow> (nat \<times> int) list \<Rightarrow> rd_buf \<Rightarrow> bool" where
  "buf_holds f E b \<longleftrightarrow> (\<exists>rs. list_all2 (tile_rec f) E rs \<and> rb_data b = concat rs)"

text \<open>
  The state after the tiles \<open>seen\<close> have been looked at, \<open>D\<close> of them sent: every buffer holds its worker's tiles, the
  table says at which quality each tile was last sent, the shadow is the frame on the tiles seen, and a tile
  was passed over only when it had not changed.
\<close>

definition run_ok :: "frame \<Rightarrow> bool \<Rightarrow> int \<Rightarrow> nat \<Rightarrow> bytes \<Rightarrow> bytes \<Rightarrow> nat set \<Rightarrow> (nat \<times> nat \<times> int) list \<Rightarrow> enc_run \<Rightarrow> bool" where
  "run_ok f full quality n sh0 tq0 seen D s \<longleftrightarrow>
     length (er_shadow s) = fr_w f * fr_h f * 4 \<and>
     (\<exists>tq. er_tile_q s = Some tq \<and> length tq = tiles_total f \<and>
        (\<forall>k. tq ! k = (case map_of (map snd D) k of Some q \<Rightarrow> of_int q | None \<Rightarrow> tq0 ! k))) \<and>
     distinct (map (fst \<circ> snd) D) \<and> sent_keys D \<subseteq> seen \<and> seen \<subseteq> {..<tiles_total f} \<and>
     (\<forall>d \<in> set D. fst d < n \<and> snd (snd d) \<in> {0, quality}) \<and>
     length (er_bufs s) = n \<and> (\<forall>wi < n. buf_holds f (worker_tiles D wi) (er_bufs s ! wi)) \<and>
     length (er_stats s) = n \<and> (\<forall>wi < n. es_tiles (er_stats s ! wi) = length (worker_tiles D wi)) \<and>
     (\<forall>x y c. in_frame f x y \<and> c < 4 \<longrightarrow> er_shadow s ! (shadow_px f x y + c) =
        (if tile_at f x y \<in> seen then fr_pixels f ! (src_px f x y + c) else sh0 ! (shadow_px f x y + c))) \<and>
     (\<forall>x y. in_frame f x y \<and> tile_at f x y \<in> seen - sent_keys D \<longrightarrow> \<not> full \<and> same_px f sh0 x y)"

lemma worker_tiles_snoc: "worker_tiles (D @ [(wi, kq)]) w = worker_tiles D w @ (if w = wi then [kq] else [])"
  by (auto simp: worker_tiles_def)

lemma buf_holds_snoc:
  "buf_holds f E b \<Longrightarrow> tile_rec f kq r \<Longrightarrow> rb_data b' = rb_data b @ r \<Longrightarrow> buf_holds f (E @ [kq]) b'"
  unfolding buf_holds_def
  by (metis concat.simps(1,2) concat_append append_Nil2 list_all2_Cons list_all2_Nil list_all2_appendI)

text \<open>Sending a tile: the step's effect on the run.\<close>

lemma run_ok_sent:
  assumes R: "run_ok f full quality n sh0 tq0 seen D s" and f: "frame_ok f" and k: "k < tiles_total f" "k \<notin> seen" "wi < n"
    and q: "q \<in> {0, quality}" and b: "tile_rec f (k, q) r" "rb_data buf = rb_data (er_bufs s ! wi) @ r"
    and sh: "sh = copy_tile f k (er_shadow s) \<or> sh = er_shadow s \<and> \<not> tile_dirty f (er_shadow s) k"
    and st: "es_tiles st = es_tiles (er_stats s ! wi) + 1"
  shows "run_ok f full quality n sh0 tq0 (insert k seen) (D @ [(wi, k, q)])
    (s\<lparr>er_shadow := sh, er_refines := m, er_tile_q := map_option (\<lambda>tq. tq[k := of_int q]) (er_tile_q s),
       er_bufs := (er_bufs s)[wi := buf], er_stats := (er_stats s)[wi := st]\<rparr>)"
proof -
  obtain tq where tq: "er_tile_q s = Some tq" "length tq = tiles_total f"
    "\<And>k. tq ! k = (case map_of (map snd D) k of Some q \<Rightarrow> of_int q | None \<Rightarrow> tq0 ! k)"
    using R by (auto simp: run_ok_def)
  have len: "length (er_shadow s) = fr_w f * fr_h f * 4" using R by (simp add: run_ok_def)
  have fresh: "k \<notin> sent_keys D" using R k by (auto simp: run_ok_def)
  have new: "map_of (map snd (D @ [(wi, k, q)])) j = (if j = k then Some q else map_of (map snd D) j)" for j
  proof -
    have "map_of (map snd D) k = None" using fresh by (rule map_of_sent)
    then show ?thesis by (auto simp: map_add_def split: option.split)
  qed
  have px: "sh ! (shadow_px f x y + c) = (if tile_at f x y = k then fr_pixels f ! (src_px f x y + c) else er_shadow s ! (shadow_px f x y + c))"
    if "in_frame f x y" "c < 4" for x y c
    using sh copy_tile_px [OF f k(1) len that] tile_dirty_iff [OF f k(1) len] that by (auto simp: same_px_def)
  have bh: "buf_holds f (worker_tiles D wi) (er_bufs s ! wi) \<Longrightarrow> buf_holds f (worker_tiles D wi @ [(k, q)]) buf"
    by (rule buf_holds_snoc [OF _ b])
  have "length sh = fr_w f * fr_h f * 4" using sh length_copy_tile [OF f k(1) len] len by auto
  then show ?thesis
    using R k q tq fresh st bh unfolding run_ok_def
    apply (intro conjI)
    subgoal by simp
    subgoal by (auto simp: new simp del: map_append)
    subgoal unfolding distinct_sent by simp
    subgoal by auto
    subgoal by auto
    subgoal by auto
    subgoal by simp
    subgoal by (auto simp: nth_list_update worker_tiles_snoc)
    subgoal by simp
    subgoal by (auto simp: nth_list_update worker_tiles_snoc)
    subgoal by (auto simp: px)
    subgoal by auto
    done
qed

lemma run_ok_skipped:
  assumes R: "run_ok f full quality n sh0 tq0 seen D s" and f: "frame_ok f" and k: "k < tiles_total f" "k \<notin> seen"
    and clean: "\<not> full" "\<not> tile_dirty f (er_shadow s) k"
  shows "run_ok f full quality n sh0 tq0 (insert k seen) D (s\<lparr>er_refines := m\<rparr>)"
proof -
  have len: "length (er_shadow s) = fr_w f * fr_h f * 4" using R by (simp add: run_ok_def)
  have same: "in_frame f x y \<Longrightarrow> tile_at f x y = k \<Longrightarrow> same_px f (er_shadow s) x y" for x y
    using tile_dirty_iff [OF f k(1) len] clean by blast
  moreover have "in_frame f x y \<Longrightarrow> tile_at f x y = k \<Longrightarrow> same_px f sh0 x y" for x y
    using same [of x y] R k by (auto simp: run_ok_def same_px_def)
  ultimately show ?thesis using R k clean unfolding run_ok_def by (auto simp: same_px_def)
qed

lemma run_ok_step:
  assumes R: "run_ok f full quality n sh0 tq0 seen D s" and f: "frame_ok f" and k: "k < tiles_total f" "k \<notin> seen" "wi < n"
    and al: "no_oom al"
  shows "\<exists>s' D'. tile_step al f full quality budget (wi, k) s = Some s' \<and> run_ok f full quality n sh0 tq0 (insert k seen) D' s'"
proof -
  define dirty where "dirty = (full \<or> tile_dirty f (er_shadow s) k)"
  define lossy where "lossy = (case er_tile_q s of None \<Rightarrow> False | Some tq \<Rightarrow> tq ! k \<noteq> 0)"
  define refine where "refine = (\<not> dirty \<and> lossy \<and> er_refines s < budget)"
  define q where "q = (if refine then 0 else quality)"
  define m where "m = (if dirty then er_refines s else if lossy then er_refines s + 1 else er_refines s)"
  show ?thesis
  proof (cases "\<not> dirty \<and> \<not> refine")
    case True
    then have "tile_step al f full quality budget (wi, k) s = Some (s\<lparr>er_refines := m\<rparr>)"
      unfolding tile_step_def Let_def prod.case dirty_def [symmetric] lossy_def [symmetric] refine_def [symmetric]
      by (simp add: m_def)
    moreover have "run_ok f full quality n sh0 tq0 (insert k seen) D (s\<lparr>er_refines := m\<rparr>)"
      using True by (intro run_ok_skipped [OF R f k(1,2)]) (auto simp: dirty_def)
    ultimately show ?thesis by blast
  next
    case False
    obtain enc buf r where p: "put_tile al f k q (er_bufs s ! wi) = Some (enc, buf)" "rb_data buf = rb_data (er_bufs s ! wi) @ r"
      "tile_rec f (k, q) r"
      using put_tile_rec [OF al f k(1)] by blast
    define st where "st = (er_stats s ! wi)\<lparr>es_tiles := es_tiles (er_stats s ! wi) + 1,
      es_refined := es_refined (er_stats s ! wi) + (if refine then 1 else 0),
      es_by_encoding := (es_by_encoding (er_stats s ! wi))[enc_id enc := es_by_encoding (er_stats s ! wi) ! enc_id enc + 1]\<rparr>"
    define sh where "sh = (if dirty then copy_tile f k (er_shadow s) else er_shadow s)"
    have "dirty \<and> \<not> refine \<or> \<not> dirty \<and> refine \<and> lossy" using False by (auto simp: refine_def)
    then have "tile_step al f full quality budget (wi, k) s =
        Some (s\<lparr>er_shadow := sh, er_refines := m, er_tile_q := map_option (\<lambda>tq. tq[k := of_int q]) (er_tile_q s),
         er_bufs := (er_bufs s)[wi := buf], er_stats := (er_stats s)[wi := st]\<rparr>)"
      using p(1)
      unfolding tile_step_def Let_def prod.case dirty_def [symmetric] lossy_def [symmetric] refine_def [symmetric] q_def [symmetric]
      by (elim disjE conjE) (simp_all add: m_def sh_def st_def)
    moreover have "run_ok f full quality n sh0 tq0 (insert k seen) (D @ [(wi, k, q)])
        (s\<lparr>er_shadow := sh, er_refines := m, er_tile_q := map_option (\<lambda>tq. tq[k := of_int q]) (er_tile_q s),
         er_bufs := (er_bufs s)[wi := buf], er_stats := (er_stats s)[wi := st]\<rparr>)"
      using False by (intro run_ok_sent [OF R f k _ p(3,2)]) (auto simp: q_def sh_def st_def dirty_def)
    ultimately show ?thesis by blast
  qed
qed

lemma run_ok_steps:
  assumes "run_ok f full quality n sh0 tq0 seen D s" "frame_ok f" "no_oom al"
    "distinct (map snd sched)" "set (map snd sched) \<inter> seen = {}" "\<forall>wk \<in> set sched. fst wk < n \<and> snd wk < tiles_total f"
  shows "\<exists>s' D'. tile_steps al f full quality budget sched s = Some s' \<and>
    run_ok f full quality n sh0 tq0 (seen \<union> set (map snd sched)) D' s'"
  using assms
proof (induction sched arbitrary: seen D s)
  case (Cons wk sched)
  obtain wi k where wk: "wk = (wi, k)" by fastforce
  obtain s1 D1 where s1: "tile_step al f full quality budget (wi, k) s = Some s1"
    "run_ok f full quality n sh0 tq0 (insert k seen) D1 s1"
    using run_ok_step [of f full quality n sh0 tq0 seen D s k wi al budget] Cons.prems by (auto simp: wk)
  then have "\<exists>s' D'. tile_steps al f full quality budget sched s1 = Some s' \<and>
      run_ok f full quality n sh0 tq0 (insert k seen \<union> set (map snd sched)) D' s'"
    using Cons.prems by (intro Cons.IH [OF s1(2)]) (auto simp: wk)
  with s1(1) show ?case by (auto simp: wk)
qed auto

section \<open>A whole frame\<close>

lemma mset_worker_tiles:
  assumes "\<forall>d \<in> set D. fst d < n"
  shows "mset (concat (map (worker_tiles D) [0..<n])) = mset (map snd D)"
  using assms
proof (induction D)
  case (Cons d D)
  have "mset (worker_tiles (d # D) i) = (if i = fst d then {#snd d#} else {#}) + mset (worker_tiles D i)" for i
    by (simp add: worker_tiles_def)
  then have "mset (concat (map (worker_tiles (d # D)) [0..<n])) =
      (\<Sum>i = 0..<n. if i = fst d then {#snd d#} else {#}) + mset (concat (map (worker_tiles D) [0..<n]))"
    by (simp add: mset_concat sum_list_sum_nth sum.distrib)
  then show ?case using Cons by simp
qed (simp add: worker_tiles_def mset_concat sum_list_sum_nth)

lemma worker_tiles_all:
  assumes "\<forall>d \<in> set D. fst d < n" "distinct (map (fst \<circ> snd) D)"
  shows "distinct (map fst (concat (map (worker_tiles D) [0..<n])))"
    "map_of (concat (map (worker_tiles D) [0..<n])) = map_of (map snd D)"
    "fst ` set (concat (map (worker_tiles D) [0..<n])) = sent_keys D"
proof -
  let ?E = "concat (map (worker_tiles D) [0..<n])"
  note m = mset_worker_tiles [OF assms(1)]
  have s: "set ?E = set (map snd D)" using mset_eq_setD [OF m] .
  have "mset (map fst ?E) = mset (map (fst \<circ> snd) D)" by (simp only: mset_map m multiset.map_comp)
  from mset_eq_imp_distinct_iff [OF this] assms(2) show d: "distinct (map fst ?E)" by blast
  show "map_of ?E = map_of (map snd D)"
    using d assms(2) s by (intro map_of_inject_set [THEN iffD2]) simp_all
  show "fst ` set ?E = sent_keys D" unfolding s by (auto simp: sent_keys_def)
qed

lemma bufs_hold:
  assumes "list_all2 (buf_holds f) Es bs"
  shows "\<exists>rs. list_all2 (tile_rec f) (concat Es) rs \<and> concat (map rb_data bs) = concat rs"
  using assms
proof (induction Es bs rule: list_all2_induct)
  case (Cons E Es b bs)
  then obtain r rs where "list_all2 (tile_rec f) E r" "rb_data b = concat r"
    "list_all2 (tile_rec f) (concat Es) rs" "concat (map rb_data bs) = concat rs" by (auto simp: buf_holds_def)
  then show ?case by (intro exI [of _ "r @ rs"]) (simp add: list_all2_appendI)
qed simp

lemma fold_put_data:
  "no_oom al \<Longrightarrow> rb_data (fold (\<lambda>b o'. rd_buf_put al o' (rb_data b)) bs out) = rb_data out @ concat (map rb_data bs)"
  by (induction bs arbitrary: out) (simp_all add: rd_buf_put_data)

lemma foldl_add_stats: "es_tiles (foldl add_stats t sts) = es_tiles t + sum_list (map es_tiles sts)"
  by (induction sts arbitrary: t) (simp_all add: add_stats_def)

text \<open>What a run of the encoder leaves, whatever the workers' schedule: \<open>E\<close> are the tiles in the order of the message.\<close>

lemma encode_run:
  assumes al: "no_oom al" and f: "frame_ok f" and sched: "schedule (length bufs) (tiles_total f) sched"
    and sh: "length shadow = fr_w f * fr_h f * 4" and tq: "full \<or> length tq = tiles_total f"
  shows "\<exists>e s D rs. encode al sched bufs f shadow full quality out (Some tq) budget = Some e \<and>
    run_ok f full quality (length bufs) shadow (if length tq = tiles_total f then tq else replicate (tiles_total f) 0) {..<tiles_total f} D s \<and>
    en_shadow e = er_shadow s \<and> en_tile_q e = er_tile_q s \<and>
    (let E = concat (map (worker_tiles D) [0..<length bufs])
     in list_all2 (tile_rec f) E rs \<and> rb_data (en_out e) = rb_data out @ concat rs \<and> es_tiles (en_stats e) = length E)"
proof -
  let ?n = "length bufs"
  define tq0 where "tq0 = (if length tq = tiles_total f then tq else replicate (tiles_total f) 0)"
  define s0 where "s0 = \<lparr>er_shadow = shadow, er_tile_q = Some tq0, er_refines = 0, er_bufs = map rd_buf_clear bufs,
     er_stats = replicate ?n no_stats\<rparr>"
  have "run_ok f full quality ?n shadow tq0 {} [] s0"
    using sh by (auto simp: run_ok_def s0_def tq0_def worker_tiles_def buf_holds_def rd_buf_init_data no_stats_def sent_keys_def)
  moreover have S: "distinct (map snd sched)" "set (map snd sched) = {..<tiles_total f}" "\<forall>(wi, k) \<in> set sched. wi < ?n"
    using sched unfolding schedule_def by blast+
  moreover have "\<forall>wk \<in> set sched. fst wk < ?n \<and> snd wk < tiles_total f"
  proof
    fix wk assume "wk \<in> set sched"
    then have "snd wk \<in> set (map snd sched)" "fst wk < ?n" using S(3) by auto
    then show "fst wk < ?n \<and> snd wk < tiles_total f" unfolding S(2) by simp
  qed
  ultimately have "\<exists>s D. tile_steps al f full quality budget sched s0 = Some s \<and>
      run_ok f full quality ?n shadow tq0 ({} \<union> set (map snd sched)) D s"
    by (intro run_ok_steps [OF _ f al]) auto
  then obtain s D where s: "tile_steps al f full quality budget sched s0 = Some s"
    "run_ok f full quality ?n shadow tq0 {..<tiles_total f} D s"
    unfolding S(2) by auto
  define e where "e = \<lparr>en_stats = foldl add_stats no_stats (map2 (\<lambda>st b. st\<lparr>es_bytes := rb_len b\<rparr>) (er_stats s) (er_bufs s)),
     en_shadow = er_shadow s, en_tile_q = er_tile_q s, en_out = fold (\<lambda>b o'. rd_buf_put al o' (rb_data b)) (er_bufs s) out\<rparr>"
  have e: "encode al sched bufs f shadow full quality out (Some tq) budget = Some e"
  proof -
    have "map_option (\<lambda>tq. if length tq \<noteq> tiles_total f then replicate (tiles_total f) 0 else tq) (Some tq) = Some tq0"
      by (simp add: tq0_def)
    then show ?thesis unfolding encode_def Let_def s0_def [symmetric] e_def by (simp only: s0_def [symmetric] s(1) option.case)
  qed
  let ?Es = "map (worker_tiles D) [0..<?n]"
  have l: "length (er_bufs s) = ?n" "length (er_stats s) = ?n" using s(2) by (auto simp: run_ok_def)
  have "list_all2 (buf_holds f) ?Es (er_bufs s)"
    using s(2) by (auto simp: run_ok_def list_all2_conv_all_nth)
  then obtain rs where rs: "list_all2 (tile_rec f) (concat ?Es) rs" "concat (map rb_data (er_bufs s)) = concat rs"
    using bufs_hold by blast
  have "map es_tiles (map2 (\<lambda>st b. st\<lparr>es_bytes := rb_len b\<rparr>) (er_stats s) (er_bufs s)) = map length ?Es"
    using s(2) l by (intro nth_equalityI) (auto simp: run_ok_def)
  then have "es_tiles (en_stats e) = length (concat ?Es)"
    by (simp add: e_def foldl_add_stats no_stats_def length_concat)
  moreover have "rb_data (en_out e) = rb_data out @ concat rs" using al rs(2) by (simp add: e_def fold_put_data)
  ultimately show ?thesis
    using e s(2) rs(1) unfolding tq0_def Let_def
    by (intro exI [of _ e] exI [of _ s] exI [of _ D] exI [of _ rs]) (auto simp: e_def)
qed

section \<open>The viewer's picture\<close>

text \<open>
  The viewer's frame buffer shows the host's shadow, each tile at the quality it was last sent with.
\<close>

definition in_sync :: "frame \<Rightarrow> bytes \<Rightarrow> bytes \<Rightarrow> u32 list \<Rightarrow> bool" where
  "in_sync f sh tq fb \<longleftrightarrow> length sh = fr_w f * fr_h f * 4 \<and> length tq = tiles_total f \<and> length fb = fr_w f * fr_h f \<and>
     (\<forall>x y. in_frame f x y \<longrightarrow> fb ! (y * fr_w f + x) =
        opaque (quant_pixel sh (quality_mask (uint (tq ! tile_at f x y))) (shadow_px f x y)))"

text \<open>The frame buffer fits the frame.\<close>

definition viewer_fits :: "frame \<Rightarrow> viewer \<Rightarrow> bool" where
  "viewer_fits f v \<longleftrightarrow> vw_rw v = fr_width f \<and> vw_rh v = fr_height f \<and> vw_tex v \<and> length (vw_fb v) = fr_w f * fr_h f"

lemma vsend_fb [simp]: "vw_fb (vsend al m v) = vw_fb v" "vw_fb (send_simple al t v) = vw_fb v"
  by (auto simp: vsend_def send_simple_def on_tr_def split: prod.split)

lemma quant_same_px:
  "same_px f sh x y \<Longrightarrow> quant_pixel sh m (shadow_px f x y) = quant_pixel (fr_pixels f) m (src_px f x y)"
proof -
  assume s: "same_px f sh x y"
  have "sh ! (shadow_px f x y + c) = fr_pixels f ! (src_px f x y + c)" if "c < 4" for c
    using s that by (simp add: same_px_def)
  from this [of 0] this [of 1] this [of 2] show ?thesis by (simp add: quant_pixel_def)
qed

lemma viewer_draws_frame:
  assumes f: "frame_ok f" and v: "viewer_fits f v" and E: "list_all2 (tile_rec f) E rs" "\<forall>k \<in> fst ` set E. k < tiles_total f"
    and n: "length E \<le> 65535" and d: "d = 67 # rd_wr32 fid @ flags # rd_wr16 (of_nat (length E)) @ concat rs"
  shows "vw_fb (vhandle_plain al d v) = fold (draw_tile f) E (vw_fb v)"
proof -
  have "unat (of_nat (length E) :: u16) = length E" using n by simp
  then show ?thesis
    using v tiles_loop_recs [OF f E, of "67 # rd_wr32 fid @ flags # rd_wr16 (of_nat (length E))" "vw_fb v"]
    by (simp add: d vhandle_plain_def on_frame_def reader_simps viewer_fits_def Let_def split: prod.split)
qed

lemma tiles_sent_few:
  assumes "run_ok f full quality n sh0 tq0 seen D s"
  shows "length (concat (map (worker_tiles D) [0..<n])) \<le> tiles_total f"
proof -
  have D: "\<forall>d \<in> set D. fst d < n" "distinct (map (fst \<circ> snd) D)" using assms by (auto simp: run_ok_def)
  have "length (concat (map (worker_tiles D) [0..<n])) = size (mset (map snd D))"
    using mset_worker_tiles [OF D(1)] by (metis size_mset)
  also have "\<dots> = card (set (map (fst \<circ> snd) D))"
    unfolding distinct_card [OF D(2)] by simp
  also have "\<dots> \<le> card {..<tiles_total f}"
    using assms by (intro card_mono) (auto simp: run_ok_def sent_keys_def)
  finally show ?thesis by simp
qed

lemma run_same_px:
  "run_ok f full quality n sh0 tq0 {..<tiles_total f} D s \<Longrightarrow> in_frame f x y \<Longrightarrow> same_px f (er_shadow s) x y"
  using tile_at_less [of f x y] by (auto simp: run_ok_def same_px_def)

text \<open>After the message, the viewer's picture is the host's frame, each tile at the quality recorded for it.\<close>

lemma run_in_sync:
  assumes f: "frame_ok f" and R: "run_ok f full quality n sh0 tq0 {..<tiles_total f} D s" and q: "0 \<le> quality" "quality \<le> 255"
    and start: "full \<or> in_sync f sh0 tq0 fb" and fb: "length fb = fr_w f * fr_h f" and tq: "er_tile_q s = Some tq"
  shows "in_sync f (er_shadow s) tq (fold (draw_tile f) (concat (map (worker_tiles D) [0..<n])) fb)"
proof -
  let ?E = "concat (map (worker_tiles D) [0..<n])"
  have D: "\<forall>d \<in> set D. fst d < n" "distinct (map (fst \<circ> snd) D)" "sent_keys D \<subseteq> {..<tiles_total f}"
    using R by (auto simp: run_ok_def)
  note E = worker_tiles_all [OF D(1,2)]
  have T: "length tq = tiles_total f" "\<And>k. tq ! k = (case map_of ?E k of Some q \<Rightarrow> of_int q | None \<Rightarrow> tq0 ! k)"
    using R tq by (auto simp: run_ok_def E(2))
  have draw: "length (fold (draw_tile f) ?E fb) = length fb"
    "\<And>x y. in_frame f x y \<Longrightarrow> fold (draw_tile f) ?E fb ! (y * fr_w f + x) =
      (case map_of ?E (tile_at f x y) of Some q \<Rightarrow> shown f q x y | None \<Rightarrow> fb ! (y * fr_w f + x))"
    using fold_draw_tile [OF f fb E(1)] D(3) E(3) by auto
  have "fold (draw_tile f) ?E fb ! (y * fr_w f + x) =
      opaque (quant_pixel (er_shadow s) (quality_mask (uint (tq ! tile_at f x y))) (shadow_px f x y))" if p: "in_frame f x y" for x y
  proof (cases "map_of ?E (tile_at f x y)")
    case None
    then have "tile_at f x y \<notin> sent_keys D" unfolding E(3) [symmetric] by (simp add: map_of_eq_None_iff)
    then have "\<not> full" "same_px f sh0 x y" using R p tile_at_less [OF p] by (auto simp: run_ok_def)
    then show ?thesis
      using start p draw(2) [OF p] None T(2) run_same_px [OF R p] by (simp add: in_sync_def quant_same_px)
  next
    case (Some q)
    then have "(tile_at f x y, q) \<in> snd ` set D" using E(2) by (metis list.set_map map_of_SomeD)
    then have "q \<in> {0, quality}" using R by (auto simp: run_ok_def)
    then have "uint (of_int q :: u8) = q" using q by (auto simp: take_bit_int_eq_self uint_word_of_int)
    then show ?thesis
      using draw(2) [OF p] Some T(2) run_same_px [OF R p] by (simp add: shown_def quant_same_px)
  qed
  then show ?thesis using R draw(1) fb T(1) by (simp add: in_sync_def run_ok_def)
qed

lemma patched_header:
  assumes "no_oom al" "length h = 6"
    "rb_data out = h @ rd_wr16 0 @ r"
  shows "rb_data (rd_buf_patch_u16 out 6 n) = h @ rd_wr16 n @ r"
  using assms by (simp add: rd_buf_patch_u16_def splice_def)

text \<open>C1: whatever frame the host captures, at every quality, whichever tiles are due for refinement and along every
schedule of the encoder's threads: encoding returns, and when the viewer handles the message the host sends (or the host
has nothing to send), the viewer's screen shows that frame, every tile at the quality the host has recorded for it, exactly
where that quality is 0. Only a full frame or a viewer in step with the host's shadow is assumed.\<close>

theorem viewer_shows_host_frame:
  assumes al: "no_oom al" and f: "frame_ok f" and sched: "schedule (length bufs) (tiles_total f) sched"
    and q: "0 \<le> c_quality (sv_conn s i)" "c_quality (sv_conn s i) \<le> 3"
    and sh: "length (c_shadow (sv_conn s i)) = fr_w f * fr_h f * 4" and v: "viewer_fits f v"
    and start: "c_need_full (sv_conn s i) \<or> in_sync f (c_shadow (sv_conn s i)) (c_tile_q (sv_conn s i)) (vw_fb v)"
  shows "\<exists>t msg. let c = sv_conn t i;
      v' = (if msg = None then v else vhandle_plain al (rb_data (the msg)) v) in
    send_frame al sched bufs i f now s = (case msg of None \<Rightarrow> t | Some m \<Rightarrow> send_msg al i m t) \<and>
    in_sync f (c_shadow c) (c_tile_q c) (vw_fb v') \<and>
    (\<forall>x y. in_frame f x y \<longrightarrow> vw_fb v' ! (y * fr_w f + x) = shown f (uint (c_tile_q c ! tile_at f x y)) x y)"
proof -
  define c where "c = sv_conn s i"
  define hdr where "hdr = rd_buf_put_u8 al (rd_buf_put_u32 al (start_msg al RD_S_FRAME) (c_frame_id c + 1)) (if c_need_full c then 1 else 0)"
  define out where "out = rd_buf_put_u16 al hdr 0"
  define h where "h = 67 # rd_wr32 (c_frame_id c + 1) @ [if c_need_full c then 1 else 0 :: u8]"
  define budget :: int where "budget = (if \<not> wants_refine c then 0 else if settled now c then 400 else 12)"
  have out: "rb_data out = h @ rd_wr16 0" "length h = 6" "rb_len hdr = 6"
    using al by (simp_all add: out_def hdr_def h_def start_msg_def rd_buf_puts_data rd_buf_init_data)
  have tq: "c_need_full c \<or> length (c_tile_q c) = tiles_total f" using start by (auto simp: in_sync_def c_def)
  let ?tq0 = "if length (c_tile_q c) = tiles_total f then c_tile_q c else replicate (tiles_total f) 0"
  obtain e r D rs T where e: "encode al sched bufs f (c_shadow c) (c_need_full c) (c_quality c) out (Some (c_tile_q c)) budget = Some e"
    and R: "run_ok f (c_need_full c) (c_quality c) (length bufs) (c_shadow c) ?tq0 {..<tiles_total f} D r"
    and en: "en_shadow e = er_shadow r" "en_tile_q e = er_tile_q r"
    and T: "T = concat (map (worker_tiles D) [0..<length bufs])"
    and E: "list_all2 (tile_rec f) T rs" "rb_data (en_out e) = rb_data out @ concat rs" "es_tiles (en_stats e) = length T"
    using encode_run [OF al f sched sh [folded c_def] tq, where quality = "c_quality c" and out = out and budget = budget, unfolded Let_def]
    by blast
  obtain tq where tq: "er_tile_q r = Some tq" using R by (auto simp: run_ok_def)
  have sync: "in_sync f (er_shadow r) tq (fold (draw_tile f) T (vw_fb v))"
    unfolding T using start q v by (intro run_in_sync [OF f R _ _ _ _ tq]) (auto simp: c_def in_sync_def viewer_fits_def)
  have pic: "fb ! (y * fr_w f + x) = shown f (uint (tq ! tile_at f x y)) x y"
    if "in_frame f x y" "in_sync f (er_shadow r) tq fb" for x y fb
    using that run_same_px [OF R that(1)] by (simp add: in_sync_def shown_def quant_same_px)
  define t0 where "t0 = on_conn i (\<lambda>c. c\<lparr>c_shadow := er_shadow r, c_tile_q := tq, c_last_seq := fr_seq f, c_need_full := False,
                        c_lossy_tiles := length (filter (\<lambda>q. q \<noteq> 0) tq)\<rparr>) s"
  define t1 where "t1 = on_conn i (\<lambda>d. d\<lparr>c_frame_id := c_frame_id d + 1, c_last_frame_us := now,
                             c_sends := (if frame_changed f c then c_sends d + 1 else c_sends d)\<rparr>) t0"
  define m where "m = rd_buf_patch_u16 (en_out e) 6 (of_nat (length T))"
  have frame: "send_frame al sched bufs i f now s = (if T = [] then t0 else send_msg al i m t1)"
    unfolding send_frame_def c_def [symmetric] Let_def hdr_def [symmetric] out(3) out_def [symmetric] budget_def [symmetric] e
    by (simp add: en tq E(3) t0_def t1_def m_def)
  show ?thesis
  proof (cases "T = []")
    case True
    then show ?thesis
      using frame sync pic by (intro exI [of _ t0] exI [of _ None]) (auto simp: Let_def t0_def on_conn_def)
  next
    case False
    have D: "\<forall>k \<in> fst ` set T. k < tiles_total f"
      using R worker_tiles_all(3) [of D "length bufs"] unfolding T by (auto simp: run_ok_def)
    have few: "length T \<le> 65535" using tiles_sent_few [OF R] f by (simp add: T frame_ok_def)
    have "rb_data m = h @ rd_wr16 (of_nat (length T)) @ concat rs"
      unfolding m_def using out E(2) by (intro patched_header [OF al]) simp_all
    then have "vw_fb (vhandle_plain al (rb_data m) v) = fold (draw_tile f) T (vw_fb v)"
      by (intro viewer_draws_frame [OF f v E(1) D few]) (simp add: h_def)
    then show ?thesis
      using False frame sync pic by (intro exI [of _ t1] exI [of _ "Some m"]) (auto simp: Let_def t0_def t1_def on_conn_def)
  qed
qed

section \<open>Refinement of a still screen\<close>

definition lossy :: "bytes \<Rightarrow> nat" where
  "lossy tq = length (filter (\<lambda>q. q \<noteq> 0) tq)"

lemma lossy_update: "k < length tq \<Longrightarrow> tq ! k \<noteq> 0 \<Longrightarrow> lossy tq = Suc (lossy (tq[k := 0]))"
proof (induction tq arbitrary: k)
  case (Cons q tq)
  then show ?case by (cases k) (auto simp: lossy_def)
qed simp

lemma lossy_0: "lossy tq = 0 \<Longrightarrow> k < length tq \<Longrightarrow> tq ! k = 0"
  by (auto simp: lossy_def filter_empty_conv)

text \<open>On an unchanged tile a step only refines, while the budget lasts.\<close>

lemma clean_step:
  assumes al: "no_oom al" and f: "frame_ok f" "k < tiles_total f" and clean: "\<not> tile_dirty f (er_shadow s) k" and tq: "er_tile_q s = Some tq"
  shows "\<exists>s'. tile_step al f False quality budget (wi, k) s = Some s' \<and> er_shadow s' = er_shadow s \<and>
    er_refines s' = er_refines s + (if tq ! k \<noteq> 0 then 1 else 0) \<and>
    er_tile_q s' = Some (if tq ! k \<noteq> 0 \<and> er_refines s < budget then tq[k := 0] else tq)"
  using put_tile_rec [OF al f, of 0 "er_bufs s ! wi"] clean tq
  by (cases "tq ! k \<noteq> 0"; cases "er_refines s < budget") (auto simp: tile_step_def Let_def)

lemma clean_steps:
  assumes al: "no_oom al" and f: "frame_ok f" and "\<forall>k < tiles_total f. \<not> tile_dirty f (er_shadow s) k"
    and "er_tile_q s = Some tq" "length tq = tiles_total f" "distinct (map snd sched)" "set (map snd sched) \<subseteq> {..<tiles_total f}"
  shows "\<exists>s' tq'. tile_steps al f False quality budget sched s = Some s' \<and> er_shadow s' = er_shadow s \<and>
    er_tile_q s' = Some tq' \<and> length tq' = length tq \<and>
    int (lossy tq') = int (lossy tq) -
      min (max 0 (budget - er_refines s)) (int (length (filter (\<lambda>wk. tq ! snd wk \<noteq> 0) sched)))"
  using assms(3-)
proof (induction sched arbitrary: s tq)
  case (Cons wk sched)
  obtain wi k where wk: "wk = (wi, k)" by fastforce
  have k: "k < tiles_total f" "k \<notin> set (map snd sched)" using Cons.prems by (auto simp: wk)
  define tq1 where "tq1 = (if tq ! k \<noteq> 0 \<and> er_refines s < budget then tq[k := 0] else tq)"
  obtain s1 where s1: "tile_step al f False quality budget (wi, k) s = Some s1" "er_shadow s1 = er_shadow s"
    "er_refines s1 = er_refines s + (if tq ! k \<noteq> 0 then 1 else 0)" "er_tile_q s1 = Some tq1"
    using clean_step [OF al f k(1), of s tq quality budget wi] Cons.prems k unfolding tq1_def by auto
  have same: "filter (\<lambda>wk. tq1 ! snd wk \<noteq> 0) sched = filter (\<lambda>wk. tq ! snd wk \<noteq> 0) sched"
  proof (rule filter_cong [OF refl])
    fix wk assume "wk \<in> set sched"
    then have "snd wk \<noteq> k" using k(2) by auto
    then show "(tq1 ! snd wk \<noteq> 0) = (tq ! snd wk \<noteq> 0)" by (simp add: tq1_def)
  qed
  have "int (lossy tq1) = int (lossy tq) - (if tq ! k \<noteq> 0 \<and> er_refines s < budget then 1 else 0)"
    using lossy_update [of k tq] k Cons.prems by (simp add: tq1_def)
  moreover have l1: "length tq1 = tiles_total f" using Cons.prems by (simp add: tq1_def)
  moreover obtain s' tq' where "tile_steps al f False quality budget sched s1 = Some s'" "er_shadow s' = er_shadow s1"
    "er_tile_q s' = Some tq'" "length tq' = length tq1"
    "int (lossy tq') = int (lossy tq1) - min (max 0 (budget - er_refines s1)) (int (length (filter (\<lambda>wk. tq1 ! snd wk \<noteq> 0) sched)))"
    using Cons.IH [of s1 tq1] Cons.prems s1(2,4) l1 by (auto simp: wk)
  ultimately show ?case
    using s1 same Cons.prems by (auto simp: wk)
qed simp

lemma schedule_lossy:
  assumes "schedule n (length tq) sched"
  shows "length (filter (\<lambda>wk. tq ! snd wk \<noteq> 0) sched) = lossy tq"
proof -
  have S: "distinct (map snd sched)" "set (map snd sched) = {..<length tq}" using assms unfolding schedule_def by blast+
  have "length (filter (\<lambda>wk. tq ! snd wk \<noteq> 0) sched) = length (filter (\<lambda>k. tq ! k \<noteq> 0) (map snd sched))"
    by (simp add: filter_map comp_def)
  also have "\<dots> = card {k. k < length tq \<and> tq ! k \<noteq> 0}"
    using S by (subst distinct_card [symmetric]) (auto intro!: arg_cong [of _ _ card])
  also have "\<dots> = lossy tq" by (simp add: lossy_def length_filter_conv_card)
  finally show ?thesis .
qed

text \<open>A frame of an unchanged screen makes up to \<open>budget\<close> tiles lossless.\<close>

lemma encode_refines:
  assumes al: "no_oom al" and f: "frame_ok f" and sched: "schedule (length bufs) (tiles_total f) sched"
    and sh: "length shadow = fr_w f * fr_h f * 4" "\<And>x y. in_frame f x y \<Longrightarrow> same_px f shadow x y" and tq: "length tq = tiles_total f"
    and b: "0 \<le> budget"
  shows "\<exists>e tq'. encode al sched bufs f shadow False quality out (Some tq) budget = Some e \<and> en_shadow e = shadow \<and>
    en_tile_q e = Some tq' \<and> length tq' = tiles_total f \<and> lossy tq' = lossy tq - nat budget"
proof -
  define s0 where "s0 = \<lparr>er_shadow = shadow, er_tile_q = Some tq, er_refines = 0, er_bufs = map rd_buf_clear bufs,
     er_stats = replicate (length bufs) no_stats\<rparr>"
  have S: "distinct (map snd sched)" "set (map snd sched) \<subseteq> {..<tiles_total f}" using sched unfolding schedule_def by blast+
  have "\<forall>k < tiles_total f. \<not> tile_dirty f shadow k" using tile_dirty_iff [OF f _ sh(1)] sh(2) by blast
  then obtain s' tq' where s: "tile_steps al f False quality budget sched s0 = Some s'" "er_shadow s' = shadow"
    "er_tile_q s' = Some tq'" "length tq' = tiles_total f" "int (lossy tq') = int (lossy tq) - min (max 0 budget) (int (lossy tq))"
    using clean_steps [OF al f, of s0 tq sched quality budget] S tq schedule_lossy [of "length bufs" tq sched] sched
    by (auto simp: s0_def)
  have "lossy tq' = lossy tq - nat budget" using s(5) b by linarith
  then show ?thesis using s tq by (auto simp: encode_def Let_def s0_def)
qed

text \<open>A viewer of a screen that no longer changes, and when its next frame is due.\<close>

definition still_viewer :: "frame \<Rightarrow> nat \<Rightarrow> server \<Rightarrow> bool" where
  "still_viewer f i s \<longleftrightarrow> (let c = sv_conn s i in
     \<not> c_need_full c \<and> c_quality_setting c = 255 \<and> c_shadow_w c = fr_width f \<and> c_shadow_h c = fr_height f \<and>
     c_last_seq c = fr_seq f \<and> length (c_shadow c) = fr_w f * fr_h f * 4 \<and> length (c_tile_q c) = tiles_total f \<and>
     c_lossy_tiles c = lossy (c_tile_q c) \<and> (\<forall>x y. in_frame f x y \<longrightarrow> same_px f (c_shadow c) x y))"

definition frame_due :: "u64 \<Rightarrow> conn \<Rightarrow> bool" where
  "frame_due now c \<longleftrightarrow> settled now c \<and> \<not> now - c_last_frame_us c < 1000000 div word_of_int (max 1 (min (c_fps c) (c_eff_fps c))) \<and>
     c_frame_id c - c_acked c < 2 \<and> conn_pending c \<le> 8388608"

inductive still_run :: "alloc \<Rightarrow> rd_buf list \<Rightarrow> frame \<Rightarrow> nat \<Rightarrow> nat \<Rightarrow> server \<Rightarrow> server \<Rightarrow> bool" for al bufs f i where
  start: "still_run al bufs f i 0 s s"
| frame: "still_run al bufs f i n s t \<Longrightarrow> schedule (length bufs) (tiles_total f) sched \<Longrightarrow> frame_due now (sv_conn t i) \<Longrightarrow>
    still_run al bufs f i (Suc n) s (maybe_send_frame al sched bufs i (Some f) now t)"
| ack: "still_run al bufs f i n s t \<Longrightarrow> still_run al bufs f i n s (on_conn i (on_frame_ack r) t)"

lemma quiet_screen:
  assumes "quiet s t"
  shows "c_shadow (sv_conn t j) = c_shadow (sv_conn s j)" "c_tile_q (sv_conn t j) = c_tile_q (sv_conn s j)"
    "c_lossy_tiles (sv_conn t j) = c_lossy_tiles (sv_conn s j)" "c_need_full (sv_conn t j) = c_need_full (sv_conn s j)"
    "c_quality_setting (sv_conn t j) = c_quality_setting (sv_conn s j)" "c_shadow_w (sv_conn t j) = c_shadow_w (sv_conn s j)"
    "c_shadow_h (sv_conn t j) = c_shadow_h (sv_conn s j)" "c_last_seq (sv_conn t j) = c_last_seq (sv_conn s j)"
proof -
  have b: "blank (sv_conn t j) = blank (sv_conn s j)" using assms by (simp add: quiet_def)
  show "c_shadow (sv_conn t j) = c_shadow (sv_conn s j)" "c_tile_q (sv_conn t j) = c_tile_q (sv_conn s j)"
    "c_lossy_tiles (sv_conn t j) = c_lossy_tiles (sv_conn s j)" "c_need_full (sv_conn t j) = c_need_full (sv_conn s j)"
    "c_quality_setting (sv_conn t j) = c_quality_setting (sv_conn s j)" "c_shadow_w (sv_conn t j) = c_shadow_w (sv_conn s j)"
    "c_shadow_h (sv_conn t j) = c_shadow_h (sv_conn s j)" "c_last_seq (sv_conn t j) = c_last_seq (sv_conn s j)"
    using arg_cong [OF b, of c_shadow] arg_cong [OF b, of c_tile_q] arg_cong [OF b, of c_lossy_tiles] arg_cong [OF b, of c_need_full]
      arg_cong [OF b, of c_quality_setting] arg_cong [OF b, of c_shadow_w] arg_cong [OF b, of c_shadow_h] arg_cong [OF b, of c_last_seq]
    by (simp_all add: blank_def)
qed

lemma still_quiet: "quiet s t \<Longrightarrow> still_viewer f i s \<Longrightarrow> still_viewer f i t"
  by (simp add: still_viewer_def quiet_screen Let_def)

lemma still_ack: "still_viewer f i s \<Longrightarrow> still_viewer f i (on_conn i (on_frame_ack r) s)"
  by (simp add: still_viewer_def on_frame_ack_def Let_def split: prod.split)

lemma still_send_frame:
  assumes al: "no_oom al" and f: "frame_ok f" and sched: "schedule (length bufs) (tiles_total f) sched"
    and s: "still_viewer f i s" "settled now (sv_conn s i)" "0 < lossy (c_tile_q (sv_conn s i))"
  shows "still_viewer f i (send_frame al sched bufs i f now s) \<and>
    lossy (c_tile_q (sv_conn (send_frame al sched bufs i f now s) i)) = lossy (c_tile_q (sv_conn s i)) - 400"
proof -
  let ?c = "sv_conn s i"
  have c: "\<not> c_need_full ?c" "wants_refine ?c" "length (c_shadow ?c) = fr_w f * fr_h f * 4" "length (c_tile_q ?c) = tiles_total f"
    "\<And>x y. in_frame f x y \<Longrightarrow> same_px f (c_shadow ?c) x y"
    using s by (auto simp: still_viewer_def wants_refine_def Let_def)
  define hdr where "hdr = rd_buf_put_u8 al (rd_buf_put_u32 al (start_msg al RD_S_FRAME) (c_frame_id ?c + 1)) (if c_need_full ?c then 1 else 0)"
  define out where "out = rd_buf_put_u16 al hdr 0"
  define m where "m e = rd_buf_patch_u16 (en_out e) (rb_len hdr) (of_nat (es_tiles (en_stats e)))" for e :: encoded
  obtain e tq where e: "encode al sched bufs f (c_shadow ?c) False (c_quality ?c) out (Some (c_tile_q ?c)) 400 = Some e"
    "en_shadow e = c_shadow ?c" "en_tile_q e = Some tq" "length tq = tiles_total f" "lossy tq = lossy (c_tile_q ?c) - 400"
    using encode_refines [OF al f sched c(3,5,4), of 400 "c_quality ?c" out] by auto
  define t0 where "t0 = on_conn i (\<lambda>c. c\<lparr>c_shadow := c_shadow ?c, c_tile_q := tq, c_last_seq := fr_seq f, c_need_full := False,
                        c_lossy_tiles := length (filter (\<lambda>q. q \<noteq> 0) tq)\<rparr>) s"
  define t1 where "t1 = on_conn i (\<lambda>d. d\<lparr>c_frame_id := c_frame_id d + 1, c_last_frame_us := now,
                             c_sends := (if frame_changed f ?c then c_sends d + 1 else c_sends d)\<rparr>) t0"
  have t: "still_viewer f i t0" "still_viewer f i t1" "c_tile_q (sv_conn t0 i) = tq" "c_tile_q (sv_conn t1 i) = tq"
    using s(1) e(4) by (auto simp: still_viewer_def Let_def t0_def t1_def lossy_def)
  have b: "(if \<not> wants_refine ?c then 0 else if settled now ?c then 400 else 12) = (400 :: int)" using c(2) s(2) by simp
  have "send_frame al sched bufs i f now s = (if es_tiles (en_stats e) = 0 then t0 else send_msg al i (m e) t1)"
    using e(1) c(1) unfolding send_frame_def Let_def hdr_def [symmetric] out_def [symmetric] b
    by (simp add: e(2,3) t0_def t1_def m_def)
  moreover have "quiet t1 (send_msg al i (m e) t1)" by (rule quiet_send_msg)
  ultimately show ?thesis using t e(5) still_quiet [of t1] quiet_screen(2) [of t1 _ i] by auto
qed

lemma still_maybe_send:
  assumes al: "no_oom al" and f: "frame_ok f" and sched: "schedule (length bufs) (tiles_total f) sched"
    and s: "still_viewer f i s" "frame_due now (sv_conn s i)"
  shows "still_viewer f i (maybe_send_frame al sched bufs i (Some f) now s) \<and>
    lossy (c_tile_q (sv_conn (maybe_send_frame al sched bufs i (Some f) now s) i)) = lossy (c_tile_q (sv_conn s i)) - 400"
proof -
  have "resize_shadow al i f s = s" "\<not> frame_changed f (sv_conn s i)" "\<not> c_need_full (sv_conn s i)"
    "wants_refine (sv_conn s i) \<longleftrightarrow> 0 < lossy (c_tile_q (sv_conn s i))"
    using s(1) by (auto simp: still_viewer_def resize_shadow_def frame_changed_def wants_refine_def Let_def)
  then have "maybe_send_frame al sched bufs i (Some f) now s =
      (if 0 < lossy (c_tile_q (sv_conn s i)) then send_frame al sched bufs i f now s else s)"
    using s(2) by (auto simp: maybe_send_frame_def frame_due_def Let_def not_le not_less)
  then show ?thesis using still_send_frame [OF al f sched s(1)] s by (auto simp: frame_due_def)
qed

lemma shown_lossless:
  "shown f 0 x y = opaque (push_bit 16 (ucast (fr_pixels f ! (src_px f x y + 2))) OR
     push_bit 8 (ucast (fr_pixels f ! (src_px f x y + 1))) OR ucast (fr_pixels f ! src_px f x y))"
  by (simp add: shown_def quant_pixel_def quant_lossless)

text \<open>C17: when the screen stops changing, every frame that falls due makes up to 400 tiles lossless, whatever the
schedules and whichever acknowledgements arrive in between; after enough of them no tile is lossy, and a viewer in step
with the host shows the host's screen exactly, pixel for pixel.\<close>

theorem still_screen_becomes_exact:
  assumes "no_oom al" "frame_ok f" "still_viewer f i s" "still_run al bufs f i n s t"
    "c_lossy_tiles (sv_conn s i) \<le> 400 * n"
  shows "c_lossy_tiles (sv_conn t i) = 0 \<and>
    (\<forall>fb x y. in_sync f (c_shadow (sv_conn t i)) (c_tile_q (sv_conn t i)) fb \<and> in_frame f x y \<longrightarrow>
       fb ! (y * fr_w f + x) = shown f 0 x y)"
proof -
  have "still_viewer f i t \<and> lossy (c_tile_q (sv_conn t i)) = lossy (c_tile_q (sv_conn s i)) - 400 * n"
    using assms(4,3)
  proof (induction rule: still_run.induct)
    case (frame n s t sched now)
    then show ?case using still_maybe_send [OF assms(1,2) frame.hyps(2) _ frame.hyps(3)] by auto
  next
    case (ack n s t r)
    then show ?case using still_ack by (auto simp: on_frame_ack_def Let_def split: prod.splits)
  qed simp
  then have t: "still_viewer f i t" "lossy (c_tile_q (sv_conn t i)) = 0"
    using assms(3,5) by (auto simp: still_viewer_def Let_def)
  have "uint (c_tile_q (sv_conn t i) ! tile_at f x y) = 0" if "in_frame f x y" for x y
    using lossy_0 [OF t(2)] t(1) tile_at_less [OF that] by (simp add: still_viewer_def Let_def)
  then show ?thesis
    using t by (auto simp: in_sync_def still_viewer_def Let_def shown_def quant_same_px)
qed

section \<open>Examples\<close>

definition demo_frame :: frame where
  "demo_frame = \<lparr>fr_width = 1, fr_height = 1, fr_stride = 4, fr_seq = 5, fr_pixels = [1, 2, 3, 0]\<rparr>"

definition demo_watcher :: viewer where
  "demo_watcher = demo_start\<lparr>vw_rw := 1, vw_rh := 1, vw_tex := True, vw_fb := [0xFF000000]\<rparr>"

definition demo_sharing :: server where
  "demo_sharing = on_conn 0 (\<lambda>c. c\<lparr>c_state := Active, c_shadow := [0, 0, 0, 0], c_shadow_w := 1, c_shadow_h := 1\<rparr>) demo_server"

definition demo_still :: server where
  "demo_still = on_conn 0 (\<lambda>c. c\<lparr>c_state := Active, c_shadow := [1, 2, 3, 0], c_shadow_w := 1, c_shadow_h := 1,
     c_last_seq := 5, c_need_full := False, c_tile_q := [2], c_lossy_tiles := 1\<rparr>) demo_server"

lemma demo_frame_simps [simp]:
  "fr_w demo_frame = 1" "fr_h demo_frame = 1" "tiles_total demo_frame = 1" "fr_width demo_frame = 1" "fr_height demo_frame = 1"
  "frame_ok demo_frame" "schedule (Suc 0) (Suc 0) [(0, 0)]"
  by (auto simp: demo_frame_def fr_w_def fr_h_def tiles_total_def tiles_x_def tiles_y_def frame_ok_def schedule_def)

theorem viewer_shows_host_frame_witness:
  "\<exists>t msg. let c = sv_conn t 0;
      v' = (if msg = None then demo_watcher else vhandle_plain (\<lambda>_. True) (rb_data (the msg)) demo_watcher) in
    send_frame (\<lambda>_. True) [(0, 0)] [rd_buf_init] 0 demo_frame 7 demo_sharing =
      (case msg of None \<Rightarrow> t | Some m \<Rightarrow> send_msg (\<lambda>_. True) 0 m t) \<and>
    in_sync demo_frame (c_shadow c) (c_tile_q c) (vw_fb v') \<and>
    (\<forall>x y. in_frame demo_frame x y \<longrightarrow> vw_fb v' ! (y * fr_w demo_frame + x) = shown demo_frame (uint (c_tile_q c ! tile_at demo_frame x y)) x y)"
  by (rule viewer_shows_host_frame)
    (simp_all add: demo_sharing_def demo_server_def demo_conn_def new_conn_def viewer_fits_def demo_watcher_def)

lemma demo_still_viewer: "still_viewer demo_frame 0 demo_still" "frame_due 2000000 (sv_conn demo_still 0)"
proof -
  show "still_viewer demo_frame 0 demo_still"
    by (auto simp: still_viewer_def demo_still_def demo_server_def demo_conn_def new_conn_def lossy_def Let_def
        same_px_def in_frame_def shadow_px_def src_px_def) (simp_all add: demo_frame_def)
  show "frame_due 2000000 (sv_conn demo_still 0)"
    by (simp add: frame_due_def settled_def demo_still_def demo_server_def demo_conn_def new_conn_def conn_pending_def rd_buf_init_def)
qed

theorem still_screen_becomes_exact_witness:
  "c_lossy_tiles (sv_conn (maybe_send_frame (\<lambda>_. True) [(0, 0)] [rd_buf_init] 0 (Some demo_frame) 2000000 demo_still) 0) = 0"
proof -
  have "still_run (\<lambda>_. True) [rd_buf_init] demo_frame 0 (Suc 0) demo_still
      (maybe_send_frame (\<lambda>_. True) [(0, 0)] [rd_buf_init] 0 (Some demo_frame) 2000000 demo_still)"
    using demo_still_viewer(2) by (intro still_run.frame still_run.start) simp_all
  from still_screen_becomes_exact [OF _ _ demo_still_viewer(1) this] show ?thesis
    by (simp add: demo_still_def demo_server_def)
qed

end
