(* ===== verification/Handshake.thy ===== *)
theory Handshake
  imports Transport Server_Net
begin

text \<open>
  The WebSocket handshake between the programs: the request the viewer writes
  (\<open>client/transport_native.cpp\<close>) is read by the host (\<open>host/server.cpp\<close>) as an upgrade with the viewer's key, and
  the viewer accepts the host's answer.
\<close>

section \<open>Header lines\<close>

definition plain_line :: "bytes \<Rightarrow> bool" where
  "plain_line l \<longleftrightarrow> l \<noteq> [] \<and> 0 \<notin> set l \<and> 13 \<notin> set l \<and> 10 \<notin> set l"

lemma plain_line_no_crlf: "plain_line l \<Longrightarrow> strstr_crlf l = None"
proof -
  assume "plain_line l"
  then have "13 \<notin> set l" by (simp add: plain_line_def)
  then show ?thesis by (induction l rule: strstr_crlf.induct) auto
qed

lemma header_block_Cons: "header_block (l # ls) = l @ CRLF @ header_block ls"
  by (simp add: header_block_def CRLF_def)

lemma header_block_line_end: "13 \<notin> set l \<Longrightarrow> find_str CRLF (l @ CRLF @ s) = Some (length l)"
  using find_str_first [of CRLF l s] by (simp add: CRLF_def)

lemma blank_line_after_lines:
  "\<forall>l \<in> set ls. plain_line l \<Longrightarrow> ls \<noteq> [] \<Longrightarrow>
   find_blank_line (header_block ls @ CRLF @ s) = Some (length (header_block ls) - 2)"
proof (induction ls)
  case (Cons l ls)
  have l: "13 \<notin> set l" "length (header_block (l # ls)) = length l + 2 + length (header_block ls)"
    using Cons.prems(1) by (simp_all add: plain_line_def header_block_Cons CRLF_def)
  have f: "find_blank_line (l @ 13 # 10 # r) = map_option (\<lambda>n. length l + n) (find_blank_line (13 # 10 # r))" for r
    using find_str_skip [of "CRLF @ CRLF" l "13 # 10 # r"] l(1) by (simp add: find_blank_line_def CRLF_def)
  show ?case
  proof (cases "ls = []")
    case True
    then show ?thesis using f [of "CRLF @ s"] by (simp add: header_block_def CRLF_def find_blank_line_def)
  next
    case False
    then obtain m ms where ls: "ls = m # ms" by (cases ls) auto
    obtain b t where m: "m = b # t" "b \<noteq> 13" using Cons.prems(1) ls by (cases m) (auto simp: plain_line_def)
    have "find_blank_line (header_block ls @ CRLF @ s) = Some (length (header_block ls) - 2)"
      using Cons.IH Cons.prems(1) False by simp
    moreover have "2 \<le> length (header_block ls)" by (simp add: ls header_block_Cons CRLF_def)
    ultimately show ?thesis using f [of "header_block ls @ CRLF @ s"] m(2) l(2)
      by (simp add: header_block_Cons CRLF_def ls m(1) find_blank_line_def)
  qed
qed simp

lemma header_of_lines:
  assumes "\<forall>l \<in> set ls. plain_line l" "0 < cap"
  shows "rd_http_header (header_block ls) name cap =
    (case find (header_named name) ls of None \<Rightarrow> None | Some l \<Rightarrow> Some (take (cap - 1) (trim_blanks (drop (length name + 1) l))))"
proof -
  have "c_str (header_block ls) = header_block ls"
    using assms(1) by (intro c_str_id) (auto simp: header_block_def plain_line_def)
  then show ?thesis using http_header_loop_block [of ls cap name] assms plain_line_no_crlf by (simp add: rd_http_header_def)
qed

text \<open>A value without blanks at its ends is what stands behind the colon and one blank.\<close>

definition trimmed :: "bytes \<Rightarrow> bool" where
  "trimmed v \<longleftrightarrow> v \<noteq> [] \<and> \<not> is_blank (hd v) \<and> \<not> is_blank (last v)"

lemma trim_blanks_trimmed: "trimmed v \<Longrightarrow> trim_blanks (32 # v) = v"
proof -
  assume t: "trimmed v"
  then obtain b r where v: "v = b # r" "\<not> is_blank b" by (cases v) (auto simp: trimmed_def)
  obtain c u where "rev v = c # u" "\<not> is_blank c" using t by (cases "rev v") (auto simp: trimmed_def rev_eq_Cons_iff)
  then have "dropWhile is_blank (rev v) = rev v" by simp
  then show ?thesis by (simp add: trim_blanks_def v is_blank_def [of 32])
qed

lemma base64_digit_plain: "base64_digit v s \<notin> {0, 9, 10, 13, 32}"
proof -
  have "list_all (\<lambda>b. list_all (\<lambda>c. b \<noteq> c) [0, 9, 10, 13, 32]) base64_tbl" by code_simp
  then have "b \<in> set base64_tbl \<Longrightarrow> b \<notin> {0, 9, 10, 13, 32}" for b by (auto simp: list_all_iff)
  moreover have "unat (drop_bit s v AND 63) < length base64_tbl"
  proof -
    have "unat (drop_bit s v AND 63) < 64" by (rule unat_and_63)
    moreover have "length base64_tbl = 64" by code_simp
    ultimately show ?thesis by simp
  qed
  ultimately show ?thesis unfolding base64_digit_def by (metis nth_mem)
qed

lemma base64_plain: "b \<in> set (rd_base64 xs) \<Longrightarrow> b \<notin> {0, 9, 10, 13, 32}"
  by (induction xs rule: rd_base64.induct) (use base64_digit_plain in \<open>force simp: Let_def\<close>)+

lemma base64_trimmed: "xs \<noteq> [] \<Longrightarrow> trimmed (rd_base64 xs)"
proof -
  assume "xs \<noteq> []"
  then have "length (rd_base64 xs) \<noteq> 0" by (cases xs) (simp_all add: length_rd_base64)
  then have n: "rd_base64 xs \<noteq> []" by simp
  then show ?thesis using base64_plain [of "hd (rd_base64 xs)" xs] base64_plain [of "last (rd_base64 xs)" xs]
    by (auto simp: trimmed_def is_blank_def)
qed

section \<open>The viewer's request\<close>

definition request_line :: "bytes \<Rightarrow> bytes" where
  "request_line path = bytes_of ''GET '' @ path @ bytes_of '' HTTP/1.1''"

definition host_header :: "bytes \<Rightarrow> int \<Rightarrow> bytes" where
  "host_header host port = bytes_of ''Host: '' @ (if find_char 58 host \<noteq> None then bytes_of ''['' @ host @ bytes_of '']'' else host) @
     (if port = 80 then [] else bytes_of '':'' @ std_to_string port)"

definition upgrade_headers :: "bytes \<Rightarrow> bytes \<Rightarrow> bytes list" where
  "upgrade_headers h key = [h, bytes_of ''Upgrade: websocket'', bytes_of ''Connection: Upgrade'', bytes_of ''Sec-WebSocket-Key: '' @ key,
     bytes_of ''Sec-WebSocket-Version: 13'', bytes_of ''User-Agent: TetherDesk'']"

lemma upgrade_request_lines:
  "upgrade_request host port path key = header_block (request_line path # upgrade_headers (host_header host port) key) @ CRLF"
  by (simp add: upgrade_request_def Let_def header_block_def request_line_def host_header_def upgrade_headers_def CRLF_def)

text \<open>What addresses and paths are made of.\<close>

definition plain_text :: "bytes \<Rightarrow> bool" where
  "plain_text s \<longleftrightarrow> 0 \<notin> set s \<and> 13 \<notin> set s \<and> 10 \<notin> set s"

lemma std_to_string_plain: "plain_text (std_to_string n)"
proof -
  have "b \<in> set (std_to_string n) \<Longrightarrow> b = 45 \<or> is_digit b" for b
    using dec_digits_digit by (auto simp: std_to_string_def split: if_splits)
  then show ?thesis using digit_not_special by (fastforce simp: plain_text_def)
qed

lemma plain_headers:
  assumes "plain_text h" "h \<noteq> []" "plain_text key"
  shows "\<forall>l \<in> set (upgrade_headers h key). plain_line l"
proof -
  have "list_all plain_line [bytes_of ''Upgrade: websocket'', bytes_of ''Connection: Upgrade'', bytes_of ''Sec-WebSocket-Version: 13'', bytes_of ''User-Agent: TetherDesk'']"
    by code_simp
  moreover have "plain_line (bytes_of ''Sec-WebSocket-Key: '' @ key)" using assms(3) by (simp add: plain_line_def plain_text_def bytes_of_def)
  ultimately show ?thesis using assms(1,2) by (simp add: upgrade_headers_def plain_line_def plain_text_def)
qed

lemma plain_host_header: "plain_text host \<Longrightarrow> plain_text (host_header host port) \<and> host_header host port \<noteq> []"
  using std_to_string_plain [of port] by (auto simp: plain_text_def host_header_def bytes_of_def)

lemma plain_request_line: "plain_text path \<Longrightarrow> plain_line (request_line path)"
  by (auto simp: plain_text_def plain_line_def request_line_def bytes_of_def)

text \<open>The headers the programs look for, behind any line that starts like \<open>Host\<close>.\<close>

lemma host_header_other:
  assumes "take 6 h = bytes_of ''Host: ''" "name \<noteq> []" "tolower (hd name) \<noteq> 104"
  shows "\<not> header_named name h"
proof
  assume "header_named name h"
  then have m: "map tolower (take (length name) h) = map tolower name" by (simp add: header_named_def)
  obtain r where "h = 72 # r" using assms(1) by (cases h) (auto simp: bytes_of_def)
  with m assms(2,3) show False by (cases name) (auto simp: tolower_def)
qed

lemma upgrade_headers_found:
  assumes "plain_text h" "take 6 h = bytes_of ''Host: ''" "plain_text key" "trimmed key" "length key < 128"
  shows "rd_http_header (header_block (upgrade_headers h key)) (bytes_of ''Upgrade'') 64 = Some (bytes_of ''websocket'')"
    "rd_http_header (header_block (upgrade_headers h key)) (bytes_of ''Sec-WebSocket-Key'') 128 = Some key"
    "rd_http_header (header_block (upgrade_headers h key)) (bytes_of ''Sec-WebSocket-Version'') 16 = Some (bytes_of ''13'')"
proof -
  have h: "h \<noteq> []" using assms(2) by (auto simp: bytes_of_def)
  note block = header_of_lines [OF plain_headers [OF assms(1) h assms(3)]]
  have hn: "\<not> header_named (bytes_of ''Upgrade'') h" "\<not> header_named (bytes_of ''Sec-WebSocket-Key'') h" "\<not> header_named (bytes_of ''Sec-WebSocket-Version'') h"
    using assms(2) by (auto intro!: notI dest!: host_header_other [THEN notE, rotated 3] simp: bytes_of_def tolower_def)
  have u: "header_named (bytes_of ''Upgrade'') (bytes_of ''Upgrade: websocket'')"
    "\<not> header_named (bytes_of ''Sec-WebSocket-Key'') (bytes_of ''Upgrade: websocket'')"
    "\<not> header_named (bytes_of ''Sec-WebSocket-Key'') (bytes_of ''Connection: Upgrade'')"
    "\<not> header_named (bytes_of ''Sec-WebSocket-Version'') (bytes_of ''Upgrade: websocket'')"
    "\<not> header_named (bytes_of ''Sec-WebSocket-Version'') (bytes_of ''Connection: Upgrade'')"
    "header_named (bytes_of ''Sec-WebSocket-Version'') (bytes_of ''Sec-WebSocket-Version: 13'')" by code_simp+
  have k: "header_named (bytes_of ''Sec-WebSocket-Key'') (bytes_of ''Sec-WebSocket-Key: '' @ key)"
    "\<not> header_named (bytes_of ''Sec-WebSocket-Version'') (bytes_of ''Sec-WebSocket-Key: '' @ key)"
    by (simp_all add: header_named_def bytes_of_def tolower_def)
  have "find (header_named (bytes_of ''Upgrade'')) (upgrade_headers h key) = Some (bytes_of ''Upgrade: websocket'')"
    "find (header_named (bytes_of ''Sec-WebSocket-Key'')) (upgrade_headers h key) = Some (bytes_of ''Sec-WebSocket-Key: '' @ key)"
    "find (header_named (bytes_of ''Sec-WebSocket-Version'')) (upgrade_headers h key) = Some (bytes_of ''Sec-WebSocket-Version: 13'')"
    by (simp_all add: upgrade_headers_def hn u k)
  note f = this
  show "rd_http_header (header_block (upgrade_headers h key)) (bytes_of ''Upgrade'') 64 = Some (bytes_of ''websocket'')"
    unfolding block [OF zero_less_numeral] f option.case by code_simp
  show "rd_http_header (header_block (upgrade_headers h key)) (bytes_of ''Sec-WebSocket-Version'') 16 = Some (bytes_of ''13'')"
    unfolding block [OF zero_less_numeral] f option.case by code_simp
  have "drop (length (bytes_of ''Sec-WebSocket-Key'') + 1) (bytes_of ''Sec-WebSocket-Key: '' @ key) = 32 # key" by (simp add: bytes_of_def)
  then show "rd_http_header (header_block (upgrade_headers h key)) (bytes_of ''Sec-WebSocket-Key'') 128 = Some key"
    unfolding block [OF zero_less_numeral] f option.case using assms(4,5) by (simp only: trim_blanks_trimmed) simp
qed

lemma parse_upgrade:
  assumes "plain_text h" "take 6 h = bytes_of ''Host: ''" "plain_text path" "plain_text key" "trimmed key" "length key < 128"
  shows "parse_request (header_block (request_line path # upgrade_headers h key)) = Upgrade key"
proof -
  define l where "l = request_line path"
  define hs where "hs = header_block (upgrade_headers h key)"
  have l: "13 \<notin> set l" using plain_request_line [OF assms(3)] by (simp add: l_def plain_line_def)
  have t: "header_block (l # upgrade_headers h key) = l @ CRLF @ hs" by (simp add: hs_def header_block_Cons)
  have e: "find_str CRLF (l @ CRLF @ hs) = Some (length l)" by (rule header_block_line_end [OF l])
  have d: "drop (length l + 2) (l @ CRLF @ hs) = hs" by (simp add: CRLF_def)
  have take_line: "take (length l) (l @ CRLF @ hs) = l" by simp
  have m: "fst (read_token l) = bytes_of ''GET''" by (simp add: l_def request_line_def read_token_def bytes_of_def is_space_def)
  have w: "find_str (bytes_of ''websocket'') (map tolower (bytes_of ''websocket'')) \<noteq> None" by code_simp
  obtain rest where r: "read_token l = (bytes_of ''GET'', rest)" using m by (metis surj_pair fst_conv)
  obtain target r2 where r2: "read_token rest = (target, r2)" by fastforce
  note f = upgrade_headers_found [OF assms(1,2,4-6), folded hs_def]
  show ?thesis unfolding l_def [symmetric] t
    using w by (simp only: parse_request_def Let_def e d option.sel take_line r r2 prod.case f option.case) simp
qed

section \<open>The answer\<close>

definition upgrade_answer :: "bytes \<Rightarrow> bytes" where
  "upgrade_answer key = header_block [bytes_of ''HTTP/1.1 101 Switching Protocols'', bytes_of ''Upgrade: websocket'', bytes_of ''Connection: Upgrade'',
     bytes_of ''Sec-WebSocket-Accept: '' @ rd_ws_accept_key key] @ CRLF"

lemma accept_key_plain: "plain_text (rd_ws_accept_key key) \<and> trimmed (rd_ws_accept_key key) \<and> length (rd_ws_accept_key key) = 28"
proof -
  define d where "d = rd_sha1 (take (if length (c_str key) > 256 - 37 then 256 - 37 else length (c_str key)) (c_str key) @ ws_guid)"
  have l: "length d = 20" by (simp add: d_def len_simps)
  have k: "rd_ws_accept_key key = rd_base64 d" by (simp add: rd_ws_accept_key_def d_def Let_def)
  have "d \<noteq> []" using l by auto
  then show ?thesis using base64_plain [of _ d] base64_trimmed [of d] l by (auto simp: k plain_text_def length_rd_base64)
qed

lemma upgrade_answer_lines: "\<forall>l \<in> set [bytes_of ''HTTP/1.1 101 Switching Protocols'', bytes_of ''Upgrade: websocket'', bytes_of ''Connection: Upgrade'',
     bytes_of ''Sec-WebSocket-Accept: '' @ rd_ws_accept_key key]. plain_line l"
proof -
  have "list_all plain_line [bytes_of ''HTTP/1.1 101 Switching Protocols'', bytes_of ''Upgrade: websocket'', bytes_of ''Connection: Upgrade'']"
    by code_simp
  moreover have "plain_line (bytes_of ''Sec-WebSocket-Accept: '' @ rd_ws_accept_key key)"
    using accept_key_plain [of key] by (simp add: plain_line_def plain_text_def bytes_of_def)
  ultimately show ?thesis by simp
qed

text \<open>Everything up to and with the blank line belongs to the answer; what is behind it stays.\<close>

lemma answer_accepted:
  assumes "rb_data (tr_in t) = upgrade_answer key @ rest" "tr_accept t = rd_ws_accept_key key"
  shows "fst (finish_handshake t) \<and> tr_state (snd (finish_handshake t)) = TOpen \<and> rb_data (tr_in (snd (finish_handshake t))) = rest"
proof -
  define a0 where "a0 = bytes_of ''HTTP/1.1 101 Switching Protocols''"
  define hl where "hl = [bytes_of ''Upgrade: websocket'', bytes_of ''Connection: Upgrade'', bytes_of ''Sec-WebSocket-Accept: '' @ rd_ws_accept_key key]"
  define hb where "hb = header_block (a0 # hl)"
  have lines: "\<forall>l \<in> set (a0 # hl). plain_line l" using upgrade_answer_lines by (simp add: a0_def hl_def)
  have d: "rb_data (tr_in t) = hb @ CRLF @ rest" using assms(1) by (simp add: upgrade_answer_def hb_def a0_def hl_def)
  have e: "find_blank_line (hb @ CRLF @ rest) = Some (length hb - 2)" unfolding hb_def by (rule blank_line_after_lines [OF lines]) simp
  have len: "2 \<le> length hb" by (simp add: hb_def header_block_Cons CRLF_def)
  have tk: "take (length hb - 2 + 2) (hb @ CRLF @ rest) = hb" and dr: "drop (length hb - 2 + 4) (hb @ CRLF @ rest) = rest"
    using len by (simp_all add: CRLF_def)
  have eol: "find_str CRLF hb = Some (length a0)"
    using lines header_block_line_end [of a0 "header_block hl"] by (simp add: hb_def header_block_Cons plain_line_def)
  have hd: "drop (length a0 + 2) hb = header_block hl" by (simp add: hb_def header_block_Cons CRLF_def)
  have st: "take 12 hb = bytes_of ''HTTP/1.1 101''" by (simp add: hb_def header_block_Cons a0_def bytes_of_def)
  have "find (header_named (bytes_of ''Sec-WebSocket-Accept'')) hl = Some (bytes_of ''Sec-WebSocket-Accept: '' @ rd_ws_accept_key key)"
  proof -
    have "\<not> header_named (bytes_of ''Sec-WebSocket-Accept'') (bytes_of ''Upgrade: websocket'')"
      "\<not> header_named (bytes_of ''Sec-WebSocket-Accept'') (bytes_of ''Connection: Upgrade'')" by code_simp+
    moreover have "header_named (bytes_of ''Sec-WebSocket-Accept'') (bytes_of ''Sec-WebSocket-Accept: '' @ rd_ws_accept_key key)"
      by (simp add: header_named_def bytes_of_def tolower_def)
    ultimately show ?thesis by (simp add: hl_def)
  qed
  moreover have "drop (length (bytes_of ''Sec-WebSocket-Accept'') + 1) (bytes_of ''Sec-WebSocket-Accept: '' @ rd_ws_accept_key key) = 32 # rd_ws_accept_key key"
    by (simp add: bytes_of_def)
  moreover have "trim_blanks (32 # rd_ws_accept_key key) = rd_ws_accept_key key" "length (rd_ws_accept_key key) = 28"
    using accept_key_plain trim_blanks_trimmed by blast+
  ultimately have h: "rd_http_header (header_block hl) (bytes_of ''Sec-WebSocket-Accept'') 64 = Some (rd_ws_accept_key key)"
    using lines by (subst header_of_lines) simp_all
  have "finish_handshake t = (True, t\<lparr>tr_in := rd_buf_consume (tr_in t) (length hb - 2 + 4), tr_state := TOpen\<rparr>)"
    using assms(2) by (simp only: finish_handshake_def Let_def d e option.case tk eol option.sel hd st h) simp
  then show ?thesis using dr d len by (simp add: rd_buf_consume_data)
qed

lemma connect_queues:
  assumes "\<forall>n. al n" "tr_state (tr_connect al host port path secure t) = TConnecting"
  shows "\<exists>raw. length raw = 16 \<and> tr_accept (tr_connect al host port path secure t) = rd_ws_accept_key (rd_base64 raw) \<and>
    rb_data (tr_out (tr_connect al host port path secure t)) = upgrade_request host port path (rd_base64 raw)"
proof -
  define t1 where "t1 = tr_close al t"
  define t2 where "t2 = t1\<lparr>tr_in := rd_buf_clear (tr_in t1), tr_out := rd_buf_clear (tr_out t1), tr_ws := server_reader, tr_error := [],
                tr_host := host, tr_port := port, tr_path := path, tr_secure := secure, tr_tls_ready := False, tr_attempt := 0\<rparr>"
  obtain ok t3 where o: "open_socket False t2 = (ok, t3)" by (metis surj_pair)
  have c: "tr_connect al host port path secure t = (if \<not> ok then t3 else
      let t = t3\<lparr>tr_state := TConnecting, tr_started_us := tr_now t3\<rparr>; (raw, t) = tr_draw 16 t; key = rd_base64 raw
      in t\<lparr>tr_accept := rd_ws_accept_key key, tr_out := rd_buf_put al (tr_out t) (upgrade_request host port path key)\<rparr>)"
    by (simp add: tr_connect_def t1_def [symmetric] t2_def [symmetric] o)
  have ok
  proof (rule ccontr)
    assume "\<not> ok"
    then have "tr_state t3 = TClosed" using o by (auto simp: open_socket_def tr_fail_def Let_def split: prod.splits if_splits)
    with assms(2) \<open>\<not> ok\<close> show False by (simp add: c)
  qed
  then have "tr_out t3 = rd_buf_clear (tr_out t1)" using o by (auto simp: open_socket_def t2_def Let_def split: prod.splits if_splits)
  with \<open>ok\<close> assms(1) show ?thesis
    by (intro exI [of _ "map (tr_random t3) [0..<16]"]) (simp add: c Let_def tr_draw_def rd_buf_put_data rd_buf_init_data)
qed

text \<open>C5:
  the request a connecting viewer has queued is an upgrade to the host, which goes on to the key exchange,
  and what the host queues makes the viewer's connection open, whatever host, path, port and random key, and
  with whatever sent behind it kept for the first message.
\<close>

theorem websocket_handshake_completes:
  assumes "\<forall>n. al n" "plain_text host" "plain_text path"
    and "tr_state (tr_connect al host port path secure t) = TConnecting"
    and "rb_data (c_in (sv_conn s i)) = rb_data (tr_out (tr_connect al host port path secure t))" "rb_data (c_out (sv_conn s i)) = []"
    and "tr_accept t' = tr_accept (tr_connect al host port path secure t)"
    and "rb_data (tr_in t') = rb_data (c_out (sv_conn (handle_http al i s) i)) @ rest"
  shows "c_state (sv_conn (handle_http al i s) i) = Hello \<and> fst (finish_handshake t') \<and>
    tr_state (snd (finish_handshake t')) = TOpen \<and> rb_data (tr_in (snd (finish_handshake t'))) = rest"
proof -
  obtain raw where raw: "length raw = 16"
    "tr_accept (tr_connect al host port path secure t) = rd_ws_accept_key (rd_base64 raw)"
    "rb_data (tr_out (tr_connect al host port path secure t)) = upgrade_request host port path (rd_base64 raw)"
    using connect_queues [OF assms(1,4)] by blast
  define key where "key = rd_base64 raw"
  have "raw \<noteq> []" using raw(1) by auto
  then have k: "plain_text key" "trimmed key" "length key < 128"
    using base64_plain [of _ raw] base64_trimmed [of raw] raw(1) by (auto simp: key_def plain_text_def length_rd_base64)
  define hb where "hb = header_block (request_line path # upgrade_headers (host_header host port) key)"
  have hh: "plain_text (host_header host port)" "host_header host port \<noteq> []" "take 6 (host_header host port) = bytes_of ''Host: ''"
    using plain_host_header [OF assms(2)] by (auto simp: host_header_def bytes_of_def)
  have lines: "\<forall>l \<in> set (request_line path # upgrade_headers (host_header host port) key). plain_line l"
    using plain_headers [OF hh(1,2) k(1)] plain_request_line [OF assms(3)] by simp
  have d: "rb_data (c_in (sv_conn s i)) = hb @ CRLF" using assms(5) raw(3) by (simp add: upgrade_request_lines hb_def key_def)
  have e: "find_blank_line (hb @ CRLF) = Some (length hb - 2)"
    using blank_line_after_lines [OF lines, of "[]"] by (simp add: hb_def)
  have len: "2 \<le> length hb" by (simp add: hb_def header_block_Cons CRLF_def)
  have tk: "take (length hb - 2 + 2) (hb @ CRLF) = hb" and dr: "drop (length hb - 2 + 4) (hb @ CRLF) = []" using len by (simp_all add: CRLF_def)
  have p: "parse_request hb = Upgrade key" unfolding hb_def by (rule parse_upgrade [OF hh(1,3) assms(3) k])
  define s1 where "s1 = on_conn i (\<lambda>c. c\<lparr>c_in := rd_buf_consume (c_in c) (length hb - 2 + 4)\<rparr>) s"
  have "rb_data (c_in (sv_conn s1 i)) = []" using d dr by (simp add: s1_def on_conn_def rd_buf_consume_data)
  moreover have "rb_data (c_out (sv_conn s1 i)) = []" using assms(6) by (simp add: s1_def on_conn_def)
  moreover have "handle_http al i s = accept_upgrade al i key s1"
    by (simp only: handle_http_def Let_def d e option.case tk p http_request.case s1_def)
  ultimately have "c_state (sv_conn (handle_http al i s) i) = Hello" "rb_data (c_out (sv_conn (handle_http al i s) i)) = upgrade_answer key"
    using assms(1) by (simp_all add: accept_upgrade_def Let_def on_conn_def rd_buf_put_data upgrade_answer_def header_block_def CRLF_def)
  then show ?thesis using answer_accepted [of t' key rest] assms(7,8) raw(2) by (simp add: key_def)
qed

definition demo_dialer :: transport where
  "demo_dialer = tr_connect (\<lambda>_. True) (bytes_of ''::1'') 5980 (bytes_of ''/'') False (tr_init 0 (\<lambda>_ _ _. None) (\<lambda>_. 7))"

theorem websocket_handshake_completes_witness:
  "\<forall>w. \<exists>s. s = (w :: server)\<lparr>sv_conn := \<lambda>_. (new_conn [] 0)\<lparr>c_in := tr_out demo_dialer\<rparr>\<rparr> \<and>
     c_state (sv_conn (handle_http (\<lambda>_. True) 0 s) 0) = Hello \<and>
     (\<exists>t'. t' = demo_dialer\<lparr>tr_in := c_out (sv_conn (handle_http (\<lambda>_. True) 0 s) 0)\<rparr> \<and> fst (finish_handshake t') \<and>
       tr_state (snd (finish_handshake t')) = TOpen)"
proof
  fix w :: server
  define s where "s = w\<lparr>sv_conn := \<lambda>_. (new_conn [] 0)\<lparr>c_in := tr_out demo_dialer\<rparr>\<rparr>"
  define t' where "t' = demo_dialer\<lparr>tr_in := c_out (sv_conn (handle_http (\<lambda>_. True) 0 s) 0)\<rparr>"
  have c: "tr_state demo_dialer = TConnecting"
    by (simp add: demo_dialer_def tr_connect_def Let_def tr_close_def tr_init_def open_socket_def open_loop.simps tr_draw_def)
  have p: "plain_text (bytes_of ''::1'')" "plain_text (bytes_of ''/'')" by (simp_all add: plain_text_def bytes_of_def)
  have "c_state (sv_conn (handle_http (\<lambda>_. True) 0 s) 0) = Hello \<and> fst (finish_handshake t') \<and> tr_state (snd (finish_handshake t')) = TOpen \<and>
      rb_data (tr_in (snd (finish_handshake t'))) = []"
    by (rule websocket_handshake_completes [OF _ p c [unfolded demo_dialer_def], folded demo_dialer_def])
      (simp_all add: s_def t'_def new_conn_def rd_buf_init_data)
  then show "\<exists>s. s = w\<lparr>sv_conn := \<lambda>_. (new_conn [] 0)\<lparr>c_in := tr_out demo_dialer\<rparr>\<rparr> \<and>
     c_state (sv_conn (handle_http (\<lambda>_. True) 0 s) 0) = Hello \<and>
     (\<exists>t'. t' = demo_dialer\<lparr>tr_in := c_out (sv_conn (handle_http (\<lambda>_. True) 0 s) 0)\<rparr> \<and> fst (finish_handshake t') \<and>
       tr_state (snd (finish_handshake t')) = TOpen)"
    by (simp add: s_def t'_def)
qed

end
