(* ===== verification/Login.thy ===== *)
theory Login
  imports Server_Props Viewer
begin

text \<open>
  Logging in, both programs together: the viewer's \<open>HELLO\<close> (\<open>client/app.cpp\<close>), the host's answer with its keys
  (\<open>host/server.cpp\<close>), the viewer's sealed proof of the password, and the host that lets it in. The messages are
  those the programs hand to their WebSocket connections.
\<close>

section \<open>The messages\<close>

definition hello_bytes :: "bytes \<Rightarrow> bytes \<Rightarrow> bytes" where
  "hello_bytes name ce = 1 # rd_wr16 2 @ enc_str name @ ce"

definition s_hello_bytes :: "bytes \<Rightarrow> bytes \<Rightarrow> bytes \<Rightarrow> bytes \<Rightarrow> bytes \<Rightarrow> bytes" where
  "s_hello_bytes nonce host os ss se = 64 # rd_wr16 2 @ 2 # nonce @ enc_str host @ enc_str os @ ss @ se"

definition wire_string :: "bytes \<Rightarrow> bool" where
  "wire_string s \<longleftrightarrow> 0 \<notin> set s \<and> length s < 65536"

lemma length_x25519_out: "length (x25519_out n p) = 32"
  by (simp add: x25519_out_def pack25519_def gf_bytes_def Let_def length_concat comp_def sum_list_triv split: prod.split)

lemma length_x25519_base [simp]: "length (rd_x25519_base p) = 32"
  by (simp add: rd_x25519_base_def length_x25519_out)

section \<open>The viewer begins\<close>

definition viewer_name :: "viewer \<Rightarrow> bytes" where
  "viewer_name v = (if pc_user_name (vw_target v) = [] then bytes_of ''Viewer'' else pc_user_name (vw_target v))"

lemma viewer_says_hello:
  assumes "\<forall>n. al n" "\<not> ch_active (vw_ch v)" "wire_string (viewer_name v)"
  shows "send_hello al v = (on_tr (tr_send al (hello_bytes (viewer_name v) (vw_ce v))) v)\<lparr>vw_phase := PhHello\<rparr>"
  using assms by (simp add: send_hello_def viewer_name_def [symmetric] vsend_def vmsg_def hello_bytes_def buf_simps wire_string_def enc_str_def)

section \<open>The host answers\<close>

lemma read_hello:
  assumes "length name \<le> 65535" "length ce = 32"
  shows "rd_get_u8 (rd_reader_init (hello_bytes name ce)) = (1, rdr [1] (rd_wr16 2 @ enc_str name @ ce))"
    "\<exists>r r' r''. rd_get_u16 (rdr [1] (rd_wr16 2 @ enc_str name @ ce)) = (2, r) \<and> rd_get_str r 256 = (take 255 name @ [0], length name, r') \<and>
      rd_get_bytes r' 32 = (Some ce, r'')"
proof -
  show "rd_get_u8 (rd_reader_init (hello_bytes name ce)) = (1, rdr [1] (rd_wr16 2 @ enc_str name @ ce))"
    by (simp add: hello_bytes_def reader_simps)
  show "\<exists>r r' r''. rd_get_u16 (rdr [1] (rd_wr16 2 @ enc_str name @ ce)) = (2, r) \<and> rd_get_str r 256 = (take 255 name @ [0], length name, r') \<and>
      rd_get_bytes r' 32 = (Some ce, r'')"
    using assms rdr_get_bytes [OF assms(2), of "([1] @ rd_wr16 2) @ enc_str name" "[]"] by (simp add: reader_simps)
qed

definition server_nonce :: "server \<Rightarrow> bytes" where
  "server_nonce s = map (sv_random s) [0..<16]"

definition session_key :: "server \<Rightarrow> bytes" where
  "session_key s = map (sv_random s) [16..<48]"

text \<open>The connection before the key exchange, straight from a viewer.\<close>

definition awaits_hello :: "server \<Rightarrow> nat \<Rightarrow> bool" where
  "awaits_hello s i \<longleftrightarrow> c_state (sv_conn s i) = Hello \<and> \<not> c_dead (sv_conn s i) \<and> \<not> ch_active (c_ch (sv_conn s i)) \<and>
     \<not> c_client_ws (sv_conn s i) \<and> sv_random_ok s"

lemma host_answers:
  assumes "\<forall>n. al n" "awaits_hello s i" "length name \<le> 65535" "length ce = 32"
    and "wire_string (cfg_host_name (sv_cfg s))" "wire_string (pl_os_name (sv_plat s))"
    and "rd_x25519 (session_key s) ce = Some dh1" "rd_x25519 (cfg_static_priv (sv_cfg s)) ce = Some dh2"
    and "s1 = handle_message al i (hello_bytes name ce) s"
    and "th = rd_hs_transcript ce (cfg_static_pub (sv_cfg s)) (rd_x25519_base (session_key s)) (server_nonce s)"
  shows "c_state (sv_conn s1 i) = Auth" "c_transcript (sv_conn s1 i) = th" "c_ch (sv_conn s1 i) = rd_hs_keys dh1 dh2 th True"
    "\<not> c_dead (sv_conn s1 i)" "c_addr (sv_conn s1 i) = c_addr (sv_conn s i)" "sv_cfg s1 = sv_cfg s" "sv_failures s1 = sv_failures s"
    "sv_recent_failures s1 = sv_recent_failures s" "sv_now s1 = sv_now s" "active_conns s1 = active_conns s"
    "c_out (sv_conn s1 i) = rd_ws_write_frame al (replicate 4 0) (c_out (sv_conn s i)) RD_WS_BINARY
       (s_hello_bytes (server_nonce s) (cfg_host_name (sv_cfg s)) (pl_os_name (sv_plat s)) (cfg_static_pub (sv_cfg s))
         (rd_x25519_base (session_key s))) False"
proof -
  obtain r r' r'' where g: "rd_get_u16 (rdr [1] (rd_wr16 2 @ enc_str name @ ce)) = (2, r)" "rd_get_str r 256 = (take 255 name @ [0], length name, r')"
    "rd_get_bytes r' 32 = (Some ce, r'')" using read_hello(2) [OF assms(3,4)] by blast
  define nm where "nm = (if clean_text (c_str (take 255 name @ [0])) 32 = [] then bytes_of ''Viewer'' else clean_text (c_str (take 255 name @ [0])) 32)"
  define rng where "rng = (\<lambda>k. sv_random s (k + 16 + 32))"
  define c1 where "c1 = (sv_conn s i)\<lparr>c_name := nm, c_nonce := server_nonce s, c_transcript := th\<rparr>"
  have k: "map (\<lambda>k. sv_random s (k + 16)) [0..<32] = session_key s"
    by (rule nth_equalityI) (simp_all add: session_key_def add.commute del: upt_rec_numeral)
  have h: "handle_message al i (hello_bytes name ce) s = handle_hello al i 1 (rdr [1] (rd_wr16 2 @ enc_str name @ ce)) s"
    using assms(2) read_hello(1) [OF assms(3,4)] by (simp add: handle_message_def handle_plain_def awaits_hello_def)
  define out where "out = rd_ws_write_frame al (replicate 4 0) (c_out (sv_conn s i)) RD_WS_BINARY
       (s_hello_bytes (server_nonce s) (cfg_host_name (sv_cfg s)) (pl_os_name (sv_plat s)) (cfg_static_pub (sv_cfg s))
         (rd_x25519_base (session_key s))) False"
  define sA where "sA = on_conn i (\<lambda>c. c\<lparr>c_name := nm\<rparr>) s"
  define sB where "sB = sA\<lparr>sv_random := \<lambda>k. sv_random s (k + 16)\<rparr>"
  define sC where "sC = on_conn i (\<lambda>c. c\<lparr>c_nonce := server_nonce s\<rparr>) sB"
  define sD where "sD = sC\<lparr>sv_random := rng\<rparr>"
  define sE where "sE = on_conn i (\<lambda>c. c\<lparr>c_transcript := th\<rparr>) sD"
  have ty: "c_type_of 1 = Some RD_C_HELLO" by code_simp
  have dA: "draw 16 sA = (Some (server_nonce s), sB)"
    using assms(2) by (simp add: draw_def sA_def sB_def awaits_hello_def server_nonce_def on_conn_def del: upt_rec_numeral)
  have dC: "draw 32 sC = (Some (session_key s), sD)"
    using assms(2) by (simp add: draw_def sC_def sB_def sA_def sD_def awaits_hello_def k rng_def on_conn_def del: upt_rec_numeral)
  have cfg: "sv_cfg sD = sv_cfg s" "sv_plat sD = sv_plat s" "sv_plat sE = sv_plat s" "c_nonce (sv_conn sD i) = server_nonce s"
    by (simp_all add: sE_def sD_def sC_def sB_def sA_def on_conn_def)
  define msg where "msg = rd_buf_put al (rd_buf_put al (rd_buf_put_str al (rd_buf_put_str al (rd_buf_put al (rd_buf_put_u8 al (rd_buf_put_u16 al
      (start_msg al RD_S_HELLO) 2) 2) (server_nonce s)) (Some (cfg_host_name (sv_cfg s)))) (Some (pl_os_name (sv_plat s)))) (cfg_static_pub (sv_cfg s)))
      (rd_x25519_base (session_key s))"
  have msg: "rb_data msg = s_hello_bytes (server_nonce s) (cfg_host_name (sv_cfg s)) (pl_os_name (sv_plat s)) (cfg_static_pub (sv_cfg s))
         (rd_x25519_base (session_key s))"
    using assms(1,5,6) by (simp add: msg_def start_msg_def buf_simps wire_string_def s_hello_bytes_def enc_str_def)
  have "handle_hello al i 1 (rdr [1] (rd_wr16 2 @ enc_str name @ ce)) s =
      on_conn i (\<lambda>c. c\<lparr>c_ch := rd_hs_keys dh1 dh2 th True, c_state := Auth\<rparr>) (send_msg al i msg sE)"
    by (simp only: handle_hello_def ty g Let_def prod.case nm_def [symmetric] sA_def [symmetric] option.case dA sC_def [symmetric]
        dC rd_x25519_keypair_def option.map cfg assms(7,8) assms(10) [symmetric] sE_def [symmetric] msg_def [symmetric] simp_thms if_True
        if_False not_True_eq_False not_False_eq_True)
  moreover have "send_msg al i msg sE = on_conn i (\<lambda>c. c\<lparr>c_out := out\<rparr>) sE"
    using assms(2) by (simp add: send_msg_def ws_frame_to_def msg out_def sE_def sD_def sC_def sB_def sA_def on_conn_def awaits_hello_def)
  ultimately have s1: "s1 = s\<lparr>sv_random := rng, sv_conn := (sv_conn s)(i := c1\<lparr>c_out := out, c_ch := rd_hs_keys dh1 dh2 th True, c_state := Auth\<rparr>)\<rparr>"
    unfolding assms(9) h by (simp add: sE_def sD_def sC_def sB_def sA_def on_conn_def c1_def)
  show "c_state (sv_conn s1 i) = Auth" "c_transcript (sv_conn s1 i) = th" "c_ch (sv_conn s1 i) = rd_hs_keys dh1 dh2 th True"
    "\<not> c_dead (sv_conn s1 i)" "c_addr (sv_conn s1 i) = c_addr (sv_conn s i)" "sv_cfg s1 = sv_cfg s" "sv_failures s1 = sv_failures s"
    "sv_recent_failures s1 = sv_recent_failures s" "sv_now s1 = sv_now s" 
    "c_out (sv_conn s1 i) = out"
    using assms(2) by (simp_all add: s1 c1_def awaits_hello_def)
  show "active_conns s1 = active_conns s"
    using assms(2) by (auto simp: active_conns_def is_active_def s1 awaits_hello_def intro!: filter_cong split: if_splits)
qed

section \<open>The viewer proves the password\<close>

text \<open>Nobody is asked about the host's key.\<close>

definition trusts :: "viewer \<Rightarrow> bytes \<Rightarrow> bool" where
  "trusts v ss \<longleftrightarrow> op_web (vw_opts v) \<or> op_trust_new_hosts (vw_opts v) \<or>
     known_fingerprint (pc_host (vw_target v)) (pc_port (vw_target v)) (vw_store v) = rd_fingerprint ss"

definition proof_bytes :: "bytes \<Rightarrow> bytes \<Rightarrow> bytes" where
  "proof_bytes pw th = 2 # rd_hs_auth_mac pw th"

lemma vsend_sealed:
  assumes "\<forall>n. al n" "ch_active (vw_ch v)"
  shows "vsend al msg v = on_tr (tr_send al (rd_aead_seal (rb_data msg) [] (rd_channel.send_key (vw_ch v)) (ctr_nonce (send_ctr (vw_ch v)))))
    (v\<lparr>vw_ch := (vw_ch v)\<lparr>send_ctr := send_ctr (vw_ch v) + 1\<rparr>\<rparr>)"
proof -
  obtain ch out where o: "rd_channel_seal al (vw_ch v) (rb_data msg) rd_buf_init = (ch, out)" by fastforce
  then have "ch = (vw_ch v)\<lparr>send_ctr := send_ctr (vw_ch v) + 1\<rparr>"
    "rd_buf_grow al rd_buf_init (rd_aead_seal (rb_data msg) [] (rd_channel.send_key (vw_ch v)) (ctr_nonce (send_ctr (vw_ch v)))) = Some out"
    using assms(1) by (simp_all add: rd_channel_seal_into_empty)
  with grow_data [OF this(2)] show ?thesis using assms(2) by (simp add: vsend_def o rd_buf_init_data)
qed

lemma send_auth_proves:
  assumes "\<forall>n. al n" "vw_ch v = rd_hs_keys dh1 dh2 th False" "vw_transcript v = th"
  shows "vw_phase (send_auth al v) = PhAuth \<and> vw_tr (send_auth al v) =
    tr_send al (rd_aead_seal (proof_bytes (pc_password (vw_target v)) th) [] (rd_channel.send_key (vw_ch v)) (ctr_nonce 0)) (vw_tr v)"
proof -
  have a: "ch_active (vw_ch v)" "send_ctr (vw_ch v) = 0" by (simp_all add: assms(2) rd_hs_keys_def Let_def)
  show ?thesis using assms(1,3) a by (simp add: send_auth_def Let_def vsend_sealed vmsg_def buf_simps on_tr_def proof_bytes_def)
qed

lemma read_s_hello:
  assumes "length nonce = 16" "length host \<le> 65535" "length os \<le> 65535" "length ss = 32" "length se = 32"
  shows "rd_get_u8 (rd_reader_init (s_hello_bytes nonce host os ss se)) = (64, rdr [64] (rd_wr16 2 @ 2 # nonce @ enc_str host @ enc_str os @ ss @ se))"
    "\<exists>r1 r2 r3 r4 r5 r6 r7. rd_get_u16 (rdr [64] (rd_wr16 2 @ 2 # nonce @ enc_str host @ enc_str os @ ss @ se)) = (2, r1) \<and>
       rd_get_u8 r1 = (2, r2) \<and> rd_get_bytes r2 16 = (Some nonce, r3) \<and> rd_get_str r3 256 = (take 255 host @ [0], length host, r4) \<and>
       rd_get_str r4 256 = (take 255 os @ [0], length os, r5) \<and> rd_get_bytes r5 32 = (Some ss, r6) \<and>
       rd_get_bytes r6 32 = (Some se, r7) \<and> \<not> rr_err r7"
proof -
  show "rd_get_u8 (rd_reader_init (s_hello_bytes nonce host os ss se)) = (64, rdr [64] (rd_wr16 2 @ 2 # nonce @ enc_str host @ enc_str os @ ss @ se))"
    by (simp add: s_hello_bytes_def reader_simps)
  show "\<exists>r1 r2 r3 r4 r5 r6 r7. rd_get_u16 (rdr [64] (rd_wr16 2 @ 2 # nonce @ enc_str host @ enc_str os @ ss @ se)) = (2, r1) \<and>
       rd_get_u8 r1 = (2, r2) \<and> rd_get_bytes r2 16 = (Some nonce, r3) \<and> rd_get_str r3 256 = (take 255 host @ [0], length host, r4) \<and>
       rd_get_str r4 256 = (take 255 os @ [0], length os, r5) \<and> rd_get_bytes r5 32 = (Some ss, r6) \<and>
       rd_get_bytes r6 32 = (Some se, r7) \<and> \<not> rr_err r7"
    using assms rdr_get_bytes [OF assms(5), of _ "[]"]
    by (simp add: reader_simps rdr_get_bytes)
qed

lemma viewer_proves:
  assumes "\<forall>n. al n" "\<not> ch_active (vw_ch v)" "vw_phase v = PhHello" "trusts v ss"
    and "length nonce = 16" "length host \<le> 65535" "length os \<le> 65535" "length ss = 32" "length se = 32"
    and "rd_x25519 (vw_ce_priv v) se = Some dh1" "rd_x25519 (vw_ce_priv v) ss = Some dh2"
    and "th = rd_hs_transcript (vw_ce v) ss se nonce"
    and "v2 = vhandle_message al (s_hello_bytes nonce host os ss se) v"
  shows "vw_phase v2 = PhAuth \<and> vw_tr v2 =
    tr_send al (rd_aead_seal (proof_bytes (pc_password (vw_target v)) th) [] (rd_channel.send_key (rd_hs_keys dh1 dh2 th False)) (ctr_nonce 0)) (vw_tr v)"
proof -
  obtain r1 r2 r3 r4 r5 r6 r7 where g: "rd_get_u16 (rdr [64] (rd_wr16 2 @ 2 # nonce @ enc_str host @ enc_str os @ ss @ se)) = (2, r1)"
       "rd_get_u8 r1 = (2, r2)" "rd_get_bytes r2 16 = (Some nonce, r3)" "rd_get_str r3 256 = (take 255 host @ [0], length host, r4)"
       "rd_get_str r4 256 = (take 255 os @ [0], length os, r5)" "rd_get_bytes r5 32 = (Some ss, r6)"
       "rd_get_bytes r6 32 = (Some se, r7)" "\<not> rr_err r7" using read_s_hello(2) [OF assms(5-9)] by blast
  define v1 where "v1 = v\<lparr>vw_transcript := th, vw_ch := rd_hs_keys dh1 dh2 th False, vw_ce_priv := replicate 32 0,
      vw_host_name := c_str (take 255 host @ [0]), vw_host_os := c_str (take 255 os @ [0]), vw_host_fp := rd_fingerprint ss\<rparr>"
  have "v2 = on_hello al (rdr [64] (rd_wr16 2 @ 2 # nonce @ enc_str host @ enc_str os @ ss @ se)) v"
    using assms(2) read_s_hello(1) [OF assms(5-9)] by (simp add: assms(13) vhandle_message_def vhandle_plain_def)
  then have v2: "v2 = check_identity al v1"
    using assms(3,10-12) by (simp add: on_hello_def g Let_def v1_def)
  have "trusts v1 ss \<and> vw_host_fp v1 = rd_fingerprint ss" using assms(4) by (simp add: trusts_def v1_def)
  then obtain v3 where v3: "check_identity al v1 = send_auth al v3" "vw_ch v3 = vw_ch v1" "vw_transcript v3 = th"
    "vw_target v3 = vw_target v" "vw_tr v3 = vw_tr v"
    by (auto simp: check_identity_def Let_def trusts_def save_store_def v1_def split: if_splits)
  have ch: "vw_ch v3 = rd_hs_keys dh1 dh2 th False" by (simp add: v3(2) v1_def)
  from send_auth_proves [OF assms(1) this v3(3)] show ?thesis by (simp add: v2 v3(1,4,5) ch)
qed

section \<open>The host lets it in\<close>

lemma host_admits:
  assumes "c_state (sv_conn s i) = Auth" "\<not> c_dead (sv_conn s i)" "c_ch (sv_conn s i) = rd_hs_keys dh1 dh2 th True"
    and "c_transcript (sv_conn s i) = th" "fst (locked_out (c_addr (sv_conn s i)) s) = None"
    and "int (length (active_conns s)) < cfg_max_viewers (sv_cfg s)"
  shows "is_active (handle_message al i (rd_aead_seal (proof_bytes (cfg_password (sv_cfg s)) th) [] (rd_channel.send_key (rd_hs_keys dh1 dh2 th False)) (ctr_nonce 0)) s) i"
proof -
  define m where "m = proof_bytes (cfg_password (sv_cfg s)) th"
  define ch where "ch = (rd_hs_keys dh1 dh2 th True)\<lparr>recv_ctr := 1\<rparr>"
  have k: "recv_key (rd_hs_keys dh1 dh2 th True) = rd_channel.send_key (rd_hs_keys dh1 dh2 th False)" "recv_ctr (rd_hs_keys dh1 dh2 th True) = 0"
    "ch_active (rd_hs_keys dh1 dh2 th True)" by (simp_all add: rd_hs_keys_def Let_def)
  have o: "rd_channel_open (rd_hs_keys dh1 dh2 th True) (rd_aead_seal m [] (rd_channel.send_key (rd_hs_keys dh1 dh2 th False)) (ctr_nonce 0)) = (Some m, ch)"
    by (simp add: rd_channel_open_iff k ch_def)
  define u where "u = on_conn i (\<lambda>c. c\<lparr>c_ch := ch\<rparr>) s"
  have u: "sv_conn u i = (sv_conn s i)\<lparr>c_ch := ch\<rparr>" "sv_cfg u = sv_cfg s" by (simp_all add: u_def on_conn_def)
  have "is_active u = is_active s" by (simp add: is_active_def fun_eq_iff u_def on_conn_def)
  then have a: "active_conns u = active_conns s" by (simp add: active_conns_def u_def)
  have l: "fst (locked_out a u) = fst (locked_out a s)" for a by (simp add: locked_out_def Let_def u_def split: option.split)
  have r: "rd_get_u8 (rd_reader_init m) = (2, rdr [2] (rd_hs_auth_mac (cfg_password (sv_cfg s)) th))"
    by (simp add: m_def proof_bytes_def reader_simps)
  have b: "rd_get_bytes (rdr [2] (rd_hs_auth_mac (cfg_password (sv_cfg s)) th)) 32 =
      (Some (rd_hs_auth_mac (cfg_password (sv_cfg u)) (c_transcript (sv_conn u i))), rdr ([2] @ rd_hs_auth_mac (cfg_password (sv_cfg s)) th) [])"
    using rdr_get_bytes [of "rd_hs_auth_mac (cfg_password (sv_cfg s)) th" 32 "[2]" "[]"] assms(4) u by (simp add: rd_hs_auth_mac_def)
  have ty: "c_type_of 2 = Some RD_C_AUTH" by code_simp
  have "is_active (handle_auth al i 2 (rdr [2] (rd_hs_auth_mac (cfg_password (sv_cfg s)) th)) u) i"
    by (rule auth_succeeds [OF _ _ b]) (use assms u a l ty in simp_all)
  moreover have "handle_message al i (rd_aead_seal m [] (rd_channel.send_key (rd_hs_keys dh1 dh2 th False)) (ctr_nonce 0)) s = handle_plain al i m u"
    by (simp only: handle_message_def assms(3) o u_def [symmetric] k(3) if_True prod.case option.case)
  moreover have "handle_plain al i m u = handle_auth al i 2 (rdr [2] (rd_hs_auth_mac (cfg_password (sv_cfg s)) th)) u"
    using assms(1) u(1) by (simp add: handle_plain_def r)
  ultimately show ?thesis by (simp add: m_def)
qed

text \<open>What the viewer and the host start from: a connection that waits for its \<open>HELLO\<close> on a host with the key pair it made
  at start-up, and a viewer with a fresh key pair and the host's password.\<close>

definition may_log_in :: "server \<Rightarrow> nat \<Rightarrow> viewer \<Rightarrow> bool" where
  "may_log_in s i v \<longleftrightarrow> awaits_hello s i \<and> \<not> ch_active (vw_ch v) \<and>
     pc_password (vw_target v) = cfg_password (sv_cfg s) \<and> trusts v (cfg_static_pub (sv_cfg s)) \<and>
     fst (locked_out (c_addr (sv_conn s i)) s) = None \<and> int (length (active_conns s)) < cfg_max_viewers (sv_cfg s) \<and>
     vw_ce v = rd_x25519_base (vw_ce_priv v) \<and> cfg_static_pub (sv_cfg s) = rd_x25519_base (cfg_static_priv (sv_cfg s)) \<and>
     wire_string (viewer_name v) \<and> wire_string (cfg_host_name (sv_cfg s)) \<and> wire_string (pl_os_name (sv_plat s))"

text \<open>X25519 is a key exchange: both ends compute the same secret.\<close>

definition same_secret :: "bytes \<Rightarrow> bytes \<Rightarrow> bool" where
  "same_secret a b \<longleftrightarrow> rd_x25519 a (rd_x25519_base b) = rd_x25519 b (rd_x25519_base a)"


definition demo_login_host :: server where
  "demo_login_host = demo_server\<lparr>sv_cfg := demo_cfg\<lparr>cfg_static_priv := replicate 32 7, cfg_static_pub := rd_x25519_base (replicate 32 7)\<rparr>,
     sv_conn := \<lambda>_. (new_conn (bytes_of ''10.0.0.2'') 0)\<lparr>c_state := Hello\<rparr>, sv_random := \<lambda>_. 7\<rparr>"

definition demo_caller :: viewer where
  "demo_caller = (vw_init \<lparr>op_name = [], op_trust_new_hosts = True, op_open_menu = False, op_relay = [], op_web = False,
       op_web_secure = False, op_web_relay = False, op_web_host = [], op_web_port = 80, op_remote = False\<rparr>
     (empty_store False) (\<lambda>_. None) (\<lambda>_. True) 0 (tr_init 0 (\<lambda>_ _ _. None) (\<lambda>_. 0)))
     \<lparr>vw_target := new_pc\<lparr>pc_password := bytes_of ''secret''\<rparr>, vw_ce_priv := replicate 32 7, vw_ce := rd_x25519_base (replicate 32 7)\<rparr>"


end
