(* ===== verification/Host_Main.thy ===== *)
theory Host_Main
  imports Relay Server_Inv
begin

text \<open>
  Starting the programs. \<open>host/main.cpp\<close> as built for Linux: options, the identity and relay ID files, the
  password policy, up to the server's constructor and the beginning of \<open>Server::run\<close>; and the options and the
  listener of \<open>relay/relay.cpp\<close>. The file system is a record of files, directories, paths that may not be
  created and a flag for a full disk; paths are compared as they are written. The usage text, the banner and
  the list of displays are output only and left out.
\<close>

section \<open>Options\<close>

text \<open>\<open>ServerConfig\<close> beyond what the server itself reads, and the locals of \<open>td_host_main\<close>.\<close>

record host_options =
  ho_cfg :: config
  ho_bind :: bytes
  ho_port :: int
  ho_display :: int
  ho_threads :: int
  ho_console :: bool
  ho_native_res :: bool
  ho_demo :: bool
  ho_list_only :: bool
  ho_key_file :: bytes
  ho_relay :: bytes

definition default_config :: config where
  "default_config = \<lparr>cfg_password = [], cfg_view_only = False, cfg_allow_files = True, cfg_max_viewers = 8, cfg_max_fps = 30,
     cfg_web_root = [], cfg_downloads_dir = [], cfg_host_name = [], cfg_static_priv = replicate 32 0,
     cfg_static_pub = replicate 32 0, cfg_relay_host = [], cfg_relay_port = 80, cfg_relay_id = [], cfg_relay_key = []\<rparr>"

definition default_options :: host_options where
  "default_options = \<lparr>ho_cfg = default_config, ho_bind = bytes_of ''::'', ho_port = 5980, ho_display = 0, ho_threads = 0,
     ho_console = True, ho_native_res = True, ho_demo = False, ho_list_only = False, ho_key_file = [],
     ho_relay = bytes_of ''tetherdesk.54-151-75-113.nip.io''\<rparr>"

definition on_cfg :: "(config \<Rightarrow> config) \<Rightarrow> host_options \<Rightarrow> host_options" where
  "on_cfg f h = h\<lparr>ho_cfg := f (ho_cfg h)\<rparr>"

text \<open>The file system: regular files, directories, paths that may not be created, and a disk that is full.\<close>

record host_fs =
  fs_files :: "bytes \<Rightarrow> bytes option"
  fs_dirs :: "bytes \<Rightarrow> bool"
  fs_refuses :: "bytes \<Rightarrow> bool"
  fs_full :: bool

text \<open>\<open>fopen\<close> for reading and what can be read then: nothing from a directory, which can be opened.\<close>

definition fs_read :: "bytes \<Rightarrow> host_fs \<Rightarrow> bytes option" where
  "fs_read p fs = (if fs_dirs fs p then Some [] else fs_files fs p)"

definition fs_mkdir :: "bytes \<Rightarrow> host_fs \<Rightarrow> host_fs" where
  "fs_mkdir p fs =
     (if fs_dirs fs p \<or> fs_files fs p \<noteq> None \<or> fs_refuses fs p then fs else fs\<lparr>fs_dirs := (fs_dirs fs)(p := True)\<rparr>)"

text \<open>\<open>fopen\<close> for writing, \<open>fwrite\<close> and \<open>fclose\<close>: \<open>None\<close> when it cannot be opened, else whether all was written.\<close>

definition fs_write :: "bytes \<Rightarrow> bytes \<Rightarrow> host_fs \<Rightarrow> bool option \<times> host_fs" where
  "fs_write p d fs =
     (if fs_dirs fs p \<or> fs_refuses fs p then (None, fs)
      else (Some (\<not> fs_full fs), fs\<lparr>fs_files := (fs_files fs)(p \<mapsto> (if fs_full fs then [] else d))\<rparr>))"

text \<open>The first line of a password file: \<open>fgets\<close> into 256 bytes, read as a C string, line ends cut off.\<close>

definition first_line :: "bytes \<Rightarrow> bytes" where
  "first_line d =
     (let l = take 255 (takeWhile (\<lambda>b. b \<noteq> 10) d @ (if 10 \<in> set d then [10] else []))
      in rev (dropWhile (\<lambda>b. b = 10 \<or> b = 13) (rev (c_str l))))"

definition set_flag :: "bytes \<Rightarrow> host_options \<Rightarrow> host_options option" where
  "set_flag a h =
     (if a = bytes_of ''--view-only'' then Some (on_cfg (\<lambda>c. c\<lparr>cfg_view_only := True\<rparr>) h)
      else if a = bytes_of ''--no-files'' then Some (on_cfg (\<lambda>c. c\<lparr>cfg_allow_files := False\<rparr>) h)
      else if a = bytes_of ''--native-res'' then Some (h\<lparr>ho_native_res := True\<rparr>)
      else if a = bytes_of ''--standard-res'' then Some (h\<lparr>ho_native_res := False\<rparr>)
      else if a = bytes_of ''--no-relay'' then Some (h\<lparr>ho_relay := []\<rparr>)
      else if a = bytes_of ''--demo'' then Some (h\<lparr>ho_demo := True\<rparr>)
      else if a = bytes_of ''--no-console'' then Some (h\<lparr>ho_console := False\<rparr>)
      else if a = bytes_of ''--list-displays'' then Some (h\<lparr>ho_list_only := True\<rparr>)
      else None)"

definition set_value :: "bytes \<Rightarrow> bytes \<Rightarrow> host_options \<Rightarrow> host_options option" where
  "set_value a v h =
     (if a = bytes_of ''--port'' then Some (h\<lparr>ho_port := c_atoi v\<rparr>)
      else if a = bytes_of ''--bind'' then Some (h\<lparr>ho_bind := v\<rparr>)
      else if a = bytes_of ''--password'' then Some (on_cfg (\<lambda>c. c\<lparr>cfg_password := v\<rparr>) h)
      else if a = bytes_of ''--fps'' then Some (on_cfg (\<lambda>c. c\<lparr>cfg_max_fps := max 1 (min 60 (c_atoi v))\<rparr>) h)
      else if a = bytes_of ''--display'' then Some (h\<lparr>ho_display := c_atoi v\<rparr>)
      else if a = bytes_of ''--max-viewers'' then Some (on_cfg (\<lambda>c. c\<lparr>cfg_max_viewers := max 1 (c_atoi v)\<rparr>) h)
      else if a = bytes_of ''--web-root'' then Some (on_cfg (\<lambda>c. c\<lparr>cfg_web_root := v\<rparr>) h)
      else if a = bytes_of ''--downloads'' then Some (on_cfg (\<lambda>c. c\<lparr>cfg_downloads_dir := v\<rparr>) h)
      else if a = bytes_of ''--key-file'' then Some (h\<lparr>ho_key_file := v\<rparr>)
      else if a = bytes_of ''--relay'' then Some (h\<lparr>ho_relay := v\<rparr>)
      else if a = bytes_of ''--threads'' then Some (h\<lparr>ho_threads := max 1 (min 64 (c_atoi v))\<rparr>)
      else None)"

text \<open>The loop over the arguments; an exit status, or the options.\<close>

fun parse_options :: "host_fs \<Rightarrow> bytes list \<Rightarrow> host_options \<Rightarrow> int + host_options" where
  "parse_options fs [] h = Inr h"
| "parse_options fs (a # as) h =
     (case set_flag a h of
        Some h \<Rightarrow> parse_options fs as h
      | None \<Rightarrow>
          if a = bytes_of ''-h'' \<or> a = bytes_of ''--help'' then Inl 0
          else if a \<noteq> bytes_of ''--password-file'' \<and> set_value a [] h = None then Inl 2
          else case as of
                 [] \<Rightarrow> Inl 2
               | v # as \<Rightarrow>
                   if a = bytes_of ''--password-file''
                   then (case fs_read v fs of
                           None \<Rightarrow> Inl 2
                         | Some d \<Rightarrow> if d = [] then Inl 2
                             else parse_options fs as (on_cfg (\<lambda>c. c\<lparr>cfg_password := first_line d\<rparr>) h))
                   else (case set_value a v h of None \<Rightarrow> Inl 2 | Some h \<Rightarrow> parse_options fs as h))"

section \<open>Identity files\<close>

definition path_dir :: "bytes \<Rightarrow> bytes" where
  "path_dir p = before (find_last_of (bytes_of ''/'' @ [92]) p) p"

text \<open>Each prefix of the path that ends before a slash, and the path itself.\<close>

definition make_parents :: "bytes \<Rightarrow> host_fs \<Rightarrow> host_fs" where
  "make_parents dir fs =
     fold (\<lambda>i fs. if (i = length dir \<or> dir ! i = 47) \<and> take i dir \<noteq> [] then fs_mkdir (take i dir) fs else fs)
       [0..<Suc (length dir)] fs"

definition create_host_key :: "bytes option \<Rightarrow> bytes \<Rightarrow> host_fs \<Rightarrow> (bytes \<times> bytes) option \<times> host_fs" where
  "create_host_key rnd path fs =
     (case rd_x25519_keypair rnd of
        None \<Rightarrow> (None, fs)
      | Some (priv, pub) \<Rightarrow>
          (let fs = make_parents (path_dir path) fs; (w, fs) = fs_write path priv fs
           in (if w = Some True then Some (priv, pub) else None, fs)))"

definition load_or_create_host_key :: "bytes option \<Rightarrow> bytes \<Rightarrow> host_fs \<Rightarrow> (bytes \<times> bytes) option \<times> host_fs" where
  "load_or_create_host_key rnd path fs =
     (case fs_read path fs of
        Some d \<Rightarrow> if 32 \<le> length d then (Some (take 32 d, rd_x25519_base (take 32 d)), fs) else create_host_key rnd path fs
      | None \<Rightarrow> create_host_key rnd path fs)"

text \<open>\<open>%ns\<close> of \<open>fscanf\<close>: white space, then up to \<open>n\<close> other bytes; \<open>None\<close> when there is none.\<close>

definition scan_token :: "nat \<Rightarrow> bytes \<Rightarrow> (bytes \<times> bytes) option" where
  "scan_token n d =
     (let d = dropWhile is_space d; t = take n (takeWhile (\<lambda>b. \<not> is_space b) d)
      in if t = [] then None else Some (t, drop (length t) d))"

definition read_relay_id :: "bytes \<Rightarrow> (bytes \<times> bytes) option" where
  "read_relay_id d =
     (case scan_token 31 d of
        None \<Rightarrow> None
      | Some (a, d) \<Rightarrow>
          (case scan_token 79 d of
             None \<Rightarrow> None
           | Some (b, d) \<Rightarrow> if length (c_str a) = 9 \<and> length (c_str b) = 32 then Some (c_str a, c_str b) else None))"

text \<open>The new ID; the result of \<open>fprintf\<close> is not looked at.\<close>

definition new_relay_id :: "bytes \<Rightarrow> bytes \<times> bytes" where
  "new_relay_id r =
     (std_to_string (uint (be32 r mod 900000000 + 100000000)),
      concat (map (\<lambda>b. [hex_digit (drop_bit 4 b), hex_digit (b AND 15)]) (map (\<lambda>i. r ! i) [4..<20])))"

definition create_relay_id :: "bytes option \<Rightarrow> bytes \<Rightarrow> host_fs \<Rightarrow> (bytes \<times> bytes) option \<times> host_fs" where
  "create_relay_id rnd path fs =
     (case rnd of
        None \<Rightarrow> (None, fs)
      | Some r \<Rightarrow>
          (let (ident, key) = new_relay_id r; (w, fs) = fs_write path (ident @ [32] @ key @ [10]) fs
           in (if w = None then None else Some (ident, key), fs)))"

definition load_or_create_relay_id :: "bytes option \<Rightarrow> bytes \<Rightarrow> host_fs \<Rightarrow> (bytes \<times> bytes) option \<times> host_fs" where
  "load_or_create_relay_id rnd path fs =
     (case fs_read path fs of
        None \<Rightarrow> create_relay_id rnd path fs
      | Some d \<Rightarrow> (case read_relay_id d of Some ik \<Rightarrow> (Some ik, fs) | None \<Rightarrow> create_relay_id rnd path fs))"

section \<open>Starting\<close>

text \<open>
  What the system answers: environment variables, the path of the executable, the random bytes drawn for
  the key, the relay ID and the password (whose array is used unseen when the generator fails), whether
  the network and the platform can be set up, the host name, the ports that can be listened on, and
  whether the capturer starts.
\<close>

record host_env =
  env_home :: "bytes option"
  env_xdg :: "bytes option"
  env_exe :: bytes
  env_key_random :: "bytes option"
  env_id_random :: "bytes option"
  env_password_raw :: bytes
  env_net_ok :: bool
  env_native_ok :: bool
  env_host_name :: bytes
  env_can_listen :: "bytes \<Rightarrow> int \<Rightarrow> bool"
  env_capture_ok :: "int \<Rightarrow> int \<Rightarrow> bool"

definition random_password :: "bytes \<Rightarrow> bytes" where
  "random_password raw =
     (let alphabet = bytes_of ''abcdefghjkmnpqrstuvwxyz23456789''
      in concat (map (\<lambda>i. (if i = 5 then [45] else []) @ [alphabet ! (unat (raw ! i) mod 31)]) [0..<10]))"

definition exe_dir :: "host_env \<Rightarrow> bytes" where
  "exe_dir e = (case find_last_of (bytes_of ''/'' @ [92]) (env_exe e) of None \<Rightarrow> bytes_of ''.'' | Some n \<Rightarrow> take n (env_exe e))"

definition dir_has_index :: "bytes \<Rightarrow> host_fs \<Rightarrow> bool" where
  "dir_has_index d fs \<longleftrightarrow> fs_read (d @ bytes_of ''/index.html'') fs \<noteq> None"

definition home_dir :: "host_env \<Rightarrow> bytes" where
  "home_dir e = (case env_home e of Some h \<Rightarrow> h | None \<Rightarrow> bytes_of ''.'')"

definition config_dir :: "host_env \<Rightarrow> bytes" where
  "config_dir e = (case env_xdg e of Some x \<Rightarrow> if x \<noteq> [] then x else home_dir e @ bytes_of ''/.config''
     | None \<Rightarrow> home_dir e @ bytes_of ''/.config'') @ bytes_of ''/tetherdesk''"

definition find_web_root :: "host_env \<Rightarrow> host_fs \<Rightarrow> bytes" where
  "find_web_root e fs =
     (let d = exe_dir e;
          cands = [d @ bytes_of ''/web'', d @ bytes_of ''/../Resources/web'', d @ bytes_of ''/../web'',
            d @ bytes_of ''/../share/tetherdesk/web'', bytes_of ''web'']
      in case find (\<lambda>c. dir_has_index c fs) cands of Some c \<Rightarrow> c | None \<Rightarrow> [])"

definition default_paths :: "host_env \<Rightarrow> host_fs \<Rightarrow> host_options \<Rightarrow> host_options" where
  "default_paths e fs h =
     (let h = (if cfg_web_root (ho_cfg h) = [] then on_cfg (\<lambda>c. c\<lparr>cfg_web_root := find_web_root e fs\<rparr>) h else h);
          h = (if cfg_downloads_dir (ho_cfg h) = []
               then on_cfg (\<lambda>c. c\<lparr>cfg_downloads_dir := home_dir e @ bytes_of ''/Downloads/TetherDesk''\<rparr>) h else h)
      in if ho_key_file h = [] then h\<lparr>ho_key_file := config_dir e @ bytes_of ''/host_key''\<rparr> else h)"

definition set_up_relay :: "host_env \<Rightarrow> host_options \<Rightarrow> host_fs \<Rightarrow> host_options \<times> host_fs" where
  "set_up_relay e h fs =
     (let relay = ho_relay h
      in if relay = [] then (h, fs)
         else
           let colon = find_last_of (bytes_of '':'') relay;
               h = on_cfg (\<lambda>c. c\<lparr>cfg_relay_host := before colon relay,
                     cfg_relay_port := (case colon of None \<Rightarrow> 443 | Some n \<Rightarrow> c_atoi (drop (n + 1) relay))\<rparr>) h
           in case load_or_create_relay_id (env_id_random e) (path_dir (ho_key_file h) @ bytes_of ''/relay_id'') fs of
                (Some (ident, key), fs) \<Rightarrow> (on_cfg (\<lambda>c. c\<lparr>cfg_relay_id := ident, cfg_relay_key := key\<rparr>) h, fs)
              | (None, fs) \<Rightarrow> (on_cfg (\<lambda>c. c\<lparr>cfg_relay_host := []\<rparr>) h, fs))"

definition loopback :: "bytes \<Rightarrow> bool" where
  "loopback b \<longleftrightarrow> b = bytes_of ''127.0.0.1'' \<or> b = bytes_of ''::1''"

definition settle_password :: "host_env \<Rightarrow> host_options \<Rightarrow> int + host_options" where
  "settle_password e h =
     (let pw = cfg_password (ho_cfg h)
      in if pw \<noteq> [] \<and> length pw < 8 \<and> \<not> loopback (ho_bind h) then Inl 1
         else Inr (if pw = [] then on_cfg (\<lambda>c. c\<lparr>cfg_password := random_password (env_password_raw e)\<rparr>) h else h))"

text \<open>\<open>td_host_main\<close> up to the server's constructor: an exit status, or the options it is given.\<close>

definition host_main :: "host_env \<Rightarrow> bytes list \<Rightarrow> host_fs \<Rightarrow> (int + host_options) \<times> host_fs" where
  "host_main e args fs =
     (case parse_options fs args default_options of
        Inl code \<Rightarrow> (Inl code, fs)
      | Inr h \<Rightarrow>
          if \<not> env_net_ok e \<or> \<not> ho_demo h \<and> \<not> env_native_ok e then (Inl 1, fs)
          else if ho_list_only h then (Inl 0, fs)
          else
            let h = default_paths e fs h
            in case load_or_create_host_key (env_key_random e) (ho_key_file h) fs of
                 (None, fs) \<Rightarrow> (Inl 1, fs)
               | (Some (priv, pub), fs) \<Rightarrow>
                   (let h = on_cfg (\<lambda>c. c\<lparr>cfg_static_priv := priv, cfg_static_pub := pub\<rparr>) h;
                        (h, fs) = set_up_relay e h fs
                    in (case settle_password e h of
                          Inl code \<Rightarrow> Inl code
                        | Inr h \<Rightarrow> Inr (on_cfg (\<lambda>c. c\<lparr>cfg_host_name := env_host_name e\<rparr>) h), fs)))"

text \<open>
  The constructor and the beginning of \<open>Server::run\<close>: ten ports are tried, without a listener only the
  relay remains. \<open>w\<close> holds what is not the server's own: the platform, the clock, the disk.
\<close>

definition pick_port :: "host_env \<Rightarrow> host_options \<Rightarrow> int option" where
  "pick_port e h = find (\<lambda>p. env_can_listen e (ho_bind h) p \<or> ho_bind h = bytes_of ''::'' \<and> env_can_listen e (bytes_of ''0.0.0.0'') p)
     (map (\<lambda>k. ho_port h + k) [0..9])"

definition new_server :: "config \<Rightarrow> server \<Rightarrow> server" where
  "new_server cfg w = w\<lparr>sv_cfg := cfg, sv_conns := [], sv_conn := \<lambda>_. new_conn [] 0, sv_fresh := 0, sv_next_id := 1, sv_clip_count := 0,
     sv_last_clip := [], sv_displays := [], sv_next_clip_poll_us := 0, sv_console_buf := [], sv_failures := \<lambda>_. None,
     sv_recent_failures := [], sv_relay_ctl := None, sv_relay_next_us := 0, sv_relay_backoff_us := 2000000, sv_relay_online := False\<rparr>"

definition server_run :: "host_env \<Rightarrow> host_options \<Rightarrow> server \<Rightarrow> int + server" where
  "server_run e h w =
     (if pick_port e h = None \<and> cfg_relay_host (ho_cfg h) = [] then Inl 1
      else if \<not> env_capture_ok e (ho_display h) (cfg_max_fps (ho_cfg h)) then Inl 1
      else
        let s = new_server (ho_cfg h) w
        in Inr (s\<lparr>sv_displays := pl_displays (sv_plat s), sv_clip_count := pl_clip_count (sv_plat s),
             sv_last_clip := (case pl_clip_text (sv_plat s) of Some t \<Rightarrow> t | None \<Rightarrow> [])\<rparr>))"

section \<open>What a started host is set up with\<close>

definition options_ok :: "host_options \<Rightarrow> bool" where
  "options_ok h \<longleftrightarrow> 1 \<le> cfg_max_fps (ho_cfg h) \<and> cfg_max_fps (ho_cfg h) \<le> 60 \<and> 1 \<le> cfg_max_viewers (ho_cfg h) \<and>
     (ho_threads h = 0 \<or> 1 \<le> ho_threads h \<and> ho_threads h \<le> 64)"

lemma options_ok_on_cfg:
  "cfg_max_fps (f (ho_cfg h)) = cfg_max_fps (ho_cfg h) \<Longrightarrow> cfg_max_viewers (f (ho_cfg h)) = cfg_max_viewers (ho_cfg h) \<Longrightarrow>
     options_ok (on_cfg f h) = options_ok h"
  by (simp add: options_ok_def on_cfg_def)

lemma options_ok_flag: "set_flag a h = Some h' \<Longrightarrow> options_ok h \<Longrightarrow> options_ok h'"
  unfolding set_flag_def by (auto simp: options_ok_def on_cfg_def split: if_splits)

lemma options_ok_value: "set_value a v h = Some h' \<Longrightarrow> options_ok h \<Longrightarrow> options_ok h'"
  unfolding set_value_def by (auto simp: options_ok_def on_cfg_def split: if_splits)

lemma parse_options_cases:
  assumes "parse_options fs (a # as) h = Inr h'"
  obtains (flag) g where "set_flag a h = Some g" "parse_options fs as g = Inr h'"
    | (password) v as' d where "as = v # as'" "parse_options fs as' (on_cfg (\<lambda>c. c\<lparr>cfg_password := first_line d\<rparr>) h) = Inr h'"
    | (other) v as' g where "as = v # as'" "set_value a v h = Some g" "parse_options fs as' g = Inr h'"
  using assms unfolding parse_options.simps(2)
  by (cases "set_flag a h"; cases as; simp only: option.case list.case split: if_splits option.split_asm; blast?)

lemma options_ok_parse: "parse_options fs as h = Inr h' \<Longrightarrow> options_ok h \<Longrightarrow> options_ok h'"
proof (induction "length as" arbitrary: as h rule: less_induct)
  case less
  show ?case
  proof (cases as)
    case Nil
    then show ?thesis using less by simp
  next
    case (Cons a bs)
    with less.prems(1) have "parse_options fs (a # bs) h = Inr h'" by simp
    then show ?thesis
    proof (cases rule: parse_options_cases)
      case (flag g)
      then show ?thesis using less.hyps [of bs g] options_ok_flag less.prems(2) Cons by fastforce
    next
      case (password v as' d)
      then show ?thesis using less.hyps [OF _ password(2)] less.prems(2) Cons by (simp add: options_ok_on_cfg)
    next
      case (other v as' g)
      then show ?thesis using less.hyps [of as' g] options_ok_value less.prems(2) Cons by fastforce
    qed
  qed
qed

lemma options_ok_default: "options_ok default_options"
  by (simp add: options_ok_def default_options_def default_config_def)

lemma options_ok_paths: "options_ok (default_paths e fs h) = options_ok h"
proof -
  have "options_ok (g\<lparr>ho_key_file := x\<rparr>) = options_ok g" for g x by (simp add: options_ok_def)
  then show ?thesis by (simp add: default_paths_def Let_def options_ok_on_cfg)
qed

lemma ho_bind_on_cfg [simp]: "ho_bind (on_cfg f h) = ho_bind h" "ho_cfg (on_cfg f h) = f (ho_cfg h)"
  by (simp_all add: on_cfg_def)

lemma set_up_relay_frame:
  assumes "set_up_relay e h fs = (h', fs')"
  shows "options_ok h' = options_ok h" "ho_bind h' = ho_bind h" "cfg_static_priv (ho_cfg h') = cfg_static_priv (ho_cfg h)"
    "cfg_static_pub (ho_cfg h') = cfg_static_pub (ho_cfg h)"
  using assms by (auto simp: set_up_relay_def Let_def options_ok_on_cfg split: if_splits option.splits prod.splits)

lemma length_random_password: "length (random_password raw) = 11"
  by (simp add: random_password_def Let_def upt_rec)

lemma settle_password_ok:
  assumes "settle_password e h = Inr h'"
  shows "8 \<le> length (cfg_password (ho_cfg h')) \<or> loopback (ho_bind h')" "cfg_password (ho_cfg h') \<noteq> []"
    "options_ok h' = options_ok h" "cfg_static_priv (ho_cfg h') = cfg_static_priv (ho_cfg h)" "cfg_static_pub (ho_cfg h') = cfg_static_pub (ho_cfg h)"
proof -
  have "random_password raw \<noteq> []" for raw using length_random_password [of raw] by auto
  then show "8 \<le> length (cfg_password (ho_cfg h')) \<or> loopback (ho_bind h')" "cfg_password (ho_cfg h') \<noteq> []"
    "options_ok h' = options_ok h" "cfg_static_priv (ho_cfg h') = cfg_static_priv (ho_cfg h)" "cfg_static_pub (ho_cfg h') = cfg_static_pub (ho_cfg h)"
    using assms by (auto simp: settle_password_def Let_def options_ok_on_cfg length_random_password split: if_splits)
qed

lemma host_key_pair:
  assumes "load_or_create_host_key rnd path fs = (Some (priv, pub), fs')" "\<forall>r. rnd = Some r \<longrightarrow> length r = 32"
  shows "length priv = 32 \<and> pub = rd_x25519_base priv"
  using assms by (auto simp: load_or_create_host_key_def create_host_key_def rd_x25519_keypair_def Let_def split: option.splits if_splits prod.splits)

text \<open>C7:
  whatever the options, files and random bytes, a host that starts has a password, of eight characters or
  more unless it is bound to the loopback address, at least one viewer, 1 to 60 frames a second, at most 64
  encoder threads and the key pair of its identity, and its server starts in the state the server's
  invariants begin with.
\<close>

theorem host_starts_within_policy:
  assumes "host_main e args fs = (Inr h, fs')" "\<forall>r. env_key_random e = Some r \<longrightarrow> length r = 32"
  shows "cfg_password (ho_cfg h) \<noteq> [] \<and> (8 \<le> length (cfg_password (ho_cfg h)) \<or> loopback (ho_bind h)) \<and>
    1 \<le> cfg_max_viewers (ho_cfg h) \<and> cfg_max_fps (ho_cfg h) \<in> {1..60} \<and> ho_threads h \<in> {0..64} \<and>
    length (cfg_static_priv (ho_cfg h)) = 32 \<and> cfg_static_pub (ho_cfg h) = rd_x25519_base (cfg_static_priv (ho_cfg h)) \<and>
    (\<forall>w s. server_run e h w = Inr s \<longrightarrow> server_start s)"
proof -
  obtain h0 where h0: "parse_options fs args default_options = Inr h0"
    using assms(1) by (cases "parse_options fs args default_options") (simp_all add: host_main_def)
  define h1 where "h1 = default_paths e fs h0"
  obtain k fs1 where k: "load_or_create_host_key (env_key_random e) (ho_key_file h1) fs = (k, fs1)" by fastforce
  obtain priv pub where kk: "k = Some (priv, pub)"
    using assms(1) k by (cases k) (auto simp: host_main_def h0 Let_def h1_def split: if_splits)
  define h2 where "h2 = on_cfg (\<lambda>c. c\<lparr>cfg_static_priv := priv, cfg_static_pub := pub\<rparr>) h1"
  obtain h3 fs3 where h3: "set_up_relay e h2 fs1 = (h3, fs3)" by fastforce
  obtain h4 where h4: "settle_password e h3 = Inr h4" and h: "h = on_cfg (\<lambda>c. c\<lparr>cfg_host_name := env_host_name e\<rparr>) h4"
    using assms(1) k kk h3
    by (cases "settle_password e h3") (auto simp: host_main_def h0 Let_def h1_def h2_def split: if_splits)
  have "options_ok h2"
    using options_ok_parse [OF h0 options_ok_default] by (simp add: h2_def options_ok_on_cfg h1_def options_ok_paths)
  then have "options_ok h"
    using set_up_relay_frame(1) [OF h3] settle_password_ok(3) [OF h4] by (simp add: h options_ok_on_cfg)
  moreover have "length priv = 32 \<and> pub = rd_x25519_base priv" using host_key_pair k kk assms(2) by blast
  then have "length (cfg_static_priv (ho_cfg h)) = 32 \<and> cfg_static_pub (ho_cfg h) = rd_x25519_base (cfg_static_priv (ho_cfg h))"
    using settle_password_ok(4,5) [OF h4] set_up_relay_frame(3,4) [OF h3] by (simp add: h h2_def)
  moreover have "server_start s" if "server_run e h w = Inr s" for w s
    using that \<open>options_ok h\<close>
    by (auto simp: server_run_def Let_def new_server_def server_start_def options_ok_def split: if_splits)
  ultimately show ?thesis using settle_password_ok(1,2) [OF h4] by (auto simp: h options_ok_def)
qed

lemma bytes_of_eq: "bytes_of s = bytes_of t \<longleftrightarrow> s = t"
proof -
  have "inj (of_char :: char \<Rightarrow> u8)"
  proof (rule injI)
    fix c d :: char assume e: "(of_char c :: u8) = of_char d"
    have "unat (of_char x :: u8) = of_char x" for x :: char
      unfolding of_nat_of_char [symmetric, where 'a = u8] by (simp add: unat_of_nat del: of_nat_of_char)
    then show "c = d" using e by (metis of_char_eq_iff)
  qed
  then show ?thesis by (simp add: bytes_of_def inj_map_eq_map)
qed

lemma dec_digits_length: "10 ^ k \<le> n \<Longrightarrow> n < 10 ^ Suc k \<Longrightarrow> length (dec_digits n) = Suc k"
proof (induction k arbitrary: n)
  case (Suc k)
  then have "10 ^ k \<le> n div 10" "n div 10 < 10 ^ Suc k"
    using div_le_mono [of "10 ^ Suc k" n 10] by (simp_all add: div_less_iff_less_mult mult.commute)
  moreover have "\<not> n < 10" using Suc.prems by (metis not_le one_le_power power_Suc mult.commute mult_le_mono1 nat_mult_1 le_trans one_le_numeral)
  ultimately show ?case using Suc.IH [of "n div 10"] by (subst dec_digits.simps) simp
qed (simp add: dec_digits.simps)

lemma hex_digit_range: "unat v < 16 \<Longrightarrow> 48 \<le> hex_digit v \<and> hex_digit v \<le> 57 \<or> 97 \<le> hex_digit v \<and> hex_digit v \<le> 102"
proof -
  assume "unat v < 16"
  moreover have "\<forall>i < 16. (48 \<le> bytes_of ''0123456789abcdef'' ! i \<and> bytes_of ''0123456789abcdef'' ! i \<le> 57 \<or>
      97 \<le> bytes_of ''0123456789abcdef'' ! i \<and> bytes_of ''0123456789abcdef'' ! i \<le> 102)" by code_simp
  ultimately show ?thesis by (simp add: hex_digit_def)
qed

lemma new_relay_id_valid:
  assumes "length r = 20" "new_relay_id r = (ident, key)"
  shows "Relay.valid_id ident" "Relay.valid_hex key 32"
proof -
  define n where "n = unat (be32 r mod 900000000 + 100000000)"
  have m: "unat (be32 r mod 900000000) < 900000000"
    using unat_mod [of "be32 r" 900000000] by simp
  then have "n = unat (be32 r mod 900000000) + 100000000" unfolding n_def
    by (subst unat_add_lem [THEN iffD1]) simp_all
  then have n: "10 ^ 8 \<le> n" "n < 10 ^ Suc 8" using m by simp_all
  have "ident = dec_digits n" using assms(2) by (auto simp: new_relay_id_def std_to_string_def n_def)
  then show "Relay.valid_id ident"
    using dec_digits_length [OF n] dec_digits_digit [of _ n] by (auto simp: Relay.valid_id_def list_all_iff is_digit_def)
  have h: "unat (drop_bit 4 b) < 16" "unat (b AND 15) < 16" for b :: u8
    proof -
      have "unat b < 256" using unsigned_less [of b] by simp
      then show "unat (drop_bit 4 b) < 16" by (simp add: unat_drop_bit less_mult_imp_div_less)
      have "b AND 15 = take_bit 4 b" by (simp add: take_bit_eq_mask mask_eq_exp_minus_1)
      then show "unat (b AND 15) < 16" by (simp add: unsigned_take_bit_eq take_bit_eq_mod [of 4 "unat b"])
    qed
  have "key = concat (map (\<lambda>b. [hex_digit (drop_bit 4 b), hex_digit (b AND 15)]) (map (\<lambda>i. r ! i) [4..<20]))"
    using assms(2) by (simp add: new_relay_id_def)
  then show "Relay.valid_hex key 32"
    using hex_digit_range [OF h(1)] hex_digit_range [OF h(2)] by (auto simp: Relay.valid_hex_def list_all_iff upt_rec)
qed


section \<open>The identity survives restarts\<close>

lemma scan_token_word:
  assumes "w \<noteq> []" "length w \<le> n" "\<forall>b \<in> set w. \<not> is_space b" "is_space c"
  shows "scan_token n (w @ c # d) = Some (w, c # d)"
proof -
  have "dropWhile is_space (w @ c # d) = w @ c # d" using assms(1,3) by (cases w) auto
  moreover have "takeWhile (\<lambda>b. \<not> is_space b) (w @ c # d) = w" using assms(3,4) by (simp add: takeWhile_tail)
  moreover have "0 < n" using assms(1,2) by (cases w) auto
  ultimately show ?thesis using assms(1,2) by (simp add: scan_token_def)
qed

lemma scan_token_skip: "is_space c \<Longrightarrow> scan_token n (c # d) = scan_token n d"
  by (simp add: scan_token_def)

lemma printable_range: "(48 \<le> b \<and> b \<le> 57) \<or> (97 \<le> b \<and> b \<le> 102) \<Longrightarrow> b \<noteq> 0 \<and> \<not> is_space b" for b :: u8
  unfolding is_space_def by (auto simp: word_le_nat_alt)

lemma read_relay_id_written:
  assumes "Relay.valid_id ident" "Relay.valid_hex key 32"
  shows "read_relay_id (ident @ [32] @ key @ [10]) = Some (ident, key)"
proof -
  have i: "length ident = 9" "\<forall>b \<in> set ident. b \<noteq> 0 \<and> \<not> is_space b"
    and k: "length key = 32" "\<forall>b \<in> set key. b \<noteq> 0 \<and> \<not> is_space b"
    using assms printable_range by (auto simp: Relay.valid_id_def Relay.valid_hex_def list_all_iff)
  have s: "is_space 32" "is_space 10" by (simp_all add: is_space_def)
  have "scan_token 31 (ident @ 32 # (key @ [10])) = Some (ident, 32 # key @ [10])"
    using i by (intro scan_token_word s) auto
  moreover have "scan_token 79 (32 # key @ [10]) = Some (key, [10])"
    unfolding scan_token_skip [OF s(1)] using k by (intro scan_token_word s) auto
  moreover have "c_str ident = ident" "c_str key = key" using i k by (auto intro!: c_str_id)
  ultimately show ?thesis using i k by (simp add: read_relay_id_def)
qed

lemma fs_write_read: "fs_write p d fs = (Some w, fs') \<Longrightarrow> \<not> fs_full fs \<Longrightarrow>
    fs_read p fs' = Some d \<and> w \<and> (\<forall>q. q \<noteq> p \<longrightarrow> fs_read q fs' = fs_read q fs)"
  by (auto simp: fs_write_def fs_read_def split: if_splits)

lemma make_parents_full: "fs_full (make_parents dir fs) = fs_full fs"
proof -
  have "fs_full (fold (\<lambda>i fs. if (i = length dir \<or> dir ! i = 47) \<and> take i dir \<noteq> [] then fs_mkdir (take i dir) fs else fs) is fs) = fs_full fs" for "is"
    by (induction "is" arbitrary: fs) (auto simp: fs_mkdir_def)
  then show ?thesis unfolding make_parents_def .
qed

lemma host_key_reloads:
  assumes "load_or_create_host_key rnd p fs = (Some (priv, pub), fs')" "\<forall>r. rnd = Some r \<longrightarrow> length r = 32"
  shows "\<exists>d. fs_read p fs' = Some d \<and> 32 \<le> length d \<and> take 32 d = priv \<and> pub = rd_x25519_base priv"
proof (cases "\<exists>d. fs_read p fs = Some d \<and> 32 \<le> length d")
  case True
  then show ?thesis using assms(1) by (auto simp: load_or_create_host_key_def)
next
  case False
  then have c: "create_host_key rnd p fs = (Some (priv, pub), fs')"
    using assms(1) by (auto simp: load_or_create_host_key_def split: option.splits if_splits)
  then obtain fs1 w where k: "rnd = Some priv" "pub = rd_x25519_base priv" "fs_write p priv fs1 = (Some True, fs')"
    by (auto simp: create_host_key_def rd_x25519_keypair_def Let_def split: option.splits prod.splits if_splits)
  then have "\<not> fs_full fs1" by (auto simp: fs_write_def split: if_splits)
  then show ?thesis using fs_write_read [OF k(3)] k(1,2) assms(2) by auto
qed

lemma relay_id_reloads:
  assumes "load_or_create_relay_id rnd p fs = (Some (ident, key), fs')" "\<forall>r. rnd = Some r \<longrightarrow> length r = 20" "\<not> fs_full fs"
  shows "\<exists>d. fs_read p fs' = Some d \<and> read_relay_id d = Some (ident, key)" "\<forall>q. q \<noteq> p \<longrightarrow> fs_read q fs' = fs_read q fs"
    "fs_read p fs = None \<Longrightarrow> Relay.valid_id ident \<and> Relay.valid_hex key 32"
proof -
  consider (loaded) d where "fs_read p fs = Some d" "read_relay_id d = Some (ident, key)" "fs' = fs"
    | (created) "create_relay_id rnd p fs = (Some (ident, key), fs')"
    using assms(1) by (auto simp: load_or_create_relay_id_def split: option.splits)
  then have "(\<exists>d. fs_read p fs' = Some d \<and> read_relay_id d = Some (ident, key)) \<and> (\<forall>q. q \<noteq> p \<longrightarrow> fs_read q fs' = fs_read q fs) \<and>
      (fs_read p fs = None \<longrightarrow> Relay.valid_id ident \<and> Relay.valid_hex key 32)"
  proof cases
    case created
    then obtain r w where r: "rnd = Some r" "new_relay_id r = (ident, key)" "fs_write p (ident @ [32] @ key @ [10]) fs = (Some w, fs')"
      by (auto simp: create_relay_id_def Let_def split: option.splits prod.splits if_splits)
    then have "Relay.valid_id ident" "Relay.valid_hex key 32" using new_relay_id_valid assms(2) by blast+
    then show ?thesis using fs_write_read [OF r(3) assms(3)] read_relay_id_written by auto
  qed auto
  then show "\<exists>d. fs_read p fs' = Some d \<and> read_relay_id d = Some (ident, key)" "\<forall>q. q \<noteq> p \<longrightarrow> fs_read q fs' = fs_read q fs"
    "fs_read p fs = None \<Longrightarrow> Relay.valid_id ident \<and> Relay.valid_hex key 32" by blast+
qed

text \<open>C8:
  identity key and relay ID, once loaded or created, are loaded again at every later start, whatever random
  bytes that start would draw (while the disk is not full and the two files are different ones), and a
  created ID has the form the relay accepts.
\<close>

theorem host_identity_survives_restart:
  assumes "load_or_create_host_key (Some r) kp fs = (Some (priv, pub), fs1)" "length r = 32"
    and "load_or_create_relay_id (Some q) rp fs1 = (Some (ident, key), fs2)" "length q = 20"
    and "kp \<noteq> rp" "\<not> fs_full fs1"
  shows "load_or_create_host_key rnd kp fs2 = (Some (priv, pub), fs2) \<and>
    load_or_create_relay_id rnd' rp fs2 = (Some (ident, key), fs2) \<and>
    (fs_read rp fs1 = None \<longrightarrow> Relay.valid_id ident \<and> Relay.valid_hex key 32)"
proof -
  obtain d where d: "fs_read kp fs1 = Some d" "32 \<le> length d" "take 32 d = priv" "pub = rd_x25519_base priv"
    using host_key_reloads [OF assms(1)] assms(2) by auto
  note id = relay_id_reloads [OF assms(3) _ assms(6)]
  obtain e where e: "fs_read rp fs2 = Some e" "read_relay_id e = Some (ident, key)" using id(1) assms(4) by auto
  have "fs_read kp fs2 = Some d" using id(2) assms(4,5) d(1) by simp
  then show ?thesis using d(2-4) e id(3) assms(4) by (simp add: load_or_create_host_key_def load_or_create_relay_id_def)
qed


definition demo_disk :: host_fs where
  "demo_disk = \<lparr>fs_files = \<lambda>_. None, fs_dirs = \<lambda>p. p = bytes_of ''/h'', fs_refuses = \<lambda>_. False, fs_full = False\<rparr>"

theorem host_identity_survives_restart_witness:
  "\<exists>fs1 fs2 priv pub ident key.
     load_or_create_host_key (Some (replicate 32 7)) (bytes_of ''/h/host_key'') demo_disk = (Some (priv, pub), fs1) \<and>
     load_or_create_relay_id (Some (replicate 20 9)) (bytes_of ''/h/relay_id'') fs1 = (Some (ident, key), fs2) \<and>
     load_or_create_host_key None (bytes_of ''/h/host_key'') fs2 = (Some (priv, pub), fs2) \<and>
     load_or_create_relay_id None (bytes_of ''/h/relay_id'') fs2 = (Some (ident, key), fs2) \<and> Relay.valid_id ident"
proof -
  define kp where "kp = bytes_of ''/h/host_key''"
  define rp where "rp = bytes_of ''/h/relay_id''"
  have ne: "kp \<noteq> rp" "kp \<noteq> bytes_of ''/h''" "rp \<noteq> bytes_of ''/h''" by (simp_all add: kp_def rp_def bytes_of_eq)
  have "path_dir kp = bytes_of ''/h''" unfolding kp_def by code_simp
  moreover have "make_parents (bytes_of ''/h'') demo_disk = demo_disk"
    by (simp add: make_parents_def demo_disk_def bytes_of_def upt_rec fs_mkdir_def)
  ultimately obtain fs1 where k: "load_or_create_host_key (Some (replicate 32 7)) kp demo_disk = (Some (replicate 32 7, rd_x25519_base (replicate 32 7)), fs1)"
    and f: "fs_files fs1 rp = None" "\<not> fs_dirs fs1 rp" "\<not> fs_refuses fs1 rp" "\<not> fs_full fs1"
    using ne by (simp add: load_or_create_host_key_def create_host_key_def rd_x25519_keypair_def fs_write_def fs_read_def demo_disk_def)
  obtain ident key where n: "new_relay_id (replicate 20 9) = (ident, key)" by fastforce
  then obtain fs2 where r: "load_or_create_relay_id (Some (replicate 20 9)) rp fs1 = (Some (ident, key), fs2)"
    using f by (simp add: load_or_create_relay_id_def create_relay_id_def fs_write_def fs_read_def)
  have "fs_read rp fs1 = None" using f by (simp add: fs_read_def)
  with host_identity_survives_restart [OF k _ r _ ne(1) f(4)] k r show ?thesis
    unfolding kp_def rp_def by (metis length_replicate)
qed

section \<open>Two ways to be surprised\<close>

text \<open>Values for the options of a host that listens on the loopback address only.\<close>

definition loopback_args :: "bytes \<Rightarrow> bytes list" where
  "loopback_args pw = [bytes_of ''--demo'', bytes_of ''--bind'', bytes_of ''127.0.0.1'', bytes_of ''--password'', pw,
     bytes_of ''--web-root'', bytes_of ''/w'', bytes_of ''--downloads'', bytes_of ''/d'', bytes_of ''--key-file'', bytes_of ''/h/host_key'']"

lemma parse_loopback:
  "parse_options fs (loopback_args pw) default_options =
     Inr (on_cfg (\<lambda>c. c\<lparr>cfg_password := pw, cfg_web_root := bytes_of ''/w'', cfg_downloads_dir := bytes_of ''/d''\<rparr>)
       (default_options\<lparr>ho_demo := True, ho_bind := bytes_of ''127.0.0.1'', ho_key_file := bytes_of ''/h/host_key''\<rparr>))"
  by (simp add: loopback_args_def set_flag_def set_value_def bytes_of_eq on_cfg_def)

lemma host_main_loopback:
  assumes "pw \<noteq> []" "length pw < 8" "env_net_ok e"
    and "fs_read (bytes_of ''/h/host_key'') fs = Some priv" "32 \<le> length priv"
    and "fs_read (bytes_of ''/h/relay_id'') fs = Some d" "read_relay_id d = Some (ident, key)"
  shows "\<exists>h. host_main e (loopback_args pw) fs = (Inr h, fs) \<and> cfg_password (ho_cfg h) = pw \<and>
    cfg_relay_host (ho_cfg h) = bytes_of ''tetherdesk.54-151-75-113.nip.io'' \<and> cfg_relay_id (ho_cfg h) = ident"
proof -
  have p: "path_dir (bytes_of ''/h/host_key'') @ bytes_of ''/relay_id'' = bytes_of ''/h/relay_id''" by code_simp
  have c: "find_last_of (bytes_of '':'') (bytes_of ''tetherdesk.54-151-75-113.nip.io'') = None" by code_simp
  have ne: "bytes_of ''/w'' \<noteq> []" "bytes_of ''/d'' \<noteq> []" "bytes_of ''/h/host_key'' \<noteq> []" "bytes_of ''tetherdesk.54-151-75-113.nip.io'' \<noteq> []"
    by (simp_all add: bytes_of_def)
  have k: "load_or_create_host_key rnd (bytes_of ''/h/host_key'') fs = (Some (take 32 priv, rd_x25519_base (take 32 priv)), fs)" for rnd
    using assms(4,5) by (simp add: load_or_create_host_key_def)
  have i: "load_or_create_relay_id rnd (bytes_of ''/h/relay_id'') fs = (Some (ident, key), fs)" for rnd
    using assms(6,7) by (simp add: load_or_create_relay_id_def)
  obtain h0 where h0: "parse_options fs (loopback_args pw) default_options = Inr h0"
    and f: "ho_demo h0" "\<not> ho_list_only h0" "ho_key_file h0 = bytes_of ''/h/host_key''" "ho_bind h0 = bytes_of ''127.0.0.1''"
      "ho_relay h0 = bytes_of ''tetherdesk.54-151-75-113.nip.io''" "cfg_password (ho_cfg h0) = pw"
      "cfg_web_root (ho_cfg h0) = bytes_of ''/w''" "cfg_downloads_dir (ho_cfg h0) = bytes_of ''/d''"
    by (simp add: parse_loopback) (simp add: on_cfg_def default_options_def)
  show ?thesis
    using assms(1-3)
    by (simp add: host_main_def h0 f default_paths_def Let_def on_cfg_def ne k set_up_relay_def c p i
        before_def settle_password_def loopback_def)
qed

definition demo_host_files :: host_fs where
  "demo_host_files = \<lparr>fs_files = (\<lambda>_. None)(bytes_of ''/h/host_key'' \<mapsto> replicate 32 1,
     bytes_of ''/h/relay_id'' \<mapsto> bytes_of ''123456789 0123456789abcdef0123456789abcdef''),
     fs_dirs = \<lambda>_. False, fs_refuses = \<lambda>_. False, fs_full = False\<rparr>"

definition demo_env :: host_env where
  "demo_env = \<lparr>env_home = None, env_xdg = None, env_exe = [], env_key_random = None, env_id_random = None,
     env_password_raw = [], env_net_ok = True, env_native_ok = False, env_host_name = [], env_can_listen = \<lambda>_ _. True,
     env_capture_ok = \<lambda>_ _. True\<rparr>"

lemma demo_host:
  "env_net_ok demo_env" "env_key_random demo_env = None" "bytes_of ''pw'' \<noteq> []" "length (bytes_of ''pw'') < 8"
  "fs_read (bytes_of ''/h/host_key'') demo_host_files = Some (replicate 32 1)"
  "fs_read (bytes_of ''/h/relay_id'') demo_host_files = Some (bytes_of ''123456789 0123456789abcdef0123456789abcdef'')"
  "read_relay_id (bytes_of ''123456789 0123456789abcdef0123456789abcdef'') = Some (bytes_of ''123456789'', bytes_of ''0123456789abcdef0123456789abcdef'')"
proof -
  show "read_relay_id (bytes_of ''123456789 0123456789abcdef0123456789abcdef'') = Some (bytes_of ''123456789'', bytes_of ''0123456789abcdef0123456789abcdef'')"
    by code_simp
qed (simp_all add: demo_env_def fs_read_def demo_host_files_def bytes_of_eq, simp add: bytes_of_def)

text \<open>A host bound to the loopback address is started with any short password although it also registers with
  the relay, through which everyone who knows its ID can reach it.
\<close>

theorem short_password_behind_relay:
  assumes "pw \<noteq> []" "length pw < 8" "env_net_ok e"
    and "fs_read (bytes_of ''/h/host_key'') fs = Some priv" "32 \<le> length priv"
    and "fs_read (bytes_of ''/h/relay_id'') fs = Some d" "read_relay_id d = Some (ident, key)"
  shows "\<exists>h. host_main e (loopback_args pw) fs = (Inr h, fs) \<and> cfg_password (ho_cfg h) = pw \<and>
    cfg_relay_host (ho_cfg h) = bytes_of ''tetherdesk.54-151-75-113.nip.io'' \<and> cfg_relay_id (ho_cfg h) = ident"
  using host_main_loopback [OF assms] .

theorem short_password_behind_relay_witness:
  "\<exists>h. host_main demo_env (loopback_args (bytes_of ''pw'')) demo_host_files = (Inr h, demo_host_files) \<and>
     cfg_password (ho_cfg h) = bytes_of ''pw'' \<and> cfg_relay_host (ho_cfg h) = bytes_of ''tetherdesk.54-151-75-113.nip.io'' \<and>
     cfg_relay_id (ho_cfg h) = bytes_of ''123456789''"
  by (rule short_password_behind_relay [OF demo_host(3,4,1,5) _ demo_host(6,7)]) simp

text \<open>
  A key file named without a directory: its own name is taken for the directory and created as one, so the
  file cannot be written, now or ever after.
\<close>

lemma plain_key_file:
  assumes "\<forall>b \<in> set name. b \<noteq> 47 \<and> b \<noteq> 92" "name \<noteq> []" "fs_files fs name = None" "\<not> fs_dirs fs name" "\<not> fs_refuses fs name"
  shows "\<exists>fs'. load_or_create_host_key (Some r) name fs = (None, fs') \<and> fs_dirs fs' name \<and>
    (\<forall>rnd. fst (load_or_create_host_key rnd name fs') = None)"
proof -
  have dir: "path_dir name = name"
  proof -
    have "find_if (\<lambda>b. b \<in> set (bytes_of ''/'' @ [92])) (rev name) = None"
      using assms(1) by (auto simp: find_if_None bytes_of_def)
    then show ?thesis by (simp add: path_dir_def find_last_of_def before_def)
  qed
  have step: "fold (\<lambda>i fs. if (i = length name \<or> name ! i = 47) \<and> take i name \<noteq> [] then fs_mkdir (take i name) fs else fs) is fs = fs"
    if "\<forall>i \<in> set is. i < length name" for "is" and fs
    using that assms(1) by (induction "is" arbitrary: fs) (auto simp: nth_mem)
  have mk: "make_parents name fs = fs_mkdir name fs"
    using step [of "[0..<length name]"] assms(2) by (simp add: make_parents_def)
  have d: "fs_dirs (fs_mkdir name fs) name" using assms by (simp add: fs_mkdir_def)
  have again: "fst (load_or_create_host_key rnd name g) = None" if "fs_dirs g name" for rnd g
  proof -
    have "fs_dirs (make_parents name g) name"
      using step [of "[0..<length name]" g] that assms(2) by (simp add: make_parents_def fs_mkdir_def)
    then show ?thesis using that dir
      by (auto simp: load_or_create_host_key_def fs_read_def create_host_key_def fs_write_def rd_x25519_keypair_def split: option.splits)
  qed
  have "load_or_create_host_key (Some r) name fs = (None, fs_mkdir name fs)"
    using assms d dir mk by (simp add: load_or_create_host_key_def fs_read_def create_host_key_def rd_x25519_keypair_def fs_write_def)
  then show ?thesis using d again by blast
qed


theorem host_starts_within_policy_witness:
  "\<exists>h. host_main demo_env (loopback_args (bytes_of ''pw'')) demo_host_files = (Inr h, demo_host_files) \<and>
     1 \<le> cfg_max_viewers (ho_cfg h) \<and> loopback (ho_bind h) \<and> (\<forall>w. \<exists>s. server_run demo_env h w = Inr s \<and> server_start s)"
proof -
  obtain h where h: "host_main demo_env (loopback_args (bytes_of ''pw'')) demo_host_files = (Inr h, demo_host_files)"
    "cfg_password (ho_cfg h) = bytes_of ''pw''"
    using host_main_loopback [OF demo_host(3,4,1,5) _ demo_host(6,7)] by auto
  have "\<forall>r. env_key_random demo_env = Some r \<longrightarrow> length r = 32" by (simp add: demo_host)
  note p = host_starts_within_policy [OF h(1) this]
  have "pick_port demo_env h = Some (ho_port h)" by (simp add: pick_port_def demo_env_def upto.simps)
  then have "\<exists>s. server_run demo_env h w = Inr s" for w by (simp add: server_run_def Let_def demo_env_def)
  with p h show ?thesis by (fastforce simp: bytes_of_def)
qed

section \<open>The relay\<close>

text \<open>The options \<open>(port, web root, address)\<close>: a value is only taken when there is one, other arguments are skipped.\<close>

fun relay_options :: "bytes list \<Rightarrow> int \<times> bytes \<times> bytes \<Rightarrow> int \<times> bytes \<times> bytes" where
  "relay_options (a # v # as) (port, root, bind) =
     (if a = bytes_of ''--port'' then relay_options as (c_atoi v, root, bind)
      else if a = bytes_of ''--web-root'' then relay_options as (port, v, bind)
      else if a = bytes_of ''--bind'' then relay_options as (port, root, v)
      else relay_options (v # as) (port, root, bind))"
| "relay_options as r = r"

definition relay_main :: "bytes option \<Rightarrow> bytes list \<Rightarrow> (bytes \<Rightarrow> int \<Rightarrow> bool) \<Rightarrow> (bytes \<times> int \<times> bytes) option" where
  "relay_main env_port args can_listen =
     (let (port, root, bind) = relay_options args
            (case env_port of Some p \<Rightarrow> c_atoi p | None \<Rightarrow> 8080, bytes_of ''public'', bytes_of ''::'')
      in if can_listen bind port then Some (bind, port, root)
         else if bind = bytes_of ''::'' \<and> can_listen (bytes_of ''0.0.0.0'') port then Some (bytes_of ''0.0.0.0'', port, root)
         else None)"

text \<open>An explicit address is never widened: the relay listens there or not at all.\<close>

lemma relay_listens_where_asked:
  "relay_main ep [bytes_of ''--bind'', b] can_listen = Some (a, port, root) \<Longrightarrow> b \<noteq> bytes_of ''::'' \<Longrightarrow> a = b"
  by (auto simp: relay_main_def bytes_of_eq Let_def split: if_splits)

end
