(* ===== verification/Host_Process.thy ===== *)
theory Host_Process
  imports Cxx
begin

text \<open>
  \<open>client/host_process.cpp\<close>: the hosting process the desktop programs start, with \<open>posix_spawn\<close> on POSIX and
  with a command line on Windows; and the command lines and the property list of \<open>client/host_service.cpp\<close>.
  The operating system is a map of the child processes that have not been waited for; how a child behaves
  is data of the child.
\<close>

section \<open>Children\<close>

text \<open>
  \<open>ch_polls\<close>: how often \<open>waitpid\<close> finds the child running before it has ended, \<open>None\<close> for ever; \<open>ch_term\<close>: the
  same after \<open>SIGTERM\<close> with the status it ends with, \<open>None\<close> when it ignores the signal. A status is the exit
  code, or \<open>None\<close> when a signal ended the process.
\<close>

record child =
  ch_polls :: "nat option"
  ch_status :: "int option"
  ch_term :: "(nat \<times> int option) option"

type_synonym children = "int \<Rightarrow> child option"

text \<open>\<open>waitpid\<close> with \<open>WNOHANG\<close>: its result, the status, and the children left.\<close>

definition waitpid_nohang :: "int \<Rightarrow> children \<Rightarrow> int \<times> int option \<times> children" where
  "waitpid_nohang p os =
     (case os p of
        None \<Rightarrow> (- 1, None, os)
      | Some c \<Rightarrow>
          (case ch_polls c of
             None \<Rightarrow> (0, None, os)
           | Some 0 \<Rightarrow> (p, ch_status c, os(p := None))
           | Some (Suc n) \<Rightarrow> (0, None, os(p \<mapsto> c\<lparr>ch_polls := Some n\<rparr>))))"

definition kill_term :: "int \<Rightarrow> children \<Rightarrow> children" where
  "kill_term p os =
     (case os p of
        None \<Rightarrow> os
      | Some c \<Rightarrow>
          (case ch_term c of
             None \<Rightarrow> os
           | Some (n, st) \<Rightarrow>
               (case ch_polls c of
                  Some k \<Rightarrow> if k \<le> n then os else os(p \<mapsto> c\<lparr>ch_polls := Some n, ch_status := st\<rparr>)
                | None \<Rightarrow> os(p \<mapsto> c\<lparr>ch_polls := Some n, ch_status := st\<rparr>))))"

text \<open>\<open>SIGKILL\<close> cannot be ignored, so the blocking \<open>waitpid\<close> after it returns and the child is gone.\<close>

definition kill_kill :: "int \<Rightarrow> children \<Rightarrow> children" where
  "kill_kill p os = (case os p of None \<Rightarrow> os | Some c \<Rightarrow> os(p \<mapsto> c\<lparr>ch_polls := Some 0, ch_status := None\<rparr>))"

definition waitpid_blocking :: "int \<Rightarrow> children \<Rightarrow> children" where
  "waitpid_blocking p os = os(p := None)"

section \<open>\<open>HostProcess\<close> on POSIX\<close>

record host_process =
  hp_pid :: int
  hp_exit_code :: int

definition new_process :: host_process where
  "new_process = \<lparr>hp_pid = 0, hp_exit_code = - 1\<rparr>"

text \<open>Up to thirty polls, 50 ms apart; whether the child was seen to end, and how many polls it took.\<close>

fun stop_loop :: "nat \<Rightarrow> int \<Rightarrow> children \<Rightarrow> bool \<times> children" where
  "stop_loop 0 p os = (False, os)"
| "stop_loop (Suc n) p os =
     (let (r, st, os) = waitpid_nohang p os in if r = p then (True, os) else stop_loop n p os)"

definition hp_stop :: "host_process \<times> children \<Rightarrow> host_process \<times> children" where
  "hp_stop = (\<lambda>(h, os).
     if hp_pid h \<le> 0 then (h, os)
     else let (ended, os) = stop_loop 30 (hp_pid h) (kill_term (hp_pid h) os)
          in (h\<lparr>hp_pid := 0\<rparr>, if ended then os else waitpid_blocking (hp_pid h) (kill_kill (hp_pid h) os)))"

definition hp_running :: "host_process \<times> children \<Rightarrow> bool \<times> host_process \<times> children" where
  "hp_running = (\<lambda>(h, os).
     if hp_pid h \<le> 0 then (False, h, os)
     else let (r, st, os) = waitpid_nohang (hp_pid h) os
          in if r = 0 then (True, h, os)
             else (False, h\<lparr>hp_exit_code := (case st of Some code \<Rightarrow> if r = hp_pid h then code else - 1 | None \<Rightarrow> - 1), hp_pid := 0\<rparr>, os))"

text \<open>\<open>spawned\<close> is what \<open>posix_spawn\<close> answers: an error number, or the process it made.\<close>

definition hp_start :: "int + int \<times> child \<Rightarrow> bytes \<Rightarrow> host_process \<times> children \<Rightarrow> (bytes option) \<times> host_process \<times> children" where
  "hp_start spawned exe s =
     (let (h, os) = hp_stop s; h = h\<lparr>hp_exit_code := - 1\<rparr>
      in case spawned of
           Inl rc \<Rightarrow> (Some (bytes_of ''cannot start '' @ exe @ bytes_of '' (error '' @ std_to_string rc @ bytes_of '')''), h\<lparr>hp_pid := 0\<rparr>, os)
         | Inr (pid, c) \<Rightarrow> (None, h\<lparr>hp_pid := pid\<rparr>, os(pid \<mapsto> c)))"

datatype hp_op = Op_start "int + int \<times> child" bytes | Op_stop | Op_running

fun hp_step :: "hp_op \<Rightarrow> host_process \<times> children \<Rightarrow> host_process \<times> children" where
  "hp_step (Op_start spawned exe) s = snd (hp_start spawned exe s)"
| "hp_step Op_stop s = hp_stop s"
| "hp_step Op_running s = snd (hp_running s)"

section \<open>No child is lost\<close>

text \<open>
  The process knows its child and every other child is as it was. The system gives a new child a
  positive number that no child not waited for has.
\<close>

definition owns_child :: "children \<Rightarrow> host_process \<times> children \<Rightarrow> bool" where
  "owns_child others s \<longleftrightarrow> 0 \<le> hp_pid (fst s) \<and>
     (if hp_pid (fst s) = 0 then snd s = others
      else others (hp_pid (fst s)) = None \<and> (\<exists>c. snd s = others(hp_pid (fst s) \<mapsto> c)))"

fun op_ok :: "children \<Rightarrow> hp_op \<Rightarrow> bool" where
  "op_ok others (Op_start (Inr (pid, c)) exe) \<longleftrightarrow> 0 < pid \<and> others pid = None"
| "op_ok others op \<longleftrightarrow> True"

lemma waitpid_own:
  assumes "os = others(p \<mapsto> c)" "others p = None" "0 < p" "waitpid_nohang p os = (r, st, os')"
  shows "r = p \<and> os' = others \<or> r = 0 \<and> st = None \<and> (\<exists>c. os' = others(p \<mapsto> c))"
  using assms by (auto simp: waitpid_nohang_def fun_upd_idem split: option.splits nat.splits)

lemma kill_own: "\<exists>c'. kill_term p (others(p \<mapsto> c)) = others(p \<mapsto> c')"
  by (auto simp: kill_term_def split: option.splits)

lemma stop_loop_own:
  assumes "others p = None" "0 < p"
  shows "stop_loop n p (others(p \<mapsto> c)) = (e, os') \<Longrightarrow> if e then os' = others else \<exists>c. os' = others(p \<mapsto> c)"
proof (induction n arbitrary: c)
  case (Suc n)
  obtain r st os2 where w: "waitpid_nohang p (others(p \<mapsto> c)) = (r, st, os2)" by (metis prod_cases3)
  have l: "(if r = p then (True, os2) else stop_loop n p os2) = (e, os')"
    using Suc.prems unfolding stop_loop.simps(2) w by (simp add: Let_def)
  from waitpid_own [OF refl assms w] show ?case
  proof
    assume "r = p \<and> os2 = others"
    with l show ?thesis by simp
  next
    assume "r = 0 \<and> st = None \<and> (\<exists>c. os2 = others(p \<mapsto> c))"
    with l Suc.IH assms(2) show ?thesis by (metis less_irrefl)
  qed
qed auto

lemma hp_stop_own: "owns_child others s \<Longrightarrow> fst (hp_stop s) = (fst s)\<lparr>hp_pid := 0\<rparr> \<and> snd (hp_stop s) = others"
proof -
  assume s: "owns_child others s"
  obtain h os where "s = (h, os)" by fastforce
  show ?thesis
  proof (cases "hp_pid h = 0")
    case True
    with s show ?thesis by (simp add: \<open>s = _\<close> owns_child_def hp_stop_def)
  next
    case False
    define p where "p = hp_pid h"
    have p: "0 < p" "others p = None" using s False by (auto simp: \<open>s = _\<close> owns_child_def p_def)
    obtain c where "os = others(p \<mapsto> c)" using s False by (auto simp: \<open>s = _\<close> owns_child_def p_def)
    then obtain c' where k: "kill_term p os = others(p \<mapsto> c')" using kill_own by metis
    obtain e os2 where l: "stop_loop 30 p (others(p \<mapsto> c')) = (e, os2)" by fastforce
    from stop_loop_own [OF p(2,1) l] show ?thesis
      using p k l by (auto simp: \<open>s = _\<close> hp_stop_def p_def [symmetric] Let_def waitpid_blocking_def kill_kill_def fun_upd_idem)
  qed
qed

lemma hp_step_owns: "owns_child others s \<Longrightarrow> op_ok others op \<Longrightarrow> owns_child others (hp_step op s)"
proof (cases op)
  case (Op_start spawned exe)
  assume "owns_child others s" "op_ok others op"
  with hp_stop_own [OF this(1)] Op_start show ?thesis
    by (cases "hp_stop s") (auto simp: hp_start_def owns_child_def Let_def split: sum.splits)
next
  case Op_stop
  assume "owns_child others s"
  with hp_stop_own [OF this] Op_stop show ?thesis by (simp add: owns_child_def)
next
  case Op_running
  assume s: "owns_child others s"
  obtain h os where "s = (h, os)" by fastforce
  obtain r st os2 where w: "waitpid_nohang (hp_pid h) os = (r, st, os2)" by (metis prod_cases3)
  show ?thesis
  proof (cases "hp_pid h = 0")
    case True
    with s show ?thesis by (simp add: Op_running \<open>s = _\<close> hp_running_def)
  next
    case False
    then obtain c where "os = others(hp_pid h \<mapsto> c)" and p: "others (hp_pid h) = None" "0 < hp_pid h"
      using s by (auto simp: \<open>s = _\<close> owns_child_def)
    from waitpid_own [OF this w] show ?thesis
      using p by (auto simp: Op_running \<open>s = _\<close> hp_running_def w owns_child_def)
  qed
qed

text \<open>C21:
  whatever is started, stopped and asked for, in any order, the program has at most one hosting process, the
  one it knows; every earlier one was waited for, and after stopping there is none. Other children of the
  program are not touched.
\<close>

theorem host_process_leaks_nothing:
  assumes "\<forall>op \<in> set ops. op_ok others op" "fold hp_step ops (new_process, others) = (h, os)"
  shows "(if hp_pid h = 0 then os = others else others (hp_pid h) = None \<and> (\<exists>c. os = others(hp_pid h \<mapsto> c))) \<and>
    hp_pid (fst (hp_stop (h, os))) = 0 \<and> snd (hp_stop (h, os)) = others"
proof -
  have "owns_child others (fold hp_step ops s)" if "owns_child others s" for s
    using assms(1) that by (induction ops arbitrary: s) (simp_all add: hp_step_owns)
  then have o: "owns_child others (h, os)" using assms(2) by (metis owns_child_def new_process_def fst_conv snd_conv host_process.select_convs(1) order_refl)
  from hp_stop_own [OF this] o show ?thesis by (cases "hp_pid h = 0") (simp_all add: owns_child_def)
qed

definition demo_child :: child where
  "demo_child = \<lparr>ch_polls = None, ch_status = Some 0, ch_term = Some (3, Some 0)\<rparr>"

theorem host_process_leaks_nothing_witness:
  "\<exists>h os. fold hp_step [Op_start (Inr (7, demo_child)) [], Op_running, Op_start (Inr (8, demo_child)) [], Op_running]
     (new_process, \<lambda>_. None) = (h, os) \<and> hp_pid h = 8 \<and> os 7 = None \<and> os 8 = Some demo_child \<and> snd (hp_stop (h, os)) = (\<lambda>_. None)"
proof -
  define ops where "ops = [Op_start (Inr (7, demo_child)) [], Op_running, Op_start (Inr (8, demo_child)) [], Op_running]"
  obtain h os where r: "fold hp_step ops (new_process, \<lambda>_. None) = (h, os)" by fastforce
  have v: "hp_pid h = 8" "os 7 = None" "os 8 = Some demo_child"
    using r by (auto simp: ops_def hp_start_def hp_stop_def hp_running_def new_process_def waitpid_nohang_def demo_child_def
        kill_term_def Let_def eval_nat_numeral split: if_splits)
  have "\<forall>op \<in> set ops. op_ok (\<lambda>_. None) op" by (simp add: ops_def)
  from host_process_leaks_nothing [OF this r] r v show ?thesis unfolding ops_def by blast
qed

text \<open>A host that ends within thirty polls of \<open>SIGTERM\<close> is not killed; a started host is found running, and its exit code is kept.\<close>

lemma stop_loop_waits: "os p = Some c \<Longrightarrow> ch_polls c = Some k \<Longrightarrow> k < n \<Longrightarrow> 0 < p \<Longrightarrow> fst (stop_loop n p os)"
proof (induction n arbitrary: os c k)
  case (Suc n)
  show ?case
  proof (cases k)
    case 0
    with Suc.prems show ?thesis by (simp add: waitpid_nohang_def)
  next
    case (Suc m)
    with Suc.prems Suc.IH [of "os(p \<mapsto> c\<lparr>ch_polls := Some m\<rparr>)" "c\<lparr>ch_polls := Some m\<rparr>" m] show ?thesis
      by (simp add: waitpid_nohang_def fun_upd_same del: fun_upd_apply)
  qed
qed simp

lemma hp_running_after_start:
  "0 < pid \<Longrightarrow> hp_start (Inr (pid, c)) exe s = (e, s') \<Longrightarrow>
   fst (hp_running s') \<longleftrightarrow> ch_polls c \<noteq> Some 0"
  by (auto simp: hp_start_def hp_running_def waitpid_nohang_def Let_def split: prod.splits option.splits nat.splits)

lemma hp_running_exit_code:
  "0 < pid \<Longrightarrow> hp_start (Inr (pid, c\<lparr>ch_polls := Some 0, ch_status := Some code\<rparr>)) exe s = (e, s') \<Longrightarrow>
   hp_exit_code (fst (snd (hp_running s'))) = code"
  by (auto simp: hp_start_def hp_running_def waitpid_nohang_def Let_def split: prod.splits)

section \<open>Command lines on Windows\<close>

type_synonym wtext = "u16 list"

fun quote_loop :: "nat \<Rightarrow> wtext \<Rightarrow> wtext" where
  "quote_loop bs [] = replicate (bs * 2) 92"
| "quote_loop bs (c # a) =
     (if c = 92 then quote_loop (bs + 1) a
      else if c = 34 then replicate (bs * 2 + 1) 92 @ c # quote_loop 0 a
      else replicate bs 92 @ c # quote_loop 0 a)"

definition plain_arg :: "wtext \<Rightarrow> bool" where
  "plain_arg a \<longleftrightarrow> a \<noteq> [] \<and> 32 \<notin> set a \<and> 9 \<notin> set a \<and> 34 \<notin> set a"

definition quote_arg :: "wtext \<Rightarrow> wtext" where
  "quote_arg a = (if plain_arg a then a else 34 # quote_loop 0 a @ [34])"

definition command_line :: "wtext \<Rightarrow> wtext list \<Rightarrow> wtext" where
  "command_line exe args = quote_arg exe @ concat (map (\<lambda>a. 32 # quote_arg a) args)"

text \<open>The quoting of \<open>host_service.cpp\<close>, and the command line of the service.\<close>

definition service_quote :: "wtext \<Rightarrow> wtext" where
  "service_quote a = (if plain_arg a then a else 34 # concat (map (\<lambda>c. if c = 34 then [92, c] else [c]) a) @ [34])"

definition service_option :: wtext where
  "service_option = map (\<lambda>c. of_char c) '' --host-service ''"

definition service_command :: "wtext \<Rightarrow> wtext \<Rightarrow> wtext list \<Rightarrow> wtext" where
  "service_command exe log args =
     service_quote exe @ service_option @ service_quote log @ concat (map (\<lambda>a. 32 # service_quote a) args)"

text \<open>
  How the C runtime of the started program cuts its command line: blanks and tabs outside quotes separate
  arguments; \<open>2n\<close> backslashes before a quote stand for \<open>n\<close> and the quote opens or closes, \<open>2n + 1\<close> stand for \<open>n\<close> and a
  quote; a doubled quote inside quotes is one; other backslashes are themselves. The name of the program
  knows no escapes.
\<close>

abbreviation (input) blank :: "u16 \<Rightarrow> bool" where
  "blank c \<equiv> c = 32 \<or> c = 9"

function crt_arg :: "bool \<Rightarrow> nat \<Rightarrow> wtext \<Rightarrow> wtext \<times> wtext" where
  "crt_arg q bs [] = (replicate bs 92, [])"
| "crt_arg q bs (c # s) =
     (if c = 92 then crt_arg q (bs + 1) s
      else if c = 34 then
        (if odd bs then apfst (\<lambda>a. replicate (bs div 2) 92 @ 34 # a) (crt_arg q 0 s)
         else if q \<and> s \<noteq> [] \<and> hd s = 34 then apfst (\<lambda>a. replicate (bs div 2) 92 @ 34 # a) (crt_arg q 0 (tl s))
         else apfst (\<lambda>a. replicate (bs div 2) 92 @ a) (crt_arg (\<not> q) 0 s))
      else if \<not> q \<and> blank c then (replicate bs 92, c # s)
      else apfst (\<lambda>a. replicate bs 92 @ c # a) (crt_arg q 0 s))"
  by pat_completeness auto
termination by (relation "measure (\<lambda>(q, bs, s). length s)") auto

declare crt_arg.simps(2) [simp del]

lemma crt_arg_rest: "length (snd (crt_arg q bs s)) \<le> length s"
proof (induction q bs s rule: crt_arg.induct)
  case (2 q bs c s)
  then show ?case by (subst crt_arg.simps(2)) (auto simp: apfst_def split: prod.splits)
qed simp

lemma crt_arg_shorter: "\<not> blank c \<Longrightarrow> length (snd (crt_arg False 0 (c # s))) < Suc (length s)"
  using crt_arg_rest [of False 1 s] crt_arg_rest [of True 0 s] crt_arg_rest [of False 0 s]
  by (subst crt_arg.simps(2)) (auto simp: apfst_def split: prod.splits)

function crt_args :: "wtext \<Rightarrow> wtext list" where
  "crt_args s =
     (case dropWhile (\<lambda>c. blank c) s of
        [] \<Rightarrow> []
      | c # t \<Rightarrow> fst (crt_arg False 0 (c # t)) # crt_args (snd (crt_arg False 0 (c # t))))"
  by pat_completeness auto
termination
proof (relation "measure length", goal_cases)
  case (2 s c t)
  have "\<not> blank c" using hd_dropWhile [of "\<lambda>c. blank c" s] 2 by simp
  moreover have "length (c # t) \<le> length s" using length_dropWhile_le [of "\<lambda>c. blank c" s] 2 by simp
  ultimately show ?case using crt_arg_shorter [of c t] by simp
qed simp

declare crt_args.simps [simp del]

fun crt_prog :: "bool \<Rightarrow> wtext \<Rightarrow> wtext \<times> wtext" where
  "crt_prog q [] = ([], [])"
| "crt_prog q (c # s) =
     (if c = 34 then crt_prog (\<not> q) s
      else if \<not> q \<and> blank c then ([], c # s)
      else apfst (\<lambda>a. c # a) (crt_prog q s))"

definition crt_argv :: "wtext \<Rightarrow> wtext list" where
  "crt_argv s = (let (p, r) = crt_prog False s in p # crt_args r)"

subsection \<open>What is quoted is read\<close>

definition arg_ends :: "wtext \<Rightarrow> bool" where
  "arg_ends rest \<longleftrightarrow> rest = [] \<or> hd rest = 32"

lemma arg_ends_simps [simp]: "arg_ends []" "arg_ends (32 # s)"
  by (simp_all add: arg_ends_def)

lemma crt_arg_backslashes: "crt_arg q k (replicate n 92 @ s) = crt_arg q (k + n) s"
  by (induction n arbitrary: k) (simp_all add: crt_arg.simps(2))

lemma crt_arg_end: "arg_ends rest \<Longrightarrow> crt_arg False k rest = (replicate k 92, rest)"
  by (cases rest) (auto simp: arg_ends_def crt_arg.simps(2))

lemma crt_arg_plain:
  "arg_ends rest \<Longrightarrow> \<forall>c \<in> set a. c \<noteq> 32 \<and> c \<noteq> 9 \<and> c \<noteq> 34 \<Longrightarrow> crt_arg False k (a @ rest) = (replicate k 92 @ a, rest)"
proof (induction a arbitrary: k)
  case (Cons c a)
  then have i: "crt_arg False m (a @ rest) = (replicate m 92 @ a, rest)" for m by simp
  show ?case
  proof (cases "c = 92")
    case True
    then show ?thesis by (simp add: crt_arg.simps(2) i replicate_app_Cons_same)
  next
    case False
    with Cons.prems show ?thesis by (simp add: crt_arg.simps(2) i)
  qed
qed (simp add: crt_arg_end)

lemma crt_arg_close: "arg_ends rest \<Longrightarrow> crt_arg True (k * 2) (34 # rest) = (replicate k 92, rest)"
  by (auto simp: crt_arg.simps(2) arg_ends_def crt_arg_end)

lemma crt_arg_quoted: "arg_ends rest \<Longrightarrow> crt_arg True 0 (quote_loop bs a @ 34 # rest) = (replicate bs 92 @ a, rest)"
proof (induction a arbitrary: bs)
  case Nil
  then show ?case by (simp add: crt_arg_backslashes crt_arg_close)
next
  case (Cons c a)
  then have i: "crt_arg True 0 (quote_loop m a @ 34 # rest) = (replicate m 92 @ a, rest)" for m by simp
  show ?case
    by (auto simp: i crt_arg_backslashes crt_arg.simps(2) replicate_app_Cons_same)
qed

lemma crt_arg_quote_arg: "arg_ends rest \<Longrightarrow> crt_arg False 0 (quote_arg a @ rest) = (a, rest)"
proof (cases "plain_arg a")
  case True
  assume "arg_ends rest"
  moreover have "\<forall>c \<in> set a. c \<noteq> 32 \<and> c \<noteq> 9 \<and> c \<noteq> 34" using True by (auto simp: plain_arg_def)
  ultimately show ?thesis using True crt_arg_plain [of rest a 0] by (simp add: quote_arg_def)
next
  case False
  assume "arg_ends rest"
  with False show ?thesis by (simp add: quote_arg_def crt_arg.simps(2) crt_arg_quoted)
qed

lemma quote_arg_starts: "\<exists>c t. quote_arg a = c # t \<and> \<not> blank c"
  by (cases a) (auto simp: quote_arg_def plain_arg_def)

lemma crt_args_cons:
  assumes "\<exists>c t. w = c # t \<and> \<not> blank c" "crt_arg False 0 (w @ rest) = (a, rest)"
  shows "crt_args (32 # w @ rest) = a # crt_args rest" "crt_args (w @ rest) = a # crt_args rest"
proof -
  obtain c t where "w = c # t" "\<not> blank c" using assms(1) by blast
  then show "crt_args (32 # w @ rest) = a # crt_args rest" "crt_args (w @ rest) = a # crt_args rest"
    using assms(2) crt_args.simps [of "32 # w @ rest"] crt_args.simps [of "w @ rest"] by simp_all
qed

lemma crt_args_quoted: "crt_args (concat (map (\<lambda>a. 32 # quote_arg a) args)) = args"
proof (induction args)
  case Nil
  show ?case by (simp add: crt_args.simps)
next
  case (Cons a args)
  have "arg_ends (concat (map (\<lambda>a. 32 # quote_arg a) args))" by (cases args) auto
  from crt_args_cons(1) [OF quote_arg_starts crt_arg_quote_arg [OF this]] Cons show ?case by simp
qed

lemma quote_loop_plain: "34 \<notin> set a \<Longrightarrow> a = [] \<and> bs = 0 \<or> a \<noteq> [] \<and> last a \<noteq> 92 \<Longrightarrow> quote_loop bs a = replicate bs 92 @ a"
proof (induction a arbitrary: bs)
  case (Cons c a)
  then show ?case by (cases "a = []") (auto simp: replicate_app_Cons_same)
qed simp

lemma crt_prog_open: "arg_ends rest \<Longrightarrow> 34 \<notin> set a \<Longrightarrow> crt_prog True (a @ 34 # rest) = (a, rest)"
  by (induction a) (cases rest; auto simp: arg_ends_def)+

lemma crt_prog_plain: "arg_ends rest \<Longrightarrow> \<forall>c \<in> set a. c \<noteq> 32 \<and> c \<noteq> 9 \<and> c \<noteq> 34 \<Longrightarrow> crt_prog False (a @ rest) = (a, rest)"
  by (induction a) (cases rest; auto simp: arg_ends_def)+

lemma crt_prog_quote_arg:
  assumes "34 \<notin> set exe" "exe = [] \<or> last exe \<noteq> 92" "arg_ends rest"
  shows "crt_prog False (quote_arg exe @ rest) = (exe, rest)"
proof (cases "plain_arg exe")
  case True
  with assms crt_prog_plain [of rest exe] show ?thesis by (auto simp: quote_arg_def plain_arg_def)
next
  case False
  have "quote_loop 0 exe = exe" using quote_loop_plain [of exe 0] assms by auto
  with False assms crt_prog_open show ?thesis by (simp add: quote_arg_def)
qed

text \<open>C19:
  the command line made for the hosting process on Windows is cut by the C runtime of that process into
  exactly the program and the arguments it was made of, whatever quotes, backslashes and blanks are in the
  arguments (the path of a program has no quotes and does not end in a backslash).
\<close>

theorem windows_arguments_arrive:
  assumes "34 \<notin> set exe" "exe = [] \<or> last exe \<noteq> 92"
  shows "crt_argv (command_line exe args) = exe # args"
proof -
  have "arg_ends (concat (map (\<lambda>a. 32 # quote_arg a) args))" by (cases args) auto
  from crt_prog_quote_arg [OF assms this] show ?thesis
    by (simp add: crt_argv_def command_line_def crt_args_quoted)
qed

definition wtext_of :: "string \<Rightarrow> wtext" where
  "wtext_of s = map of_char s"

theorem windows_arguments_arrive_witness:
  "crt_argv (command_line (wtext_of ''C:/Program Files/td.exe'') [wtext_of ''a b'', [92, 34, 92], [], [32, 92]]) =
     [wtext_of ''C:/Program Files/td.exe'', wtext_of ''a b'', [92, 34, 92], [], [32, 92]]"
  by (rule windows_arguments_arrive) (simp_all add: wtext_of_def)

subsection \<open>The service quotes less\<close>

definition service_safe :: "wtext \<Rightarrow> bool" where
  "service_safe a \<longleftrightarrow> plain_arg a \<or> a = [] \<or> last a \<noteq> 92 \<and> (\<forall>i. Suc i < length a \<longrightarrow> a ! i = 92 \<longrightarrow> a ! Suc i \<noteq> 34)"

lemma crt_arg_service:
  assumes "arg_ends rest" "\<forall>i. Suc i < length (replicate k 92 @ a) \<longrightarrow> (replicate k 92 @ a) ! i = 92 \<longrightarrow> (replicate k 92 @ a) ! Suc i \<noteq> (34 :: u16)"
    "a = [] \<and> k = 0 \<or> a \<noteq> [] \<and> last a \<noteq> 92"
  shows "crt_arg True k (concat (map (\<lambda>c. if c = 34 then [92, c] else [c]) a) @ 34 # rest) = (replicate k 92 @ a, rest)"
  using assms(2,3)
proof (induction a arbitrary: k)
  case Nil
  then show ?case using crt_arg_close [OF assms(1), of 0] by simp
next
  case (Cons c a)
  show ?case
  proof (cases "c = 92")
    case True
    have r: "replicate (Suc k) 92 @ a = replicate k 92 @ c # a" using True by (simp add: replicate_app_Cons_same)
    have "a \<noteq> [] \<and> last a \<noteq> 92" using Cons.prems(2) True by (auto split: if_splits)
    then have "crt_arg True (Suc k) (concat (map (\<lambda>c. if c = 34 then [92, c] else [c]) a) @ 34 # rest) = (replicate (Suc k) 92 @ a, rest)"
      using Cons.prems(1) Cons.IH [of "Suc k"] unfolding r by blast
    then show ?thesis using True by (simp only: r) (simp add: crt_arg.simps(2))
  next
    case False
    have i: "\<forall>i. Suc i < length (replicate 0 92 @ a) \<longrightarrow> (replicate 0 92 @ a) ! i = 92 \<longrightarrow> (replicate 0 92 @ a) ! Suc i \<noteq> 34"
    proof (intro allI impI)
      fix i
      assume "Suc i < length (replicate 0 92 @ a)" "(replicate 0 92 @ a) ! i = 92"
      then show "(replicate 0 92 @ a) ! Suc i \<noteq> 34" using Cons.prems(1) [rule_format, of "Suc (k + i)"] by (simp add: nth_append)
    qed
    have l: "a = [] \<and> (0::nat) = 0 \<or> a \<noteq> [] \<and> last a \<noteq> 92" using Cons.prems(2) by auto
    show ?thesis
    proof (cases "c = 34")
      case True
      have "k = 0"
      proof (rule ccontr)
        assume "k \<noteq> 0"
        then show False using Cons.prems(1) [rule_format, of "k - 1"] True by (simp add: nth_append)
      qed
      with True Cons.IH [OF i l] show ?thesis by (simp add: crt_arg.simps(2))
    next
      case False
      with \<open>c \<noteq> 92\<close> Cons.IH [OF i l] show ?thesis by (simp add: crt_arg.simps(2))
    qed
  qed
qed

lemma crt_arg_service_quote: "service_safe a \<Longrightarrow> arg_ends rest \<Longrightarrow> crt_arg False 0 (service_quote a @ rest) = (a, rest)"
proof (cases "plain_arg a")
  case True
  assume "arg_ends rest"
  with True show ?thesis using crt_arg_quote_arg [of rest a] by (simp add: quote_arg_def service_quote_def)
next
  case False
  assume "service_safe a" "arg_ends rest"
  with False crt_arg_service [of rest 0 a] show ?thesis
    by (auto simp: service_quote_def service_safe_def crt_arg.simps(2))
qed

text \<open>An argument in which a backslash stands before a quote ends early, and what follows a blank in it is an argument of its own.\<close>

lemma service_argument_split:
  assumes "\<forall>c \<in> set y. c \<noteq> 32 \<and> c \<noteq> 9 \<and> c \<noteq> 34 \<and> c \<noteq> 92" "\<forall>c \<in> set opt. c \<noteq> 32 \<and> c \<noteq> 9 \<and> c \<noteq> 34 \<and> c \<noteq> 92" "opt \<noteq> []"
  shows "crt_args (32 # service_quote (y @ [92, 34, 32] @ opt @ [32]) @ rest) = (y @ [92]) # opt # crt_args (32 # 34 # rest)"
proof -
  have esc: "concat (map (\<lambda>c. if c = 34 then [92, c] else [c]) a) = a" if "34 \<notin> set a" for a :: wtext
    using that by (induction a) auto
  have open_y: "crt_arg True 0 (y @ s) = apfst (\<lambda>a. y @ a) (crt_arg True 0 s)" for s
    using assms(1) by (induction y; cases "crt_arg True 0 s") (auto simp: crt_arg.simps(2))
  have q: "service_quote (y @ [92, 34, 32] @ opt @ [32]) = 34 # y @ 92 # 92 # 34 # 32 # opt @ [32, 34]"
  proof -
    have "34 \<notin> set y" "34 \<notin> set opt" using assms by auto
    then show ?thesis by (simp add: service_quote_def plain_arg_def esc)
  qed
  have "crt_arg False 0 (34 # y @ 92 # 92 # 34 # 32 # opt @ 32 # 34 # rest) = (y @ [92], 32 # opt @ 32 # 34 # rest)"
    by (simp add: crt_arg.simps(2) open_y)
  moreover have "crt_args (32 # opt @ 32 # 34 # rest) = opt # crt_args (32 # 34 # rest)"
  proof (rule crt_args_cons(1))
    show "\<exists>c t. opt = c # t \<and> \<not> blank c" using assms(2,3) by (cases opt) auto
    show "crt_arg False 0 (opt @ 32 # 34 # rest) = (opt, 32 # 34 # rest)" using crt_arg_plain [of "32 # 34 # rest" opt 0] assms(2) by simp
  qed
  ultimately show ?thesis unfolding q using crt_args_cons(1) [of "34 # y @ [92, 92, 34]" "32 # opt @ 32 # 34 # rest"] by simp
qed

section \<open>The property list on macOS\<close>

definition xml_escape :: "bytes \<Rightarrow> bytes" where
  "xml_escape s = concat (map (\<lambda>c. if c = 38 then bytes_of ''&amp;'' else if c = 60 then bytes_of ''&lt;''
     else if c = 62 then bytes_of ''&gt;'' else [c]) s)"

definition xml_string :: "bytes \<Rightarrow> bytes" where
  "xml_string s = bytes_of ''<string>'' @ xml_escape s @ bytes_of ''</string>''"

definition nl :: bytes where
  "nl = [10]"

text \<open>The double quotes of the first lines are \<open>CHR 0x22\<close>.\<close>

definition quoted :: "string \<Rightarrow> bytes" where
  "quoted s = 34 # bytes_of s @ [34]"

definition service_plist :: "bytes \<Rightarrow> bytes \<Rightarrow> bytes list \<Rightarrow> bytes \<Rightarrow> bytes" where
  "service_plist label exe host_args log_path =
     bytes_of ''<?xml version='' @ quoted ''1.0'' @ bytes_of '' encoding='' @ quoted ''UTF-8'' @ bytes_of ''?>'' @ nl @
     bytes_of ''<!DOCTYPE plist PUBLIC '' @ quoted ''-//Apple//DTD PLIST 1.0//EN'' @ [32] @
       quoted ''http://www.apple.com/DTDs/PropertyList-1.0.dtd'' @ bytes_of ''>'' @ nl @
     bytes_of ''<plist version='' @ quoted ''1.0'' @ bytes_of ''>'' @ nl @ bytes_of ''<dict>'' @ nl @
     bytes_of ''  <key>Label</key><string>'' @ label @ bytes_of ''</string>'' @ nl @
     bytes_of ''  <key>ProgramArguments</key>'' @ nl @ bytes_of ''  <array>'' @ nl @
     concat (map (\<lambda>a. bytes_of ''    '' @ xml_string a @ nl) (exe # host_args)) @ bytes_of ''  </array>'' @ nl @
     bytes_of ''  <key>RunAtLoad</key><true/>'' @ nl @ bytes_of ''  <key>KeepAlive</key><true/>'' @ nl @
     bytes_of ''  <key>ThrottleInterval</key><integer>5</integer>'' @ nl @
     bytes_of ''  <key>ProcessType</key><string>Interactive</string>'' @ nl @
     bytes_of ''  <key>StandardOutPath</key>'' @ xml_string log_path @ nl @
     bytes_of ''  <key>StandardErrorPath</key>'' @ xml_string log_path @ nl @
     bytes_of ''</dict>'' @ nl @ bytes_of ''</plist>'' @ nl"

text \<open>Character data as an XML reader takes it: the three entities stand for their characters.\<close>

fun xml_text :: "bytes \<Rightarrow> bytes" where
  "xml_text [] = []"
| "xml_text (c # s) =
     (if c = 38 \<and> take 4 s = bytes_of ''amp;'' then 38 # xml_text (drop 4 s)
      else if c = 38 \<and> take 3 s = bytes_of ''lt;'' then 60 # xml_text (drop 3 s)
      else if c = 38 \<and> take 3 s = bytes_of ''gt;'' then 62 # xml_text (drop 3 s)
      else c # xml_text s)"

text \<open>An argument can neither end its element nor change on the way through the file.\<close>

lemma xml_escape_read: "60 \<notin> set (xml_escape s) \<and> xml_text (xml_escape s) = s"
proof (induction s)
  case Nil
  show ?case by (simp add: xml_escape_def)
next
  case (Cons c s)
  have e: "xml_escape (c # s) = (if c = 38 then bytes_of ''&amp;'' else if c = 60 then bytes_of ''&lt;''
      else if c = 62 then bytes_of ''&gt;'' else [c]) @ xml_escape s"
    by (simp add: xml_escape_def)
  show ?case using Cons by (auto simp: e bytes_of_def)
qed

end
