(* ===== verification/Quick_Support.thy ===== *)
theory Quick_Support
  imports Host_Main Host_Process Store
begin

text \<open>
  \<open>client/quicksupport.cpp\<close>: the program of the person who receives help. It starts the host with a password
  of its own and reads the host's log to tell who is connected. The lines of the log are those the host
  writes (\<open>log\<close> of \<open>host/server.cpp\<close>). Drawing is left out, the text of the status line is not.
\<close>

section \<open>What the host logs\<close>

text \<open>The events that concern viewers: connected, gone, closed by the host, and a refused password.\<close>

datatype log_event =
  Viewer_connected bytes bytes bool
| Viewer_left bytes
| Viewer_closed bytes bytes bytes
| Wrong_password bytes bytes

fun event_text :: "log_event \<Rightarrow> bytes" where
  "event_text (Viewer_connected name addr view_only) =
     name @ bytes_of '' connected from '' @ addr @ (if view_only then bytes_of '' (view only)'' else [])"
| "event_text (Viewer_left name) = name @ bytes_of '' left''"
| "event_text (Viewer_closed name addr reason) = name @ bytes_of '' ('' @ addr @ bytes_of ''): '' @ reason"
| "event_text (Wrong_password addr name) = bytes_of ''wrong password from '' @ addr @ bytes_of '' ('' @ [34] @ name @ [34] @ bytes_of '')''"

text \<open>\<open>log\<close>: the time in eight characters, the text, the end of the line.\<close>

definition log_line :: "bytes \<Rightarrow> bytes \<Rightarrow> bytes" where
  "log_line time msg = [91] @ time @ [93, 32] @ msg"

section \<open>Reading the log\<close>

definition contains :: "bytes \<Rightarrow> bytes \<Rightarrow> bool" where
  "contains pat s \<longleftrightarrow> find_str pat s \<noteq> None"

definition drop_cr :: "bytes \<Rightarrow> bytes" where
  "drop_cr l = (if l \<noteq> [] \<and> last l = 13 then butlast l else l)"

text \<open>A \<open>std::set\<close> of strings is its elements in ascending order.\<close>

fun set_insert :: "bytes \<Rightarrow> bytes list \<Rightarrow> bytes list" where
  "set_insert x [] = [x]"
| "set_insert x (y # ys) = (if y < x then y # set_insert x ys else if x = y then y # ys else x # y # ys)"

definition set_erase :: "bytes \<Rightarrow> bytes list \<Rightarrow> bytes list" where
  "set_erase x s = filter (\<lambda>y. y \<noteq> x) s"

record qs_status =
  st_id :: bytes
  st_relay :: bytes
  st_error :: bytes
  st_online :: bool
  st_needs_screen :: bool
  st_needs_input :: bool
  st_started :: bool
  st_connected :: "bytes list"
  st_activity :: "bytes list"

definition new_status :: qs_status where
  "new_status = \<lparr>st_id = [], st_relay = [], st_error = [], st_online = False, st_needs_screen = False, st_needs_input = False,
     st_started = False, st_connected = [], st_activity = []\<rparr>"

text \<open>The host's banner: the ID behind two blanks, and the relay between \<open>via\<close> and the bracket.\<close>

definition via_relay :: "bytes \<Rightarrow> bytes option" where
  "via_relay line = map_option (\<lambda>via. takeWhile (\<lambda>b. b \<noteq> 41) (drop (via + 4) line)) (find_str (bytes_of ''via '') line)"

definition banner_value :: "bytes \<Rightarrow> bytes" where
  "banner_value line = dropWhile (\<lambda>b. b = 32) (drop 5 line)"

definition is_activity :: "bytes \<Rightarrow> bool" where
  "is_activity line \<longleftrightarrow> 11 < length line \<and> line ! 0 = 91 \<and> line ! 9 = 93 \<and> \<not> contains (bytes_of ''relay:'') line"

text \<open>The first part of the loop; \<open>None\<close> when \<open>substr(7)\<close> of a line that is just \<open>error:\<close> throws.\<close>

definition parse_state :: "bytes \<Rightarrow> qs_status \<Rightarrow> qs_status option" where
  "parse_state line n =
     (if starts_with (bytes_of ''  ID '') line then
        Some (n\<lparr>st_id := filter is_digit (take 11 (banner_value line)), st_started := True,
                st_relay := (case via_relay line of Some r \<Rightarrow> r | None \<Rightarrow> st_relay n)\<rparr>)
      else if contains (bytes_of ''relay: online as'') line then Some (n\<lparr>st_online := True\<rparr>)
      else if contains (bytes_of ''relay connection lost'') line then Some (n\<lparr>st_online := False\<rparr>)
      else if starts_with (bytes_of ''error:'') line then
        (if length line < 7 then None else Some (n\<lparr>st_error := drop 7 line\<rparr>))
      else Some n)"

definition parse_permissions :: "bytes \<Rightarrow> qs_status \<Rightarrow> qs_status" where
  "parse_permissions line n =
     n\<lparr>st_needs_screen := st_needs_screen n \<or> contains (bytes_of ''Screen Recording'') line,
       st_needs_input := st_needs_input n \<or> contains (bytes_of ''Accessibility'') line\<rparr>"

definition parse_viewer :: "bytes \<Rightarrow> bytes list \<Rightarrow> bytes list" where
  "parse_viewer msg connected =
     (case find_str (bytes_of '' connected from '') msg of
        Some p \<Rightarrow> set_insert (take p msg) connected
      | None \<Rightarrow>
          (case find_str (bytes_of '' left'') msg of
             Some p \<Rightarrow> if p + 5 = length msg then set_erase (take p msg) connected
                else (case find_str (bytes_of '' ('') msg of
                        Some p \<Rightarrow> if contains (bytes_of ''): '') msg then set_erase (take p msg) connected else connected
                      | None \<Rightarrow> connected)
           | None \<Rightarrow>
               (case find_str (bytes_of '' ('') msg of
                  Some p \<Rightarrow> if contains (bytes_of ''): '') msg then set_erase (take p msg) connected else connected
                | None \<Rightarrow> connected)))"

definition parse_activity :: "bytes \<Rightarrow> qs_status \<Rightarrow> qs_status" where
  "parse_activity line n =
     (if is_activity line
      then let msg = drop 11 line
           in n\<lparr>st_connected := parse_viewer msg (st_connected n),
                st_activity := st_activity n @ (if contains (bytes_of ''wrong password'') msg then [] else [line])\<rparr>
      else n)"

definition parse_line :: "bytes \<Rightarrow> qs_status \<Rightarrow> qs_status option" where
  "parse_line l n = (let line = drop_cr l in map_option (\<lambda>n. parse_activity line (parse_permissions line n)) (parse_state line n))"

fun parse_lines :: "bytes list \<Rightarrow> qs_status \<Rightarrow> qs_status option" where
  "parse_lines [] n = Some n"
| "parse_lines (l # ls) n = (case parse_line l n of None \<Rightarrow> None | Some n \<Rightarrow> parse_lines ls n)"

definition last_lines :: "nat \<Rightarrow> bytes list \<Rightarrow> bytes list" where
  "last_lines k ls = drop (length ls - k) ls"

text \<open>A file that cannot be opened gives the empty status.\<close>

definition parse_log :: "bytes option \<Rightarrow> qs_status option" where
  "parse_log file =
     map_option (\<lambda>n. n\<lparr>st_activity := last_lines 5 (st_activity n)\<rparr>)
       (parse_lines (case file of Some d \<Rightarrow> get_lines [] d | None \<Rightarrow> []) new_status)"

definition status_text :: "bytes \<Rightarrow> qs_status \<Rightarrow> bytes" where
  "status_text start_error st =
     (let err = (if start_error \<noteq> [] then start_error else st_error st)
      in if err \<noteq> [] then bytes_of ''Not sharing - '' @ err
         else if st_connected st \<noteq> [] then bytes_of ''Connected: '' @ hd (st_connected st) @ bytes_of '' can see this screen''
         else if st_online st then bytes_of ''Ready - waiting for your helper to connect''
         else bytes_of ''Getting ready...'')"

section \<open>Facts on searching\<close>

lemma contains_append: "contains pat s \<Longrightarrow> contains pat (r @ s @ t)"
proof -
  assume "contains pat s"
  then obtain n where "find_str pat s = Some n" by (auto simp: contains_def)
  from find_str_Some [OF this] have "s = take n s @ pat @ drop (n + length pat) s" by (metis append_take_drop_id drop_drop add.commute)
  then have "r @ s @ t = (r @ take n s) @ pat @ (drop (n + length pat) s @ t)" by (metis append.assoc)
  then show ?thesis unfolding contains_def by (metis find_str_append)
qed

lemma get_lines_cons: "10 \<notin> set l \<Longrightarrow> get_lines cur (l @ 10 # s) = (cur @ l) # get_lines [] s"
  by (induction l arbitrary: cur) auto

lemma set_set_insert [simp]: "set (set_insert x s) = insert x (set s)"
  by (induction s) auto

lemma set_set_erase [simp]: "set (set_erase x s) = set s - {x}"
  by (auto simp: set_erase_def)

section \<open>Who is connected\<close>

fun present :: "log_event \<Rightarrow> bytes set \<Rightarrow> bytes set" where
  "present (Viewer_connected name addr vo) c = insert name c"
| "present (Viewer_left name) c = c - {name}"
| "present (Viewer_closed name addr reason) c = c - {name}"
| "present (Wrong_password addr name) c = c"

text \<open>Entries the program can tell apart: names without blanks, and none of its marks in the rest.\<close>

fun plain_event :: "log_event \<Rightarrow> bool" where
  "plain_event (Viewer_connected name addr vo) \<longleftrightarrow> 32 \<notin> set name"
| "plain_event (Viewer_left name) \<longleftrightarrow> 32 \<notin> set name"
| "plain_event (Viewer_closed name addr reason) \<longleftrightarrow> 32 \<notin> set name \<and>
     \<not> contains (bytes_of '' connected from '') (bytes_of '' ('' @ addr @ bytes_of ''): '' @ reason) \<and>
     \<not> contains (bytes_of '' left'') (bytes_of '' ('' @ addr @ bytes_of ''): '' @ reason)"
| "plain_event (Wrong_password addr name) \<longleftrightarrow> \<not> contains (bytes_of '' connected from '') (event_text (Wrong_password addr name))"

definition entry_ok :: "bytes \<times> log_event \<Rightarrow> bool" where
  "entry_ok = (\<lambda>(t, e). length t = 8 \<and> 10 \<notin> set t \<and> 10 \<notin> set (event_text e) \<and> 13 \<notin> set (event_text e) \<and> plain_event e \<and>
     \<not> contains (bytes_of ''relay:'') (log_line t (event_text e)))"

definition entry_bytes :: "bytes \<times> log_event \<Rightarrow> bytes" where
  "entry_bytes = (\<lambda>(t, e). log_line t (event_text e) @ [10])"

lemma event_text_nonempty: "event_text e \<noteq> []"
  by (cases e) (simp_all add: bytes_of_def)

lemma log_line_parts:
  assumes "length t = 8" "msg \<noteq> []"
  shows "log_line t msg ! 0 = 91" "log_line t msg ! 9 = 93" "drop 11 (log_line t msg) = msg" "11 < length (log_line t msg)"
    "\<not> starts_with (bytes_of ''  ID '') (log_line t msg)" "\<not> starts_with (bytes_of ''error:'') (log_line t msg)"
  using assms by (auto simp: log_line_def starts_with_def bytes_of_def nth_append)

lemma parse_state_keeps:
  assumes "length t = 8" "msg \<noteq> []"
  shows "\<exists>n'. parse_state (log_line t msg) n = Some n' \<and> st_connected n' = st_connected n \<and> st_activity n' = st_activity n \<and> st_error n' = st_error n"
  using log_line_parts(5,6) [OF assms] by (auto simp: parse_state_def)

lemma parse_viewer_erased:
  "find_str (bytes_of '' connected from '') msg = None \<Longrightarrow>
   parse_viewer msg c = c \<or> (\<exists>p. (find_str (bytes_of '' left'') msg = Some p \<and> p + 5 = length msg \<or> find_str (bytes_of '' ('') msg = Some p) \<and>
     parse_viewer msg c = set_erase (take p msg) c)"
  by (auto simp: parse_viewer_def split: option.splits)

lemma parse_viewer_wrong_password:
  assumes "plain_event (Wrong_password addr name)" "\<forall>n \<in> set c. 32 \<notin> set n"
  shows "set (parse_viewer (event_text (Wrong_password addr name)) c) = set c"
proof -
  define msg where "msg = event_text (Wrong_password addr name)"
  have c: "find_str (bytes_of '' connected from '') msg = None" using assms(1) by (simp add: contains_def msg_def)
  have m: "msg = bytes_of ''wrong'' @ 32 # drop 6 msg" by (simp add: msg_def bytes_of_def)
  have blank: "32 \<in> set (take p msg)" if p: "find_str pat msg = Some p" "pat = bytes_of '' left'' \<or> pat = bytes_of '' (''" for p pat
  proof -
    have "find_str pat msg = map_option (\<lambda>n. length (bytes_of ''wrong'') + n) (find_str pat (32 # drop 6 msg))"
      using p(2) by (subst m, intro find_str_skip) (auto simp: bytes_of_def)
    moreover have "find_str pat (32 # drop 6 msg) \<noteq> Some 0" using p(2) by (auto simp: msg_def bytes_of_def)
    ultimately obtain k where "p = 6 + k" using p(1) by (cases "find_str pat (32 # drop 6 msg)"; cases "the (find_str pat (32 # drop 6 msg))") auto
    then show ?thesis by (subst m) (simp add: bytes_of_def take_Cons')
  qed
  from parse_viewer_erased [OF c, of c] have "set (parse_viewer msg c) = set c"
  proof
    assume "\<exists>p. (find_str (bytes_of '' left'') msg = Some p \<and> p + 5 = length msg \<or> find_str (bytes_of '' ('') msg = Some p) \<and>
      parse_viewer msg c = set_erase (take p msg) c"
    then obtain p where "32 \<in> set (take p msg)" "parse_viewer msg c = set_erase (take p msg) c" using blank by blast
    with assms(2) show ?thesis by auto
  qed simp
  then show ?thesis by (simp only: msg_def)
qed

lemma parse_viewer_present:
  assumes "plain_event e" "\<forall>n \<in> set c. 32 \<notin> set n"
  shows "set (parse_viewer (event_text e) c) = present e (set c)"
proof (cases e)
  case (Viewer_connected name addr vo)
  with assms(1) find_str_first [of "bytes_of '' connected from ''" name] show ?thesis
    by (simp add: parse_viewer_def bytes_of_def)
next
  case (Viewer_left name)
  have "find_str (bytes_of '' left'') (name @ bytes_of '' left'') = Some (length name)"
    using find_str_first [of "bytes_of '' left''" name "[]"] assms(1) Viewer_left by (simp add: bytes_of_def)
  moreover have "find_str (bytes_of '' connected from '') (name @ bytes_of '' left'') = None"
    using assms(1) Viewer_left by (subst find_str_skip) (simp_all add: bytes_of_def)
  ultimately show ?thesis using Viewer_left by (simp add: parse_viewer_def)
next
  case (Viewer_closed name addr reason)
  define rest where "rest = bytes_of '' ('' @ addr @ bytes_of ''): '' @ reason"
  have n: "32 \<notin> set name" using assms(1) Viewer_closed by simp
  have "find_str (bytes_of '' ('') (name @ rest) = Some (length name)"
    using find_str_first [of "bytes_of '' (''" name] n by (simp add: bytes_of_def rest_def)
  moreover have "find_str (bytes_of '' connected from '') (name @ rest) = None" "find_str (bytes_of '' left'') (name @ rest) = None"
    using n assms(1) Viewer_closed by (subst find_str_skip; simp add: bytes_of_def rest_def contains_def)+
  moreover have "contains (bytes_of ''): '') (name @ rest)"
    using contains_append [of "bytes_of ''): ''" "bytes_of ''): ''" "name @ bytes_of '' ('' @ addr" reason]
    by (simp add: rest_def contains_def bytes_of_def)
  ultimately show ?thesis using Viewer_closed by (simp add: parse_viewer_def rest_def [symmetric])
next
  case (Wrong_password addr name)
  with parse_viewer_wrong_password assms show ?thesis by (simp del: event_text.simps plain_event.simps)
qed

lemma present_plain: "plain_event e \<Longrightarrow> \<forall>n \<in> c. 32 \<notin> set n \<Longrightarrow> \<forall>n \<in> present e c. 32 \<notin> set n"
  by (cases e) auto

lemma parse_line_entry:
  assumes "entry_ok (t, e)" "\<forall>n \<in> set (st_connected st). 32 \<notin> set n"
  shows "\<exists>st'. parse_line (log_line t (event_text e)) st = Some st' \<and> set (st_connected st') = present e (set (st_connected st))"
proof -
  have l: "length t = 8" and pe: "plain_event e" and r: "\<not> contains (bytes_of ''relay:'') (log_line t (event_text e))"
    and cr: "13 \<notin> set (event_text e)"
    using assms(1) by (simp_all add: entry_ok_def)
  have d: "drop_cr (log_line t (event_text e)) = log_line t (event_text e)"
    using cr event_text_nonempty [of e] by (auto simp: drop_cr_def log_line_def dest: last_in_set)
  have a: "is_activity (log_line t (event_text e))"
    using log_line_parts [OF l event_text_nonempty] r by (simp add: is_activity_def)
  obtain n where n: "parse_state (log_line t (event_text e)) st = Some n" "st_connected n = st_connected st"
    using parse_state_keeps [OF l event_text_nonempty] by metis
  then show ?thesis
    using parse_viewer_present [OF pe] assms(2) a
    by (simp add: parse_line_def d Let_def parse_activity_def parse_permissions_def log_line_parts(3) [OF l event_text_nonempty])
qed

lemma parse_lines_present:
  assumes "\<forall>en \<in> set log. entry_ok en" "\<forall>n \<in> set (st_connected st). 32 \<notin> set n"
  shows "\<exists>st'. parse_lines (map (\<lambda>(t, e). log_line t (event_text e)) log) st = Some st' \<and>
    set (st_connected st') = fold present (map snd log) (set (st_connected st))"
  using assms
proof (induction log arbitrary: st)
  case (Cons en log)
  obtain t e where en: "en = (t, e)" by fastforce
  then obtain st1 where s: "parse_line (log_line t (event_text e)) st = Some st1" "set (st_connected st1) = present e (set (st_connected st))"
    using Cons.prems parse_line_entry by fastforce
  have "\<forall>n \<in> set (st_connected st1). 32 \<notin> set n"
    using present_plain [of e] Cons.prems s(2) by (auto simp: en entry_ok_def)
  with Cons.IH [of st1] Cons.prems obtain st2 where "parse_lines (map (\<lambda>(t, e). log_line t (event_text e)) log) st1 = Some st2"
    "set (st_connected st2) = fold present (map snd log) (set (st_connected st1))" by auto
  with s show ?case by (simp add: en)
qed simp

lemma get_lines_entries:
  "\<forall>en \<in> set log. entry_ok en \<Longrightarrow> get_lines [] (concat (map entry_bytes log) @ d) =
   map (\<lambda>(t, e). log_line t (event_text e)) log @ get_lines [] d"
proof (induction log)
  case (Cons en log)
  obtain t e where en: "en = (t, e)" by fastforce
  have "10 \<notin> set (log_line t (event_text e))" using Cons.prems by (simp add: en entry_ok_def log_line_def)
  with Cons show ?case by (simp add: en entry_bytes_def get_lines_cons)
qed simp


definition demo_log :: "(bytes \<times> log_event) list" where
  "demo_log = [(bytes_of ''10:00:00'', Viewer_connected (bytes_of ''Ann'') (bytes_of ''10.0.0.7 (via relay)'') False),
     (bytes_of ''10:00:01'', Wrong_password (bytes_of ''10.0.0.9'') (bytes_of ''Ann'')),
     (bytes_of ''10:00:02'', Viewer_connected (bytes_of ''Bob'') (bytes_of ''10.0.0.8'') True),
     (bytes_of ''10:00:03'', Viewer_closed (bytes_of ''Ann'') (bytes_of ''10.0.0.7 (via relay)'') (bytes_of ''timed out''))]"


section \<open>Names the program cannot tell apart\<close>

lemma get_lines_append: "d \<noteq> [] \<Longrightarrow> last d = 10 \<Longrightarrow> get_lines cur (d @ s) = get_lines cur d @ get_lines [] s"
  by (induction d arbitrary: cur) (auto split: if_splits)

lemma parse_lines_append: "parse_lines (ls @ ms) n = Option.bind (parse_lines ls n) (parse_lines ms)"
  by (induction ls arbitrary: n) (auto split: option.splits)

lemma parse_line_hidden:
  assumes "contains (bytes_of ''relay:'') msg" "length t = 8" "msg \<noteq> []" "13 \<notin> set msg"
    and "\<not> contains (bytes_of ''relay connection lost'') (log_line t msg)"
  shows "\<exists>n'. parse_line (log_line t msg) n = Some n' \<and> st_connected n' = st_connected n \<and> st_error n' = st_error n \<and>
    st_activity n' = st_activity n \<and> (st_online n \<longrightarrow> st_online n')"
proof -
  have d: "drop_cr (log_line t msg) = log_line t msg"
    using assms(3,4) by (auto simp: drop_cr_def log_line_def dest: last_in_set)
  have "contains (bytes_of ''relay:'') (log_line t msg)"
    using contains_append [OF assms(1), of "[91] @ t @ [93, 32]" "[]"] by (simp add: log_line_def)
  then have "\<not> is_activity (log_line t msg)" by (simp add: is_activity_def)
  then show ?thesis
    using log_line_parts(5,6) [OF assms(2,3)] assms(5)
    by (auto simp: Let_def parse_line_def d parse_state_def parse_activity_def parse_permissions_def)
qed

text \<open>A viewer that connects under a name with \<open>relay:\<close> in it is not shown: when nobody else is, the status of an
  online QuickSupport goes on saying that it waits for the helper.
\<close>

theorem viewer_hides_itself:
  assumes "contains (bytes_of ''relay:'') name" "10 \<notin> set (name @ addr)" "13 \<notin> set (name @ addr)" "10 \<notin> set t" "length t = 8"
    and "\<not> contains (bytes_of ''relay connection lost'') (log_line t (event_text (Viewer_connected name addr vo)))"
    and "parse_log (Some d) = Some st" "d \<noteq> []" "last d = 10" "st_online st" "st_error st = []" "st_connected st = []"
  shows "\<exists>st'. parse_log (Some (d @ entry_bytes (t, Viewer_connected name addr vo))) = Some st' \<and>
    status_text [] st' = bytes_of ''Ready - waiting for your helper to connect''"
proof -
  define msg where "msg = event_text (Viewer_connected name addr vo)"
  have c: "contains (bytes_of ''relay:'') msg" using contains_append [OF assms(1), of "[]"] by (simp add: msg_def)
  have m: "msg \<noteq> []" "13 \<notin> set msg" "10 \<notin> set (log_line t msg)"
    using assms(2-4) by (auto simp: msg_def bytes_of_def log_line_def)
  obtain n where n: "parse_lines (get_lines [] d) new_status = Some n" "st = n\<lparr>st_activity := last_lines 5 (st_activity n)\<rparr>"
    using assms(7) by (auto simp: parse_log_def)
  obtain n' where n': "parse_line (log_line t msg) n = Some n'" "st_connected n' = []" "st_error n' = []" "st_online n'"
    using parse_line_hidden [OF c assms(5) m(1,2), of n] assms(6,10-12) n(2) by (auto simp: msg_def)
  have "get_lines [] (d @ entry_bytes (t, Viewer_connected name addr vo)) = get_lines [] d @ [log_line t msg]"
    using get_lines_append [OF assms(8,9)] get_lines_cons [OF m(3), of "[]" "[]"] by (simp add: entry_bytes_def msg_def)
  with n(1) n' show ?thesis by (simp add: parse_log_def parse_lines_append status_text_def)
qed

definition demo_online :: bytes where
  "demo_online = log_line (bytes_of ''10:00:00'') (bytes_of ''relay: online as 123456789 (x) - connect from anywhere with this ID'') @ [10]"

theorem viewer_hides_itself_witness:
  "\<exists>st'. parse_log (Some (demo_online @ entry_bytes (bytes_of ''10:00:05'', Viewer_connected (bytes_of ''relay:'') (bytes_of ''10.0.0.9'') False))) = Some st' \<and>
     status_text [] st' = bytes_of ''Ready - waiting for your helper to connect''"
proof (rule viewer_hides_itself)
  show "parse_log (Some demo_online) = Some (new_status\<lparr>st_online := True\<rparr>)" by code_simp
qed (code_simp, simp_all add: new_status_def, code_simp+)

text \<open>
  Two viewers of one name are one entry, so the first to leave takes the other with it; and a refused
  password under a name with the mark of a connection is shown as a connected viewer, who is never removed.
\<close>

lemma same_name_leaves_early:
  "fold parse_viewer (map event_text [Viewer_connected n a False, Viewer_connected n b False, Viewer_left n]) [] = []"
  if "32 \<notin> set n"
proof -
  have "plain_event (Viewer_connected n x False)" "plain_event (Viewer_left n)" for x using that by auto
  note p = parse_viewer_present [OF this(1)] parse_viewer_present [OF this(2)]
  define c where "c = parse_viewer (event_text (Viewer_connected n b False)) (parse_viewer (event_text (Viewer_connected n a False)) [])"
  have "set c = {n}" using p(1) [of "[]" a] p(1) [of "parse_viewer (event_text (Viewer_connected n a False)) []" b] that
    by (simp add: c_def del: event_text.simps)
  with p(2) [of c] that have "set (parse_viewer (event_text (Viewer_left n)) c) = {}" by (simp del: event_text.simps)
  then show ?thesis by (simp add: c_def del: event_text.simps)
qed

lemma refused_viewer_is_shown:
  "parse_viewer (event_text (Wrong_password (bytes_of ''10.0.0.9'') (bytes_of ''Ann connected from ''))) [] =
     [bytes_of ''wrong password from 10.0.0.9 ('' @ 34 # bytes_of ''Ann'']"
  by code_simp

section \<open>Starting the host\<close>

text \<open>
  The locals of \<open>main\<close>: the password shown, the error of the last start that failed, the hosting process with
  the children, the status. \<open>dir\<close> ends in a slash; the file system is that of \<open>Host_Main\<close>.
\<close>

record quick =
  qk_password :: bytes
  qk_start_error :: bytes
  qk_process :: "host_process \<times> children"
  qk_status :: qs_status

definition fs_remove :: "bytes \<Rightarrow> host_fs \<Rightarrow> host_fs" where
  "fs_remove p fs = fs\<lparr>fs_files := (fs_files fs)(p := None)\<rparr>"

definition qs_args :: "bytes \<Rightarrow> bytes \<Rightarrow> bool \<Rightarrow> bytes list" where
  "qs_args relay dir demo =
     [bytes_of ''--run-host'', bytes_of ''--password-file'', dir @ bytes_of ''session_password'', bytes_of ''--no-console'',
      bytes_of ''--no-files'', bytes_of ''--relay'', relay, bytes_of ''--key-file'', dir @ bytes_of ''host_key''] @
     (if demo then [bytes_of ''--demo''] else [])"

text \<open>\<open>raw\<close> are the random bytes, \<open>spawned\<close> what the system answers to the start of \<open>exe\<close>.\<close>

definition qs_start :: "bytes \<Rightarrow> int + int \<times> child \<Rightarrow> bytes \<Rightarrow> bytes \<Rightarrow> quick \<times> host_fs \<Rightarrow> quick \<times> host_fs" where
  "qs_start raw spawned exe dir = (\<lambda>(q, fs).
     let s = hp_stop (qk_process q);
         pw = random_password raw;
         fs = snd (fs_write (dir @ bytes_of ''session_password'') (pw @ [10]) fs);
         fs = fs_remove (dir @ bytes_of ''session.log'') fs;
         (e, s) = hp_start spawned exe s
     in (q\<lparr>qk_password := pw, qk_process := s, qk_start_error := (case e of Some err \<Rightarrow> err | None \<Rightarrow> qk_start_error q)\<rparr>, fs))"

text \<open>Every half second the log is read and the process looked at.\<close>

definition qs_poll :: "bytes \<Rightarrow> quick \<times> host_fs \<Rightarrow> quick option" where
  "qs_poll dir = (\<lambda>(q, fs).
     case parse_log (fs_read (dir @ bytes_of ''session.log'') fs) of
       None \<Rightarrow> None
     | Some st \<Rightarrow>
         (let (alive, s) = hp_running (qk_process q)
          in Some (q\<lparr>qk_process := s,
               qk_status := (if \<not> alive \<and> qk_start_error q = [] \<and> st_error st = [] \<and> st_started st
                 then st\<lparr>st_error := bytes_of ''Sharing stopped''\<rparr> else st)\<rparr>)))"

definition qs_end :: "bytes \<Rightarrow> quick \<times> host_fs \<Rightarrow> quick \<times> host_fs" where
  "qs_end dir = (\<lambda>(q, fs). (q\<lparr>qk_process := hp_stop (qk_process q)\<rparr>, fs_remove (dir @ bytes_of ''session_password'') fs))"

lemma alphabet_plain: "b \<in> set (random_password raw) \<Longrightarrow> b \<noteq> 0 \<and> b \<noteq> 10 \<and> b \<noteq> 13"
proof -
  have "list_all (\<lambda>b. b \<noteq> 0 \<and> b \<noteq> 10 \<and> b \<noteq> 13) (bytes_of ''abcdefghjkmnpqrstuvwxyz23456789'')" by code_simp
  then have "\<forall>i < 31. bytes_of ''abcdefghjkmnpqrstuvwxyz23456789'' ! i \<notin> {0, 10, 13}"
    by (simp add: list_all_length)
  then have a: "bytes_of ''abcdefghjkmnpqrstuvwxyz23456789'' ! (unat (w :: u8) mod 31) \<notin> {0, 10, 13}" for w by simp
  assume "b \<in> set (random_password raw)"
  then show ?thesis using a by (auto simp: random_password_def Let_def split: if_splits)
qed

lemma first_line_written:
  assumes "\<forall>b \<in> set pw. b \<noteq> 0 \<and> b \<noteq> 10 \<and> b \<noteq> 13" "length pw < 255"
  shows "first_line (pw @ [10]) = pw"
proof -
  have "takeWhile (\<lambda>b. b \<noteq> 10) (pw @ [10]) = pw" using assms(1) by (simp add: takeWhile_append)
  moreover have "c_str (pw @ [10]) = pw @ [10]" using assms(1) by (intro c_str_id) auto
  moreover have "dropWhile (\<lambda>b. b = 10 \<or> b = 13) (rev pw) = rev pw"
    using assms(1) by (cases "rev pw") (auto simp: rev_eq_Cons_iff)
  ultimately show ?thesis using assms(2) by (simp add: first_line_def)
qed

text \<open>The host that QuickSupport starts takes the password on the screen, eleven characters fresh at every start,
  refuses files, reads no console, keeps its own identity file and registers with the given relay; unless
  the password file could not be written.
\<close>

theorem quick_support_host_options:
  assumes "qs_start raw spawned exe dir (q, fs) = (q', fs')"
    and "fst (fs_write (dir @ bytes_of ''session_password'') (random_password raw @ [10]) fs) = Some True"
    and "\<not> fs_dirs fs (dir @ bytes_of ''session_password'')"
  shows "\<exists>h. parse_options fs' (tl (qs_args relay dir demo)) default_options = Inr h \<and>
    cfg_password (ho_cfg h) = qk_password q' \<and> length (qk_password q') = 11 \<and> \<not> cfg_allow_files (ho_cfg h) \<and> \<not> ho_console h \<and>
    ho_relay h = relay \<and> ho_key_file h = dir @ bytes_of ''host_key'' \<and> ho_demo h = demo"
proof -
  define pwf where "pwf = dir @ bytes_of ''session_password''"
  have ne: "dir @ bytes_of ''session.log'' \<noteq> pwf" by (simp add: pwf_def bytes_of_eq)
  have q: "qk_password q' = random_password raw"
    and fs': "fs' = fs_remove (dir @ bytes_of ''session.log'') (snd (fs_write pwf (random_password raw @ [10]) fs))"
    using assms(1) by (auto simp: qs_start_def Let_def pwf_def split: prod.splits)
  have r: "fs_read pwf fs' = Some (random_password raw @ [10])"
    using assms(2,3) ne by (auto simp: fs' fs_remove_def fs_write_def fs_read_def pwf_def split: if_splits)
  have l: "first_line (random_password raw @ [10]) = random_password raw"
    using first_line_written alphabet_plain length_random_password by simp
  show ?thesis
    by (simp add: qs_args_def pwf_def [symmetric] r l q length_random_password set_flag_def set_value_def bytes_of_eq on_cfg_def default_options_def)
qed

text \<open>An error of an earlier start is not taken back by a later one that succeeds.\<close>

lemma start_error_stays:
  "qs_start raw (Inr (pid, c)) exe dir (q, fs) = (q', fs') \<Longrightarrow> qk_start_error q \<noteq> [] \<Longrightarrow>
   status_text (qk_start_error q') st = bytes_of ''Not sharing - '' @ qk_start_error q"
  by (auto simp: qs_start_def hp_start_def status_text_def Let_def split: prod.splits)

text \<open>After the end there is neither a host nor a password file.\<close>

lemma qs_end_leaves_nothing:
  "owns_child others (qk_process q) \<Longrightarrow> qs_end dir (q, fs) = (q', fs') \<Longrightarrow>
   snd (qk_process q') = others \<and> fs_files fs' (dir @ bytes_of ''session_password'') = None"
  using hp_stop_own by (fastforce simp: qs_end_def fs_remove_def)

definition demo_quick :: quick where
  "demo_quick = \<lparr>qk_password = [], qk_start_error = [], qk_process = (new_process, \<lambda>_. None), qk_status = new_status\<rparr>"

theorem quick_support_host_options_witness:
  "\<exists>q' fs' h. qs_start (replicate 10 3) (Inr (7, demo_child)) [] (bytes_of ''/q/'') (demo_quick, demo_disk) = (q', fs') \<and>
     parse_options fs' (tl (qs_args (bytes_of ''r'') (bytes_of ''/q/'') True)) default_options = Inr h \<and>
     cfg_password (ho_cfg h) = qk_password q' \<and> \<not> cfg_allow_files (ho_cfg h)"
proof -
  obtain q' fs' where s: "qs_start (replicate 10 3) (Inr (7, demo_child)) [] (bytes_of ''/q/'') (demo_quick, demo_disk) = (q', fs')" by fastforce
  have "bytes_of ''/q/'' @ bytes_of ''session_password'' \<noteq> bytes_of ''/h''" by (simp add: bytes_of_def)
  then have "fst (fs_write (bytes_of ''/q/'' @ bytes_of ''session_password'') (random_password (replicate 10 3) @ [10]) demo_disk) = Some True"
    "\<not> fs_dirs demo_disk (bytes_of ''/q/'' @ bytes_of ''session_password'')"
    by (simp_all add: demo_disk_def fs_write_def)
  from quick_support_host_options [OF s this, of "bytes_of ''r''" True] s show ?thesis by blast
qed

end
