(* ===== verification/Sharing.thy ===== *)
theory Sharing
  imports Viewer Quick_Support
begin

text \<open>
  Sharing this computer from the window of the viewer, \<open>client/app.cpp\<close>: starting and stopping the host as a
  child or as a service, new passwords, and the host's log read for the status. The host reads its password
  from a file when it starts; which password that was is kept with the process and with the service, so
  that it can be compared with the one on the screen. The buttons are operations, drawing is left out.
\<close>

section \<open>State\<close>

text \<open>
  The members of \<open>App\<close> named \<open>share_\<close> and \<open>new_pw\<close>, the saved settings, the disk. \<open>sh_process_pw\<close> is what the child
  read when it was started; \<open>sh_service\<close> is the installed service with what its host read.
\<close>

record sharing =
  sh_remote :: bool
  sh_quick :: bool
  sh_relay_option :: bytes
  sh_demo_option :: bool
  sh_store :: store
  sh_disk :: host_fs
  sh_process :: "host_process \<times> children"
  sh_process_pw :: bytes
  sh_service :: "bytes option"
  sh_sharing :: bool
  sh_error :: bytes
  sh_identity :: bytes
  sh_id :: bytes
  sh_relay :: bytes
  sh_online :: bool
  sh_urls :: "bytes list"
  sh_activity :: "bytes list"
  sh_log_path :: bytes
  sh_needs_screen :: bool
  sh_needs_input :: bool
  sh_show_pw :: bool
  sh_asks :: bool
  sh_then_start :: bool
  sh_new_pw :: bytes
  sh_new_pw2 :: bytes
  sh_dialog_error :: bytes

text \<open>
  What the system answers: random bytes, the child or the error of a start, and for a service whether there
  are services here, the error of its installation, and whether it is registered afterwards.
\<close>

record share_env =
  se_raw :: bytes
  se_exe :: bytes
  se_spawned :: "int + int \<times> child"
  se_supported :: bool
  se_install_error :: "bytes option"
  se_registered :: bool

definition sh_dir :: "sharing \<Rightarrow> bytes" where
  "sh_dir s = st_dir (sh_store s)"

definition pw_path :: "sharing \<Rightarrow> bytes" where
  "pw_path s = sh_dir s @ bytes_of ''share_password''"

definition share_save :: "sharing \<Rightarrow> sharing" where
  "share_save s =
     (let fs = sh_disk s
      in s\<lparr>sh_disk := fs\<lparr>fs_files := store_save (\<lambda>p. \<not> fs_dirs fs p \<and> \<not> fs_refuses fs p)
           (if fs_full fs then 0 else length (store_text (sh_store s))) (sh_store s) (fs_files fs)\<rparr>\<rparr>)"

section \<open>Operations\<close>

text \<open>Whether the file could be opened; the result of \<open>fprintf\<close> is not looked at.\<close>

definition write_password_file :: "sharing \<Rightarrow> bool \<times> sharing" where
  "write_password_file s =
     (let (w, fs) = fs_write (pw_path s) (st_share_password (sh_store s) @ [10]) (sh_disk s)
      in (w \<noteq> None, s\<lparr>sh_disk := fs\<rparr>))"

definition host_args :: "sharing \<Rightarrow> bytes list" where
  "host_args s =
     (let args = [bytes_of ''--run-host'', bytes_of ''--password-file'', pw_path s, bytes_of ''--no-console'',
            bytes_of ''--relay'', sh_relay_option s]
      in if sh_remote s
         then args @ [bytes_of ''--key-file'', sh_dir s @ bytes_of ''host_key''] @ (if sh_demo_option s then [bytes_of ''--demo''] else [])
         else args @ (if st_share_view_only (sh_store s) then [bytes_of ''--view-only''] else []) @
           (if st_share_demo (sh_store s) \<or> sh_demo_option s then [bytes_of ''--demo''] else []))"

definition open_set_password :: "bool \<Rightarrow> sharing \<Rightarrow> sharing" where
  "open_set_password then_start s =
     s\<lparr>sh_new_pw := [], sh_new_pw2 := [], sh_then_start := then_start, sh_dialog_error := [], sh_asks := True\<rparr>"

text \<open>The password a host reads that starts now; a file that cannot be read or is empty ends the host.\<close>

definition file_password :: "sharing \<Rightarrow> bytes" where
  "file_password s = (case fs_read (pw_path s) (sh_disk s) of None \<Rightarrow> [] | Some d \<Rightarrow> first_line d)"

definition service_install :: "share_env \<Rightarrow> sharing \<Rightarrow> bytes option \<times> sharing" where
  "service_install e s = (se_install_error e, s\<lparr>sh_service := (if se_registered e then Some (file_password s) else None)\<rparr>)"

definition service_uninstall :: "sharing \<Rightarrow> sharing" where
  "service_uninstall s = s\<lparr>sh_service := None\<rparr>"

definition service_restart :: "sharing \<Rightarrow> sharing" where
  "service_restart s = s\<lparr>sh_service := map_option (\<lambda>_. file_password s) (sh_service s)\<rparr>"

definition start_child :: "share_env \<Rightarrow> sharing \<Rightarrow> bytes option \<times> sharing" where
  "start_child e s =
     (let (err, p) = hp_start (se_spawned e) (se_exe e) (sh_process s)
      in (err, s\<lparr>sh_process := p, sh_process_pw := file_password s\<rparr>))"

text \<open>The second half of \<open>start_sharing\<close>, from the path of the log on.\<close>

definition launch_host :: "share_env \<Rightarrow> sharing \<Rightarrow> sharing" where
  "launch_host e s =
     (let s = s\<lparr>sh_log_path := (if sh_dir s = [] then bytes_of ''./'' else sh_dir s) @ bytes_of ''host.log'',
            sh_error := [], sh_identity := [], sh_id := [], sh_online := False, sh_urls := [], sh_activity := [],
            sh_needs_screen := False, sh_needs_input := False\<rparr>;
          (ok, s) = write_password_file s
      in if \<not> ok then s\<lparr>sh_error := bytes_of ''cannot write the password file''\<rparr>
         else
           let always = st_share_always_on (sh_store s) \<and> se_supported e \<and> \<not> sh_quick s;
               (err, s) = (if always then service_install e s else start_child e s)
           in case err of None \<Rightarrow> s\<lparr>sh_sharing := True\<rparr> | Some m \<Rightarrow> s\<lparr>sh_sharing := False, sh_error := m\<rparr>)"

definition start_sharing :: "share_env \<Rightarrow> sharing \<Rightarrow> sharing" where
  "start_sharing e s =
     (if st_share_password (sh_store s) = []
      then (if sh_remote s then open_set_password True s
            else launch_host e (share_save (s\<lparr>sh_store := (sh_store s)\<lparr>st_share_password := random_password (se_raw e)\<rparr>\<rparr>)))
      else launch_host e s)"

definition stop_sharing :: "sharing \<Rightarrow> sharing" where
  "stop_sharing s =
     (let s = s\<lparr>sh_process := hp_stop (sh_process s)\<rparr>;
          s = (if sh_service s \<noteq> None then service_uninstall s else s)
      in s\<lparr>sh_sharing := False, sh_urls := []\<rparr>)"

definition restart_sharing :: "share_env \<Rightarrow> sharing \<Rightarrow> sharing" where
  "restart_sharing e s = (if \<not> sh_sharing s then s else start_sharing e (stop_sharing s))"

text \<open>A changed password reaches the host: the buttons \<open>New password\<close> and \<open>Save\<close> of the password dialog.\<close>

definition apply_password :: "share_env \<Rightarrow> sharing \<Rightarrow> sharing" where
  "apply_password e s =
     (if sh_sharing s
      then let s = snd (write_password_file s) in if sh_service s \<noteq> None then service_restart s else restart_sharing e s
      else s)"

definition new_password :: "share_env \<Rightarrow> sharing \<Rightarrow> sharing" where
  "new_password e s =
     apply_password e (share_save (s\<lparr>sh_store := (sh_store s)\<lparr>st_share_password := random_password (se_raw e)\<rparr>\<rparr>) \<lparr>sh_show_pw := True\<rparr>)"

definition min_password :: nat where
  "min_password = 8"

definition save_password :: "share_env \<Rightarrow> sharing \<Rightarrow> sharing" where
  "save_password e s =
     (if length (sh_new_pw s) < min_password then s\<lparr>sh_dialog_error := bytes_of ''Use at least 8 characters''\<rparr>
      else if sh_new_pw s \<noteq> sh_new_pw2 s then s\<lparr>sh_dialog_error := bytes_of ''The two passwords don'' @ [39] @ bytes_of ''t match''\<rparr>
      else
        let s = share_save (s\<lparr>sh_store := (sh_store s)\<lparr>st_share_password := sh_new_pw s\<rparr>\<rparr>);
            s = s\<lparr>sh_new_pw := [], sh_new_pw2 := [], sh_asks := False\<rparr>
        in if sh_sharing s then apply_password e s else if sh_then_start s then start_sharing e s else s)"

text \<open>The check boxes, as one operation: a change restarts a running host and \<open>always on\<close> starts one.\<close>

definition change_options :: "share_env \<Rightarrow> bool \<Rightarrow> bool \<Rightarrow> bool \<Rightarrow> sharing \<Rightarrow> sharing" where
  "change_options e vo demo always s =
     (let s = share_save (s\<lparr>sh_store := (sh_store s)\<lparr>st_share_view_only := vo, st_share_demo := demo, st_share_always_on := always\<rparr>\<rparr>)
      in if always \<and> \<not> sh_sharing s then start_sharing e s else restart_sharing e s)"

definition toggle_sharing :: "share_env \<Rightarrow> sharing \<Rightarrow> sharing" where
  "toggle_sharing e s = (if sh_sharing s then stop_sharing s else start_sharing e s)"

text \<open>The constructor's part: a service of an earlier run is taken for what is shared.\<close>

definition sharing_at_start :: "share_env \<Rightarrow> bool \<Rightarrow> sharing \<Rightarrow> sharing" where
  "sharing_at_start e asked s =
     (if \<not> sh_quick s \<and> sh_service s \<noteq> None then s\<lparr>sh_sharing := True, sh_log_path := sh_dir s @ bytes_of ''host.log''\<rparr>
      else if asked then start_sharing e s else s)"

section \<open>The host's log\<close>

record poll_locals =
  po_urls :: "bytes list"
  po_activity :: "bytes list"
  po_error :: bytes
  po_screen :: bool
  po_input :: bool

definition poll_rest :: "bytes \<Rightarrow> poll_locals \<Rightarrow> poll_locals option" where
  "poll_rest line l =
     (case (find_str (bytes_of ''http://'') line, contains (bytes_of ''localhost'') line) of
        (Some p, False) \<Rightarrow> Some (l\<lparr>po_urls := po_urls l @ [takeWhile (\<lambda>b. b \<noteq> 32 \<and> b \<noteq> 9) (drop p line)]\<rparr>)
      | _ \<Rightarrow>
          if is_activity line then Some (l\<lparr>po_activity := po_activity l @ [line]\<rparr>)
          else if starts_with (bytes_of ''error:'') line
          then (if length line < 7 then None else Some (l\<lparr>po_error := drop 7 line\<rparr>))
          else Some l)"

definition poll_line :: "bytes \<Rightarrow> sharing \<times> poll_locals \<Rightarrow> (sharing \<times> poll_locals) option" where
  "poll_line ln = (\<lambda>(s, l).
     let line = drop_cr ln;
         l' = l\<lparr>po_screen := po_screen l \<or> contains (bytes_of ''Screen Recording'') line,
                po_input := po_input l \<or> contains (bytes_of ''Accessibility'') line\<rparr>;
         identity = find_str (bytes_of ''Identity'') line
     in if starts_with (bytes_of ''  ID '') line then
          Some (s\<lparr>sh_id := relay_id_of (take 11 (banner_value line)),
                  sh_relay := (case via_relay line of Some r \<Rightarrow> r | None \<Rightarrow> sh_relay s)\<rparr>, l')
        else if contains (bytes_of ''relay: online as'') line then Some (s\<lparr>sh_online := True\<rparr>, l')
        else if contains (bytes_of ''relay connection lost'') line then Some (s\<lparr>sh_online := False\<rparr>, l')
        else if (case identity of Some p \<Rightarrow> p < 6 | None \<Rightarrow> False) then
          Some (s\<lparr>sh_identity := takeWhile (\<lambda>b. b \<noteq> 32) (dropWhile (\<lambda>b. b = 32) (drop (the identity + 8) line))\<rparr>, l')
        else map_option (Pair s) (poll_rest line l'))"

fun poll_lines :: "bytes list \<Rightarrow> sharing \<times> poll_locals \<Rightarrow> (sharing \<times> poll_locals) option" where
  "poll_lines [] sl = Some sl"
| "poll_lines (l # ls) sl = (case poll_line l sl of None \<Rightarrow> None | Some sl \<Rightarrow> poll_lines ls sl)"

text \<open>\<open>None\<close>: a line that is only \<open>error:\<close> ends the program with an exception.\<close>

definition poll_share_log :: "sharing \<Rightarrow> sharing option" where
  "poll_share_log s =
     (if sh_log_path s = [] then Some s
      else
        let (running, p) = hp_running (sh_process s);
            s = s\<lparr>sh_process := p\<rparr>;
            alive = running \<or> sh_service s \<noteq> None;
            lines = (case fs_read (sh_log_path s) (sh_disk s) of Some d \<Rightarrow> get_lines [] d | None \<Rightarrow> [])
        in case poll_lines lines (s, \<lparr>po_urls = [], po_activity = [], po_error = [], po_screen = False, po_input = False\<rparr>) of
             None \<Rightarrow> None
           | Some (s, l) \<Rightarrow>
               (let s = s\<lparr>sh_urls := po_urls l, sh_activity := last_lines 8 (po_activity l),
                      sh_needs_screen := po_screen l, sh_needs_input := po_input l\<rparr>
                in Some (if sh_sharing s \<and> \<not> alive
                     then s\<lparr>sh_sharing := False,
                       sh_error := (if po_error l = [] then bytes_of ''The host stopped unexpectedly'' else po_error l)\<rparr>
                     else s)))"

section \<open>The password on the screen is the host's\<close>

text \<open>A password survives its file when it is one line of less than 255 bytes.\<close>

definition plain_password :: "bytes \<Rightarrow> bool" where
  "plain_password p \<longleftrightarrow> length p < 255 \<and> (\<forall>b \<in> set p. b \<noteq> 0 \<and> b \<noteq> 10 \<and> b \<noteq> 13)"

text \<open>The passwords of the hosts there may be: the child's and the service's.\<close>

definition child_password :: "int \<Rightarrow> bytes \<Rightarrow> bytes list" where
  "child_password pid pw = (if pid = 0 then [] else [pw])"

definition host_passwords :: "sharing \<Rightarrow> bytes list" where
  "host_passwords s = (case sh_service s of Some pw \<Rightarrow> [pw] | None \<Rightarrow> []) @ child_password (hp_pid (fst (sh_process s))) (sh_process_pw s)"

lemma child_password_simps [simp]: "child_password 0 pw = []" "child_password p pw = [] \<longleftrightarrow> p = 0"
  "child_password p pw = [q] \<longleftrightarrow> p \<noteq> 0 \<and> pw = q"
  by (simp_all add: child_password_def)

definition disk_ok :: "sharing \<Rightarrow> bool" where
  "disk_ok s \<longleftrightarrow> \<not> fs_dirs (sh_disk s) (pw_path s) \<and> \<not> fs_refuses (sh_disk s) (pw_path s) \<and> \<not> fs_full (sh_disk s)"

definition sharing_inv :: "children \<Rightarrow> sharing \<Rightarrow> bool" where
  "sharing_inv others s \<longleftrightarrow> owns_child others (sh_process s) \<and> disk_ok s \<and> plain_password (st_share_password (sh_store s)) \<and>
     host_passwords s \<in> {[], [st_share_password (sh_store s)]} \<and> (sh_sharing s \<or> host_passwords s = [])"

text \<open>An installation that fails leaves no service registered, one that succeeds does; children are new ones.\<close>

definition env_ok :: "children \<Rightarrow> share_env \<Rightarrow> bool" where
  "env_ok others e \<longleftrightarrow> (se_install_error e = None \<longleftrightarrow> se_registered e) \<and> op_ok others (Op_start (se_spawned e) (se_exe e))"

datatype share_op =
  Sh_toggle share_env
| Sh_new_password share_env
| Sh_type bytes bytes
| Sh_ask
| Sh_save share_env
| Sh_options share_env bool bool bool
| Sh_poll

fun share_step :: "share_op \<Rightarrow> sharing \<Rightarrow> sharing option" where
  "share_step (Sh_toggle e) s = Some (toggle_sharing e s)"
| "share_step (Sh_new_password e) s = Some (new_password e s)"
| "share_step (Sh_type p q) s = Some (s\<lparr>sh_new_pw := p, sh_new_pw2 := q\<rparr>)"
| "share_step Sh_ask s = Some (open_set_password False s)"
| "share_step (Sh_save e) s = Some (save_password e s)"
| "share_step (Sh_options e vo demo always) s = Some (change_options e vo demo always s)"
| "share_step Sh_poll s = poll_share_log s"

fun share_run :: "share_op list \<Rightarrow> sharing \<Rightarrow> sharing option" where
  "share_run [] s = Some s"
| "share_run (op # ops) s = (case share_step op s of None \<Rightarrow> None | Some s \<Rightarrow> share_run ops s)"

fun share_op_ok :: "children \<Rightarrow> share_op \<Rightarrow> bool" where
  "share_op_ok others (Sh_type p q) \<longleftrightarrow> plain_password p"
| "share_op_ok others (Sh_toggle e) \<longleftrightarrow> env_ok others e"
| "share_op_ok others (Sh_new_password e) \<longleftrightarrow> env_ok others e"
| "share_op_ok others (Sh_save e) \<longleftrightarrow> env_ok others e"
| "share_op_ok others (Sh_options e vo demo always) \<longleftrightarrow> env_ok others e"
| "share_op_ok others op \<longleftrightarrow> True"

subsection \<open>What each operation leaves alone\<close>

lemma share_save_simps [simp]:
  "sh_store (share_save s) = sh_store s" "sh_process (share_save s) = sh_process s" "sh_process_pw (share_save s) = sh_process_pw s"
  "sh_service (share_save s) = sh_service s" "sh_sharing (share_save s) = sh_sharing s" "sh_new_pw (share_save s) = sh_new_pw s"
  "fs_dirs (sh_disk (share_save s)) = fs_dirs (sh_disk s)" "fs_refuses (sh_disk (share_save s)) = fs_refuses (sh_disk s)"
  "fs_full (sh_disk (share_save s)) = fs_full (sh_disk s)" "sh_then_start (share_save s) = sh_then_start s" "sh_remote (share_save s) = sh_remote s"
  by (simp_all add: share_save_def Let_def)

lemma write_password_file_facts:
  assumes "disk_ok s" "plain_password (st_share_password (sh_store s))" "write_password_file s = (ok, s')"
  shows "ok" "\<exists>fs. s' = s\<lparr>sh_disk := fs\<rparr>" "disk_ok s'" "file_password s' = st_share_password (sh_store s)"
proof -
  define p where "p = pw_path s"
  have w: "fs_write p (st_share_password (sh_store s) @ [10]) (sh_disk s) =
      (Some True, (sh_disk s)\<lparr>fs_files := (fs_files (sh_disk s))(p \<mapsto> st_share_password (sh_store s) @ [10])\<rparr>)"
    using assms(1) by (simp add: fs_write_def disk_ok_def p_def)
  then have s': "s' = s\<lparr>sh_disk := (sh_disk s)\<lparr>fs_files := (fs_files (sh_disk s))(p \<mapsto> st_share_password (sh_store s) @ [10])\<rparr>\<rparr>" and "ok = (\<exists>y. y)"
    using assms(3) by (auto simp: write_password_file_def p_def)
  then show ok "\<exists>fs. s' = s\<lparr>sh_disk := fs\<rparr>" by auto
  have p': "pw_path s' = p" by (simp add: s' pw_path_def sh_dir_def p_def)
  show "disk_ok s'" using assms(1) p' by (simp add: disk_ok_def) (simp add: s' p_def)
  have "first_line (st_share_password (sh_store s) @ [10]) = st_share_password (sh_store s)"
    using assms(2) by (intro first_line_written) (simp_all add: plain_password_def)
  then show "file_password s' = st_share_password (sh_store s)"
    using assms(1) p' by (simp add: file_password_def disk_ok_def) (simp add: s' p_def fs_read_def)
qed

lemma host_passwords_stopped: "hp_pid (fst (sh_process s)) = 0 \<Longrightarrow> sh_service s = None \<Longrightarrow> host_passwords s = []"
  by (simp add: host_passwords_def)

lemma host_passwords_none: "host_passwords s = [] \<Longrightarrow> sh_service s = None \<and> hp_pid (fst (sh_process s)) = 0"
  by (auto simp: host_passwords_def split: option.splits)

lemma host_passwords_cong:
  "sh_service s' = sh_service s \<Longrightarrow> sh_process s' = sh_process s \<Longrightarrow> sh_process_pw s' = sh_process_pw s \<Longrightarrow> host_passwords s' = host_passwords s"
  by (simp add: host_passwords_def)

lemma sharing_inv_cong:
  "sharing_inv others s \<Longrightarrow> sh_store s' = sh_store s \<Longrightarrow> sh_process s' = sh_process s \<Longrightarrow> sh_process_pw s' = sh_process_pw s \<Longrightarrow>
   sh_service s' = sh_service s \<Longrightarrow> sh_sharing s' = sh_sharing s \<Longrightarrow> sh_disk s' = sh_disk s \<Longrightarrow> sharing_inv others s'"
  using host_passwords_cong [of s' s] by (simp add: sharing_inv_def disk_ok_def pw_path_def sh_dir_def)

lemma launch_host_inv:
  assumes "sharing_inv others s" "host_passwords s = []" "\<not> sh_sharing s" "env_ok others e" "st_share_password (sh_store s) \<noteq> []"
  shows "sharing_inv others (launch_host e s)"
proof -
  define s0 where "s0 = s\<lparr>sh_log_path := (if sh_dir s = [] then bytes_of ''./'' else sh_dir s) @ bytes_of ''host.log'',
            sh_error := [], sh_identity := [], sh_id := [], sh_online := False, sh_urls := [], sh_activity := [],
            sh_needs_screen := False, sh_needs_input := False\<rparr>"
  have f0: "sh_store s0 = sh_store s" "sh_process s0 = sh_process s" "sh_process_pw s0 = sh_process_pw s" "sh_service s0 = sh_service s"
    "sh_sharing s0 = sh_sharing s" "sh_disk s0 = sh_disk s" "sh_quick s0 = sh_quick s"
    by (simp_all add: s0_def)
  have d0: "disk_ok s0" using assms(1) by (simp add: sharing_inv_def disk_ok_def pw_path_def sh_dir_def f0)
  have none: "sh_service s = None" "hp_pid (fst (sh_process s)) = 0" using host_passwords_none [OF assms(2)] by simp_all
  have pl: "plain_password (st_share_password (sh_store s0))" using assms(1) by (simp add: sharing_inv_def f0)
  obtain ok s1 where w: "write_password_file s0 = (ok, s1)" by fastforce
  obtain fs where ok and s1: "s1 = s0\<lparr>sh_disk := fs\<rparr>" and d1: "disk_ok s1" and pw: "file_password s1 = st_share_password (sh_store s)"
    using write_password_file_facts [OF d0 pl w] by (auto simp: f0)
  obtain err p where hp: "hp_start (se_spawned e) (se_exe e) (sh_process s) = (err, p)" by (metis surj_pair)
  have own: "owns_child others p"
    using hp_step_owns [of others "sh_process s" "Op_start (se_spawned e) (se_exe e)"] assms(1,4) hp
    by (simp add: sharing_inv_def env_ok_def)
  have err: "err \<noteq> None \<Longrightarrow> hp_pid (fst p) = 0" using hp by (auto simp: hp_start_def Let_def split: prod.splits sum.splits)
  have dp: "disk_ok (s1\<lparr>sh_process := p, sh_process_pw := q, sh_sharing := b, sh_error := m\<rparr>)"
    "disk_ok (s1\<lparr>sh_service := v, sh_sharing := b, sh_error := m\<rparr>)" for q b m v
    using d1 by (simp_all add: disk_ok_def pw_path_def sh_dir_def)
  have dq: "disk_ok (s1\<lparr>sh_process := p, sh_process_pw := q, sh_sharing := b\<rparr>)"
    "disk_ok (s1\<lparr>sh_service := v, sh_sharing := b\<rparr>)" for q b v
    using d1 by (simp_all add: disk_ok_def pw_path_def sh_dir_def)
  have l: "launch_host e s = (let (err, s) = (if st_share_always_on (sh_store s) \<and> se_supported e \<and> \<not> sh_quick s then service_install e s1 else start_child e s1)
           in case err of None \<Rightarrow> s\<lparr>sh_sharing := True\<rparr> | Some m \<Rightarrow> s\<lparr>sh_sharing := False, sh_error := m\<rparr>)"
    using \<open>ok\<close> by (simp add: launch_host_def s0_def [symmetric] w s1 f0)
  have p1: "sh_process s1 = sh_process s" "sh_store s1 = sh_store s" "sh_service s1 = None" by (simp_all add: s1 f0 none)
  show ?thesis
  proof (cases "st_share_always_on (sh_store s) \<and> se_supported e \<and> \<not> sh_quick s")
    case True
    then have "launch_host e s = (case se_install_error e of
        None \<Rightarrow> s1\<lparr>sh_service := Some (st_share_password (sh_store s)), sh_sharing := True\<rparr>
      | Some m \<Rightarrow> s1\<lparr>sh_service := None, sh_sharing := False, sh_error := m\<rparr>)"
      using assms(4) by (auto simp: l service_install_def pw env_ok_def split: option.splits)
    then show ?thesis using assms(1) dp(2) dq(2)
      by (auto simp: sharing_inv_def host_passwords_def p1 none split: option.splits)
  next
    case False
    then have "launch_host e s = (case err of
        None \<Rightarrow> s1\<lparr>sh_process := p, sh_process_pw := st_share_password (sh_store s), sh_sharing := True\<rparr>
      | Some m \<Rightarrow> s1\<lparr>sh_process := p, sh_process_pw := st_share_password (sh_store s), sh_sharing := False, sh_error := m\<rparr>)"
      by (simp only: l if_False) (simp add: start_child_def p1 hp pw)
    then show ?thesis using assms(1) dp(1) dq(1) own err
      by (auto simp: sharing_inv_def host_passwords_def child_password_def p1 split: option.splits if_splits)
  qed
qed

lemma start_sharing_inv:
  assumes "sharing_inv others s" "host_passwords s = []" "\<not> sh_sharing s" "env_ok others e"
  shows "sharing_inv others (start_sharing e s)"
proof (cases "st_share_password (sh_store s) = []")
  case False
  then show ?thesis using launch_host_inv [OF assms] by (simp add: start_sharing_def)
next
  case True
  define s1 where "s1 = share_save (s\<lparr>sh_store := (sh_store s)\<lparr>st_share_password := random_password (se_raw e)\<rparr>\<rparr>)"
  have "plain_password (random_password (se_raw e))"
    using alphabet_plain by (simp add: plain_password_def length_random_password)
  then have "sharing_inv others s1" "host_passwords s1 = []" "\<not> sh_sharing s1"
    using assms(1,3) host_passwords_none [OF assms(2)]
    by (simp_all add: s1_def sharing_inv_def host_passwords_def disk_ok_def pw_path_def sh_dir_def)
  moreover have "st_share_password (sh_store s1) \<noteq> []"
    using length_random_password [of "se_raw e"] by (auto simp: s1_def)
  ultimately have "sharing_inv others (launch_host e s1)" using launch_host_inv assms(4) by blast
  moreover have "sharing_inv others (open_set_password True s)"
    using assms(1) by (rule sharing_inv_cong) (simp_all add: open_set_password_def)
  ultimately show ?thesis using True by (simp add: start_sharing_def s1_def)
qed

text \<open>Stopping leaves neither a child nor a service.\<close>

lemma stop_sharing_facts:
  assumes "sharing_inv others s"
  shows "sharing_inv others (stop_sharing s)" "host_passwords (stop_sharing s) = []" "\<not> sh_sharing (stop_sharing s)"
    "sh_store (stop_sharing s) = sh_store s"
proof -
  have o: "owns_child others (sh_process s)" using assms by (simp add: sharing_inv_def)
  have p: "hp_pid (fst (hp_stop (sh_process s))) = 0" "snd (hp_stop (sh_process s)) = others" using hp_stop_own [OF o] by simp_all
  have f: "sh_process (stop_sharing s) = hp_stop (sh_process s)" "sh_service (stop_sharing s) = None" "sh_disk (stop_sharing s) = sh_disk s"
    and st: "sh_store (stop_sharing s) = sh_store s" "\<not> sh_sharing (stop_sharing s)"
    by (auto simp: stop_sharing_def Let_def service_uninstall_def)
  show "host_passwords (stop_sharing s) = []" using p f by (simp add: host_passwords_def)
  with assms p f st show "sharing_inv others (stop_sharing s)"
    by (simp add: sharing_inv_def owns_child_def disk_ok_def pw_path_def sh_dir_def)
  show "\<not> sh_sharing (stop_sharing s)" "sh_store (stop_sharing s) = sh_store s" using st by simp_all
qed

lemma restart_sharing_inv: "sharing_inv others s \<Longrightarrow> env_ok others e \<Longrightarrow> sharing_inv others (restart_sharing e s)"
  using start_sharing_inv [OF stop_sharing_facts(1-3)] by (simp add: restart_sharing_def)

text \<open>The invariant but for the password, which may have changed since the hosts were started.\<close>

lemma apply_password_inv:
  assumes "sharing_inv others s" "plain_password pw" "env_ok others e"
    and s1: "sh_store s1 = (sh_store s)\<lparr>st_share_password := pw\<rparr>" "sh_process s1 = sh_process s" "sh_process_pw s1 = sh_process_pw s"
      "sh_service s1 = sh_service s" "sh_sharing s1 = sh_sharing s" "fs_dirs (sh_disk s1) = fs_dirs (sh_disk s)"
      "fs_refuses (sh_disk s1) = fs_refuses (sh_disk s)" "fs_full (sh_disk s1) = fs_full (sh_disk s)"
  shows "sharing_inv others (apply_password e s1)"
proof (cases "sh_sharing s")
  case False
  then have "host_passwords s = []" using assms(1) by (simp add: sharing_inv_def)
  moreover have "host_passwords s1 = host_passwords s" by (rule host_passwords_cong [OF s1(4,2,3)])
  moreover have "apply_password e s1 = s1" using False s1(5) by (simp only: apply_password_def if_False)
  ultimately show ?thesis using assms(1,2) s1
    by (simp add: sharing_inv_def disk_ok_def pw_path_def sh_dir_def)
next
  case True
  have d: "disk_ok s1" using assms(1) s1 by (simp add: sharing_inv_def disk_ok_def pw_path_def sh_dir_def)
  obtain ok s2 where w: "write_password_file s1 = (ok, s2)" by (metis surj_pair)
  obtain fs where s2: "s2 = s1\<lparr>sh_disk := fs\<rparr>" and d2: "disk_ok s2" and pw: "file_password s2 = pw"
    using write_password_file_facts [OF d _ w] assms(2) s1 by auto
  have o: "owns_child others (sh_process s2)" using assms(1) s1 by (simp add: s2 sharing_inv_def)
  show ?thesis
  proof (cases "sh_service s = None")
    case True
    have a: "apply_password e s1 = start_sharing e (stop_sharing s2)"
      using True \<open>sh_sharing s\<close> s1 by (simp add: apply_password_def w restart_sharing_def s2)
    define s3 where "s3 = s2\<lparr>sh_process_pw := pw\<rparr>"
    have "sharing_inv others s3"
      using assms(1,2) s1 o d2 True \<open>sh_sharing s\<close>
      by (simp add: sharing_inv_def s3_def s2 host_passwords_def disk_ok_def pw_path_def sh_dir_def)
    note f = stop_sharing_facts [OF this]
    have st: "stop_sharing s3 = (stop_sharing s2)\<lparr>sh_process_pw := pw\<rparr>"
      by (simp add: stop_sharing_def s3_def Let_def service_uninstall_def)
    have "sharing_inv others (stop_sharing s2)" "host_passwords (stop_sharing s2) = []" "\<not> sh_sharing (stop_sharing s2)"
      using f host_passwords_none [OF f(2)] unfolding st
      by (simp_all add: sharing_inv_def host_passwords_def disk_ok_def pw_path_def sh_dir_def)
    from start_sharing_inv [OF this assms(3)] show ?thesis by (simp add: a)
  next
    case False
    have a: "apply_password e s1 = s2\<lparr>sh_service := Some pw\<rparr>"
      using False \<open>sh_sharing s\<close> s1 pw by (auto simp: apply_password_def w service_restart_def s2)
    have "hp_pid (fst (sh_process s)) = 0" using False assms(1) by (auto simp: sharing_inv_def host_passwords_def split: option.splits)
    then show ?thesis using assms(1,2) s1 o d2 \<open>sh_sharing s\<close>
      by (simp add: a sharing_inv_def s2 host_passwords_def disk_ok_def pw_path_def sh_dir_def)
  qed
qed

lemma poll_line_keeps:
  "poll_line ln (s, l) = Some (s', l') \<Longrightarrow> sh_store s' = sh_store s \<and> sh_process s' = sh_process s \<and> sh_process_pw s' = sh_process_pw s \<and>
   sh_service s' = sh_service s \<and> sh_sharing s' = sh_sharing s \<and> sh_disk s' = sh_disk s"
  by (auto simp: poll_line_def Let_def split: if_splits)

lemma poll_lines_keep:
  "poll_lines ls (s, l) = Some (s', l') \<Longrightarrow> sh_store s' = sh_store s \<and> sh_process s' = sh_process s \<and> sh_process_pw s' = sh_process_pw s \<and>
   sh_service s' = sh_service s \<and> sh_sharing s' = sh_sharing s \<and> sh_disk s' = sh_disk s"
proof (induction ls arbitrary: s l)
  case (Cons ln ls)
  obtain s1 l1 where p: "poll_line ln (s, l) = Some (s1, l1)" "poll_lines ls (s1, l1) = Some (s', l')"
    using Cons.prems by (auto split: option.splits)
  from Cons.IH [OF p(2)] poll_line_keeps [OF p(1)] show ?case by simp
qed simp

text \<open>The last part of \<open>poll_share_log\<close> does not touch what the invariant is about, but for \<open>sharing_\<close>.\<close>

lemma poll_share_log_inv:
  assumes "sharing_inv others s" "poll_share_log s = Some s'"
  shows "sharing_inv others s'"
proof (cases "sh_log_path s = []")
  case True
  with assms show ?thesis by (simp add: poll_share_log_def)
next
  case False
  obtain running p where r: "hp_running (sh_process s) = (running, p)" by (metis surj_pair)
  have own: "owns_child others p"
    using hp_step_owns [of others "sh_process s" Op_running] assms(1) r by (simp add: sharing_inv_def)
  have pid: "if running then hp_pid (fst p) = hp_pid (fst (sh_process s)) else hp_pid (fst p) = 0"
  proof -
    obtain h os where h: "sh_process s = (h, os)" by fastforce
    have "0 \<le> hp_pid h" using assms(1) by (simp add: sharing_inv_def owns_child_def h)
    then show ?thesis using r by (auto simp: h hp_running_def split: if_splits prod.splits)
  qed
  define s1 where "s1 = s\<lparr>sh_process := p\<rparr>"
  obtain s2 l where l: "poll_lines (case fs_read (sh_log_path s1) (sh_disk s1) of Some d \<Rightarrow> get_lines [] d | None \<Rightarrow> [])
      (s1, \<lparr>po_urls = [], po_activity = [], po_error = [], po_screen = False, po_input = False\<rparr>) = Some (s2, l)"
    using assms(2) False by (auto simp: poll_share_log_def r s1_def Let_def split: option.splits)
  note k = poll_lines_keep [OF l]
  define s3 where "s3 = s2\<lparr>sh_urls := po_urls l, sh_activity := last_lines 8 (po_activity l), sh_needs_screen := po_screen l, sh_needs_input := po_input l\<rparr>"
  have "poll_share_log s = Some (if sh_sharing s3 \<and> \<not> (running \<or> sh_service s \<noteq> None)
      then s3\<lparr>sh_sharing := False, sh_error := (if po_error l = [] then bytes_of ''The host stopped unexpectedly'' else po_error l)\<rparr> else s3)"
    using False l by (simp add: poll_share_log_def r s1_def s3_def Let_def)
  then have e: "s' = (if sh_sharing s3 \<and> \<not> (running \<or> sh_service s \<noteq> None)
      then s3\<lparr>sh_sharing := False, sh_error := (if po_error l = [] then bytes_of ''The host stopped unexpectedly'' else po_error l)\<rparr> else s3)"
    using assms(2) by simp
  have s': "sh_store s' = sh_store s \<and> sh_process s' = p \<and> sh_process_pw s' = sh_process_pw s \<and> sh_service s' = sh_service s \<and>
      sh_disk s' = sh_disk s \<and> sh_sharing s' = (sh_sharing s \<and> (running \<or> sh_service s \<noteq> None))"
    using k by (auto simp: e s1_def s3_def)
  show ?thesis using assms(1) own pid s'
    by (cases running; cases "sh_service s") (auto simp: sharing_inv_def host_passwords_def disk_ok_def pw_path_def sh_dir_def split: if_splits)
qed

text \<open>The text typed into the dialog is kept or cleared.\<close>

lemma new_pw_write: "write_password_file s = (ok, s') \<Longrightarrow> sh_new_pw s' = sh_new_pw s"
  by (auto simp: write_password_file_def split: prod.splits)

lemma new_pw_launch: "sh_new_pw (launch_host e s) = sh_new_pw s"
proof -
  define s0 where "s0 = s\<lparr>sh_log_path := (if sh_dir s = [] then bytes_of ''./'' else sh_dir s) @ bytes_of ''host.log'',
            sh_error := [], sh_identity := [], sh_id := [], sh_online := False, sh_urls := [], sh_activity := [],
            sh_needs_screen := False, sh_needs_input := False\<rparr>"
  obtain ok s1 where w: "write_password_file s0 = (ok, s1)" by (metis surj_pair)
  have n: "sh_new_pw s1 = sh_new_pw s" using new_pw_write [OF w] by (simp add: s0_def)
  define always where "always = (st_share_always_on (sh_store s1) \<and> se_supported e \<and> \<not> sh_quick s1)"
  obtain err s2 where r: "(if always then service_install e s1 else start_child e s1) = (err, s2)" by (metis surj_pair)
  then have "sh_new_pw s2 = sh_new_pw s1"
    by (auto simp: service_install_def start_child_def split: if_splits prod.splits)
  moreover have "launch_host e s = (if \<not> ok then s1\<lparr>sh_error := bytes_of ''cannot write the password file''\<rparr>
      else case err of None \<Rightarrow> s2\<lparr>sh_sharing := True\<rparr> | Some m \<Rightarrow> s2\<lparr>sh_sharing := False, sh_error := m\<rparr>)"
    using r by (simp add: launch_host_def s0_def [symmetric] w always_def)
  ultimately show ?thesis using n by (simp split: option.splits)
qed

lemma new_pw_start: "sh_new_pw (start_sharing e s) \<in> {sh_new_pw s, []}"
  by (simp add: start_sharing_def new_pw_launch open_set_password_def)

lemma new_pw_stop: "sh_new_pw (stop_sharing s) = sh_new_pw s"
  by (simp add: stop_sharing_def Let_def service_uninstall_def)

lemma new_pw_restart: "sh_new_pw (restart_sharing e s) \<in> {sh_new_pw s, []}"
  using new_pw_start [of e "stop_sharing s"] by (simp add: restart_sharing_def new_pw_stop)

lemma new_pw_apply: "sh_new_pw (apply_password e s) \<in> {sh_new_pw s, []}"
proof -
  obtain ok s2 where w: "write_password_file s = (ok, s2)" by (metis surj_pair)
  show ?thesis using new_pw_restart [of e s2] new_pw_write [OF w]
    by (simp add: apply_password_def w service_restart_def)
qed

lemma new_pw_poll: "poll_share_log s = Some s' \<Longrightarrow> sh_new_pw s' = sh_new_pw s"
proof -
  have l: "poll_line ln (s, l) = Some (s', l') \<Longrightarrow> sh_new_pw s' = sh_new_pw s" for ln s l s' l'
    by (auto simp: poll_line_def Let_def split: if_splits)
  have k: "poll_lines ls (s, l) = Some (s', l') \<Longrightarrow> sh_new_pw s' = sh_new_pw s" for ls s l s' l'
    by (induction ls arbitrary: s l) (auto split: option.splits dest: l)
  assume "poll_share_log s = Some s'"
  then show ?thesis
    by (auto simp: poll_share_log_def Let_def split: if_splits prod.splits option.splits dest!: k)
qed

lemma plain_empty [simp]: "plain_password []"
  by (simp add: plain_password_def)

lemma share_save_inv:
  "sharing_inv others s \<Longrightarrow> st_share_password st = st_share_password (sh_store s) \<Longrightarrow> st_dir st = st_dir (sh_store s) \<Longrightarrow>
   sharing_inv others (share_save (s\<lparr>sh_store := st\<rparr>))"
  by (simp add: sharing_inv_def host_passwords_def disk_ok_def pw_path_def sh_dir_def)

lemma save_password_inv:
  assumes "sharing_inv others s" "plain_password (sh_new_pw s)" "env_ok others e"
  shows "sharing_inv others (save_password e s) \<and> plain_password (sh_new_pw (save_password e s))"
proof -
  consider "length (sh_new_pw s) < min_password" | "\<not> length (sh_new_pw s) < min_password" "sh_new_pw s \<noteq> sh_new_pw2 s"
    | "\<not> length (sh_new_pw s) < min_password" "sh_new_pw s = sh_new_pw2 s" by blast
  then show ?thesis
  proof cases
    case 1
    then show ?thesis using assms by (auto simp: save_password_def intro: sharing_inv_cong)
  next
    case 2
    then show ?thesis using assms by (auto simp: save_password_def intro: sharing_inv_cong)
  next
    case 3
    define s1 where "s1 = share_save (s\<lparr>sh_store := (sh_store s)\<lparr>st_share_password := sh_new_pw s\<rparr>\<rparr>)\<lparr>sh_new_pw := [], sh_new_pw2 := [], sh_asks := False\<rparr>"
    have r: "save_password e s = (if sh_sharing s then apply_password e s1 else if sh_then_start s then start_sharing e s1 else s1)"
      using 3 by (simp add: save_password_def s1_def Let_def)
    have a: "sharing_inv others (apply_password e s1)"
      by (rule apply_password_inv [OF assms]) (simp_all add: s1_def)
    have n: "sh_new_pw s1 = []" by (simp add: s1_def)
    show ?thesis
    proof (cases "sh_sharing s")
      case True
      then show ?thesis using a new_pw_apply [of e s1] n by (auto simp: r)
    next
      case False
      then have "apply_password e s1 = s1" by (simp add: apply_password_def s1_def)
      with a have i: "sharing_inv others s1" by simp
      have "\<not> sh_sharing s1" using False by (simp add: s1_def)
      with i have "host_passwords s1 = []" by (simp add: sharing_inv_def)
      with i start_sharing_inv [OF i this \<open>\<not> sh_sharing s1\<close> assms(3)] new_pw_start [of e s1] n False show ?thesis by (auto simp: r)
    qed
  qed
qed

lemma share_step_inv:
  assumes "sharing_inv others s" "plain_password (sh_new_pw s)" "share_op_ok others op" "share_step op s = Some s'"
  shows "sharing_inv others s' \<and> plain_password (sh_new_pw s')"
proof (cases op)
  case (Sh_toggle e)
  show ?thesis
  proof (cases "sh_sharing s")
    case True
    then show ?thesis using assms stop_sharing_facts(1) [OF assms(1)] by (auto simp: Sh_toggle toggle_sharing_def new_pw_stop)
  next
    case False
    then have "host_passwords s = []" using assms(1) by (simp add: sharing_inv_def)
    then show ?thesis using False assms start_sharing_inv [OF assms(1) _ False, of e] new_pw_start [of e s]
      by (auto simp: Sh_toggle toggle_sharing_def)
  qed
next
  case (Sh_new_password e)
  define s1 where "s1 = share_save (s\<lparr>sh_store := (sh_store s)\<lparr>st_share_password := random_password (se_raw e)\<rparr>\<rparr>) \<lparr>sh_show_pw := True\<rparr>"
  have "plain_password (random_password (se_raw e))"
    using alphabet_plain by (simp add: plain_password_def length_random_password)
  then have "sharing_inv others (apply_password e s1)"
    using assms(1,3) by (intro apply_password_inv [of others s]) (simp_all add: s1_def Sh_new_password)
  moreover have "sh_new_pw s1 = sh_new_pw s" by (simp add: s1_def)
  ultimately show ?thesis using assms(2,4) new_pw_apply [of e s1]
    by (auto simp: Sh_new_password new_password_def s1_def [symmetric])
next
  case (Sh_type p q)
  then show ?thesis using assms by (auto intro: sharing_inv_cong)
next
  case Sh_ask
  then show ?thesis using assms by (auto simp: open_set_password_def intro: sharing_inv_cong)
next
  case (Sh_save e)
  then show ?thesis using assms save_password_inv by auto
next
  case (Sh_options e vo demo always)
  define s1 where "s1 = share_save (s\<lparr>sh_store := (sh_store s)\<lparr>st_share_view_only := vo, st_share_demo := demo, st_share_always_on := always\<rparr>\<rparr>)"
  have i: "sharing_inv others s1" unfolding s1_def by (rule share_save_inv [OF assms(1)]) simp_all
  have n: "sh_new_pw s1 = sh_new_pw s" "sh_sharing s1 = sh_sharing s" by (simp_all add: s1_def)
  have s': "s' = (if always \<and> \<not> sh_sharing s1 then start_sharing e s1 else restart_sharing e s1)"
    using assms(4) by (simp add: Sh_options change_options_def s1_def [symmetric])
  have e: "env_ok others e" using assms(3) Sh_options by simp
  show ?thesis
  proof (cases "always \<and> \<not> sh_sharing s1")
    case True
    then have "host_passwords s1 = []" using i by (simp add: sharing_inv_def)
    with True start_sharing_inv [OF i this _ e] new_pw_start [of e s1] n assms(2) show ?thesis by (auto simp: s')
  next
    case False
    with restart_sharing_inv [OF i e] new_pw_restart [of e s1] n assms(2) show ?thesis by (auto simp: s')
  qed
next
  case Sh_poll
  then show ?thesis using assms poll_share_log_inv new_pw_poll by fastforce
qed


definition demo_sharing :: sharing where
  "demo_sharing = \<lparr>sh_remote = False, sh_quick = False, sh_relay_option = bytes_of ''r'', sh_demo_option = False,
     sh_store = (empty_store False)\<lparr>st_dir := bytes_of ''/t/''\<rparr>,
     sh_disk = \<lparr>fs_files = \<lambda>_. None, fs_dirs = \<lambda>_. False, fs_refuses = \<lambda>_. False, fs_full = False\<rparr>,
     sh_process = (new_process, \<lambda>_. None), sh_process_pw = [], sh_service = None, sh_sharing = False, sh_error = [], sh_identity = [],
     sh_id = [], sh_relay = [], sh_online = False, sh_urls = [], sh_activity = [], sh_log_path = [], sh_needs_screen = False,
     sh_needs_input = False, sh_show_pw = False, sh_asks = False, sh_then_start = False, sh_new_pw = [], sh_new_pw2 = [],
     sh_dialog_error = []\<rparr>"

text \<open>A start as child \<open>pid\<close>; services exist here, and an installation ends with the given error and registration.\<close>

definition demo_share_env :: "u8 \<Rightarrow> int \<Rightarrow> bytes option \<Rightarrow> bool \<Rightarrow> share_env" where
  "demo_share_env b pid err registered = \<lparr>se_raw = replicate 10 b, se_exe = bytes_of ''td'', se_spawned = Inr (pid, demo_child),
     se_supported = True, se_install_error = err, se_registered = registered\<rparr>"

definition demo_share_ops :: "share_op list" where
  "demo_share_ops = [Sh_toggle (demo_share_env 1 7 None True), Sh_new_password (demo_share_env 2 8 None True), Sh_poll]"


text \<open>With a service registered beside a running child, a new password is shown but never reaches the child: only
  the service is restarted, and the old password stays valid. An installation that fails after it
  registered the service leads there.
\<close>

theorem old_password_survives:
  assumes "sh_sharing s" "sh_service s \<noteq> None"
  shows "sh_process (new_password e s) = sh_process s \<and> sh_process_pw (new_password e s) = sh_process_pw s \<and>
    sh_sharing (new_password e s) \<and> st_share_password (sh_store (new_password e s)) = random_password (se_raw e)"
proof -
  define s1 where "s1 = share_save (s\<lparr>sh_store := (sh_store s)\<lparr>st_share_password := random_password (se_raw e)\<rparr>\<rparr>) \<lparr>sh_show_pw := True\<rparr>"
  obtain ok s2 where w: "write_password_file s1 = (ok, s2)" by (metis surj_pair)
  then obtain fs where s2: "s2 = s1\<lparr>sh_disk := fs\<rparr>" by (auto simp: write_password_file_def split: prod.splits)
  have s1: "sh_sharing s1" "sh_service s1 \<noteq> None" "sh_process s1 = sh_process s" "sh_process_pw s1 = sh_process_pw s"
    "st_share_password (sh_store s1) = random_password (se_raw e)"
    using assms by (simp_all add: s1_def)
  have "new_password e s = service_restart s2"
    using s1(1,2) by (simp add: new_password_def s1_def [symmetric] apply_password_def w s2)
  with s1 show ?thesis by (simp add: service_restart_def s2)
qed

text \<open>\<open>Always on\<close> is tried, refused and unticked; then sharing is switched on.\<close>

definition refused_service_ops :: "share_op list" where
  "refused_service_ops = [Sh_options (demo_share_env 1 7 (Some (bytes_of ''macOS refused to start the background service'')) True) False False True,
     Sh_options (demo_share_env 1 7 None True) False False False, Sh_toggle (demo_share_env 1 7 None True)]"

theorem old_password_survives_witness:
  "\<exists>s. share_run refused_service_ops demo_sharing = Some s \<and> hp_pid (fst (sh_process s)) = 7 \<and> sh_process_pw s = random_password (replicate 10 1) \<and>
     sh_process (new_password (demo_share_env 2 8 None True) s) = sh_process s \<and>
     sh_process_pw (new_password (demo_share_env 2 8 None True) s) = random_password (replicate 10 1) \<and>
     st_share_password (sh_store (new_password (demo_share_env 2 8 None True) s)) = random_password (replicate 10 2)"
proof -
  have "map_option (\<lambda>s. (hp_pid (fst (sh_process s)), sh_process_pw s, sh_sharing s, sh_service s \<noteq> None)) (share_run refused_service_ops demo_sharing) =
      Some (7, random_password (replicate 10 1), True, True)"
    by code_simp
  then obtain s where r: "share_run refused_service_ops demo_sharing = Some s" "hp_pid (fst (sh_process s)) = 7"
    "sh_process_pw s = random_password (replicate 10 1)" "sh_sharing s" "sh_service s \<noteq> None" by auto
  from old_password_survives [OF r(4,5), of "demo_share_env 2 8 None True"] r show ?thesis
    by (auto simp: demo_share_env_def)
qed

end
