(* ===== verification/Client_Main.thy ===== *)
theory Client_Main
  imports Cxx
begin

text \<open>
  \<open>client/main.cpp\<close>: the options of the viewer, from its arguments, from a \<open>tetherdesk://\<close> address and, in the
  browser, from the address of the page. The window and the frame loop are SDL's.
\<close>

section \<open>Options\<close>

text \<open>\<open>Options\<close> of \<open>client/app.h\<close>; the number of seconds of \<open>--after\<close> is kept as its text.\<close>

record client_options =
  co_host :: bytes
  co_port :: int
  co_password :: bytes
  co_name :: bytes
  co_autoconnect :: bool
  co_fullscreen :: bool
  co_show_stats :: bool
  co_open_menu :: bool
  co_trust :: bool
  co_start_sharing :: bool
  co_share_demo :: bool
  co_quick_support :: bool
  co_relay :: bytes
  co_web_secure :: bool
  co_web_relay :: bool
  co_web_host :: bytes
  co_connect_id :: bytes
  co_web_port :: int
  co_screenshot :: bytes
  co_after :: bytes

definition default_client :: client_options where
  "default_client = \<lparr>co_host = bytes_of ''localhost'', co_port = 5980, co_password = [], co_name = [], co_autoconnect = False,
     co_fullscreen = False, co_show_stats = False, co_open_menu = False, co_trust = False, co_start_sharing = False,
     co_share_demo = False, co_quick_support = False, co_relay = bytes_of ''tetherdesk.54-151-75-113.nip.io'',
     co_web_secure = False, co_web_relay = False, co_web_host = [], co_connect_id = [], co_web_port = 80, co_screenshot = [],
     co_after = bytes_of ''3.0''\<rparr>"

section \<open>The hash of an address\<close>

definition hex_value :: "u8 \<Rightarrow> int option" where
  "hex_value c = (if 48 \<le> c \<and> c \<le> 57 then Some (uint c - 48) else if 65 \<le> c \<and> c \<le> 70 then Some (uint c - 55)
     else if 97 \<le> c \<and> c \<le> 102 then Some (uint c - 87) else None)"

fun hex_digits :: "int \<Rightarrow> bytes \<Rightarrow> int" where
  "hex_digits n [] = n"
| "hex_digits n (c # s) = (case hex_value c of Some v \<Rightarrow> hex_digits (16 * n + v) s | None \<Rightarrow> n)"

text \<open>\<open>strtol\<close> with base 16: blanks, a sign, an optional \<open>0x\<close> before a hex digit, digits; no digits give 0.\<close>

definition c_strtol16 :: "bytes \<Rightarrow> int" where
  "c_strtol16 s =
     (let t = dropWhile is_space (c_str s);
          neg = (t \<noteq> [] \<and> hd t = 45);
          u = (if t \<noteq> [] \<and> (hd t = 45 \<or> hd t = 43) then tl t else t);
          w = (if take 2 u \<in> {bytes_of ''0x'', bytes_of ''0X''} \<and> drop 2 u \<noteq> [] \<and> hex_value (u ! 2) \<noteq> None then drop 2 u else u);
          v = hex_digits 0 w
      in if neg then - v else v)"

function url_decode :: "bytes \<Rightarrow> bytes" where
  "url_decode s =
     (case s of
        [] \<Rightarrow> []
      | c # r \<Rightarrow>
          if c = 43 then 32 # url_decode r
          else if c = 37 \<and> 2 \<le> length r then word_of_int (c_strtol16 (take 2 r)) # url_decode (drop 2 r)
          else c # url_decode r)"
  by pat_completeness auto
termination by (relation "measure length") auto

declare url_decode.simps [simp del]

lemma url_decode_nil [simp]: "url_decode [] = []"
  by (simp add: url_decode.simps)

lemma url_decode_cons: "url_decode (c # r) = (if c = 43 then 32 # url_decode r
   else if c = 37 \<and> 2 \<le> length r then word_of_int (c_strtol16 (take 2 r)) # url_decode (drop 2 r) else c # url_decode r)"
  by (subst url_decode.simps) simp

definition set_hash_value :: "bytes \<Rightarrow> bytes \<Rightarrow> client_options \<Rightarrow> client_options" where
  "set_hash_value k v h =
     (if k = bytes_of ''password'' then h\<lparr>co_password := v\<rparr>
      else if k = bytes_of ''name'' then h\<lparr>co_name := v\<rparr>
      else if k = bytes_of ''host'' then h\<lparr>co_host := v\<rparr>
      else if k = bytes_of ''port'' then h\<lparr>co_port := c_atoi v\<rparr>
      else if k = bytes_of ''relay'' then h\<lparr>co_web_relay := True\<rparr>
      else if k = bytes_of ''id'' then h\<lparr>co_connect_id := v\<rparr>
      else h)"

definition hash_pair :: "bytes \<Rightarrow> client_options \<Rightarrow> client_options" where
  "hash_pair kv h =
     (let eq = find_char 61 kv
      in set_hash_value (before eq kv) (case eq of None \<Rightarrow> [] | Some n \<Rightarrow> url_decode (drop (n + 1) kv)) h)"

text \<open>The loop over the pairs between \<open>&\<close>; \<open>s\<close> is the hash from the current position on.\<close>

function hash_loop :: "bytes \<Rightarrow> client_options \<Rightarrow> client_options" where
  "hash_loop s h =
     (if s = [] then h
      else let amp = find_char 38 s; h = hash_pair (before amp s) h
           in case amp of None \<Rightarrow> h | Some n \<Rightarrow> hash_loop (drop (n + 1) s) h)"
  by pat_completeness auto
termination by (relation "measure (\<lambda>(s, h). length s)") auto

declare hash_loop.simps [simp del]

definition parse_hash :: "bytes \<Rightarrow> client_options \<Rightarrow> client_options" where
  "parse_hash hash h =
     (let h = hash_loop (dropWhile (\<lambda>b. b = 35) hash) h
      in if co_password h \<noteq> [] \<and> \<not> co_web_relay h then h\<lparr>co_autoconnect := True\<rparr> else h)"

section \<open>Arguments\<close>

definition client_flag :: "bool \<Rightarrow> bytes \<Rightarrow> client_options \<Rightarrow> client_options option" where
  "client_flag remote a h =
     (if a = bytes_of ''--fullscreen'' then Some (h\<lparr>co_fullscreen := True\<rparr>)
      else if a = bytes_of ''--stats'' then Some (h\<lparr>co_show_stats := True\<rparr>)
      else if a = bytes_of ''--menu'' then Some (h\<lparr>co_open_menu := True\<rparr>)
      else if a = bytes_of ''--trust'' then Some (h\<lparr>co_trust := True\<rparr>)
      else if a = bytes_of ''--share'' then Some (h\<lparr>co_start_sharing := True\<rparr>)
      else if a = bytes_of ''--share-demo'' then Some (h\<lparr>co_start_sharing := True, co_share_demo := True\<rparr>)
      else if a = bytes_of ''--quick-support'' then Some (h\<lparr>co_quick_support := \<not> remote\<rparr>)
      else None)"

definition client_value :: "bytes \<Rightarrow> bytes \<Rightarrow> client_options \<Rightarrow> client_options option" where
  "client_value a v h =
     (if a = bytes_of ''--password'' then Some (h\<lparr>co_password := v\<rparr>)
      else if a = bytes_of ''--name'' then Some (h\<lparr>co_name := v\<rparr>)
      else if a = bytes_of ''--port'' then Some (h\<lparr>co_port := c_atoi v\<rparr>)
      else if a = bytes_of ''--relay'' then Some (h\<lparr>co_relay := v\<rparr>)
      else if a = bytes_of ''--screenshot'' then Some (h\<lparr>co_screenshot := v\<rparr>)
      else if a = bytes_of ''--after'' then Some (h\<lparr>co_after := v\<rparr>)
      else None)"

definition open_url :: "bytes \<Rightarrow> client_options \<Rightarrow> client_options" where
  "open_url a h =
     (let rest = drop 13 a; hash = find_char 35 rest;
          h = (case hash of None \<Rightarrow> h | Some n \<Rightarrow> parse_hash (drop n rest) h);
          rest = before hash rest;
          rest = before (find_char 47 rest) rest;
          colon = find_last_of (bytes_of '':'') rest;
          h = h\<lparr>co_host := before colon rest\<rparr>
      in case colon of None \<Rightarrow> h | Some n \<Rightarrow> h\<lparr>co_port := c_atoi (drop (n + 1) rest)\<rparr>)"

text \<open>An address with exactly one colon is host and port; others, such as bare IPv6 addresses, are hosts.\<close>

definition open_address :: "bytes \<Rightarrow> client_options \<Rightarrow> client_options" where
  "open_address a h =
     (let colon = find_last_of (bytes_of '':'') a;
          h = (case colon of
                 Some n \<Rightarrow> if find_char 58 a = colon then h\<lparr>co_host := take n a, co_port := c_atoi (drop (n + 1) a)\<rparr> else h\<lparr>co_host := a\<rparr>
               | None \<Rightarrow> h\<lparr>co_host := a\<rparr>)
      in h\<lparr>co_autoconnect := True\<rparr>)"

text \<open>A missing value is empty; an exit status, or the options.\<close>

fun client_args :: "bool \<Rightarrow> bytes list \<Rightarrow> client_options \<Rightarrow> int + client_options" where
  "client_args remote [] h = Inr h"
| "client_args remote (a # as) h =
     (case client_flag remote a h of
        Some h \<Rightarrow> client_args remote as h
      | None \<Rightarrow>
          (case client_value a (case as of [] \<Rightarrow> [] | v # _ \<Rightarrow> v) h of
             Some h \<Rightarrow> (case as of [] \<Rightarrow> Inr h | v # as \<Rightarrow> client_args remote as h)
           | None \<Rightarrow>
               if a = bytes_of ''-h'' \<or> a = bytes_of ''--help'' then Inl 0
               else if starts_with (bytes_of ''tetherdesk://'') a then client_args remote as (open_url a h)
               else if a = [] \<or> hd a \<noteq> 45 then client_args remote as (open_address a h)
               else Inl 2))"

definition finish_options :: "client_options \<Rightarrow> client_options" where
  "finish_options h = (if co_port h \<le> 0 then h\<lparr>co_port := 5980\<rparr> else h)"

text \<open>The program as installed on a computer, after the check for the modes in which it is the host.\<close>

definition client_main :: "bool \<Rightarrow> bytes option \<Rightarrow> bytes list \<Rightarrow> int + client_options" where
  "client_main remote user args =
     (case client_args remote args (default_client\<lparr>co_name := (case user of Some u \<Rightarrow> u | None \<Rightarrow> bytes_of ''Viewer'')\<rparr>) of
        Inl code \<Rightarrow> Inl code
      | Inr h \<Rightarrow>
          (let h = (if co_password h \<noteq> [] then h\<lparr>co_autoconnect := True\<rparr> else h);
               h = (if co_quick_support h then h\<lparr>co_start_sharing := True\<rparr> else h)
           in Inr (finish_options h)))"

text \<open>The program in a browser: host name, port, hash and protocol of the page; empty arguments count as missing.\<close>

definition web_main :: "bytes \<Rightarrow> bytes \<Rightarrow> bytes \<Rightarrow> bytes \<Rightarrow> client_options" where
  "web_main hostname port hash protocol =
     (let h = default_client;
          h = (if hostname \<noteq> [] then h\<lparr>co_host := hostname\<rparr> else h);
          h = (if port \<noteq> [] then h\<lparr>co_port := c_atoi port\<rparr> else h);
          h = h\<lparr>co_web_secure := (protocol = bytes_of ''https:''), co_web_host := co_host h, co_web_port := co_port h,
                 co_name := bytes_of ''Browser viewer''\<rparr>
      in finish_options (parse_hash hash h))"

section \<open>Addresses are read as they were written\<close>

text \<open>Percent encoding of RFC 3986: unreserved characters stay, others are two hex digits.\<close>

definition unreserved :: "u8 \<Rightarrow> bool" where
  "unreserved c \<longleftrightarrow> is_digit c \<or> 65 \<le> c \<and> c \<le> 90 \<or> 97 \<le> c \<and> c \<le> 122 \<or> c = 45 \<or> c = 46 \<or> c = 95 \<or> c = 126"

definition hex_char :: "nat \<Rightarrow> u8" where
  "hex_char n = (if n < 10 then 48 + of_nat n else 55 + of_nat n)"

definition url_encode_char :: "u8 \<Rightarrow> bytes" where
  "url_encode_char c = (if unreserved c then [c] else [37, hex_char (unat c div 16), hex_char (unat c mod 16)])"

definition url_encode :: "bytes \<Rightarrow> bytes" where
  "url_encode s = concat (map url_encode_char s)"

fun hash_text :: "(bytes \<times> bytes) list \<Rightarrow> bytes" where
  "hash_text [] = []"
| "hash_text [(k, v)] = k @ 61 # url_encode v"
| "hash_text ((k, v) # kv # ps) = k @ 61 # url_encode v @ 38 # hash_text (kv # ps)"

lemma hex_char_facts:
  assumes "n < 16"
  shows "hex_value (hex_char n) = Some (int n)" "\<not> is_space (hex_char n)" "hex_char n \<notin> {0, 35, 38, 43, 45, 61, 88, 120}"
proof -
  have "list_all (\<lambda>n. hex_value (hex_char n) = Some (int n) \<and> \<not> is_space (hex_char n) \<and>
      list_all (\<lambda>b. hex_char n \<noteq> b) [0, 35, 38, 43, 45, 61, 88, 120]) [0..<16]" by code_simp
  with assms show "hex_value (hex_char n) = Some (int n)" "\<not> is_space (hex_char n)" "hex_char n \<notin> {0, 35, 38, 43, 45, 61, 88, 120}"
    by (simp_all add: list_all_iff)
qed

lemma nibbles: "unat (c :: u8) div 16 < 16" "unat (c :: u8) mod 16 < 16"
  using unsigned_less [of c] less_mult_imp_div_less [of "unat c" 16 16] by simp_all

lemma hex_char_read: "word_of_int (c_strtol16 [hex_char (unat c div 16), hex_char (unat c mod 16)]) = (c :: u8)"
proof -
  note n = nibbles [of c]
  note f = hex_char_facts [OF n(1)] hex_char_facts [OF n(2)]
  have "c_str [hex_char (unat c div 16), hex_char (unat c mod 16)] = [hex_char (unat c div 16), hex_char (unat c mod 16)]"
    using f(3,6) by (simp add: c_str_def)
  moreover have "[hex_char (unat c div 16), hex_char (unat c mod 16)] \<notin> {bytes_of ''0x'', bytes_of ''0X''}"
    using f(6) by (auto simp: bytes_of_def)
  ultimately have "c_strtol16 [hex_char (unat c div 16), hex_char (unat c mod 16)] = 16 * int (unat c div 16) + int (unat c mod 16)"
    using f by (simp add: c_strtol16_def Let_def)
  also have "\<dots> = int (unat c)" by (simp add: zdiv_int zmod_int)
  finally show ?thesis by simp
qed

lemma url_encode_char_plain: "b \<in> set (url_encode_char c) \<Longrightarrow> b \<noteq> 35 \<and> b \<noteq> 38 \<and> b \<noteq> 61"
proof (cases "unreserved c")
  case True
  assume "b \<in> set (url_encode_char c)"
  with True have "unreserved b" by (simp add: url_encode_char_def)
  then show ?thesis by (auto simp: unreserved_def is_digit_def)
next
  case False
  note n = nibbles [of c]
  assume "b \<in> set (url_encode_char c)"
  with False hex_char_facts(3) [OF n(1)] hex_char_facts(3) [OF n(2)] show ?thesis by (auto simp: url_encode_char_def)
qed

lemma url_encode_plain: "b \<in> set (url_encode s) \<Longrightarrow> b \<noteq> 35 \<and> b \<noteq> 38 \<and> b \<noteq> 61"
  using url_encode_char_plain by (fastforce simp: url_encode_def)

lemma url_decode_encode: "url_decode (url_encode s) = s"
proof (induction s)
  case (Cons c s)
  show ?case
  proof (cases "unreserved c")
    case True
    then have "c \<noteq> 43" "c \<noteq> 37" by (auto simp: unreserved_def is_digit_def)
    with True Cons show ?thesis by (simp add: url_encode_def url_encode_char_def url_decode_cons)
  next
    case False
    with Cons hex_char_read show ?thesis by (simp add: url_encode_def url_encode_char_def url_decode_cons)
  qed
qed (simp add: url_encode_def)

text \<open>The keys of a hash as they are written: no separators, and no \<open>#\<close> in front.\<close>

definition plain_key :: "bytes \<Rightarrow> bool" where
  "plain_key k \<longleftrightarrow> k \<noteq> [] \<and> hd k \<noteq> 35 \<and> 38 \<notin> set k \<and> 61 \<notin> set k"

lemma find_char_here: "ch \<notin> set s \<Longrightarrow> find_char ch (s @ ch # t) = Some (length s)"
proof -
  assume "ch \<notin> set s"
  then have "takeWhile (\<lambda>b. b \<noteq> ch) (s @ ch # t) = s" by (induction s) auto
  then show ?thesis by (simp add: find_char_def find_if_def)
qed

lemma find_char_nowhere: "ch \<notin> set s \<Longrightarrow> find_char ch s = None"
  by (auto simp: find_char_def find_if_None)

lemma hash_pair_written: "plain_key k \<Longrightarrow> hash_pair (k @ 61 # url_encode v) h = set_hash_value k v h"
  by (simp add: hash_pair_def plain_key_def find_char_here before_def url_decode_encode)

lemma hash_loop_written:
  "\<forall>(k, v) \<in> set ps. plain_key k \<Longrightarrow> hash_loop (hash_text ps) h = fold (\<lambda>(k, v). set_hash_value k v) ps h"
proof (induction ps arbitrary: h rule: hash_text.induct)
  case 1
  show ?case by (simp add: hash_loop.simps)
next
  case (2 k v)
  then have "find_char 38 (k @ 61 # url_encode v) = None"
    using url_encode_plain by (intro find_char_nowhere) (auto simp: plain_key_def)
  then show ?case using 2 by (subst hash_loop.simps) (simp add: before_def hash_pair_written)
next
  case (3 k v kv ps)
  have n: "38 \<notin> set (k @ 61 # url_encode v)"
    using url_encode_plain 3(2) by (auto simp: plain_key_def)
  have t: "hash_text ((k, v) # kv # ps) = (k @ 61 # url_encode v) @ 38 # hash_text (kv # ps)" by simp
  have "hash_loop (hash_text ((k, v) # kv # ps)) h = hash_loop (hash_text (kv # ps)) (hash_pair (k @ 61 # url_encode v) h)"
    unfolding t using find_char_here [OF n, of "hash_text (kv # ps)"]
    by (subst hash_loop.simps) (simp add: before_def)
  with 3 show ?case by (simp add: hash_pair_written)
qed

lemma hash_text_head: "\<forall>(k, v) \<in> set ps. plain_key k \<Longrightarrow> ps \<noteq> [] \<Longrightarrow> \<exists>c t. hash_text ps = c # t \<and> c \<noteq> 35"
proof (cases ps rule: hash_text.cases)
  case (2 k v)
  assume "\<forall>(k, v) \<in> set ps. plain_key k"
  with 2 show ?thesis by (cases k) (auto simp: plain_key_def)
next
  case (3 k v kv qs)
  assume "\<forall>(k, v) \<in> set ps. plain_key k"
  with 3 show ?thesis by (cases k) (auto simp: plain_key_def)
qed simp

text \<open>C40:
  an address \<open>tetherdesk://host:port/#k=v&...\<close> with percent-encoded values sets every option it names to
  exactly the bytes that were encoded, then host and port; with a password in it, it connects at once.
\<close>

theorem launcher_address_opens:
  assumes "\<forall>(k, v) \<in> set ps. plain_key k" "ps \<noteq> []" "\<forall>b \<in> set host. b \<noteq> 35 \<and> b \<noteq> 47"
    and "g = fold (\<lambda>(k, v). set_hash_value k v) ps h"
  shows "open_url (bytes_of ''tetherdesk://'' @ host @ 58 # std_to_string port @ 47 # 35 # hash_text ps) h =
    g\<lparr>co_host := host, co_port := port, co_autoconnect := (co_autoconnect g \<or> co_password g \<noteq> [] \<and> \<not> co_web_relay g)\<rparr>"
proof -
  have d: "b \<in> set (std_to_string port) \<Longrightarrow> b \<noteq> 35 \<and> b \<noteq> 47 \<and> b \<noteq> 58" for b
  proof -
    assume "b \<in> set (std_to_string port)"
    then have "b = 45 \<or> is_digit b" using dec_digits_digit by (auto simp: std_to_string_def split: if_splits)
    then show ?thesis by (auto simp: is_digit_def)
  qed
  define front where "front = host @ 58 # std_to_string port @ [47]"
  have h: "find_char 35 (front @ 35 # hash_text ps) = Some (length front)"
    using assms(3) d by (intro find_char_here) (auto simp: front_def)
  have s: "find_char 47 (host @ 58 # std_to_string port @ [47]) = Some (length (host @ 58 # std_to_string port))"
    using assms(3) d find_char_here [of 47 "host @ 58 # std_to_string port" "[]"] by fastforce
  have c: "find_last_of (bytes_of '':'') (host @ 58 # std_to_string port) = Some (length host)"
  proof -
    have "takeWhile (\<lambda>b. b \<noteq> 58) (rev (std_to_string port) @ 58 # rev host) = rev (std_to_string port)"
      using d by (subst takeWhile_append2) auto
    then show ?thesis by (simp add: find_last_of_def find_if_def bytes_of_def Let_def)
  qed
  obtain ch t where ht: "hash_text ps = ch # t" "ch \<noteq> 35" using hash_text_head [OF assms(1,2)] by blast
  have p: "parse_hash (35 # hash_text ps) h = (if co_password g \<noteq> [] \<and> \<not> co_web_relay g then g\<lparr>co_autoconnect := True\<rparr> else g)"
    using hash_loop_written [OF assms(1), of h] ht by (simp add: parse_hash_def assms(4) Let_def)
  have "open_url (bytes_of ''tetherdesk://'' @ front @ 35 # hash_text ps) h =
      (parse_hash (35 # hash_text ps) h)\<lparr>co_host := host, co_port := port\<rparr>"
    using h s c by (simp add: open_url_def Let_def before_def front_def c_atoi_to_string)
  then show ?thesis unfolding p by (simp add: front_def)
qed

theorem launcher_address_opens_witness:
  "open_url (bytes_of ''tetherdesk://'' @ bytes_of ''10.0.0.7'' @ 58 # std_to_string 5981 @ 47 # 35 #
     hash_text [(bytes_of ''password'', bytes_of ''a&b=c% '' @ [255]), (bytes_of ''name'', bytes_of ''Ann'')]) default_client =
   default_client\<lparr>co_password := bytes_of ''a&b=c% '' @ [255], co_name := bytes_of ''Ann'', co_host := bytes_of ''10.0.0.7'',
     co_port := 5981, co_autoconnect := True\<rparr>"
proof -
  have k: "plain_key (bytes_of ''password'')" "plain_key (bytes_of ''name'')" by (simp_all add: plain_key_def bytes_of_def)
  have "\<forall>b \<in> set (bytes_of ''10.0.0.7''). b \<noteq> 35 \<and> b \<noteq> 47" by (simp add: bytes_of_def)
  with launcher_address_opens [of "[(bytes_of ''password'', bytes_of ''a&b=c% '' @ [255]), (bytes_of ''name'', bytes_of ''Ann'')]"
      "bytes_of ''10.0.0.7''" _ default_client 5981, OF _ _ _ refl] k
  show ?thesis by (simp add: set_hash_value_def bytes_of_def default_client_def)
qed

end
