(* ===== verification/Spec2Isabelle.thy ===== *)
theory Spec2Isabelle
  imports Rd_Bytes Rd_Lz Rd_Codec Rd_Crypto Rd_Ws Rd_Secure X25519_Ladder Worker_Pool Keymap Relay_Links Screen_Sync
    Viewer_Props Handshake Login Sharing Client_Main
begin

text \<open>
  A verification development for TetherDesk, a remote desktop program in C and C++: a host shares its
  screen, viewers connect to it directly or through a relay.

  \<^bold>\<open>The program.\<close> \<open>common/\<close> is a C library shared by all programs: byte buffers and readers, the tile
  codec, hashes, the sealed channel and WebSocket framing. \<open>host/server.cpp\<close> is the host: it accepts
  HTTP and WebSocket connections, authenticates viewers by password over an X25519 key exchange,
  streams changed screen tiles (\<open>host/encoder.cpp\<close>), and executes their input. \<open>relay/relay.cpp\<close> pairs
  a host with viewers that cannot reach it and forwards their sealed messages.

  \<^bold>\<open>The theories.\<close>
  \<^item> \<^theory_text>\<open>Prelude\<close>: word types, C strings, shared lemmas. \<^theory_text>\<open>Cxx\<close>: the parts of \<open>std::string\<close>,
    \<open>std::to_string\<close>, \<open>atoi\<close> and stream extraction the C++ files use.
  \<^item> \<^theory_text>\<open>Rd_Bytes\<close> (\<open>common/rd_bytes.c\<close>, \<open>rd_bytes.h\<close>): buffers and readers, the invariant of a buffer, reads
    that stay in bounds, the round trip of whole messages (locale \<open>wire_field\<close>), and the capacity loop at
    64-bit width, which diverges above 2^63.
  \<^item> \<^theory_text>\<open>Rd_Lz\<close>, \<^theory_text>\<open>Rd_Codec\<close> (\<open>common/rd_codec.c\<close>): the LZ compressor and the tile codec, their round
    trips, output bounds and decoder safety.
  \<^item> \<^theory_text>\<open>Rd_Crypto\<close> (\<open>common/rd_crypto.c\<close>): SHA-1, SHA-256, Base64, constant-time comparison,
    proved equal to their block specifications.
  \<^item> \<^theory_text>\<open>Rd_Aead\<close>, \<^theory_text>\<open>Rd_Secure\<close>, \<^theory_text>\<open>Rd_X25519\<close> (\<open>common/rd_secure.c\<close>): ChaCha20, Poly1305 and the AEAD, HKDF, the
    handshake and the ordered sealed channel (locale \<open>sealed_box\<close>), and the field arithmetic and ladder of X25519.
    \<^theory_text>\<open>X25519_Field\<close>, \<^theory_text>\<open>X25519_Ladder\<close>: the limb routines compute in the field of 2^255-19, the ladder and the
    packing are X25519 of RFC 7748, and no limb leaves \<open>int64_t\<close>.
  \<^item> \<^theory_text>\<open>Rd_Ws\<close> (\<open>common/rd_ws.c\<close>): frame writer, incremental frame reader, HTTP header lookup.
  \<^item> \<^theory_text>\<open>Relay\<close>, \<^theory_text>\<open>Relay_Links\<close> (\<open>relay/relay.cpp\<close>): the relay with its pointers between connections as numbers,
    the invariant that none dangles, and in-order forwarding.
  \<^item> \<^theory_text>\<open>Encoder\<close> (\<open>host/encoder.cpp\<close>): one frame encoded along any schedule its worker threads can follow.
    \<^theory_text>\<open>Worker_Pool\<close>: the pool itself, its threads, mutex and condition variables as a step relation; a call returns,
    and only after every worker is done.
  \<^item> \<^theory_text>\<open>Keymap\<close> (\<open>host/keymap.cpp\<close>): the key code tables. \<^theory_text>\<open>Host_Main\<close> (\<open>host/main.cpp\<close>, the ends of
    \<open>server.cpp\<close> and \<open>relay.cpp\<close> that start them): options, identity files, password policy, listeners.
  \<^item> \<^theory_text>\<open>Server\<close>, \<^theory_text>\<open>Server_Session\<close>, \<^theory_text>\<open>Server_Net\<close> (\<open>host/server.cpp\<close>): state, handshake and lockout; uploads,
    session messages, pacing and quality; HTTP, the relay link, sockets, console and one round of the main loop.
  \<^item> \<^theory_text>\<open>Server_Inv\<close>: the server's invariant and its preservation by every operation.
    \<^theory_text>\<open>Server_Props\<close>: the properties of the host.
  \<^item> \<^theory_text>\<open>Store\<close> (\<open>client/store.cpp\<close>): the saved computers and trusted fingerprints, their file and its round trip.
  \<^item> \<^theory_text>\<open>Transport\<close> (\<open>client/transport_native.cpp\<close>): the viewer's WebSocket client.
    \<^theory_text>\<open>Viewer\<close> (\<open>client/app.cpp\<close>): the viewer's session over it. \<^theory_text>\<open>Viewer_Input\<close>: keyboard, mouse, menu and
    dialogs. \<^theory_text>\<open>Viewer_Props\<close>: the viewer's invariant and properties.
    \<^theory_text>\<open>Client_Main\<close> (\<open>client/main.cpp\<close>): its options and the addresses it is opened with.
  \<^item> \<^theory_text>\<open>Host_Process\<close> (\<open>client/host_process.cpp\<close>, \<open>host_service.cpp\<close>): the host as a child process, command lines
    for Windows against the argument parser of its C runtime, the property list for macOS.
    \<^theory_text>\<open>Quick_Support\<close> (\<open>client/quicksupport.cpp\<close>): the status read from the host's log, the session password.
    \<^theory_text>\<open>Sharing\<close> (the sharing half of \<open>client/app.cpp\<close>): the switch, passwords and options; the password shown
    is the one the running host has.
  \<^item> \<^theory_text>\<open>Screen_Sync\<close>: encoder, frame message and viewer together; the viewer's picture is the host's screen.
    \<^theory_text>\<open>Handshake\<close>: the viewer's upgrade request and the host's answer open the connection of both.
    \<^theory_text>\<open>Login\<close>: hello, answer and proof of both programs; the right password gets in. That X25519 gives both ends
    the same secret is an assumption there: it is a fact about the curve, not about the code.

  \<^bold>\<open>State and effects.\<close> A C object that functions change in place is a record passed in and returned. The
  \<open>Conn\<close> pointers of the relay and of the host are numbers into a map of connections. What the system
  returns (memory, random bytes, the clock, sockets, files) is an argument or a component of the state:
  \<open>alloc\<close> decides every allocation, a round of a main loop takes a record of what \<open>poll\<close>, \<open>recv\<close> and \<open>send\<close>
  report. Integers keep their width as words where overflow matters; X25519's \<open>int64_t\<close> limbs are integers.

  \<^bold>\<open>Bounds and fuel.\<close> Loops are structural recursion or have a measure. Fuel is used where the C loops on
  input: \<open>rd_ws_next\<close> and the message loops take one more unit than there are bytes, and every turn
  consumes at least one; the palette probe and the capacity loop return \<open>None\<close> where the C would not end.

  \<^bold>\<open>Not modelled.\<close> Sockets and TLS (\<open>common/rd_net.c\<close>, \<open>rd_tls.c\<close>) and the platform back ends
  (\<open>host/platform_*\<close>) only call the operating system; the bitmap font is generated data; drawing and layout
  (\<open>client/ui.cpp\<close> and the screens of \<open>app.cpp\<close>), thumbnails and downscaling
  are output through SDL; registering a service and the Windows watchdog are system calls, their outcomes are inputs
  of \<open>Sharing\<close>; the web transport calls the browser; most banners; tools, tests, packaging.
\<close>

end
